(* ===== verification/Prelude.thy ===== *)
theory Prelude
  imports Main "HOL-Library.Word" "HOL-Library.AList" "HOL-Library.Multiset"
begin

text \<open>
  What the components share: the Go run-time values (machine integers, strings as
  byte lists, maps), the panics of the run time as values of an error type, and the
  parts of \<open>strconv\<close> and \<open>strings\<close> that the source calls.
  \<^item> \<open>int64\<close>, \<open>uint32\<close>, \<open>uint8\<close>: words of HOL-Library; \<open>sint\<close> reads a signed one;
  \<^item> \<open>panic + 'a\<close>: a computation that may end in a run-time panic;
  \<^item> \<open>gomap\<close>: a Go map as an association list with distinct keys; the order of the list
    is never observable, since every \<open>range\<close> over a map goes through a permutation that
    the environment chooses;
  \<^item> \<open>ParseInt\<close>, \<open>FormatInt\<close>: \<open>strconv\<close> in base 10 with 64 bits, with their round trip.
\<close>

named_theorems go_simps "equations of the Go run-time operations"
named_theorems inv_intros "introduction rules for the component invariants"

section \<open>Machine integers, panics\<close>

type_synonym int64 = "64 word"
type_synonym uint64 = "64 word"
type_synonym uint32 = "32 word"
type_synonym uint8 = "8 word"

datatype panic = IndexOutOfRange | SliceBounds | TypeAssertion | NilDeref | StackOverflow | MakeSlice
  | NoReturn \<comment> \<open>the code loops forever\<close>
  | DivideByZero
  | Panicked \<comment> \<open>\<open>panic(err)\<close>\<close>
  | Fatal \<comment> \<open>\<open>log.Fatal\<close>\<close>

type_synonym 'a outcome = "panic + 'a"

definition no_panic :: "'a outcome \<Rightarrow> bool" where
  "no_panic r \<longleftrightarrow> (case r of Inl _ \<Rightarrow> False | Inr _ \<Rightarrow> True)"

lemma no_panic_simps [simp]: "no_panic (Inr x)" "\<not> no_panic (Inl p)"
  by (simp_all add: no_panic_def)

definition of_walk :: "'a option \<Rightarrow> 'a outcome" where
  \<comment> \<open>a walk along pointers that may not end\<close>
  "of_walk r = (case r of None \<Rightarrow> Inl NoReturn | Some x \<Rightarrow> Inr x)"

lemma of_walk_simps [simp]: "of_walk None = Inl NoReturn" "of_walk (Some x) = Inr x"
  by (simp_all add: of_walk_def)

definition obind :: "'a outcome \<Rightarrow> ('a \<Rightarrow> 'b outcome) \<Rightarrow> 'b outcome" where
  \<comment> \<open>sequencing: a panic ends the computation\<close>
  "obind r f = (case r of Inl p \<Rightarrow> Inl p | Inr x \<Rightarrow> f x)"

lemma obind_simps [simp]: "obind (Inl p) f = Inl p" "obind (Inr x) f = f x"
  by (simp_all add: obind_def)

lemma obind_cong [fundef_cong]:
  "r = r' \<Longrightarrow> (\<And>x. r' = Inr x \<Longrightarrow> f x = g x) \<Longrightarrow> obind r f = obind r' g"
  by (cases r') auto

lemma obind_eq_Inr: "obind r f = Inr y \<longleftrightarrow> (\<exists>x. r = Inr x \<and> f x = Inr y)"
  by (cases r) auto

lemma obind_assoc: "obind (obind r f) g = obind r (\<lambda>x. obind (f x) g)"
  by (cases r) auto

definition wrap64 :: "int \<Rightarrow> int" where
  \<comment> \<open>the value of a Go \<open>int\<close> (64 bits, two's complement) after an arithmetic step\<close>
  "wrap64 x = sint (word_of_int x :: 64 word)"

lemma wrap64_id: "- (2 ^ 63) \<le> x \<Longrightarrow> x < 2 ^ 63 \<Longrightarrow> wrap64 x = x"
  unfolding wrap64_def by (simp add: sint_word_ariths signed_of_int signed_take_bit_int_eq_self)

lemma wrap64_over:
  assumes "2 ^ 63 \<le> x" "x < 2 ^ 64"
  shows "wrap64 x = x - 2 ^ 64"
proof -
  have "(word_of_int x :: 64 word) = word_of_int (x - 2 ^ 64)"
    by (simp add: word_of_int_eq_iff take_bit_eq_mod)
  then have "wrap64 x = wrap64 (x - 2 ^ 64)" by (simp only: wrap64_def)
  also have "\<dots> = x - 2 ^ 64" using assms by (intro wrap64_id) simp_all
  finally show ?thesis .
qed

lemma wrap64_range: "- (2 ^ 63) \<le> wrap64 x \<and> wrap64 x < 2 ^ 63"
  unfolding wrap64_def
  using sint_ge [of "word_of_int x :: 64 word"] sint_lt [of "word_of_int x :: 64 word"] by simp

lemma sint64_range: "- (2 ^ 63) \<le> sint (w :: int64) \<and> sint w < 2 ^ 63"
  using sint_ge [of w] sint_lt [of w] by simp

section \<open>Decimal numbers: the part of strconv the source calls\<close>

definition digit_char :: "nat \<Rightarrow> char" where
  "digit_char d = char_of (48 + d)"

definition digit_of :: "char \<Rightarrow> nat option" where
  "digit_of c = (let n = of_char c in if 48 \<le> n \<and> n \<le> (57::nat) then Some (n - 48) else None)"

lemma digit_of_digit_char [simp]: "d < 10 \<Longrightarrow> digit_of (digit_char d) = Some d"
  by (simp add: digit_of_def digit_char_def)

fun FormatNat :: "nat \<Rightarrow> string" where
  "FormatNat n = (if n < 10 then [digit_char n] else FormatNat (n div 10) @ [digit_char (n mod 10)])"

declare FormatNat.simps [simp del]

lemma FormatNat_nonempty [simp]: "FormatNat n \<noteq> []"
  by (subst FormatNat.simps) simp

definition decimal_digit :: "char \<Rightarrow> bool" where
  "decimal_digit c \<longleftrightarrow> digit_of c \<noteq> None"

lemma decimal_digit_char [simp]: "d < 10 \<Longrightarrow> decimal_digit (digit_char d)"
  by (simp add: decimal_digit_def)

lemma FormatNat_digits: "c \<in> set (FormatNat n) \<Longrightarrow> decimal_digit c"
proof (induction n rule: FormatNat.induct)
  case (1 n)
  then show ?case
    by (subst (asm) (2) FormatNat.simps) (auto split: if_splits)
qed

lemma decimal_digit_simps [simp]:
  "\<not> decimal_digit (CHR ''-'')" "\<not> decimal_digit (CHR ''+'')"
  "\<not> decimal_digit (CHR 0x0D)" "\<not> decimal_digit (CHR 0x0A)" "\<not> decimal_digit (CHR '' '')"
  by (simp_all add: decimal_digit_def digit_of_def)

text \<open>\<open>strconv.ParseUint\<close> stops at the first bad character or at the first overflow.\<close>

datatype num_error = ErrSyntax | ErrRange

fun parse_uint_loop :: "string \<Rightarrow> nat \<Rightarrow> nat \<times> num_error option" where
  "parse_uint_loop [] n = (n, None)"
| "parse_uint_loop (c # cs) n =
     (case digit_of c of
        None \<Rightarrow> (0, Some ErrSyntax)
      | Some d \<Rightarrow>
          if 1844674407370955162 \<le> n then (18446744073709551615, Some ErrRange)
          else if 18446744073709551615 < n * 10 + d then (18446744073709551615, Some ErrRange)
          else parse_uint_loop cs (n * 10 + d))"

definition ParseUint :: "string \<Rightarrow> nat \<times> num_error option" where
  "ParseUint s = (if s = [] then (0, Some ErrSyntax) else parse_uint_loop s 0)"

definition parse_signed :: "bool \<Rightarrow> string \<Rightarrow> int64 \<times> num_error option" where
  "parse_signed neg digits =
     (case ParseUint digits of
        (un, Some ErrSyntax) \<Rightarrow> (0, Some ErrSyntax)
      | (un, _) \<Rightarrow>
          if \<not> neg \<and> 9223372036854775808 \<le> un then (of_nat 9223372036854775807, Some ErrRange)
          else if neg \<and> 9223372036854775808 < un then (- of_nat 9223372036854775808, Some ErrRange)
          else (if neg then - of_nat un else of_nat un, None))"

definition ParseInt :: "string \<Rightarrow> int64 \<times> num_error option" where
  \<comment> \<open>\<open>strconv.ParseInt(s, 10, 64)\<close>: the value and the error, as the Go function returns them\<close>
  "ParseInt s =
     (case s of
        [] \<Rightarrow> (0, Some ErrSyntax)
      | c # cs \<Rightarrow>
          if c = CHR ''+'' then parse_signed False cs
          else if c = CHR ''-'' then parse_signed True cs
          else parse_signed False s)"

definition is_int :: "string \<Rightarrow> bool" where
  "is_int s \<longleftrightarrow> snd (ParseInt s) = None"

definition int_value :: "string \<Rightarrow> int64" where
  "int_value s = fst (ParseInt s)"

definition FormatInt :: "int64 \<Rightarrow> string" where
  \<comment> \<open>\<open>strconv.FormatInt(v, 10)\<close> and \<open>strconv.AppendInt\<close>\<close>
  "FormatInt v =
     (if sint v < 0 then CHR ''-'' # FormatNat (nat (- sint v)) else FormatNat (nat (sint v)))"

lemma parse_uint_loop_FormatNat:
  "n \<le> 18446744073709551615 \<Longrightarrow> parse_uint_loop (FormatNat n @ cs) 0 = parse_uint_loop cs n"
proof (induction n arbitrary: cs rule: FormatNat.induct)
  case (1 n)
  show ?case
  proof (cases "n < 10")
    case True
    then show ?thesis by (subst FormatNat.simps) simp
  next
    case False
    then have "parse_uint_loop (FormatNat n @ cs) 0
        = parse_uint_loop (FormatNat (n div 10) @ digit_char (n mod 10) # cs) 0"
      by (subst FormatNat.simps) simp
    also have "\<dots> = parse_uint_loop (digit_char (n mod 10) # cs) (n div 10)"
      using "1.IH" [OF False, of "digit_char (n mod 10) # cs"] "1.prems" by simp
    also have "\<dots> = parse_uint_loop cs n"
    proof -
      have "n div 10 < 1844674407370955162" using "1.prems" by linarith
      then show ?thesis using "1.prems" by simp
    qed
    finally show ?thesis .
  qed
qed

lemma ParseUint_FormatNat: "n \<le> 18446744073709551615 \<Longrightarrow> ParseUint (FormatNat n) = (n, None)"
  using parse_uint_loop_FormatNat [of n "[]"] by (simp add: ParseUint_def)

lemma FormatNat_hd: "FormatNat n = c # cs \<Longrightarrow> decimal_digit c"
  using FormatNat_digits [of c n] by simp

theorem ParseInt_FormatInt [simp]: "ParseInt (FormatInt v) = (v, None)"
proof (cases "sint v < 0")
  case True
  define n where "n = nat (- sint v)"
  have n: "n \<le> 9223372036854775808" "int n = - sint v"
    using True sint64_range [of v] by (auto simp: n_def)
  have "(of_nat n :: int64) = of_int (int n)" by simp
  also have "\<dots> = - v" by (simp only: n(2) of_int_minus of_int_sint scast_id)
  finally have "(of_nat n :: int64) = - v" .
  with True n show ?thesis
    by (simp add: FormatInt_def ParseInt_def parse_signed_def ParseUint_FormatNat flip: n_def)
next
  case False
  define n where "n = nat (sint v)"
  have n: "n < 9223372036854775808" "int n = sint v"
    using False sint64_range [of v] by (auto simp: n_def)
  have "(of_nat n :: int64) = of_int (int n)" by simp
  also have "\<dots> = v" by (simp only: n(2) of_int_sint scast_id)
  finally have v: "(of_nat n :: int64) = v" .
  obtain c cs where cs: "FormatNat n = c # cs" by (cases "FormatNat n") auto
  then have "decimal_digit c" by (rule FormatNat_hd)
  then have "c \<noteq> CHR ''+'' \<and> c \<noteq> CHR ''-''" by auto
  with False n v cs ParseUint_FormatNat [of n] show ?thesis
    by (simp add: FormatInt_def ParseInt_def parse_signed_def flip: n_def)
qed

lemma is_int_FormatInt [simp]: "is_int (FormatInt v)" "int_value (FormatInt v) = v"
  by (simp_all add: is_int_def int_value_def)

lemma FormatInt_inject [simp]: "FormatInt v = FormatInt w \<longleftrightarrow> v = w"
  by (metis ParseInt_FormatInt prod.inject)

section \<open>Go maps\<close>

type_synonym ('k, 'v) gomap = "('k \<times> 'v) list"

definition wf_gomap :: "('k, 'v) gomap \<Rightarrow> bool" where
  "wf_gomap m \<longleftrightarrow> distinct (map fst m)"

lemma wf_gomap_Nil [simp, inv_intros]: "wf_gomap []"
  by (simp add: wf_gomap_def)

lemma wf_gomap_update [inv_intros]: "wf_gomap m \<Longrightarrow> wf_gomap (AList.update k v m)"
  by (simp add: wf_gomap_def distinct_update)

lemma wf_gomap_delete [inv_intros]: "wf_gomap m \<Longrightarrow> wf_gomap (AList.delete k m)"
  by (simp add: wf_gomap_def distinct_delete)

lemma map_of_update [simp]: "map_of (AList.update k v m) = (map_of m)(k \<mapsto> v)"
  by (simp add: update_conv')

lemma map_of_delete [simp]: "map_of (AList.delete k m) = (map_of m)(k := None)"
  by (simp add: delete_conv')

lemma delete_absent: "k \<notin> fst ` set m \<Longrightarrow> AList.delete k m = m"
  by (induction m) auto

lemma length_delete_gomap:
  "wf_gomap m \<Longrightarrow> length (AList.delete k m) = (if map_of m k = None then length m else length m - 1)"
proof (induction m)
  case Nil
  then show ?case by simp
next
  case (Cons p m)
  have "length m > 0" if "map_of m k \<noteq> None"
    using that by (cases m) auto
  then show ?case using Cons by (auto simp: wf_gomap_def delete_absent)
qed

lemma length_update_gomap:
  "length (AList.update k v m) = (if map_of m k = None then Suc (length m) else length m)"
  by (induction m) auto

lemma map_of_None_notin: "map_of m k = None \<longleftrightarrow> k \<notin> fst ` set m"
  by (induction m) auto

lemma card_dom_gomap: "wf_gomap m \<Longrightarrow> card (dom (map_of m)) = length m"
  by (metis dom_map_of_conv_image_fst distinct_card length_map list.set_map wf_gomap_def)

lemma finite_dom_gomap [simp]: "finite (dom (map_of m))"
  by (rule finite_dom_map_of)

end
