(* ===== verification/TypeEncoding.thy ===== *)
theory TypeEncoding
  imports Prelude
begin

unbundle bit_operations_syntax

text \<open>
  \<open>core/object.go\<close> (the type and encoding constants), \<open>core/typeencoding.go\<close> and
  \<open>core/type_string.go\<close>: a \<open>uint8\<close> carries the type in its upper and the encoding in its
  lower four bits. \<open>getType\<close> and \<open>getEncoding\<close> take them apart, \<open>assertType\<close> and
  \<open>assertEncoding\<close> are the guards of the commands (an error value as an option), and
  \<open>deduceTypeEncoding\<close> picks the encoding of a string.
\<close>

section \<open>The constants\<close>

definition OBJ_TYPE_STRING :: uint8 where "OBJ_TYPE_STRING = push_bit 4 0"
definition OBJ_TYPE_HASH :: uint8 where "OBJ_TYPE_HASH = push_bit 4 1"
definition OBJ_TYPE_LIST :: uint8 where "OBJ_TYPE_LIST = push_bit 4 2"
definition OBJ_TYPE_SET :: uint8 where "OBJ_TYPE_SET = push_bit 4 3"
definition OBJ_TYPE_ZSET :: uint8 where "OBJ_TYPE_ZSET = push_bit 4 4"

definition OBJ_ENCODING_RAW :: uint8 where "OBJ_ENCODING_RAW = 0"
definition OBJ_ENCODING_INT :: uint8 where "OBJ_ENCODING_INT = 1"
definition OBJ_ENCODING_ZIPLIST :: uint8 where "OBJ_ENCODING_ZIPLIST = 2"
definition OBJ_ENCODING_HT :: uint8 where "OBJ_ENCODING_HT = 3"
definition OBJ_ENCODING_QUICKLIST :: uint8 where "OBJ_ENCODING_QUICKLIST = 4"
definition OBJ_ENCODING_INTSET :: uint8 where "OBJ_ENCODING_INTSET = 5"
definition OBJ_ENCODING_SKIPLIST :: uint8 where "OBJ_ENCODING_SKIPLIST = 6"
definition OBJ_ENCODING_EMBSTR :: uint8 where "OBJ_ENCODING_EMBSTR = 8"

lemmas obj_type_defs =
  OBJ_TYPE_STRING_def OBJ_TYPE_HASH_def OBJ_TYPE_LIST_def OBJ_TYPE_SET_def OBJ_TYPE_ZSET_def

lemmas obj_encoding_defs =
  OBJ_ENCODING_RAW_def OBJ_ENCODING_INT_def OBJ_ENCODING_ZIPLIST_def OBJ_ENCODING_HT_def
  OBJ_ENCODING_QUICKLIST_def OBJ_ENCODING_INTSET_def OBJ_ENCODING_SKIPLIST_def
  OBJ_ENCODING_EMBSTR_def

section \<open>Taking the byte apart\<close>

definition getType :: "uint8 \<Rightarrow> uint8" where
  "getType te = push_bit 4 (drop_bit 4 te)"

definition getEncoding :: "uint8 \<Rightarrow> uint8" where
  "getEncoding te = te AND 0b00001111"

definition assertType :: "uint8 \<Rightarrow> uint8 \<Rightarrow> string option" where
  "assertType te t =
     (if getType te \<noteq> t then Some ''the operation is not permitted on this type'' else None)"

definition assertEncoding :: "uint8 \<Rightarrow> uint8 \<Rightarrow> string option" where
  "assertEncoding te e =
     (if getEncoding te \<noteq> e then Some ''the operations is not permitted on this encoding'' else None)"

definition TypeName :: "uint8 \<Rightarrow> string" where
  "TypeName te =
     (let t = getType te in
      if t = OBJ_TYPE_STRING then ''string''
      else if t = OBJ_TYPE_HASH then ''hash''
      else if t = OBJ_TYPE_LIST then ''list''
      else if t = OBJ_TYPE_SET then ''set''
      else if t = OBJ_TYPE_ZSET then ''zset''
      else ''none'')"

definition EncodingName :: "uint8 \<Rightarrow> string" where
  "EncodingName te =
     (let e = getEncoding te in
      if e = OBJ_ENCODING_RAW then ''raw''
      else if e = OBJ_ENCODING_INT then ''int''
      else if e = OBJ_ENCODING_ZIPLIST then ''ziplist''
      else if e = OBJ_ENCODING_HT then ''hashtable''
      else if e = OBJ_ENCODING_QUICKLIST then ''quicklist''
      else if e = OBJ_ENCODING_INTSET then ''intset''
      else if e = OBJ_ENCODING_SKIPLIST then ''skiplist''
      else if e = OBJ_ENCODING_EMBSTR then ''embstr''
      else ''unknown'')"

definition deduceTypeEncoding :: "string \<Rightarrow> uint8 \<times> uint8" where
  "deduceTypeEncoding v =
     (let oType = OBJ_TYPE_STRING in
      if snd (ParseInt v) = None then (oType, OBJ_ENCODING_INT)
      else if length v \<le> 44 then (oType, OBJ_ENCODING_EMBSTR)
      else (oType, OBJ_ENCODING_RAW))"

section \<open>Packing and unpacking\<close>

lemma getEncoding_take_bit: "getEncoding te = take_bit 4 te"
proof -
  have "(0b00001111 :: uint8) = mask 4" by (simp add: mask_numeral)
  then show ?thesis by (simp add: getEncoding_def take_bit_eq_mask)
qed

lemma bit_getEncoding: "bit (getEncoding te) n \<longleftrightarrow> n < 4 \<and> bit te n"
  by (simp add: getEncoding_take_bit bit_take_bit_iff)

lemma bit_getType: "bit (getType te) n \<longleftrightarrow> 4 \<le> n \<and> bit te n"
  by (auto simp: getType_def bit_simps dest: bit_imp_le_length)

text \<open>
  Any value with an empty encoding nibble and any value with an empty type nibble come back
  from the byte that packs them.
\<close>

lemma pack_unpack:
  assumes t: "getEncoding t = 0" and e: "getType e = 0"
  shows "getType (t OR e) = t" and "getEncoding (t OR e) = e"
proof -
  have t4: "4 \<le> n" if "bit t n" for n
    using t that by (metis bit_getEncoding bit_0_eq bot_apply bot_bool_def not_le)
  have e4: "n < 4" if "bit e n" for n
    using e that by (metis bit_getType bit_0_eq bot_apply bot_bool_def not_le)
  show "getType (t OR e) = t"
    by (rule bit_word_eqI) (auto simp: bit_getType bit_or_iff dest: t4 e4)
  show "getEncoding (t OR e) = e"
    by (rule bit_word_eqI) (auto simp: bit_getEncoding bit_or_iff dest: t4 e4)
qed

text \<open>The byte is always the union of its two parts.\<close>

lemma unpack_pack: "getType te OR getEncoding te = te"
  by (rule bit_word_eqI) (auto simp: bit_getType bit_getEncoding bit_or_iff)

definition obj_types :: "uint8 list" where
  "obj_types = [OBJ_TYPE_STRING, OBJ_TYPE_HASH, OBJ_TYPE_LIST, OBJ_TYPE_SET, OBJ_TYPE_ZSET]"

definition obj_encodings :: "uint8 list" where
  "obj_encodings =
     [OBJ_ENCODING_RAW, OBJ_ENCODING_INT, OBJ_ENCODING_ZIPLIST, OBJ_ENCODING_HT,
      OBJ_ENCODING_QUICKLIST, OBJ_ENCODING_INTSET, OBJ_ENCODING_SKIPLIST, OBJ_ENCODING_EMBSTR]"

lemma getEncoding_type [simp]: "t \<in> set obj_types \<Longrightarrow> getEncoding t = 0"
  by (auto simp: obj_types_def obj_type_defs getEncoding_def)

lemma getType_encoding [simp]: "e \<in> set obj_encodings \<Longrightarrow> getType e = 0"
  by (auto simp: obj_encodings_def obj_encoding_defs getType_def)

lemma obj_types_mem [simp]:
  "OBJ_TYPE_STRING \<in> set obj_types" "OBJ_TYPE_HASH \<in> set obj_types"
  "OBJ_TYPE_LIST \<in> set obj_types" "OBJ_TYPE_SET \<in> set obj_types" "OBJ_TYPE_ZSET \<in> set obj_types"
  by (simp_all add: obj_types_def)

lemma obj_encodings_mem [simp]:
  "OBJ_ENCODING_RAW \<in> set obj_encodings" "OBJ_ENCODING_INT \<in> set obj_encodings"
  "OBJ_ENCODING_ZIPLIST \<in> set obj_encodings" "OBJ_ENCODING_HT \<in> set obj_encodings"
  "OBJ_ENCODING_QUICKLIST \<in> set obj_encodings" "OBJ_ENCODING_INTSET \<in> set obj_encodings"
  "OBJ_ENCODING_SKIPLIST \<in> set obj_encodings" "OBJ_ENCODING_EMBSTR \<in> set obj_encodings"
  by (simp_all add: obj_encodings_def)

lemma type_of_packed [simp]:
  assumes "t \<in> set obj_types" and "e \<in> set obj_encodings"
  shows "getType (t OR e) = t" and "getEncoding (t OR e) = e"
  using assms pack_unpack [of t e] by simp_all

lemma obj_types_distinct [simp]:
  "OBJ_TYPE_STRING \<noteq> OBJ_TYPE_HASH" "OBJ_TYPE_STRING \<noteq> OBJ_TYPE_LIST"
  "OBJ_TYPE_STRING \<noteq> OBJ_TYPE_SET" "OBJ_TYPE_STRING \<noteq> OBJ_TYPE_ZSET"
  "OBJ_TYPE_HASH \<noteq> OBJ_TYPE_STRING" "OBJ_TYPE_HASH \<noteq> OBJ_TYPE_LIST"
  "OBJ_TYPE_HASH \<noteq> OBJ_TYPE_SET" "OBJ_TYPE_HASH \<noteq> OBJ_TYPE_ZSET"
  "OBJ_TYPE_LIST \<noteq> OBJ_TYPE_STRING" "OBJ_TYPE_LIST \<noteq> OBJ_TYPE_HASH"
  "OBJ_TYPE_LIST \<noteq> OBJ_TYPE_SET" "OBJ_TYPE_LIST \<noteq> OBJ_TYPE_ZSET"
  "OBJ_TYPE_SET \<noteq> OBJ_TYPE_STRING" "OBJ_TYPE_SET \<noteq> OBJ_TYPE_HASH"
  "OBJ_TYPE_SET \<noteq> OBJ_TYPE_LIST" "OBJ_TYPE_SET \<noteq> OBJ_TYPE_ZSET"
  "OBJ_TYPE_ZSET \<noteq> OBJ_TYPE_STRING" "OBJ_TYPE_ZSET \<noteq> OBJ_TYPE_HASH"
  "OBJ_TYPE_ZSET \<noteq> OBJ_TYPE_LIST" "OBJ_TYPE_ZSET \<noteq> OBJ_TYPE_SET"
  by (simp_all add: obj_type_defs)

lemma obj_encodings_distinct: "distinct obj_encodings"
  by (simp add: obj_encodings_def obj_encoding_defs)

lemma obj_encodings_neq [simp]:
  "OBJ_ENCODING_ZIPLIST \<noteq> OBJ_ENCODING_HT" "OBJ_ENCODING_HT \<noteq> OBJ_ENCODING_ZIPLIST"
  "OBJ_ENCODING_INTSET \<noteq> OBJ_ENCODING_HT" "OBJ_ENCODING_HT \<noteq> OBJ_ENCODING_INTSET"
  "OBJ_ENCODING_INT \<noteq> OBJ_ENCODING_RAW" "OBJ_ENCODING_INT \<noteq> OBJ_ENCODING_EMBSTR"
  "OBJ_ENCODING_RAW \<noteq> OBJ_ENCODING_INT" "OBJ_ENCODING_EMBSTR \<noteq> OBJ_ENCODING_INT"
  by (simp_all add: obj_encoding_defs)

lemma deduceTypeEncoding_cases:
  "deduceTypeEncoding v = (OBJ_TYPE_STRING,
     if is_int v then OBJ_ENCODING_INT
     else if length v \<le> 44 then OBJ_ENCODING_EMBSTR else OBJ_ENCODING_RAW)"
  by (simp add: deduceTypeEncoding_def is_int_def)

section \<open>Property\<close>

text \<open>The type byte of an object is a faithful pair. Every byte is the union of the
  type and the encoding it is read as, and for every type and encoding constant of the
  source the byte \<open>t | e\<close> reads back as exactly \<open>t\<close> and \<open>e\<close>, so that
  \<open>assertType\<close> accepts it for \<open>t\<close> and for no other type.\<close>

theorem type_byte_roundtrip:
  "(getType te OR getEncoding te = te) \<and>
   (t \<in> set obj_types \<longrightarrow> e \<in> set obj_encodings \<longrightarrow>
      getType (t OR e) = t \<and> getEncoding (t OR e) = e \<and>
      (assertType (t OR e) u = None \<longleftrightarrow> u = t) \<and> (assertEncoding (t OR e) f = None \<longleftrightarrow> f = e))"
  using unpack_pack [of te] pack_unpack [of t e]
  by (auto simp: assertType_def assertEncoding_def)

lemma type_byte_roundtrip_witness:
  "getType (OBJ_TYPE_ZSET OR OBJ_ENCODING_SKIPLIST) = OBJ_TYPE_ZSET \<and>
   assertType (OBJ_TYPE_ZSET OR OBJ_ENCODING_SKIPLIST) OBJ_TYPE_ZSET = None"
  using type_byte_roundtrip [of 0 OBJ_TYPE_ZSET OBJ_ENCODING_SKIPLIST OBJ_TYPE_ZSET 0] by simp

end
