(* ===== verification/IntSet.thy ===== *)
theory IntSet
  imports Prelude
begin

text \<open>
  \<open>core/intset.go\<close>: a set of \<open>int64\<close> in a slice kept in ascending order. \<open>search\<close> is the
  library's binary search \<open>sort.Search\<close>, \<open>Add\<close> opens a gap with \<open>append\<close> and \<open>copy\<close>,
  \<open>Remove\<close> closes one. The lemmas show that the slice stays sorted and free of
  duplicates and that the operations are those of the set of the slice's elements.
\<close>

section \<open>Library: binary search and copy\<close>

function sort_Search_loop :: "(nat \<Rightarrow> bool) \<Rightarrow> nat \<Rightarrow> nat \<Rightarrow> nat" where
  "sort_Search_loop f i j =
     (if i < j then
        let h = (i + j) div 2 in
        if \<not> f h then sort_Search_loop f (h + 1) j else sort_Search_loop f i h
      else i)"
  by pat_completeness auto
termination
  by (relation "measure (\<lambda>(f, i, j). j - i)") auto

declare sort_Search_loop.simps [simp del]

definition sort_Search :: "nat \<Rightarrow> (nat \<Rightarrow> bool) \<Rightarrow> nat" where
  "sort_Search n f = sort_Search_loop f 0 n"

definition go_copy :: "'a list \<Rightarrow> nat \<Rightarrow> 'a list \<Rightarrow> 'a list" where
  \<comment> \<open>\<open>copy(dst[at:], src)\<close>: the elements of \<open>src\<close> over those of \<open>dst\<close> from \<open>at\<close> on, as many as fit\<close>
  "go_copy dst at src =
     (let n = min (length dst - at) (length src)
      in take at dst @ take n src @ drop (at + n) dst)"

lemma sort_Search_loop_spec:
  assumes mono: "\<And>a b. a \<le> b \<Longrightarrow> b < n \<Longrightarrow> f a \<Longrightarrow> f b"
  shows "i \<le> j \<Longrightarrow> j \<le> n \<Longrightarrow> \<forall>a < i. \<not> f a \<Longrightarrow> \<forall>a. j \<le> a \<longrightarrow> a < n \<longrightarrow> f a \<Longrightarrow>
    sort_Search_loop f i j \<le> n \<and> (\<forall>a < sort_Search_loop f i j. \<not> f a)
    \<and> (\<forall>a. sort_Search_loop f i j \<le> a \<longrightarrow> a < n \<longrightarrow> f a)"
  using mono
proof (induction f i j rule: sort_Search_loop.induct)
  case (1 f i j)
  define h where "h = (i + j) div 2"
  consider "\<not> i < j" | "i < j" "\<not> f h" | "i < j" "f h" by blast
  then show ?case
  proof cases
    case 1
    then have "sort_Search_loop f i j = i" by (simp add: sort_Search_loop.simps [of f i j])
    with "1.prems" 1 show ?thesis by auto
  next
    case 2
    then have h: "h < j" by (simp add: h_def)
    have "\<not> f a" if "a < h + 1" for a
      using "1.prems"(5) [of a h] h that "1.prems"(2) 2(2) by auto
    with "1.IH"(1) [OF 2(1) h_def 2(2)] h "1.prems" show ?thesis
      using 2 by (simp add: sort_Search_loop.simps [of f i j] h_def [symmetric])
  next
    case 3
    then have h: "h < j" "i \<le> h" by (simp_all add: h_def)
    have "f a" if "h \<le> a" "a < n" for a
      using "1.prems"(5) [of h a] that 3 by auto
    with "1.IH"(2) [OF 3(1) h_def] h "1.prems" 3 show ?thesis
      by (simp add: sort_Search_loop.simps [of f i j] h_def [symmetric])
  qed
qed

text \<open>On a monotone predicate \<open>sort.Search\<close> returns the least index where it holds.\<close>

lemma sort_Search_spec:
  assumes "\<And>a b. a \<le> b \<Longrightarrow> b < n \<Longrightarrow> f a \<Longrightarrow> f b"
  shows "sort_Search n f \<le> n" and "\<And>a. a < sort_Search n f \<Longrightarrow> \<not> f a"
    and "\<And>a. sort_Search n f \<le> a \<Longrightarrow> a < n \<Longrightarrow> f a"
  using sort_Search_loop_spec [of n f 0 n] assms by (auto simp: sort_Search_def)

section \<open>The integer set\<close>

record IntSet =
  contents :: "int64 list"

definition NewIntSet :: IntSet where
  "NewIntSet = \<lparr>contents = []\<rparr>"

definition IntSet_Len :: "IntSet \<Rightarrow> nat" where
  "IntSet_Len st = length (contents st)"

definition IntSet_search :: "IntSet \<Rightarrow> int64 \<Rightarrow> nat \<times> bool" where
  "IntSet_search st val =
     (let idx = sort_Search (length (contents st)) (\<lambda>i. sint val \<le> sint (contents st ! i))
      in if idx < length (contents st) \<and> contents st ! idx = val then (idx, True) else (idx, False))"

definition IntSet_Add :: "IntSet \<Rightarrow> int64 \<Rightarrow> IntSet \<times> bool" where
  "IntSet_Add st val =
     (let (idx, found) = IntSet_search st val in
      if found then (st, False)
      else
        let c1 = contents st @ [0];
            c2 = go_copy c1 (idx + 1) (drop idx c1);
            c3 = c2[idx := val]
        in (st\<lparr>contents := c3\<rparr>, True))"

definition IntSet_Remove :: "IntSet \<Rightarrow> int64 \<Rightarrow> IntSet \<times> bool" where
  "IntSet_Remove st val =
     (let (idx, found) = IntSet_search st val in
      if \<not> found then (st, False)
      else (st\<lparr>contents := take idx (contents st) @ drop (idx + 1) (contents st)\<rparr>, True))"

definition IntSet_Contains :: "IntSet \<Rightarrow> int64 \<Rightarrow> bool" where
  "IntSet_Contains st val = (let (_, found) = IntSet_search st val in found)"

definition IntSet_Members :: "IntSet \<Rightarrow> int64 list" where
  "IntSet_Members st = contents st"

subsection \<open>The invariant\<close>

definition ascending :: "int64 list \<Rightarrow> bool" where
  "ascending xs \<longleftrightarrow> sorted_wrt (\<lambda>a b. sint a < sint b) xs"

definition intset_inv :: "IntSet \<Rightarrow> bool" where
  "intset_inv st \<longleftrightarrow> ascending (contents st)"

lemma ascending_distinct: "ascending xs \<Longrightarrow> distinct xs"
  unfolding ascending_def by (induction xs) auto

lemma ascending_nth: "ascending xs \<Longrightarrow> i < j \<Longrightarrow> j < length xs \<Longrightarrow> sint (xs ! i) < sint (xs ! j)"
  by (auto simp: ascending_def intro: sorted_wrt_nth_less)

lemma search_props:
  assumes "ascending xs"
    and idx_def: "idx = sort_Search (length xs) (\<lambda>i. sint val \<le> sint (xs ! i))"
  shows "idx \<le> length xs" and "\<And>a. a < idx \<Longrightarrow> sint (xs ! a) < sint val"
    and "\<And>a. idx \<le> a \<Longrightarrow> a < length xs \<Longrightarrow> sint val \<le> sint (xs ! a)"
proof -
  let ?f = "\<lambda>i. sint val \<le> sint (xs ! i)"
  have mono: "?f b" if "a \<le> b" "b < length xs" "?f a" for a b
    using ascending_nth [OF assms(1), of a b] that by (cases "a = b") auto
  note * = sort_Search_spec [of "length xs" ?f, OF mono]
  show "idx \<le> length xs" unfolding idx_def by (rule *(1))
  show "sint (xs ! a) < sint val" if "a < idx" for a
    using *(2) that unfolding idx_def by (simp add: not_le)
  show "sint val \<le> sint (xs ! a)" if "idx \<le> a" "a < length xs" for a
    using *(3) that unfolding idx_def by simp
qed

text \<open>
  \<open>search\<close> splits the slice into the elements below and the elements above \<open>val\<close>; it
  reports \<open>true\<close> exactly when \<open>val\<close> is an element.
\<close>

lemma IntSet_search_split:
  assumes "intset_inv st" and "IntSet_search st val = (idx, found)"
  shows "found \<longleftrightarrow> val \<in> set (contents st)"
    and "idx \<le> length (contents st)"
    and "\<forall>x \<in> set (take idx (contents st)). sint x < sint val"
    and "\<forall>x \<in> set (drop idx (contents st)). sint val \<le> sint x"
    and "found \<Longrightarrow> idx < length (contents st) \<and> contents st ! idx = val"
proof -
  let ?xs = "contents st"
  have asc: "ascending ?xs" using assms(1) by (simp add: intset_inv_def)
  have idx: "idx = sort_Search (length ?xs) (\<lambda>i. sint val \<le> sint (?xs ! i))"
    using assms(2) by (auto simp: IntSet_search_def Let_def split: if_splits)
  note p = search_props [OF asc idx]
  have f: "found \<longleftrightarrow> idx < length ?xs \<and> ?xs ! idx = val"
    using assms(2) idx by (auto simp: IntSet_search_def Let_def split: if_splits)
  show "idx \<le> length ?xs" by (rule p(1))
  show low: "\<forall>x \<in> set (take idx ?xs). sint x < sint val"
    using p(2) by (auto simp: in_set_conv_nth)
  show high: "\<forall>x \<in> set (drop idx ?xs). sint val \<le> sint x"
    using p(3) by (auto simp: in_set_conv_nth)
  show "idx < length ?xs \<and> ?xs ! idx = val" if found using f that by simp
  show "found \<longleftrightarrow> val \<in> set ?xs"
  proof
    assume found
    with f show "val \<in> set ?xs" by auto
  next
    assume "val \<in> set ?xs"
    then obtain a where a: "a < length ?xs" "?xs ! a = val" by (auto simp: in_set_conv_nth)
    then have "idx \<le> a" using p(2) [of a] by (meson less_irrefl not_le)
    moreover have "\<not> idx < a"
      using ascending_nth [OF asc, of idx a] p(3) [of idx] a by force
    ultimately show found using f a by simp
  qed
qed

lemma gap_insert:
  assumes "idx \<le> length xs"
  shows "(go_copy (xs @ [d]) (idx + 1) (drop idx (xs @ [d])))[idx := v] = take idx xs @ v # drop idx xs"
proof -
  have "go_copy (xs @ [d]) (idx + 1) (drop idx (xs @ [d])) = take (Suc idx) (xs @ [d]) @ drop idx xs"
    using assms by (simp add: go_copy_def Let_def min_def)
  also have "take (Suc idx) (xs @ [d]) = take idx xs @ [(xs @ [d]) ! idx]"
    using assms take_Suc_conv_app_nth [of idx "xs @ [d]"] by simp
  finally show ?thesis
    using assms by (simp del: take_append add: list_update_append min_def)
qed

lemma IntSet_Add_contents:
  assumes "intset_inv st" and "IntSet_search st val = (idx, found)"
  shows "contents (fst (IntSet_Add st val)) =
    (if found then contents st else take idx (contents st) @ val # drop idx (contents st))"
  using assms IntSet_search_split(2) [OF assms] gap_insert [of idx "contents st" 0 val]
  by (auto simp: IntSet_Add_def Let_def)

lemma ascending_append:
  "ascending (xs @ ys) \<longleftrightarrow> ascending xs \<and> ascending ys \<and> (\<forall>x \<in> set xs. \<forall>y \<in> set ys. sint x < sint y)"
  by (simp add: ascending_def sorted_wrt_append)

lemma ascending_Cons: "ascending (x # xs) \<longleftrightarrow> (\<forall>y \<in> set xs. sint x < sint y) \<and> ascending xs"
  by (simp add: ascending_def)

subsection \<open>Correctness of the operations\<close>

lemma IntSet_Contains_correct [simp]:
  "intset_inv st \<Longrightarrow> IntSet_Contains st val \<longleftrightarrow> val \<in> set (contents st)"
  using IntSet_search_split(1) [of st val]
  by (cases "IntSet_search st val") (simp add: IntSet_Contains_def)

lemma IntSet_Add_result [simp]:
  "intset_inv st \<Longrightarrow> snd (IntSet_Add st val) \<longleftrightarrow> val \<notin> set (contents st)"
  using IntSet_search_split(1) [of st val]
  by (cases "IntSet_search st val") (auto simp: IntSet_Add_def Let_def)

lemma IntSet_Add_set [simp]:
  assumes "intset_inv st"
  shows "set (contents (fst (IntSet_Add st val))) = insert val (set (contents st))"
proof (cases "IntSet_search st val")
  case (Pair idx found)
  have "set (take idx (contents st)) \<union> set (drop idx (contents st)) = set (contents st)"
    by (metis append_take_drop_id set_append)
  with IntSet_Add_contents [OF assms Pair] IntSet_search_split(1) [OF assms Pair]
  show ?thesis by auto
qed

lemma IntSet_Add_inv [inv_intros]:
  assumes "intset_inv st"
  shows "intset_inv (fst (IntSet_Add st val))"
proof (cases "IntSet_search st val")
  case (Pair idx found)
  note s = IntSet_search_split [OF assms Pair]
  let ?xs = "contents st"
  show ?thesis
  proof (cases found)
    case True
    with IntSet_Add_contents [OF assms Pair] assms show ?thesis by (simp add: intset_inv_def)
  next
    case False
    have asc: "ascending (take idx ?xs)" "ascending (drop idx ?xs)"
      using assms ascending_append [of "take idx ?xs" "drop idx ?xs"] by (simp_all add: intset_inv_def)
    have "sint val < sint x" if "x \<in> set (drop idx ?xs)" for x
    proof -
      have "x \<noteq> val" using False s(1) that by (metis in_set_dropD)
      then have "sint x \<noteq> sint val" by (metis signed_word_eqI)
      with s(4) that show ?thesis by force
    qed
    with False s(3) asc show ?thesis
      by (auto simp: intset_inv_def IntSet_Add_contents [OF assms Pair] ascending_append
          ascending_Cons intro: less_trans)
  qed
qed

lemma IntSet_Remove_result [simp]:
  "intset_inv st \<Longrightarrow> snd (IntSet_Remove st val) \<longleftrightarrow> val \<in> set (contents st)"
  using IntSet_search_split(1) [of st val]
  by (cases "IntSet_search st val") (auto simp: IntSet_Remove_def Let_def)

lemma IntSet_Remove_cases:
  assumes "intset_inv st"
  obtains "val \<notin> set (contents st)" "contents (fst (IntSet_Remove st val)) = contents st"
  | xs ys where "contents st = xs @ val # ys" "contents (fst (IntSet_Remove st val)) = xs @ ys"
proof (cases "IntSet_search st val")
  case (Pair idx found)
  note s = IntSet_search_split [OF assms Pair]
  show thesis
  proof (cases found)
    case True
    with s(5) have i: "idx < length (contents st)" "contents st ! idx = val" by auto
    then have "contents st = take idx (contents st) @ val # drop (Suc idx) (contents st)"
      using id_take_nth_drop [of idx "contents st"] by simp
    moreover have "contents (fst (IntSet_Remove st val))
        = take idx (contents st) @ drop (Suc idx) (contents st)"
      using True Pair by (simp add: IntSet_Remove_def)
    ultimately show thesis by (rule that(2))
  next
    case False
    with that(1) Pair s(1) show thesis by (simp add: IntSet_Remove_def)
  qed
qed

lemma IntSet_Remove_inv [inv_intros]:
  assumes "intset_inv st" shows "intset_inv (fst (IntSet_Remove st val))"
  by (rule IntSet_Remove_cases [OF assms, of val])
    (use assms in \<open>auto simp: intset_inv_def ascending_append ascending_Cons\<close>)

lemma IntSet_Remove_set [simp]:
  assumes "intset_inv st"
  shows "set (contents (fst (IntSet_Remove st val))) = set (contents st) - {val}"
  by (rule IntSet_Remove_cases [OF assms, of val])
    (use assms ascending_distinct in \<open>fastforce simp: intset_inv_def\<close>)+

lemma NewIntSet_inv [simp, inv_intros]: "intset_inv NewIntSet"
  by (simp add: intset_inv_def NewIntSet_def ascending_def)

lemma IntSet_Len_card: "intset_inv st \<Longrightarrow> IntSet_Len st = card (set (contents st))"
  by (simp add: IntSet_Len_def intset_inv_def ascending_distinct distinct_card)

section \<open>Property\<close>

text \<open>C22: the sorted array implements a set of 64-bit integers. On an array in strictly
  ascending order the binary search finds exactly the members; \<open>Add\<close> inserts the value,
  reports whether it was new, and \<open>Remove\<close> deletes it and reports whether it was there;
  both keep the array ascending, and the length is the cardinality.\<close>

theorem intset_implements_set:
  assumes "intset_inv st"
  shows "(IntSet_Contains st v \<longleftrightarrow> v \<in> set (contents st)) \<and>
    (intset_inv (fst (IntSet_Add st v)) \<and> set (contents (fst (IntSet_Add st v))) = insert v (set (contents st)) \<and>
         (snd (IntSet_Add st v) \<longleftrightarrow> v \<notin> set (contents st))) \<and>
    (intset_inv (fst (IntSet_Remove st v)) \<and> set (contents (fst (IntSet_Remove st v))) = set (contents st) - {v} \<and>
         (snd (IntSet_Remove st v) \<longleftrightarrow> v \<in> set (contents st))) \<and>
    (IntSet_Len st = card (set (contents st)) \<and> set (IntSet_Members st) = set (contents st))"
  using assms by (simp add: inv_intros IntSet_Len_card) (simp add: IntSet_Members_def)

lemma intset_implements_set_witness:
  "contents (fst (IntSet_Add (fst (IntSet_Add NewIntSet 7)) (-2))) = [-2, 7] \<and>
   IntSet_Contains (fst (IntSet_Add NewIntSet 7)) 7"
  using intset_implements_set [OF IntSet_Add_inv [OF NewIntSet_inv], of 7 7] by (simp, code_simp)

end
