(* ===== verification/ZipList.thy ===== *)
theory ZipList
  imports Prelude
begin

text \<open>
  \<open>core/ziplist.go\<close>: one flat slice of strings, read as field-value pairs by the hash
  commands and as a sequence by the list nodes. Each hash operation scans the slice two
  entries at a time, as its \<open>for i := 0; i < len-1; i += 2\<close> loop does. The
  lemmas relate the hash operations to the partial map of the pairs and \<open>Range\<close> to a
  segment of the slice.
\<close>

record ZipList =
  entries :: "string list"

definition NewZipList :: ZipList where
  "NewZipList = \<lparr>entries = []\<rparr>"

definition ZipList_Len :: "ZipList \<Rightarrow> nat" where
  "ZipList_Len z = length (entries z)"

section \<open>Hash operations\<close>

definition HashLen :: "ZipList \<Rightarrow> nat" where
  "HashLen z = length (entries z) div 2"

fun HashGet_scan :: "string list \<Rightarrow> string \<Rightarrow> string \<times> bool" where
  "HashGet_scan (f # v # es) field = (if f = field then (v, True) else HashGet_scan es field)"
| "HashGet_scan _ field = ([], False)"

definition HashGet :: "ZipList \<Rightarrow> string \<Rightarrow> string \<times> bool" where
  "HashGet z field = HashGet_scan (entries z) field"

fun HashSet_scan :: "string list \<Rightarrow> string \<Rightarrow> string \<Rightarrow> string list \<times> bool" where
  "HashSet_scan (f # v # es) field val =
     (if f = field then (f # val # es, False)
      else let (es', added) = HashSet_scan es field val in (f # v # es', added))"
| "HashSet_scan es field val = (es @ [field, val], True)"

definition HashSet :: "ZipList \<Rightarrow> string \<Rightarrow> string \<Rightarrow> ZipList \<times> bool" where
  "HashSet z field val =
     (let (es, added) = HashSet_scan (entries z) field val in (z\<lparr>entries := es\<rparr>, added))"

fun HashDel_scan :: "string list \<Rightarrow> string \<Rightarrow> string list \<times> bool" where
  "HashDel_scan (f # v # es) field =
     (if f = field then (es, True)
      else let (es', found) = HashDel_scan es field in (f # v # es', found))"
| "HashDel_scan es field = (es, False)"

definition HashDel :: "ZipList \<Rightarrow> string \<Rightarrow> ZipList \<times> bool" where
  "HashDel z field =
     (let (es, found) = HashDel_scan (entries z) field in (z\<lparr>entries := es\<rparr>, found))"

fun HashExists_scan :: "string list \<Rightarrow> string \<Rightarrow> bool" where
  "HashExists_scan (f # v # es) field = (if f = field then True else HashExists_scan es field)"
| "HashExists_scan _ field = False"

definition HashExists :: "ZipList \<Rightarrow> string \<Rightarrow> bool" where
  "HashExists z field = HashExists_scan (entries z) field"

fun HashEntries_scan :: "string list \<Rightarrow> (string, string) gomap \<Rightarrow> (string, string) gomap" where
  "HashEntries_scan (f # v # es) m = HashEntries_scan es (AList.update f v m)"
| "HashEntries_scan _ m = m"

definition HashEntries :: "ZipList \<Rightarrow> (string, string) gomap" where
  "HashEntries z = HashEntries_scan (entries z) []"

fun HashKeys_scan :: "string list \<Rightarrow> string list" where
  "HashKeys_scan (f # v # es) = f # HashKeys_scan es"
| "HashKeys_scan _ = []"

definition HashKeys :: "ZipList \<Rightarrow> string list" where
  "HashKeys z = HashKeys_scan (entries z)"

fun HashValues_scan :: "string list \<Rightarrow> string list" where
  "HashValues_scan (f # v # es) = v # HashValues_scan es"
| "HashValues_scan _ = []"

definition HashValues :: "ZipList \<Rightarrow> string list" where
  "HashValues z = HashValues_scan (entries z)"

definition HashGetAll :: "ZipList \<Rightarrow> string list" where
  "HashGetAll z = entries z"

section \<open>List operations\<close>

definition ZipList_LPush :: "ZipList \<Rightarrow> string list \<Rightarrow> ZipList" where
  "ZipList_LPush z vals = z\<lparr>entries := vals @ entries z\<rparr>"

definition ZipList_RPush :: "ZipList \<Rightarrow> string list \<Rightarrow> ZipList" where
  "ZipList_RPush z vals = z\<lparr>entries := entries z @ vals\<rparr>"

definition ZipList_LPop :: "ZipList \<Rightarrow> ZipList \<times> string \<times> bool" where
  "ZipList_LPop z =
     (if length (entries z) = 0 then (z, [], False)
      else (z\<lparr>entries := drop 1 (entries z)\<rparr>, entries z ! 0, True))"

definition ZipList_RPop :: "ZipList \<Rightarrow> ZipList \<times> string \<times> bool" where
  "ZipList_RPop z =
     (if length (entries z) = 0 then (z, [], False)
      else let n = length (entries z) in
        (z\<lparr>entries := take (n - 1) (entries z)\<rparr>, entries z ! (n - 1), True))"

definition ZipList_Index :: "ZipList \<Rightarrow> int \<Rightarrow> string \<times> bool" where
  "ZipList_Index z idx =
     (let n = int (length (entries z));
          i = (if idx < 0 then n + idx else idx)
      in if i < 0 \<or> n \<le> i then ([], False) else (entries z ! nat i, True))"

definition ZipList_Range :: "ZipList \<Rightarrow> int \<Rightarrow> int \<Rightarrow> string list" where
  "ZipList_Range z start stop =
     (let n = int (length (entries z)) in
      if n = 0 then []
      else
        let start1 = (if start < 0 then n + start else start);
            stop1 = (if stop < 0 then n + stop else stop);
            start2 = (if start1 < 0 then 0 else start1);
            stop2 = (if n \<le> stop1 then n - 1 else stop1)
        in if stop2 < start2 then []
           else take (nat (stop2 - start2 + 1)) (drop (nat start2) (entries z)))"

definition ZipList_Entries :: "ZipList \<Rightarrow> string list" where
  "ZipList_Entries z = entries z"

section \<open>The pairs of a hash\<close>

fun pairs :: "'a list \<Rightarrow> ('a \<times> 'a) list" where
  "pairs (f # v # es) = (f, v) # pairs es"
| "pairs _ = []"

definition hash_of :: "ZipList \<Rightarrow> string \<rightharpoonup> string" where
  "hash_of z = map_of (pairs (entries z))"

definition zl_hash_inv :: "ZipList \<Rightarrow> bool" where
  \<comment> \<open>an even number of entries and no field twice\<close>
  "zl_hash_inv z \<longleftrightarrow> even (length (entries z)) \<and> distinct (map fst (pairs (entries z)))"

lemma NewZipList_inv [simp, inv_intros]: "zl_hash_inv NewZipList"
  by (simp add: zl_hash_inv_def NewZipList_def)

lemma finite_hash_of [simp]: "finite (dom (hash_of z))"
  by (simp add: hash_of_def finite_dom_map_of)

lemma hash_of_New [simp]: "hash_of NewZipList = Map.empty"
  by (simp add: hash_of_def NewZipList_def)

lemma length_pairs: "length (pairs es) = length es div 2"
  by (induction es rule: pairs.induct) auto

lemma HashGet_scan_pairs:
  "HashGet_scan es field = (case map_of (pairs es) field of None \<Rightarrow> ([], False) | Some v \<Rightarrow> (v, True))"
  by (induction es field rule: HashGet_scan.induct) auto

lemma HashExists_scan_pairs: "HashExists_scan es field \<longleftrightarrow> map_of (pairs es) field \<noteq> None"
  by (induction es field rule: HashExists_scan.induct) auto

lemma HashSet_scan_pairs:
  "even (length es) \<Longrightarrow> pairs (fst (HashSet_scan es field v)) = AList.update field v (pairs es)"
  by (induction es field v rule: HashSet_scan.induct) (auto split: prod.splits)

lemma HashSet_scan_even: "even (length (fst (HashSet_scan es field v))) \<longleftrightarrow> even (length es)"
  by (induction es field v rule: HashSet_scan.induct) (auto split: prod.splits)

lemma HashSet_scan_added:
  "even (length es) \<Longrightarrow> snd (HashSet_scan es field v) \<longleftrightarrow> map_of (pairs es) field = None"
  by (induction es field v rule: HashSet_scan.induct) (auto split: prod.splits)

lemma HashDel_scan_even: "even (length (fst (HashDel_scan es field))) \<longleftrightarrow> even (length es)"
  by (induction es field rule: HashDel_scan.induct) (auto split: prod.splits)

lemma HashDel_scan_pairs:
  "distinct (map fst (pairs es)) \<Longrightarrow> pairs (fst (HashDel_scan es field)) = AList.delete field (pairs es)"
  by (induction es field rule: HashDel_scan.induct) (auto simp: delete_absent split: prod.splits)

lemma HashDel_scan_found: "snd (HashDel_scan es field) \<longleftrightarrow> map_of (pairs es) field \<noteq> None"
  by (induction es field rule: HashDel_scan.induct) (auto split: prod.splits)

lemma HashEntries_scan_map:
  "distinct (map fst (pairs es)) \<Longrightarrow>
   map_of (HashEntries_scan es m) = map_of m ++ map_of (pairs es)"
proof (induction es m rule: HashEntries_scan.induct)
  case (1 f v es m)
  have "map_of (pairs es) f = None"
    using "1.prems" by (simp add: map_of_None_notin)
  with 1 show ?case
    by (auto simp: fun_eq_iff map_add_def split: option.splits)
qed auto

lemma HashEntries_scan_wf: "wf_gomap m \<Longrightarrow> wf_gomap (HashEntries_scan es m)"
  by (induction es m rule: HashEntries_scan.induct) (auto intro: inv_intros)

lemma HashKeys_scan_pairs: "HashKeys_scan es = map fst (pairs es)"
  by (induction es rule: HashKeys_scan.induct) auto

lemma HashValues_scan_pairs: "HashValues_scan es = map snd (pairs es)"
  by (induction es rule: HashValues_scan.induct) auto

subsection \<open>The operations on the map of the pairs\<close>

lemma HashGet_spec: "HashGet z field = (case hash_of z field of None \<Rightarrow> ([], False) | Some v \<Rightarrow> (v, True))"
  by (simp add: HashGet_def hash_of_def HashGet_scan_pairs)

lemma HashExists_spec [simp]: "HashExists z field \<longleftrightarrow> hash_of z field \<noteq> None"
  by (simp add: HashExists_def hash_of_def HashExists_scan_pairs)

lemma HashSet_map: "zl_hash_inv z \<Longrightarrow> hash_of (fst (HashSet z field v)) = (hash_of z)(field \<mapsto> v)"
  using HashSet_scan_pairs [of "entries z" field v]
  by (cases "HashSet_scan (entries z) field v")
    (simp add: HashSet_def hash_of_def zl_hash_inv_def)

lemma HashSet_added: "zl_hash_inv z \<Longrightarrow> snd (HashSet z field v) \<longleftrightarrow> hash_of z field = None"
  using HashSet_scan_added [of "entries z" field v]
  by (cases "HashSet_scan (entries z) field v")
    (simp add: HashSet_def hash_of_def zl_hash_inv_def)

lemma HashSet_inv [inv_intros]: "zl_hash_inv z \<Longrightarrow> zl_hash_inv (fst (HashSet z field v))"
  using HashSet_scan_pairs [of "entries z" field v] HashSet_scan_even [of "entries z" field v]
  by (cases "HashSet_scan (entries z) field v")
    (simp add: HashSet_def zl_hash_inv_def distinct_update)

lemma HashDel_map: "zl_hash_inv z \<Longrightarrow> hash_of (fst (HashDel z field)) = (hash_of z)(field := None)"
  using HashDel_scan_pairs [of "entries z" field]
  by (cases "HashDel_scan (entries z) field")
    (simp add: HashDel_def hash_of_def zl_hash_inv_def)

lemma HashDel_found: "snd (HashDel z field) \<longleftrightarrow> hash_of z field \<noteq> None"
  using HashDel_scan_found [of "entries z" field]
  by (cases "HashDel_scan (entries z) field") (simp add: HashDel_def hash_of_def)

lemma HashDel_inv [inv_intros]: "zl_hash_inv z \<Longrightarrow> zl_hash_inv (fst (HashDel z field))"
  using HashDel_scan_pairs [of "entries z" field] HashDel_scan_even [of "entries z" field]
  by (cases "HashDel_scan (entries z) field")
    (simp add: HashDel_def zl_hash_inv_def distinct_delete)

text \<open>Promotion keeps the map: \<open>HashEntries\<close> builds the hashtable of the same pairs.\<close>

lemma HashEntries_map: "zl_hash_inv z \<Longrightarrow> map_of (HashEntries z) = hash_of z"
  by (simp add: HashEntries_def hash_of_def zl_hash_inv_def HashEntries_scan_map)

lemma HashEntries_wf [inv_intros]: "wf_gomap (HashEntries z)"
  by (simp add: HashEntries_def HashEntries_scan_wf)

lemma HashLen_card: "zl_hash_inv z \<Longrightarrow> HashLen z = card (dom (hash_of z))"
  using card_dom_gomap [of "pairs (entries z)"]
  by (simp add: HashLen_def hash_of_def zl_hash_inv_def wf_gomap_def length_pairs)

section \<open>Ranges\<close>

definition redis_range :: "'a list \<Rightarrow> int \<Rightarrow> int \<Rightarrow> 'a list" where
  \<comment> \<open>the specification of a range with inclusive bounds, negative ones counted from the end\<close>
  "redis_range xs start stop =
     (let n = int (length xs);
          lo = max 0 (if start < 0 then n + start else start);
          hi = min (n - 1) (if stop < 0 then n + stop else stop)
      in map (\<lambda>i. xs ! nat i) [lo..hi])"

lemma segment_eq_map_upto:
  assumes "0 \<le> lo" "hi < int (length xs)" "lo \<le> hi"
  shows "take (nat (hi - lo + 1)) (drop (nat lo) xs) = map (\<lambda>i. xs ! nat i) [lo..hi]"
proof (rule nth_equalityI)
  show "length (take (nat (hi - lo + 1)) (drop (nat lo) xs)) = length (map (\<lambda>i. xs ! nat i) [lo..hi])"
    using assms by simp
  fix k
  assume "k < length (take (nat (hi - lo + 1)) (drop (nat lo) xs))"
  then have k: "k < nat (hi - lo + 1)" by simp
  then have "[lo..hi] ! k = lo + int k" by (simp add: nth_upto)
  moreover have "nat lo + k = nat (lo + int k)" using assms(1) by simp
  ultimately show "take (nat (hi - lo + 1)) (drop (nat lo) xs) ! k = map (\<lambda>i. xs ! nat i) [lo..hi] ! k"
    using k assms by simp
qed

lemma ZipList_Range_spec: "ZipList_Range z start stop = redis_range (entries z) start stop"
proof -
  let ?n = "int (length (entries z))"
  define lo where "lo = max 0 (if start < 0 then ?n + start else start)"
  define hi where "hi = min (?n - 1) (if stop < 0 then ?n + stop else stop)"
  have "redis_range (entries z) start stop = map (\<lambda>i. entries z ! nat i) [lo..hi]"
    by (simp add: redis_range_def lo_def hi_def Let_def)
  moreover have "ZipList_Range z start stop =
      (if ?n = 0 \<or> hi < lo then [] else take (nat (hi - lo + 1)) (drop (nat lo) (entries z)))"
    by (auto simp: ZipList_Range_def Let_def lo_def hi_def)
  moreover have "0 \<le> lo" "hi < ?n" by (simp_all add: lo_def hi_def)
  ultimately show ?thesis using segment_eq_map_upto [of lo hi "entries z"] by auto
qed

section \<open>Properties\<close>

text \<open>C23: the flat array of field, value, field, value implements a finite map. On a well-formed
  array \<open>HashGet\<close> and \<open>HashExists\<close> look a field up, \<open>HashSet\<close> updates it in place or appends
  it and reports which, \<open>HashDel\<close> removes it and reports whether it was there, both keep
  the array well-formed, and \<open>HashLen\<close> is the number of fields.\<close>

theorem ziplist_implements_map:
  assumes "zl_hash_inv z"
  shows "(HashGet z f = (case hash_of z f of None \<Rightarrow> ([], False) | Some v \<Rightarrow> (v, True))) \<and>
    (HashExists z f \<longleftrightarrow> f \<in> dom (hash_of z)) \<and>
    (zl_hash_inv (fst (HashSet z f v)) \<and> hash_of (fst (HashSet z f v)) = (hash_of z)(f \<mapsto> v) \<and>
         (snd (HashSet z f v) \<longleftrightarrow> f \<notin> dom (hash_of z))) \<and>
    (zl_hash_inv (fst (HashDel z f)) \<and> hash_of (fst (HashDel z f)) = (hash_of z)(f := None) \<and>
         (snd (HashDel z f) \<longleftrightarrow> f \<in> dom (hash_of z))) \<and>
    (HashLen z = card (dom (hash_of z)))"
  using assms by (auto simp: HashGet_spec HashSet_map HashSet_added HashSet_inv HashDel_map HashDel_found
    HashDel_inv HashLen_card domIff)

lemma ziplist_implements_map_witness:
  "HashGet (fst (HashSet NewZipList ''f'' ''v'')) ''f'' = (''v'', True)"
  using ziplist_implements_map [OF HashSet_inv [OF NewZipList_inv], of "''f''" "''v''" "''f''" "[]"]
  by (simp add: HashSet_map)

end
