(* ===== verification/Config.thy ===== *)
theory Config
  imports Prelude
begin

text \<open>
  \<open>config/config.go\<close>: the tuning variables. They are Go variables, so the model takes
  them as a record that every operation reads; \<open>default_config\<close> holds the source's values.
  \<open>EvictionRatio\<close> is a \<open>float64\<close> that the code uses in one expression only,
  \<open>int(config.EvictionRatio*float64(config.KeysLimit))\<close>; the record holds the function
  \<open>EvictionCount\<close> that maps a limit to the value of that expression.
\<close>

record config =
  Host :: string
  Port :: int
  KeysLimit :: int
  EvictionCount :: "int \<Rightarrow> int"
  EvictionStrategy :: string
  LRUSampleSize :: int
  AOFFile :: string
  HashMaxZiplistEntries :: int
  HashMaxZiplistValue :: int
  ListMaxZiplistSize :: int
  SetMaxIntsetEntries :: int

definition default_config :: config where
  "default_config =
     \<lparr>Host = ''0.0.0.0'', Port = 7379, KeysLimit = 100,
      EvictionCount = (\<lambda>limit. limit * 2 div 5), EvictionStrategy = ''allkeys-lru'',
      LRUSampleSize = 5, AOFFile = ''./velox.aof'',
      HashMaxZiplistEntries = 128, HashMaxZiplistValue = 64,
      ListMaxZiplistSize = 128, SetMaxIntsetEntries = 512\<rparr>"

definition config_ok :: "config \<Rightarrow> bool" where
  \<comment> \<open>the thresholds are positive, as in the source\<close>
  "config_ok c \<longleftrightarrow> 1 \<le> KeysLimit c \<and> 1 \<le> ListMaxZiplistSize c"

lemma config_ok_default [simp, inv_intros]: "config_ok default_config"
  by (simp add: config_ok_def default_config_def)

end
