(* ===== verification/QuickList.thy ===== *)
theory QuickList
  imports ZipList Config
begin

text \<open>
  \<open>core/quicklist.go\<close>: a doubly linked list of nodes, each with a \<open>ZipList\<close>. Nodes live
  in a heap of their own (no node is shared between two lists): \<open>nodes\<close> maps an address
  to a node, \<open>qfresh\<close> is the next unused address, and a Go pointer is an address option
  with \<open>None\<close> for \<open>nil\<close>. A dereference of \<open>nil\<close> is the panic \<open>NilDeref\<close>. The loops that
  follow \<open>next\<close> pointers are partial functions, \<open>None\<close> being a loop that never ends;
  the lemmas show that they end on every well-formed list and that the operations
  are those of the sequence of all elements.
\<close>

section \<open>The structure\<close>

record QuickListNode =
  zl :: ZipList
  prev_node :: "nat option"
  next_node :: "nat option"

record QuickList =
  nodes :: "nat \<Rightarrow> QuickListNode"
  qfresh :: nat
  ql_head :: "nat option"
  ql_tail :: "nat option"
  ql_count :: int
  ql_len :: int

definition nil_node :: QuickListNode where
  "nil_node = \<lparr>zl = NewZipList, prev_node = None, next_node = None\<rparr>"

definition NewQuickList :: QuickList where
  "NewQuickList =
     \<lparr>nodes = (\<lambda>_. nil_node), qfresh = 0, ql_head = None, ql_tail = None, ql_count = 0, ql_len = 0\<rparr>"

definition QuickList_Len :: "QuickList \<Rightarrow> int" where
  "QuickList_Len q = ql_count q"

definition ensureHead :: "QuickList \<Rightarrow> QuickList" where
  "ensureHead q =
     (case ql_head q of
        None \<Rightarrow>
          let a = qfresh q in
          q\<lparr>nodes := (nodes q)(a := nil_node), qfresh := Suc a,
            ql_head := Some a, ql_tail := Some a, ql_len := 1\<rparr>
      | Some _ \<Rightarrow> q)"

section \<open>Push\<close>

definition new_head :: "QuickList \<Rightarrow> nat \<Rightarrow> QuickList" where
  \<comment> \<open>the body of the \<open>if\<close> of \<open>LPush\<close>: link a new node before the head \<open>h\<close>\<close>
  "new_head q h =
     (let a = qfresh q;
          ns1 = (nodes q)(a := nil_node\<lparr>next_node := Some h\<rparr>);
          ns2 = ns1(h := (ns1 h)\<lparr>prev_node := Some a\<rparr>)
      in q\<lparr>nodes := ns2, qfresh := Suc a, ql_head := Some a, ql_len := ql_len q + 1\<rparr>)"

definition new_tail :: "QuickList \<Rightarrow> nat \<Rightarrow> QuickList" where
  "new_tail q t =
     (let a = qfresh q;
          ns1 = (nodes q)(a := nil_node\<lparr>prev_node := Some t\<rparr>);
          ns2 = ns1(t := (ns1 t)\<lparr>next_node := Some a\<rparr>)
      in q\<lparr>nodes := ns2, qfresh := Suc a, ql_tail := Some a, ql_len := ql_len q + 1\<rparr>)"

definition set_zl :: "QuickList \<Rightarrow> nat \<Rightarrow> ZipList \<Rightarrow> QuickList" where
  "set_zl q a z = q\<lparr>nodes := (nodes q)(a := (nodes q a)\<lparr>zl := z\<rparr>)\<rparr>"

definition LPush_step :: "config \<Rightarrow> QuickList \<Rightarrow> string \<Rightarrow> QuickList outcome" where
  "LPush_step cfg q val =
     (case ql_head q of
        None \<Rightarrow> Inl NilDeref
      | Some h \<Rightarrow>
          let q1 = (if ListMaxZiplistSize cfg \<le> int (ZipList_Len (zl (nodes q h)))
                    then new_head q h else q)
          in (case ql_head q1 of
                None \<Rightarrow> Inl NilDeref
              | Some h1 \<Rightarrow>
                  Inr ((set_zl q1 h1 (ZipList_LPush (zl (nodes q1 h1)) [val]))
                         \<lparr>ql_count := ql_count q1 + 1\<rparr>)))"

fun LPush_loop :: "config \<Rightarrow> QuickList \<Rightarrow> string list \<Rightarrow> QuickList outcome" where
  "LPush_loop cfg q [] = Inr q"
| "LPush_loop cfg q (val # vals) =
     (case LPush_step cfg q val of Inl p \<Rightarrow> Inl p | Inr q' \<Rightarrow> LPush_loop cfg q' vals)"

definition QuickList_LPush :: "config \<Rightarrow> QuickList \<Rightarrow> string list \<Rightarrow> QuickList outcome" where
  "QuickList_LPush cfg q vals = LPush_loop cfg (ensureHead q) vals"

definition RPush_step :: "config \<Rightarrow> QuickList \<Rightarrow> string \<Rightarrow> QuickList outcome" where
  "RPush_step cfg q val =
     (case ql_tail q of
        None \<Rightarrow> Inl NilDeref
      | Some t \<Rightarrow>
          let q1 = (if ListMaxZiplistSize cfg \<le> int (ZipList_Len (zl (nodes q t)))
                    then new_tail q t else q)
          in (case ql_tail q1 of
                None \<Rightarrow> Inl NilDeref
              | Some t1 \<Rightarrow>
                  Inr ((set_zl q1 t1 (ZipList_RPush (zl (nodes q1 t1)) [val]))
                         \<lparr>ql_count := ql_count q1 + 1\<rparr>)))"

fun RPush_loop :: "config \<Rightarrow> QuickList \<Rightarrow> string list \<Rightarrow> QuickList outcome" where
  "RPush_loop cfg q [] = Inr q"
| "RPush_loop cfg q (val # vals) =
     (case RPush_step cfg q val of Inl p \<Rightarrow> Inl p | Inr q' \<Rightarrow> RPush_loop cfg q' vals)"

definition QuickList_RPush :: "config \<Rightarrow> QuickList \<Rightarrow> string list \<Rightarrow> QuickList outcome" where
  "QuickList_RPush cfg q vals = RPush_loop cfg (ensureHead q) vals"

section \<open>Pop\<close>

definition removeNode :: "QuickList \<Rightarrow> nat \<Rightarrow> QuickList" where
  "removeNode q node =
     (let p = prev_node (nodes q node);
          q1 = (case p of
                  Some a \<Rightarrow> q\<lparr>nodes := (nodes q)(a := (nodes q a)\<lparr>next_node := next_node (nodes q node)\<rparr>)\<rparr>
                | None \<Rightarrow> q\<lparr>ql_head := next_node (nodes q node)\<rparr>);
          q2 = (case next_node (nodes q1 node) of
                  Some b \<Rightarrow> q1\<lparr>nodes := (nodes q1)(b := (nodes q1 b)\<lparr>prev_node := prev_node (nodes q1 node)\<rparr>)\<rparr>
                | None \<Rightarrow> q1\<lparr>ql_tail := prev_node (nodes q1 node)\<rparr>);
          q3 = q2\<lparr>ql_len := ql_len q2 - 1\<rparr>
      in if ql_len q3 = 0 then q3\<lparr>ql_head := None, ql_tail := None\<rparr> else q3)"

definition QuickList_LPop :: "QuickList \<Rightarrow> QuickList \<times> string \<times> bool" where
  "QuickList_LPop q =
     (case ql_head q of
        None \<Rightarrow> (q, [], False)
      | Some h \<Rightarrow>
          let (z, val, ok) = ZipList_LPop (zl (nodes q h)) in
          if \<not> ok then (q, [], False)
          else
            let q1 = (set_zl q h z)\<lparr>ql_count := ql_count q - 1\<rparr>;
                q2 = (if ZipList_Len z = 0 then removeNode q1 h else q1)
            in (q2, val, True))"

definition QuickList_RPop :: "QuickList \<Rightarrow> QuickList \<times> string \<times> bool" where
  "QuickList_RPop q =
     (case ql_tail q of
        None \<Rightarrow> (q, [], False)
      | Some t \<Rightarrow>
          let (z, val, ok) = ZipList_RPop (zl (nodes q t)) in
          if \<not> ok then (q, [], False)
          else
            let q1 = (set_zl q t z)\<lparr>ql_count := ql_count q - 1\<rparr>;
                q2 = (if ZipList_Len z = 0 then removeNode q1 t else q1)
            in (q2, val, True))"

section \<open>Index, range and traversal\<close>

partial_function (option) Index_walk :: "(nat \<Rightarrow> QuickListNode) \<Rightarrow> nat option \<Rightarrow> int \<Rightarrow> (string \<times> bool) option" where
  "Index_walk ns node idx =
     (case node of
        None \<Rightarrow> Some ([], False)
      | Some a \<Rightarrow>
          let nodeLen = int (ZipList_Len (zl (ns a))) in
          if idx < nodeLen then Some (ZipList_Index (zl (ns a)) idx)
          else Index_walk ns (next_node (ns a)) (idx - nodeLen))"

definition QuickList_Index :: "QuickList \<Rightarrow> int \<Rightarrow> (string \<times> bool) option" where
  "QuickList_Index q idx =
     (if ql_count q = 0 then Some ([], False)
      else
        let i = (if idx < 0 then ql_count q + idx else idx) in
        if i < 0 \<or> ql_count q \<le> i then Some ([], False)
        else Index_walk (nodes q) (ql_head q) i)"

partial_function (option) Range_walk ::
  "(nat \<Rightarrow> QuickListNode) \<Rightarrow> nat option \<Rightarrow> int \<Rightarrow> int \<Rightarrow> int \<Rightarrow> string list \<Rightarrow> string list option" where
  "Range_walk ns node pos start stop result =
     (case node of
        None \<Rightarrow> Some result
      | Some a \<Rightarrow>
          if pos \<le> stop then
            let nodeLen = int (ZipList_Len (zl (ns a)));
                nodeEnd = pos + nodeLen - 1;
                result1 =
                  (if start \<le> nodeEnd then
                     let localStart = (if pos < start then start - pos else 0);
                         localStop = (if stop < nodeEnd then stop - pos else nodeLen - 1)
                     in result @ ZipList_Range (zl (ns a)) localStart localStop
                   else result)
            in Range_walk ns (next_node (ns a)) (pos + nodeLen) start stop result1
          else Some result)"

definition QuickList_Range :: "QuickList \<Rightarrow> int \<Rightarrow> int \<Rightarrow> string list option" where
  "QuickList_Range q start stop =
     (if ql_count q = 0 then Some []
      else
        let start1 = (if start < 0 then ql_count q + start else start);
            stop1 = (if stop < 0 then ql_count q + stop else stop);
            start2 = (if start1 < 0 then 0 else start1);
            stop2 = (if ql_count q \<le> stop1 then ql_count q - 1 else stop1)
        in if stop2 < start2 then Some []
           else Range_walk (nodes q) (ql_head q) 0 start2 stop2 [])"

partial_function (option) AllElements_walk ::
  "(nat \<Rightarrow> QuickListNode) \<Rightarrow> nat option \<Rightarrow> string list \<Rightarrow> string list option" where
  "AllElements_walk ns node result =
     (case node of
        None \<Rightarrow> Some result
      | Some a \<Rightarrow> AllElements_walk ns (next_node (ns a)) (result @ ZipList_Entries (zl (ns a))))"

definition AllElements :: "QuickList \<Rightarrow> string list option" where
  "AllElements q = AllElements_walk (nodes q) (ql_head q) []"

section \<open>Well-formed lists\<close>

text \<open>
  \<open>dlist H p q as\<close>: the nodes at the addresses \<open>as\<close> are linked both ways in this order,
  the first has \<open>p\<close> for its predecessor and the last has \<open>q\<close> for its successor.
\<close>

fun dlist :: "(nat \<Rightarrow> QuickListNode) \<Rightarrow> nat option \<Rightarrow> nat option \<Rightarrow> nat list \<Rightarrow> bool" where
  "dlist H p q [] \<longleftrightarrow> True"
| "dlist H p q (a # as) \<longleftrightarrow>
     prev_node (H a) = p \<and> next_node (H a) = (case as of [] \<Rightarrow> q | b # _ \<Rightarrow> Some b) \<and> dlist H (Some a) q as"

definition elems_of :: "(nat \<Rightarrow> QuickListNode) \<Rightarrow> nat list \<Rightarrow> string list" where
  "elems_of H as = concat (map (\<lambda>a. entries (zl (H a))) as)"

definition ql_links :: "QuickList \<Rightarrow> nat list \<Rightarrow> bool" where
  "ql_links q as \<longleftrightarrow>
     distinct as \<and> (\<forall>a \<in> set as. a < qfresh q) \<and> dlist (nodes q) None None as \<and>
     ql_head q = (if as = [] then None else Some (hd as)) \<and>
     ql_tail q = (if as = [] then None else Some (last as)) \<and>
     ql_len q = int (length as) \<and> ql_count q = int (length (elems_of (nodes q) as))"

definition nodes_filled :: "QuickList \<Rightarrow> nat list \<Rightarrow> bool" where
  "nodes_filled q as \<longleftrightarrow> (\<forall>a \<in> set as. entries (zl (nodes q a)) \<noteq> [])"

definition ql_rep :: "QuickList \<Rightarrow> nat list \<Rightarrow> bool" where
  "ql_rep q as \<longleftrightarrow> ql_links q as \<and> nodes_filled q as"

definition ql_inv :: "QuickList \<Rightarrow> bool" where
  "ql_inv q \<longleftrightarrow> (\<exists>as. ql_rep q as)"

definition ql_list :: "QuickList \<Rightarrow> string list" where
  \<comment> \<open>the sequence a list stands for, read off by the source's own traversal\<close>
  "ql_list q = (case AllElements q of Some xs \<Rightarrow> xs | None \<Rightarrow> [])"

lemma elems_of_simps [simp]:
  "elems_of H [] = []" "elems_of H (a # as) = entries (zl (H a)) @ elems_of H as"
  "elems_of H (as @ bs) = elems_of H as @ elems_of H bs"
  by (simp_all add: elems_of_def)

lemma elems_of_cong:
  "(\<And>a. a \<in> set as \<Longrightarrow> zl (H' a) = zl (H a)) \<Longrightarrow> elems_of H' as = elems_of H as"
  by (simp add: elems_of_def cong: map_cong)

lemma dlist_cong:
  "(\<And>a. a \<in> set as \<Longrightarrow> prev_node (H' a) = prev_node (H a) \<and> next_node (H' a) = next_node (H a)) \<Longrightarrow>
   dlist H' p q as \<longleftrightarrow> dlist H p q as"
  by (induction as arbitrary: p) auto

lemma dlist_append:
  "dlist H p q (as @ bs) \<longleftrightarrow>
     dlist H p (case bs of [] \<Rightarrow> q | b # _ \<Rightarrow> Some b) as \<and>
     dlist H (if as = [] then p else Some (last as)) q bs"
  by (induction as arbitrary: p) (auto split: list.splits)

lemma NewQuickList_rep: "ql_rep NewQuickList []"
  by (simp add: ql_rep_def ql_links_def nodes_filled_def NewQuickList_def)

lemma NewQuickList_inv [simp, inv_intros]: "ql_inv NewQuickList"
  using NewQuickList_rep by (auto simp: ql_inv_def)

section \<open>Traversal\<close>

lemma AllElements_walk_rep:
  "dlist H p None as \<Longrightarrow>
   AllElements_walk H (case as of [] \<Rightarrow> None | a # _ \<Rightarrow> Some a) result = Some (result @ elems_of H as)"
proof (induction as arbitrary: p result)
  case Nil
  then show ?case by (simp add: AllElements_walk.simps)
next
  case (Cons a as)
  then show ?case
    by (subst AllElements_walk.simps) (auto simp: ZipList_Entries_def)
qed

lemma head_case: "(if as = [] then None else Some (hd as)) = (case as of [] \<Rightarrow> None | a # _ \<Rightarrow> Some a)"
  by (cases as) simp_all

lemma AllElements_rep: "ql_links q as \<Longrightarrow> AllElements q = Some (elems_of (nodes q) as)"
  using AllElements_walk_rep [of "nodes q" None as "[]"]
  by (simp add: AllElements_def ql_links_def head_case)

lemma ql_list_rep: "ql_links q as \<Longrightarrow> ql_list q = elems_of (nodes q) as"
  by (simp add: ql_list_def AllElements_rep)

lemma ql_list_count: "ql_inv q \<Longrightarrow> ql_count q = int (length (ql_list q))"
  by (auto simp: ql_inv_def ql_rep_def ql_list_rep) (simp add: ql_links_def)

lemma AllElements_total: "ql_inv q \<Longrightarrow> AllElements q = Some (ql_list q)"
  by (auto simp: ql_inv_def ql_rep_def ql_list_rep AllElements_rep)

lemma Index_walk_rep:
  "dlist H p None as \<Longrightarrow> 0 \<le> idx \<Longrightarrow> idx < int (length (elems_of H as)) \<Longrightarrow>
   Index_walk H (case as of [] \<Rightarrow> None | a # _ \<Rightarrow> Some a) idx = Some (elems_of H as ! nat idx, True)"
proof (induction as arbitrary: p idx)
  case Nil
  then show ?case by simp
next
  case (Cons a as)
  let ?n = "int (length (entries (zl (H a))))"
  show ?case
  proof (cases "idx < ?n")
    case True
    with Cons.prems show ?thesis
      by (subst Index_walk.simps)
        (simp add: ZipList_Len_def ZipList_Index_def nth_append nat_less_iff)
  next
    case False
    with Cons.prems have "Index_walk H (case as of [] \<Rightarrow> None | a # _ \<Rightarrow> Some a) (idx - ?n)
        = Some (elems_of H as ! nat (idx - ?n), True)"
      by (intro Cons.IH [of "Some a"]) auto
    moreover have "nat (idx - ?n) = nat idx - length (entries (zl (H a)))"
      using False by simp
    ultimately show ?thesis
      using False Cons.prems by (subst Index_walk.simps) (auto simp: ZipList_Len_def nth_append nat_less_iff)
  qed
qed

definition seq_index :: "'a list \<Rightarrow> int \<Rightarrow> 'a option" where
  \<comment> \<open>the element at an index of the specification, negative ones counted from the end\<close>
  "seq_index xs idx =
     (let n = int (length xs); i = (if idx < 0 then n + idx else idx)
      in if 0 \<le> i \<and> i < n then Some (xs ! nat i) else None)"

lemma QuickList_Index_spec:
  assumes "ql_inv q"
  shows "QuickList_Index q idx =
    Some (case seq_index (ql_list q) idx of None \<Rightarrow> ([], False) | Some v \<Rightarrow> (v, True))"
proof -
  obtain as where rep: "ql_links q as" using assms by (auto simp: ql_inv_def ql_rep_def)
  then have count: "ql_count q = int (length (ql_list q))"
    and l: "ql_list q = elems_of (nodes q) as"
    by (simp_all add: ql_list_rep) (simp add: ql_links_def)
  have walk: "Index_walk (nodes q) (ql_head q) i = Some (ql_list q ! nat i, True)"
    if "0 \<le> i" "i < ql_count q" for i
    using Index_walk_rep [of "nodes q" None as i] rep that count l
    by (simp add: ql_links_def head_case)
  show ?thesis
    by (auto simp: QuickList_Index_def seq_index_def Let_def walk count)
qed

lemma ZipList_Range_nat: "ZipList_Range z (int a) (int b) = take (Suc b - a) (drop a (entries z))"
proof (cases "a < length (entries z) \<and> a \<le> b")
  case True
  then show ?thesis
    by (auto simp: ZipList_Range_def Let_def nat_diff_distrib' not_le nat_add_distrib Suc_diff_le
        min_def of_nat_diff intro!: take_all)
next
  case False
  then show ?thesis by (auto simp: ZipList_Range_def Let_def not_le)
qed

definition seg :: "nat \<Rightarrow> nat \<Rightarrow> 'a list \<Rightarrow> 'a list" where
  "seg s t xs = take (Suc t - s) (drop s xs)"

lemma seg_append: "seg s t (xs @ ys) =
    (if t < length xs then seg s t xs
     else seg s t xs @ take (Suc t - max s (length xs)) (drop (s - length xs) ys))"
proof (cases "s \<le> length xs")
  case True
  then show ?thesis by (auto simp: seg_def max_def not_less)
next
  case False
  then show ?thesis by (auto simp: seg_def max_def not_less)
qed

lemma node_part:
  assumes "length pre \<le> t"
  shows "(if int s \<le> int (length pre) + int (length e) - 1
          then seg s t pre @ ZipList_Range \<lparr>entries = e\<rparr>
                 (if int (length pre) < int s then int s - int (length pre) else 0)
                 (if int t < int (length pre) + int (length e) - 1 then int t - int (length pre)
                  else int (length e) - 1)
          else seg s t pre) = seg s t (pre @ e)"
proof (cases "int s \<le> int (length pre) + int (length e) - 1 \<and> e \<noteq> []")
  case True
  define a where "a = s - length pre"
  define b where "b = min (t - length pre) (length e - 1)"
  have a: "(if int (length pre) < int s then int s - int (length pre) else 0) = int a"
    by (auto simp: a_def of_nat_diff)
  have b: "(if int t < int (length pre) + int (length e) - 1 then int t - int (length pre)
            else int (length e) - 1) = int b"
    using True assms by (cases e) (auto simp: b_def of_nat_diff min_def)
  have "take (Suc b - a) (drop a e) = take (Suc t - max s (length pre)) (drop a e)"
    using True assms by (auto simp: b_def a_def min_def max_def Suc_diff_le intro!: take_all split: if_splits)
  with True assms show ?thesis
    unfolding a b ZipList_Range_nat by (simp add: seg_append a_def)
next
  case False
  then show ?thesis
    using assms by (auto simp: seg_append ZipList_Range_def)
qed

lemma Range_walk_rep:
  "dlist H p None as \<Longrightarrow>
   Range_walk H (case as of [] \<Rightarrow> None | a # _ \<Rightarrow> Some a) (int (length pre)) (int s) (int t) (seg s t pre)
     = Some (seg s t (pre @ elems_of H as))"
proof (induction as arbitrary: p pre)
  case Nil
  then show ?case by (simp add: Range_walk.simps)
next
  case (Cons a as)
  let ?e = "entries (zl (H a))"
  show ?case
  proof (cases "length pre \<le> t")
    case True
    have z: "\<lparr>entries = ?e\<rparr> = zl (H a)" by simp
    have "Range_walk H (Some a) (int (length pre)) (int s) (int t) (seg s t pre)
      = Range_walk H (next_node (H a)) (int (length pre) + int (length ?e)) (int s) (int t)
          (seg s t (pre @ ?e))"
      using True
      by (subst Range_walk.simps)
        (simp only: option.case Let_def ZipList_Len_def of_nat_le_iff if_True
          node_part [of pre t s ?e, unfolded z])
    also have "\<dots> = Some (seg s t ((pre @ ?e) @ elems_of H as))"
      using Cons.IH [of "Some a" "pre @ ?e"] Cons.prems by simp
    finally show ?thesis by simp
  next
    case False
    then show ?thesis by (subst Range_walk.simps) (simp add: seg_append)
  qed
qed

lemma redis_range_seg:
  "redis_range xs start stop =
     (let n = int (length xs);
          lo = max 0 (if start < 0 then n + start else start);
          hi = min (n - 1) (if stop < 0 then n + stop else stop)
      in if hi < lo then [] else seg (nat lo) (nat hi) xs)"
proof -
  have "seg (nat lo) (nat hi) xs = map (\<lambda>i. xs ! nat i) [lo..hi]"
    if "0 \<le> lo" "lo \<le> hi" "hi < int (length xs)" for lo hi
    proof -
    have "nat (hi - lo + 1) = Suc (nat hi) - nat lo" using that by linarith
    then show ?thesis using segment_eq_map_upto [of lo hi xs] that by (simp add: seg_def)
  qed
  then have key: "(if hi < lo then [] else seg (nat lo) (nat hi) xs) = map (\<lambda>i. xs ! nat i) [lo..hi]"
    if "0 \<le> lo" "hi < int (length xs)" for lo hi
    using that by (simp add: not_less)
  show ?thesis
    unfolding redis_range_def Let_def by (rule key [symmetric]) auto
qed

lemma QuickList_Range_spec:
  assumes "ql_inv q"
  shows "QuickList_Range q start stop = Some (redis_range (ql_list q) start stop)"
proof -
  obtain as where rep: "ql_links q as" using assms by (auto simp: ql_inv_def ql_rep_def)
  then have l: "ql_list q = elems_of (nodes q) as" by (rule ql_list_rep)
  have count: "ql_count q = int (length (ql_list q))" using rep by (simp add: l ql_links_def)
  define lo where "lo = max 0 (if start < 0 then ql_count q + start else start)"
  define hi where "hi = min (ql_count q - 1) (if stop < 0 then ql_count q + stop else stop)"
  have walk: "Range_walk (nodes q) (ql_head q) 0 lo hi [] = Some (seg (nat lo) (nat hi) (ql_list q))"
    if "lo \<le> hi"
    using Range_walk_rep [of "nodes q" None as "[]" "nat lo" "nat hi"] rep that
    by (simp add: ql_links_def head_case l seg_def lo_def)
  have "QuickList_Range q start stop =
      (if ql_count q = 0 \<or> hi < lo then Some [] else Range_walk (nodes q) (ql_head q) 0 lo hi [])"
  proof -
    have "(if x < 0 then 0 else x) = max 0 x" "(if n \<le> x then n - 1 else x) = min (n - 1) x"
      for x n :: int
      by auto
    then show ?thesis by (simp add: QuickList_Range_def Let_def lo_def hi_def)
  qed
  also have "\<dots> = Some (if hi < lo then [] else seg (nat lo) (nat hi) (ql_list q))"
  proof (cases "ql_count q = 0")
    case True
    then have "hi < lo" by (auto simp: lo_def hi_def)
    with True show ?thesis by simp
  next
    case False
    with walk show ?thesis by (simp add: not_less)
  qed
  also have "\<dots> = Some (redis_range (ql_list q) start stop)"
    by (simp add: redis_range_seg Let_def lo_def hi_def count)
  finally show ?thesis .
qed

section \<open>Pushing\<close>

text \<open>
  The state the push loops run from: linked, not empty, and either every node has an
  element or the list is the single empty node that \<open>ensureHead\<close> just made.
\<close>

definition pushable :: "QuickList \<Rightarrow> nat list \<Rightarrow> bool" where
  "pushable q as \<longleftrightarrow> ql_links q as \<and> as \<noteq> [] \<and> (nodes_filled q as \<or> (\<exists>a. as = [a] \<and> entries (zl (nodes q a)) = []))"

lemma ensureHead_pushable:
  assumes "ql_rep q as"
  shows "\<exists>as'. pushable (ensureHead q) as' \<and> elems_of (nodes (ensureHead q)) as' = elems_of (nodes q) as"
proof (cases as)
  case Nil
  then have "pushable (ensureHead q) [qfresh q]"
    using assms
    by (simp add: pushable_def ql_rep_def ql_links_def ensureHead_def Let_def nil_node_def NewZipList_def)
  moreover have "elems_of (nodes (ensureHead q)) [qfresh q] = []"
    using Nil assms
    by (simp add: ql_rep_def ql_links_def ensureHead_def Let_def nil_node_def NewZipList_def)
  ultimately show ?thesis using Nil by auto
next
  case (Cons a list)
  with assms have "ensureHead q = q" by (simp add: ql_rep_def ql_links_def ensureHead_def)
  with assms Cons show ?thesis by (auto simp: pushable_def ql_rep_def)
qed

lemma nodes_set_zl [simp]: "nodes (set_zl q a z) = (nodes q)(a := (nodes q a)\<lparr>zl := z\<rparr>)"
  by (simp add: set_zl_def)

lemma set_zl_simps [simp]:
  "qfresh (set_zl q a z) = qfresh q" "ql_head (set_zl q a z) = ql_head q"
  "ql_tail (set_zl q a z) = ql_tail q" "ql_len (set_zl q a z) = ql_len q"
  "ql_count (set_zl q a z) = ql_count q"
  by (simp_all add: set_zl_def)

lemma dlist_set_zl [simp]:
  "dlist (H(a := (H a)\<lparr>zl := z\<rparr>)) p q as \<longleftrightarrow> dlist H p q as"
  by (rule dlist_cong) simp

lemma elems_of_update_other [simp]: "a \<notin> set as \<Longrightarrow> elems_of (H(a := n)) as = elems_of H as"
  by (rule elems_of_cong) auto

lemma dlist_update_other [simp]: "a \<notin> set as \<Longrightarrow> dlist (H(a := n)) p q as \<longleftrightarrow> dlist H p q as"
  by (rule dlist_cong) auto

lemma new_head_links:
  assumes "ql_links q (h # as)"
  shows "ql_links (new_head q h) (qfresh q # h # as)"
    and "elems_of (nodes (new_head q h)) (qfresh q # h # as) = elems_of (nodes q) (h # as)"
    and "entries (zl (nodes (new_head q h) (qfresh q))) = []"
    and "b \<in> set (h # as) \<Longrightarrow> zl (nodes (new_head q h) b) = zl (nodes q b)"
  using assms by (auto simp: ql_links_def new_head_def Let_def nil_node_def NewZipList_def)

lemma push_head_rep:
  assumes "ql_links q (h # as)" and "\<forall>a \<in> set as. entries (zl (nodes q a)) \<noteq> []"
  shows "ql_rep ((set_zl q h (ZipList_LPush (zl (nodes q h)) [val]))\<lparr>ql_count := ql_count q + 1\<rparr>) (h # as)"
  using assms by (auto simp: ql_rep_def ql_links_def nodes_filled_def ZipList_LPush_def)

lemma LPush_step_rep:
  assumes "pushable q as" and "1 \<le> ListMaxZiplistSize cfg"
  shows "\<exists>q' as'. LPush_step cfg q val = Inr q' \<and> ql_rep q' as' \<and> as' \<noteq> [] \<and>
    elems_of (nodes q') as' = val # elems_of (nodes q) as"
proof -
  obtain h tl where as: "as = h # tl" using assms(1) by (cases as) (auto simp: pushable_def)
  with assms(1) have links: "ql_links q (h # tl)" and head: "ql_head q = Some h"
    and tl: "\<forall>a \<in> set tl. entries (zl (nodes q a)) \<noteq> []"
    and h: "h \<notin> set tl"
    by (auto simp: pushable_def ql_links_def nodes_filled_def)
  show ?thesis
  proof (cases "ListMaxZiplistSize cfg \<le> int (ZipList_Len (zl (nodes q h)))")
    case True
    note n = new_head_links [OF links]
    have "entries (zl (nodes q h)) \<noteq> []"
      using True assms(2) by (auto simp: ZipList_Len_def)
    then have "\<forall>a \<in> set (h # tl). entries (zl (nodes (new_head q h) a)) \<noteq> []"
      using tl n(4) by auto
    note rep = push_head_rep [OF n(1) this, of val]
    define q1 where "q1 = new_head q h"
    define q' where "q' = (set_zl q1 (qfresh q) (ZipList_LPush (zl (nodes q1 (qfresh q))) [val]))
      \<lparr>ql_count := ql_count q1 + 1\<rparr>"
    have a: "ql_head q1 = Some (qfresh q)" "qfresh q \<notin> set (h # tl)"
      using n(1) by (auto simp: q1_def ql_links_def)
    then have "LPush_step cfg q val = Inr q'"
      using True head by (simp add: LPush_step_def Let_def q'_def flip: q1_def)
    moreover have "elems_of (nodes q') (qfresh q # h # tl) = val # elems_of (nodes q) (h # tl)"
      using a(2) n(2,3) by (simp add: q'_def ZipList_LPush_def flip: q1_def)
    ultimately show ?thesis
      using rep by (intro exI [of _ q'] exI [of _ "qfresh q # h # tl"]) (simp add: as q'_def q1_def)
  next
    case False
    with push_head_rep [OF links tl, of val] head h show ?thesis
      by (fastforce simp: LPush_step_def as ZipList_LPush_def)
  qed
qed

lemma ql_rep_pushable: "ql_rep q as \<Longrightarrow> as \<noteq> [] \<Longrightarrow> pushable q as"
  by (simp add: ql_rep_def pushable_def)

lemma LPush_loop_rep:
  "pushable q as \<Longrightarrow> 1 \<le> ListMaxZiplistSize cfg \<Longrightarrow>
   vals \<noteq> [] \<or> nodes_filled q as \<Longrightarrow>
   \<exists>q' as'. LPush_loop cfg q vals = Inr q' \<and> ql_rep q' as' \<and>
     elems_of (nodes q') as' = rev vals @ elems_of (nodes q) as"
proof (induction vals arbitrary: q as)
  case Nil
  then show ?case by (auto simp: pushable_def ql_rep_def)
next
  case (Cons val vals)
  obtain q1 as1 where 1: "LPush_step cfg q val = Inr q1" "ql_rep q1 as1" "as1 \<noteq> []"
    "elems_of (nodes q1) as1 = val # elems_of (nodes q) as"
    using LPush_step_rep [OF Cons.prems(1,2), of val] by auto
  then have "pushable q1 as1" "nodes_filled q1 as1"
    by (simp_all add: ql_rep_pushable) (simp add: ql_rep_def)
  with Cons.IH [of q1 as1] Cons.prems(2) 1 show ?case by auto
qed

lemma QuickList_LPush_spec:
  assumes "ql_inv q" and "1 \<le> ListMaxZiplistSize cfg" and "vals \<noteq> []"
  shows "\<exists>q'. QuickList_LPush cfg q vals = Inr q' \<and> ql_inv q' \<and> ql_list q' = rev vals @ ql_list q"
proof -
  obtain as where as: "ql_rep q as" using assms(1) by (auto simp: ql_inv_def)
  obtain as1 where 1: "pushable (ensureHead q) as1" "elems_of (nodes (ensureHead q)) as1 = elems_of (nodes q) as"
    using ensureHead_pushable [OF as] by auto
  obtain q' as' where 2: "LPush_loop cfg (ensureHead q) vals = Inr q'" "ql_rep q' as'"
    "elems_of (nodes q') as' = rev vals @ elems_of (nodes (ensureHead q)) as1"
    using LPush_loop_rep [OF 1(1) assms(2)] assms(3) by blast
  have "ql_list q' = elems_of (nodes q') as'" "ql_list q = elems_of (nodes q) as"
    using 2(2) as by (simp_all add: ql_rep_def ql_list_rep)
  with 1 2 show ?thesis by (auto simp: QuickList_LPush_def ql_inv_def)
qed

lemma new_tail_links:
  assumes "ql_links q (as @ [t])"
  shows "ql_links (new_tail q t) (as @ [t, qfresh q])"
    and "elems_of (nodes (new_tail q t)) (as @ [t, qfresh q]) = elems_of (nodes q) (as @ [t])"
    and "entries (zl (nodes (new_tail q t) (qfresh q))) = []"
    and "b \<in> set (as @ [t]) \<Longrightarrow> zl (nodes (new_tail q t) b) = zl (nodes q b)"
proof -
  have notin: "t \<notin> set as" "qfresh q \<notin> set as" "qfresh q \<noteq> t"
    using assms by (auto simp: ql_links_def)
  with assms show "ql_links (new_tail q t) (as @ [t, qfresh q])"
    by (cases "as = []")
      (auto simp: ql_links_def new_tail_def Let_def nil_node_def NewZipList_def dlist_append)
  show "elems_of (nodes (new_tail q t)) (as @ [t, qfresh q]) = elems_of (nodes q) (as @ [t])"
    "entries (zl (nodes (new_tail q t) (qfresh q))) = []"
    "b \<in> set (as @ [t]) \<Longrightarrow> zl (nodes (new_tail q t) b) = zl (nodes q b)"
    using notin by (auto simp: new_tail_def Let_def nil_node_def NewZipList_def)
qed

lemma push_tail_rep:
  assumes "ql_links q (as @ [t])" and "\<forall>a \<in> set as. entries (zl (nodes q a)) \<noteq> []"
  shows "ql_rep ((set_zl q t (ZipList_RPush (zl (nodes q t)) [val]))\<lparr>ql_count := ql_count q + 1\<rparr>) (as @ [t])"
  using assms by (auto simp: ql_rep_def ql_links_def nodes_filled_def ZipList_RPush_def)

lemma RPush_step_rep:
  assumes "pushable q as" and "1 \<le> ListMaxZiplistSize cfg"
  shows "\<exists>q' as'. RPush_step cfg q val = Inr q' \<and> ql_rep q' as' \<and> as' \<noteq> [] \<and>
    elems_of (nodes q') as' = elems_of (nodes q) as @ [val]"
proof -
  obtain init t where as: "as = init @ [t]"
    using assms(1) by (cases as rule: rev_cases) (auto simp: pushable_def)
  with assms(1) have links: "ql_links q (init @ [t])" and tail: "ql_tail q = Some t"
    and init: "\<forall>a \<in> set init. entries (zl (nodes q a)) \<noteq> []" and t: "t \<notin> set init"
    by (auto simp: pushable_def ql_links_def nodes_filled_def)
  show ?thesis
  proof (cases "ListMaxZiplistSize cfg \<le> int (ZipList_Len (zl (nodes q t)))")
    case True
    note n = new_tail_links [OF links]
    have "entries (zl (nodes q t)) \<noteq> []"
      using True assms(2) by (auto simp: ZipList_Len_def)
    then have "\<forall>a \<in> set (init @ [t]). entries (zl (nodes (new_tail q t) a)) \<noteq> []"
      using init n(4) by auto
    note rep = push_tail_rep [where as = "init @ [t]", simplified, OF n(1), of val]
    define q1 where "q1 = new_tail q t"
    define q' where "q' = (set_zl q1 (qfresh q) (ZipList_RPush (zl (nodes q1 (qfresh q))) [val]))
      \<lparr>ql_count := ql_count q1 + 1\<rparr>"
    have a: "ql_tail q1 = Some (qfresh q)" "qfresh q \<notin> set (init @ [t])"
      using n(1) by (auto simp: q1_def ql_links_def)
    then have "RPush_step cfg q val = Inr q'"
      using True tail by (simp add: RPush_step_def Let_def q'_def flip: q1_def)
    moreover have "elems_of (nodes q') (init @ [t, qfresh q]) = elems_of (nodes q) (init @ [t]) @ [val]"
      using a(2) n(2,3) by (simp add: q'_def ZipList_RPush_def flip: q1_def)
    moreover have "ql_rep q' (init @ [t, qfresh q])"
      using rep \<open>\<forall>a \<in> set (init @ [t]). _\<close> by (simp add: q'_def q1_def)
    ultimately show ?thesis
      by (intro exI [of _ q'] exI [of _ "init @ [t, qfresh q]"]) (simp add: as)
  next
    case False
    with push_tail_rep [OF links init, of val] tail t show ?thesis
      by (fastforce simp: RPush_step_def as ZipList_RPush_def)
  qed
qed

lemma RPush_loop_rep:
  "pushable q as \<Longrightarrow> 1 \<le> ListMaxZiplistSize cfg \<Longrightarrow>
   vals \<noteq> [] \<or> nodes_filled q as \<Longrightarrow>
   \<exists>q' as'. RPush_loop cfg q vals = Inr q' \<and> ql_rep q' as' \<and>
     elems_of (nodes q') as' = elems_of (nodes q) as @ vals"
proof (induction vals arbitrary: q as)
  case Nil
  then show ?case by (auto simp: pushable_def ql_rep_def)
next
  case (Cons val vals)
  obtain q1 as1 where 1: "RPush_step cfg q val = Inr q1" "ql_rep q1 as1" "as1 \<noteq> []"
    "elems_of (nodes q1) as1 = elems_of (nodes q) as @ [val]"
    using RPush_step_rep [OF Cons.prems(1,2), of val] by auto
  then have "pushable q1 as1" "nodes_filled q1 as1"
    by (simp_all add: ql_rep_pushable) (simp add: ql_rep_def)
  with Cons.IH [of q1 as1] Cons.prems(2) 1 show ?case by auto
qed

lemma QuickList_RPush_spec:
  assumes "ql_inv q" and "1 \<le> ListMaxZiplistSize cfg" and "vals \<noteq> []"
  shows "\<exists>q'. QuickList_RPush cfg q vals = Inr q' \<and> ql_inv q' \<and> ql_list q' = ql_list q @ vals"
proof -
  obtain as where as: "ql_rep q as" using assms(1) by (auto simp: ql_inv_def)
  obtain as1 where 1: "pushable (ensureHead q) as1" "elems_of (nodes (ensureHead q)) as1 = elems_of (nodes q) as"
    using ensureHead_pushable [OF as] by auto
  obtain q' as' where 2: "RPush_loop cfg (ensureHead q) vals = Inr q'" "ql_rep q' as'"
    "elems_of (nodes q') as' = elems_of (nodes (ensureHead q)) as1 @ vals"
    using RPush_loop_rep [OF 1(1) assms(2)] assms(3) by blast
  have "ql_list q' = elems_of (nodes q') as'" "ql_list q = elems_of (nodes q) as"
    using 2(2) as by (simp_all add: ql_rep_def ql_list_rep)
  with 1 2 show ?thesis by (auto simp: QuickList_RPush_def ql_inv_def)
qed

section \<open>Popping\<close>

lemma removeNode_head:
  assumes "ql_links q (h # as)" and "entries (zl (nodes q h)) = []"
  shows "ql_links (removeNode q h) as" and "b \<in> set as \<Longrightarrow> zl (nodes (removeNode q h) b) = zl (nodes q b)"
  using assms
  by (cases as; auto simp: ql_links_def removeNode_def Let_def)+

lemma removeNode_tail:
  assumes "ql_links q (as @ [t])" and "entries (zl (nodes q t)) = []"
  shows "ql_links (removeNode q t) as" and "b \<in> set as \<Longrightarrow> zl (nodes (removeNode q t) b) = zl (nodes q b)"
proof -
  have notin: "t \<notin> set as" using assms by (auto simp: ql_links_def)
  show "ql_links (removeNode q t) as"
    using assms notin
    by (cases as rule: rev_cases)
      (auto simp: ql_links_def removeNode_def Let_def dlist_append hd_append)
  show "zl (nodes (removeNode q t) b) = zl (nodes q b)" if "b \<in> set as"
    using assms notin that
    by (cases as rule: rev_cases)
      (auto simp: ql_links_def removeNode_def Let_def dlist_append)
qed

lemma ql_rep_set_zl:
  assumes "ql_rep q as" and "a \<in> set as" and "entries z \<noteq> []"
    and "int (length (elems_of ((nodes q)(a := (nodes q a)\<lparr>zl := z\<rparr>)) as)) = ql_count q - 1"
  shows "ql_rep ((set_zl q a z)\<lparr>ql_count := ql_count q - 1\<rparr>) as"
  using assms by (auto simp: ql_rep_def ql_links_def nodes_filled_def)

lemma ql_links_set_zl:
  assumes "ql_links q as"
    and "int (length (elems_of ((nodes q)(a := (nodes q a)\<lparr>zl := z\<rparr>)) as)) = ql_count q - 1"
  shows "ql_links ((set_zl q a z)\<lparr>ql_count := ql_count q - 1\<rparr>) as"
  using assms by (auto simp: ql_links_def)

lemma QuickList_LPop_rep:
  assumes "ql_rep q (h # as)"
  shows "\<exists>q' as' x xs. QuickList_LPop q = (q', x, True) \<and> ql_rep q' as' \<and>
    elems_of (nodes q) (h # as) = x # xs \<and> elems_of (nodes q') as' = xs"
proof -
  have links: "ql_links q (h # as)" and h: "h \<notin> set as" "ql_head q = Some h"
    and as: "\<forall>b \<in> set as. entries (zl (nodes q b)) \<noteq> []"
    using assms by (auto simp: ql_rep_def ql_links_def nodes_filled_def)
  obtain x es where e: "entries (zl (nodes q h)) = x # es"
    using assms by (cases "entries (zl (nodes q h))") (auto simp: ql_rep_def nodes_filled_def)
  define z where "z = (zl (nodes q h))\<lparr>entries := es\<rparr>"
  define q1 where "q1 = (set_zl q h z)\<lparr>ql_count := ql_count q - 1\<rparr>"
  have count: "int (length (elems_of ((nodes q)(h := (nodes q h)\<lparr>zl := z\<rparr>)) (h # as))) = ql_count q - 1"
    using links h e by (simp add: z_def ql_links_def)
  have links1: "ql_links q1 (h # as)"
    unfolding q1_def by (rule ql_links_set_zl [OF links count])
  have pop: "QuickList_LPop q = (if es = [] then removeNode q1 h else q1, x, True)"
    using h(2) e by (auto simp: QuickList_LPop_def ZipList_LPop_def ZipList_Len_def Let_def q1_def z_def)
  show ?thesis
  proof (cases "es = []")
    case True
    have emp: "entries (zl (nodes q1 h)) = []" by (simp add: q1_def z_def True)
    note r = removeNode_head [OF links1 emp]
    have "elems_of (nodes (removeNode q1 h)) as = elems_of (nodes q) as"
      using r(2) h(1) by (intro elems_of_cong) (auto simp: q1_def)
    moreover have "nodes_filled (removeNode q1 h) as"
      using r(2) as h(1) by (auto simp: nodes_filled_def q1_def)
    ultimately show ?thesis
      using True pop r(1) e by (auto simp: ql_rep_def)
  next
    case False
    have "ql_rep q1 (h # as)"
      unfolding q1_def
      by (rule ql_rep_set_zl [OF assms _ _ count]) (simp_all add: z_def False)
    with False pop e h(1) show ?thesis
      by (intro exI [of _ q1] exI [of _ "h # as"]) (auto simp: q1_def z_def)
  qed
qed

lemma QuickList_RPop_rep:
  assumes "ql_rep q (as @ [t])"
  shows "\<exists>q' as' x xs. QuickList_RPop q = (q', x, True) \<and> ql_rep q' as' \<and>
    elems_of (nodes q) (as @ [t]) = xs @ [x] \<and> elems_of (nodes q') as' = xs"
proof -
  have links: "ql_links q (as @ [t])" and t: "t \<notin> set as" "ql_tail q = Some t"
    and as: "\<forall>b \<in> set as. entries (zl (nodes q b)) \<noteq> []"
    using assms by (auto simp: ql_rep_def ql_links_def nodes_filled_def)
  obtain x es where e: "entries (zl (nodes q t)) = es @ [x]"
    using assms by (cases "entries (zl (nodes q t))" rule: rev_cases) (auto simp: ql_rep_def nodes_filled_def)
  define z where "z = (zl (nodes q t))\<lparr>entries := es\<rparr>"
  define q1 where "q1 = (set_zl q t z)\<lparr>ql_count := ql_count q - 1\<rparr>"
  have count: "int (length (elems_of ((nodes q)(t := (nodes q t)\<lparr>zl := z\<rparr>)) (as @ [t]))) = ql_count q - 1"
    using links t e by (simp add: z_def ql_links_def)
  have links1: "ql_links q1 (as @ [t])"
    unfolding q1_def by (rule ql_links_set_zl [OF links count])
  have pop: "QuickList_RPop q = (if es = [] then removeNode q1 t else q1, x, True)"
    using t(2) e
    by (auto simp: QuickList_RPop_def ZipList_RPop_def ZipList_Len_def Let_def q1_def z_def nth_append)
  show ?thesis
  proof (cases "es = []")
    case True
    have emp: "entries (zl (nodes q1 t)) = []" by (simp add: q1_def z_def True)
    note r = removeNode_tail [OF links1 emp]
    have "elems_of (nodes (removeNode q1 t)) as = elems_of (nodes q) as"
      using r(2) t(1) by (intro elems_of_cong) (auto simp: q1_def)
    moreover have "nodes_filled (removeNode q1 t) as"
      using r(2) as t(1) by (auto simp: nodes_filled_def q1_def)
    ultimately show ?thesis
      using True pop r(1) e by (auto simp: ql_rep_def)
  next
    case False
    have "ql_rep q1 (as @ [t])"
      unfolding q1_def
      by (rule ql_rep_set_zl [OF assms _ _ count]) (simp_all add: z_def False)
    with False pop e t(1) show ?thesis
      by (intro exI [of _ q1] exI [of _ "as @ [t]"]) (auto simp: q1_def z_def)
  qed
qed

lemma ql_rep_list: "ql_rep q as \<Longrightarrow> elems_of (nodes q) as = ql_list q"
  using ql_list_rep [of q as] by (simp add: ql_rep_def)

lemma ql_rep_empty_iff: "ql_rep q as \<Longrightarrow> elems_of (nodes q) as = [] \<longleftrightarrow> as = []"
  by (cases as) (auto simp: ql_rep_def nodes_filled_def)

lemma QuickList_pop_empty:
  assumes "ql_inv q" and "ql_list q = []"
  shows "QuickList_LPop q = (q, [], False)" and "QuickList_RPop q = (q, [], False)"
proof -
  obtain as where as: "ql_rep q as" using assms(1) by (auto simp: ql_inv_def)
  with assms(2) have "as = []" by (simp add: ql_rep_empty_iff [OF as, symmetric] ql_rep_list)
  with as have "ql_head q = None" "ql_tail q = None" by (simp_all add: ql_rep_def ql_links_def)
  then show "QuickList_LPop q = (q, [], False)" "QuickList_RPop q = (q, [], False)"
    by (simp_all add: QuickList_LPop_def QuickList_RPop_def)
qed

lemma QuickList_LPop_spec:
  assumes "ql_inv q" and "ql_list q = x # xs"
  shows "\<exists>q'. QuickList_LPop q = (q', x, True) \<and> ql_inv q' \<and> ql_list q' = xs"
proof -
  obtain as where as: "ql_rep q as" using assms(1) by (auto simp: ql_inv_def)
  then have l: "elems_of (nodes q) as = x # xs" using assms(2) by (simp add: ql_rep_list)
  then obtain h tl where "as = h # tl" by (cases as) auto
  with QuickList_LPop_rep [of q h tl] as l obtain q' as' where
    "QuickList_LPop q = (q', x, True)" "ql_rep q' as'" "elems_of (nodes q') as' = xs"
    by auto
  then show ?thesis by (auto simp: ql_inv_def ql_rep_list)
qed

lemma QuickList_RPop_spec:
  assumes "ql_inv q" and "ql_list q = xs @ [x]"
  shows "\<exists>q'. QuickList_RPop q = (q', x, True) \<and> ql_inv q' \<and> ql_list q' = xs"
proof -
  obtain as where as: "ql_rep q as" using assms(1) by (auto simp: ql_inv_def)
  then have l: "elems_of (nodes q) as = xs @ [x]" using assms(2) by (simp add: ql_rep_list)
  then obtain init t where "as = init @ [t]" by (cases as rule: rev_cases) auto
  with QuickList_RPop_rep [of q init t] as l obtain q' as' where
    "QuickList_RPop q = (q', x, True)" "ql_rep q' as'" "elems_of (nodes q') as' = xs"
    by auto
  then show ?thesis by (auto simp: ql_inv_def ql_rep_list)
qed

lemma ql_list_New [simp]: "ql_list NewQuickList = []"
  using ql_rep_list [OF NewQuickList_rep] by simp

section \<open>Properties\<close>

text \<open>C20: the doubly linked list of ziplists implements a sequence at both ends. With a node
  limit of at least one, pushing values on the left or right of any well-formed list does not
  panic, keeps the links, the node count and the element count consistent and no node empty,
  and yields the reversed values before, or the values after, the sequence; popping a
  non-empty list yields its first or last element and leaves the rest, popping an empty one
  reports so and changes nothing.\<close>

theorem quicklist_implements_deque:
  assumes "ql_inv q" "1 \<le> ListMaxZiplistSize cfg"
  shows "(vals \<noteq> [] \<longrightarrow>
           (\<exists>q'. QuickList_LPush cfg q vals = Inr q' \<and> ql_inv q' \<and> ql_list q' = rev vals @ ql_list q)) \<and>
    (vals \<noteq> [] \<longrightarrow>
           (\<exists>q'. QuickList_RPush cfg q vals = Inr q' \<and> ql_inv q' \<and> ql_list q' = ql_list q @ vals)) \<and>
    (\<exists>q'. ql_inv q' \<and> QuickList_LPop q = (case ql_list q of [] \<Rightarrow> (q', [], False) | x # xs \<Rightarrow> (q', x, True)) \<and>
           ql_list q' = tl (ql_list q)) \<and>
    (\<exists>q'. ql_inv q' \<and> QuickList_RPop q =
             (if ql_list q = [] then (q', [], False) else (q', last (ql_list q), True)) \<and>
           ql_list q' = butlast (ql_list q))"
proof (intro conjI)
  show "vals \<noteq> [] \<longrightarrow>
      (\<exists>q'. QuickList_LPush cfg q vals = Inr q' \<and> ql_inv q' \<and> ql_list q' = rev vals @ ql_list q)"
    using QuickList_LPush_spec [OF assms] by blast
  show "vals \<noteq> [] \<longrightarrow>
      (\<exists>q'. QuickList_RPush cfg q vals = Inr q' \<and> ql_inv q' \<and> ql_list q' = ql_list q @ vals)"
    using QuickList_RPush_spec [OF assms] by blast
  show "\<exists>q'. ql_inv q' \<and> QuickList_LPop q = (case ql_list q of [] \<Rightarrow> (q', [], False) | x # xs \<Rightarrow> (q', x, True)) \<and>
      ql_list q' = tl (ql_list q)"
    using QuickList_LPop_spec [OF assms(1)] QuickList_pop_empty(1) [OF assms(1)] assms(1)
    by (cases "ql_list q") fastforce+
  show "\<exists>q'. ql_inv q' \<and> QuickList_RPop q =
        (if ql_list q = [] then (q', [], False) else (q', last (ql_list q), True)) \<and>
      ql_list q' = butlast (ql_list q)"
    using QuickList_RPop_spec [OF assms(1)] QuickList_pop_empty(2) [OF assms(1)] assms(1)
    by (cases "ql_list q" rule: rev_cases) fastforce+
qed

lemma quicklist_implements_deque_witness:
  "\<exists>q. QuickList_LPush default_config NewQuickList [''a'', ''b''] = Inr q \<and> ql_inv q \<and>
       ql_list q = [''b'', ''a'']"
  using quicklist_implements_deque [of NewQuickList default_config "[''a'', ''b'']"]
  by (simp add: default_config_def)

text \<open>Reading a list does not depend on how it is cut into nodes. The walks of
  \<open>Index\<close>, \<open>Range\<close> and \<open>AllElements\<close> over the linked nodes end, and return the element or
  the inclusive range of the sequence, with negative indices counted from its end.\<close>

theorem quicklist_reads_sequence:
  assumes "ql_inv q"
  shows "(QuickList_Index q idx = Some (case seq_index (ql_list q) idx of None \<Rightarrow> ([], False) | Some v \<Rightarrow> (v, True))) \<and>
    (QuickList_Range q start stop = Some (redis_range (ql_list q) start stop)) \<and>
    (AllElements q = Some (ql_list q) \<and> QuickList_Len q = int (length (ql_list q)))"
  using assms by (simp_all add: QuickList_Index_spec QuickList_Range_spec AllElements_total QuickList_Len_def ql_list_count)

lemma quicklist_reads_sequence_witness:
  "QuickList_Range NewQuickList 0 (-1) = Some []"
  using quicklist_reads_sequence [where start = 0 and stop = "-1", OF NewQuickList_inv] by (simp add: redis_range_def)

end
