(* ===== verification/SkipList.thy ===== *)
theory SkipList
  imports ZipList "HOL-Library.Monad_Syntax"
begin

text \<open>
  \<open>core/skiplist.go\<close>: the skip list of the sorted sets, with its nodes as records in a heap
  of the list (\<open>sl_nodes\<close>, an address per allocated node), an array of forward pointers
  and spans per node, and the back pointers. A pointer is an address, \<open>nil\<close> is \<open>None\<close>.
  A result \<open>None\<close> of an operation stands for no normal return: a walk that does not end
  or an index outside the \<open>level\<close> slice of a node.
  Scores are the 64 bits of an IEEE 754 double, with the comparisons of the language
  (\<open>feq\<close> and \<open>flt\<close> are false on NaN, the zeros are equal); members compare as byte strings.
\<close>

section \<open>Scores and members\<close>

type_synonym float64 = "64 word"

definition f_magnitude :: "float64 \<Rightarrow> int" where
  "f_magnitude w = uint w mod 2 ^ 63"

definition f_nan :: "float64 \<Rightarrow> bool" where
  "f_nan w \<longleftrightarrow> 0x7FF0000000000000 < f_magnitude w"

definition f_key :: "float64 \<Rightarrow> int" where
  "f_key w = (if bit w 63 then - f_magnitude w else f_magnitude w)"

definition flt :: "float64 \<Rightarrow> float64 \<Rightarrow> bool" where
  "flt a b \<longleftrightarrow> \<not> f_nan a \<and> \<not> f_nan b \<and> f_key a < f_key b"

definition feq :: "float64 \<Rightarrow> float64 \<Rightarrow> bool" where
  "feq a b \<longleftrightarrow> \<not> f_nan a \<and> \<not> f_nan b \<and> f_key a = f_key b"

fun str_less :: "string \<Rightarrow> string \<Rightarrow> bool" where
  "str_less [] [] = False"
| "str_less [] (d # ds) = True"
| "str_less (c # cs) [] = False"
| "str_less (c # cs) (d # ds) =
     (if c = d then str_less cs ds else (of_char c :: nat) < of_char d)"

definition str_le :: "string \<Rightarrow> string \<Rightarrow> bool" where
  "str_le s t \<longleftrightarrow> s = t \<or> str_less s t"

section \<open>The data\<close>

record SkipListLevel =
  forward :: "nat option"
  span :: int

record SkipListNode =
  member :: string
  score :: float64
  backward :: "nat option"
  levels :: "SkipListLevel list"

record SkipList =
  sl_nodes :: "nat \<Rightarrow> SkipListNode"
  sl_fresh :: nat
  sl_head :: nat
  sl_tail :: "nat option"
  sl_length :: int
  sl_level :: nat

definition SkipListMaxLevel :: nat where
  "SkipListMaxLevel = 32"

definition no_level :: SkipListLevel where
  "no_level = \<lparr>forward = None, span = 0\<rparr>"

definition randomLevel :: "int64 list \<Rightarrow> nat" where
  \<comment> \<open>\<open>draws\<close>: what \<open>rand.Int\<close> returns; a draw continues when its low 16 bits are below \<open>0xFFFF / 4\<close>\<close>
  "randomLevel draws =
     (let level = 1 + length (takeWhile (\<lambda>r. 4 * unat (and r 0xFFFF) < 0xFFFF) draws)
      in if SkipListMaxLevel < level then SkipListMaxLevel else level)"

definition CreateSkipList :: SkipList where
  "CreateSkipList =
     \<lparr>sl_nodes = (\<lambda>_. \<lparr>member = [], score = 0, backward = None, levels = replicate SkipListMaxLevel no_level\<rparr>),
      sl_fresh = 1, sl_head = 0, sl_tail = None, sl_length = 0, sl_level = 1\<rparr>"

section \<open>Walking\<close>

definition level_at :: "SkipListNode \<Rightarrow> nat \<Rightarrow> SkipListLevel option" where
  "level_at n i = (if i < length (levels n) then Some (levels n ! i) else None)"

definition set_level :: "(nat \<Rightarrow> SkipListNode) \<Rightarrow> nat \<Rightarrow> nat \<Rightarrow> SkipListLevel \<Rightarrow> nat \<Rightarrow> SkipListNode" where
  "set_level H a i l = H(a := (H a)\<lparr>levels := (levels (H a))[i := l]\<rparr>)"

partial_function (option) walk ::
  "(SkipListNode \<Rightarrow> int \<Rightarrow> bool) \<Rightarrow> (nat \<Rightarrow> SkipListNode) \<Rightarrow> nat \<Rightarrow> nat \<Rightarrow> int \<Rightarrow> (nat \<times> int) option" where
  \<comment> \<open>the inner loop of every search: forward on level \<open>i\<close> while \<open>go\<close> holds of the next node and
      of the rank reached there\<close>
  "walk go H i x r = do {
     l \<leftarrow> level_at (H x) i;
     (case forward l of
        None \<Rightarrow> Some (x, r)
      | Some y \<Rightarrow> if go (H y) (r + span l) then walk go H i y (r + span l) else Some (x, r))
   }"

fun search_levels ::
  "(SkipListNode \<Rightarrow> int \<Rightarrow> bool) \<Rightarrow> (nat \<Rightarrow> SkipListNode) \<Rightarrow> nat \<Rightarrow> nat \<Rightarrow> int \<Rightarrow> (nat list \<times> int list) option" where
  \<comment> \<open>the outer loop over the levels, top down: \<open>update\<close> and \<open>rank\<close>, by level\<close>
  "search_levels go H 0 x r = Some ([], [])"
| "search_levels go H (Suc i) x r = do {
     (x1, r1) \<leftarrow> walk go H i x r;
     (us, rs) \<leftarrow> search_levels go H i x1 r1;
     Some (us @ [x1], rs @ [r1])
   }"

definition goes_before :: "float64 \<Rightarrow> string \<Rightarrow> SkipListNode \<Rightarrow> int \<Rightarrow> bool" where
  "goes_before s m n r \<longleftrightarrow> flt (score n) s \<or> (feq (score n) s \<and> str_less (member n) m)"

definition goes_upto :: "float64 \<Rightarrow> string \<Rightarrow> SkipListNode \<Rightarrow> int \<Rightarrow> bool" where
  "goes_upto s m n r \<longleftrightarrow> flt (score n) s \<or> (feq (score n) s \<and> str_le (member n) m)"

section \<open>Insert\<close>

fun link_levels ::
  "nat \<Rightarrow> nat list \<Rightarrow> int list \<Rightarrow> int \<Rightarrow> nat list \<Rightarrow> (nat \<Rightarrow> SkipListNode) \<Rightarrow> (nat \<Rightarrow> SkipListNode) option" where
  "link_levels x us rs r0 [] H = Some H"
| "link_levels x us rs r0 (i # is) H = do {
     l \<leftarrow> level_at (H (us ! i)) i;
     let H1 = set_level H x i \<lparr>forward = forward l, span = span l - (r0 - rs ! i)\<rparr>;
     let H2 = set_level H1 (us ! i) i \<lparr>forward = Some x, span = (r0 - rs ! i) + 1\<rparr>;
     link_levels x us rs r0 is H2
   }"

fun stretch_levels ::
  "nat list \<Rightarrow> nat list \<Rightarrow> (nat \<Rightarrow> SkipListNode) \<Rightarrow> (nat \<Rightarrow> SkipListNode) option" where
  "stretch_levels us [] H = Some H"
| "stretch_levels us (i # is) H = do {
     l \<leftarrow> level_at (H (us ! i)) i;
     stretch_levels us is (set_level H (us ! i) i (l\<lparr>span := span l + 1\<rparr>))
   }"

fun raise_levels ::
  "nat \<Rightarrow> int \<Rightarrow> nat list \<Rightarrow> (nat \<Rightarrow> SkipListNode) \<Rightarrow> (nat \<Rightarrow> SkipListNode) option" where
  "raise_levels h n [] H = Some H"
| "raise_levels h n (i # is) H = do {
     l \<leftarrow> level_at (H h) i;
     raise_levels h n is (set_level H h i (l\<lparr>span := n\<rparr>))
   }"

definition splice :: "SkipList \<Rightarrow> nat list \<Rightarrow> int list \<Rightarrow> nat \<Rightarrow> float64 \<Rightarrow> string \<Rightarrow> SkipList option" where
  \<comment> \<open>the part of \<open>Insert\<close> after the level is drawn and the list raised to it\<close>
  "splice sl us rs lv s m = do {
     let x = sl_fresh sl;
     let H2 = (sl_nodes sl)(x := \<lparr>member = m, score = s, backward = None, levels = replicate lv no_level\<rparr>);
     H3 \<leftarrow> link_levels x us rs (rs ! 0) [0..<lv] H2;
     H4 \<leftarrow> stretch_levels us [lv..<sl_level sl] H3;
     let H5 = H4(x := (H4 x)\<lparr>backward := (if us ! 0 = sl_head sl then None else Some (us ! 0))\<rparr>);
     l0 \<leftarrow> level_at (H5 x) 0;
     let H6 = (case forward l0 of Some y \<Rightarrow> H5(y := (H5 y)\<lparr>backward := Some x\<rparr>) | None \<Rightarrow> H5);
     let tl = (case forward l0 of Some y \<Rightarrow> sl_tail sl | None \<Rightarrow> Some x);
     Some (sl\<lparr>sl_nodes := H6, sl_fresh := x + 1, sl_tail := tl, sl_length := sl_length sl + 1\<rparr>)
   }"

definition SkipList_Insert :: "int64 list \<Rightarrow> SkipList \<Rightarrow> float64 \<Rightarrow> string \<Rightarrow> SkipList option" where
  "SkipList_Insert draws sl s m = do {
     (us0, rs0) \<leftarrow> search_levels (goes_before s m) (sl_nodes sl) (sl_level sl) (sl_head sl) 0;
     let lv = randomLevel draws;
     let us = us0 @ replicate (lv - sl_level sl) (sl_head sl);
     let rs = rs0 @ replicate (lv - sl_level sl) 0;
     H1 \<leftarrow> raise_levels (sl_head sl) (sl_length sl) [sl_level sl..<lv] (sl_nodes sl);
     splice (sl\<lparr>sl_nodes := H1, sl_level := max (sl_level sl) lv\<rparr>) us rs lv s m
   }"

section \<open>Delete\<close>

fun unlink_levels ::
  "nat \<Rightarrow> nat list \<Rightarrow> nat list \<Rightarrow> (nat \<Rightarrow> SkipListNode) \<Rightarrow> (nat \<Rightarrow> SkipListNode) option" where
  "unlink_levels x us [] H = Some H"
| "unlink_levels x us (i # is) H = do {
     l \<leftarrow> level_at (H (us ! i)) i;
     (if forward l = Some x then do {
        lx \<leftarrow> level_at (H x) i;
        unlink_levels x us is
          (set_level H (us ! i) i \<lparr>forward = forward lx, span = span l + (span lx - 1)\<rparr>)
      }
      else unlink_levels x us is (set_level H (us ! i) i (l\<lparr>span := span l - 1\<rparr>)))
   }"

fun lower_level :: "SkipListNode \<Rightarrow> nat \<Rightarrow> nat option" where
  \<comment> \<open>\<open>for sl.level > 1 && sl.head.level[sl.level-1].forward == nil { sl.level-- }\<close>\<close>
  "lower_level n (Suc (Suc i)) = do {
     l \<leftarrow> level_at n (Suc i);
     (if forward l = None then lower_level n (Suc i) else Some (Suc (Suc i)))
   }"
| "lower_level n lv = Some lv"

definition deleteNode :: "SkipList \<Rightarrow> nat \<Rightarrow> nat list \<Rightarrow> SkipList option" where
  "deleteNode sl x us = do {
     H1 \<leftarrow> unlink_levels x us [0..<sl_level sl] (sl_nodes sl);
     l0 \<leftarrow> level_at (H1 x) 0;
     let H2 = (case forward l0 of Some y \<Rightarrow> H1(y := (H1 y)\<lparr>backward := backward (H1 x)\<rparr>) | None \<Rightarrow> H1);
     let tl = (case forward l0 of Some y \<Rightarrow> sl_tail sl | None \<Rightarrow> backward (H1 x));
     lv \<leftarrow> lower_level (H2 (sl_head sl)) (sl_level sl);
     Some (sl\<lparr>sl_nodes := H2, sl_tail := tl, sl_level := lv, sl_length := sl_length sl - 1\<rparr>)
   }"

definition SkipList_Delete :: "SkipList \<Rightarrow> float64 \<Rightarrow> string \<Rightarrow> (SkipList \<times> bool) option" where
  "SkipList_Delete sl s m = do {
     (us, rs) \<leftarrow> search_levels (goes_before s m) (sl_nodes sl) (sl_level sl) (sl_head sl) 0;
     l0 \<leftarrow> level_at (sl_nodes sl (us ! 0)) 0;
     (case forward l0 of
        None \<Rightarrow> Some (sl, False)
      | Some x \<Rightarrow>
          if feq (score (sl_nodes sl x)) s \<and> member (sl_nodes sl x) = m
          then do { sl1 \<leftarrow> deleteNode sl x us; Some (sl1, True) }
          else Some (sl, False))
   }"

section \<open>Ranks and ranges\<close>

fun GetRank_levels :: "float64 \<Rightarrow> string \<Rightarrow> (nat \<Rightarrow> SkipListNode) \<Rightarrow> nat \<Rightarrow> nat \<Rightarrow> int \<Rightarrow> int option" where
  "GetRank_levels s m H 0 x r = Some 0"
| "GetRank_levels s m H (Suc i) x r = do {
     (x1, r1) \<leftarrow> walk (goes_upto s m) H i x r;
     (if member (H x1) = m then Some r1 else GetRank_levels s m H i x1 r1)
   }"

definition GetRank :: "SkipList \<Rightarrow> float64 \<Rightarrow> string \<Rightarrow> int option" where
  "GetRank sl s m = GetRank_levels s m (sl_nodes sl) (sl_level sl) (sl_head sl) 0"

fun GetNodeByRank_levels :: "int \<Rightarrow> (nat \<Rightarrow> SkipListNode) \<Rightarrow> nat \<Rightarrow> nat \<Rightarrow> int \<Rightarrow> nat option option" where
  "GetNodeByRank_levels rank H 0 x r = Some None"
| "GetNodeByRank_levels rank H (Suc i) x r = do {
     (x1, r1) \<leftarrow> walk (\<lambda>_ r'. r' \<le> rank) H i x r;
     (if r1 = rank then Some (Some x1) else GetNodeByRank_levels rank H i x1 r1)
   }"

definition GetNodeByRank :: "SkipList \<Rightarrow> int \<Rightarrow> nat option option" where
  "GetNodeByRank sl rank =
     (if rank = 0 \<or> sl_length sl < rank then Some None
      else GetNodeByRank_levels rank (sl_nodes sl) (sl_level sl) (sl_head sl) 0)"

fun collect :: "(nat \<Rightarrow> SkipListNode) \<Rightarrow> nat \<Rightarrow> nat option \<Rightarrow> string list option" where
  \<comment> \<open>\<open>for i := 0; i < count && node != nil; i++\<close>\<close>
  "collect H (Suc c) (Some x) = do {
     l \<leftarrow> level_at (H x) 0;
     rest \<leftarrow> collect H c (forward l);
     Some (member (H x) # rest)
   }"
| "collect H c x = Some []"

definition SkipList_Range :: "SkipList \<Rightarrow> int \<Rightarrow> int \<Rightarrow> string list option" where
  "SkipList_Range sl start0 stop0 =
     (let n = sl_length sl;
          start1 = (if start0 < 0 then n + start0 else start0);
          end1 = (if stop0 < 0 then n + stop0 else stop0);
          start = (if start1 < 0 then 0 else start1)
      in if end1 < start \<or> n \<le> start then Some []
         else let end2 = (if n \<le> end1 then n - 1 else end1)
         in do {
           node \<leftarrow> GetNodeByRank sl (start + 1);
           (case node of
              None \<Rightarrow> Some []
            | Some x \<Rightarrow> collect (sl_nodes sl) (nat (end2 - start + 1)) (Some x))
         })"

section \<open>The shape of a list\<close>

definition height :: "SkipListNode \<Rightarrow> nat" where
  "height n = length (levels n)"

definition nxt :: "nat list \<Rightarrow> nat \<Rightarrow> nat \<Rightarrow> nat" where
  \<comment> \<open>the position after \<open>p\<close> that is present on level \<open>i\<close>, one past the last when there is none;
      \<open>hs\<close> are the heights of the nodes, the positions count from 1, position 0 is the head\<close>
  "nxt hs i p = p + 1 + length (takeWhile (\<lambda>k. k \<le> i) (drop p hs))"

definition heights :: "SkipList \<Rightarrow> nat list \<Rightarrow> nat list" where
  "heights sl xs = map (\<lambda>a. height (sl_nodes sl a)) xs"

definition node_at :: "SkipList \<Rightarrow> nat list \<Rightarrow> nat \<Rightarrow> nat" where
  "node_at sl xs p = (sl_head sl # xs) ! p"

definition level_ok :: "SkipList \<Rightarrow> nat list \<Rightarrow> nat \<Rightarrow> nat \<Rightarrow> bool" where
  \<comment> \<open>the entry of position \<open>p\<close> on level \<open>i\<close>: it points to the next position of the level and its
      span is the distance, or the rest of the list\<close>
  "level_ok sl xs p i \<longleftrightarrow>
     (let l = levels (sl_nodes sl (node_at sl xs p)) ! i; q = nxt (heights sl xs) i p; n = length xs
      in forward l = (if q \<le> n then Some (node_at sl xs q) else None) \<and>
         (i < sl_level sl \<longrightarrow> span l = int (min q n) - int p))"

definition sl_rep :: "SkipList \<Rightarrow> nat list \<Rightarrow> bool" where
  "sl_rep sl xs \<longleftrightarrow>
     distinct (sl_head sl # xs) \<and> (\<forall>a \<in> set (sl_head sl # xs). a < sl_fresh sl) \<and>
     sl_length sl = int (length xs) \<and>
     height (sl_nodes sl (sl_head sl)) = SkipListMaxLevel \<and> member (sl_nodes sl (sl_head sl)) = [] \<and>
     1 \<le> sl_level sl \<and> sl_level sl \<le> SkipListMaxLevel \<and>
     (\<forall>h \<in> set (heights sl xs). 1 \<le> h \<and> h \<le> sl_level sl) \<and>
     (\<forall>p \<le> length xs. \<forall>i < height (sl_nodes sl (node_at sl xs p)). level_ok sl xs p i) \<and>
     (\<forall>p < length xs. backward (sl_nodes sl (xs ! p)) = (if p = 0 then None else Some (xs ! (p - 1)))) \<and>
     sl_tail sl = (if xs = [] then None else Some (last xs))"

lemma nxt_gt: "p < nxt hs i p"
  by (simp add: nxt_def)

lemma nxt_le: "p \<le> length hs \<Longrightarrow> nxt hs i p \<le> length hs + 1"
  using length_takeWhile_le [of "\<lambda>k. k \<le> i" "drop p hs"] by (simp add: nxt_def)

lemma nxt_height: "nxt hs i p \<le> length hs \<Longrightarrow> i < hs ! (nxt hs i p - 1)"
proof -
  let ?t = "takeWhile (\<lambda>k. k \<le> i) (drop p hs)"
  assume "nxt hs i p \<le> length hs"
  then have l: "length ?t < length (drop p hs)" by (simp add: nxt_def)
  then have "\<not> drop p hs ! length ?t \<le> i" by (rule nth_length_takeWhile)
  then show ?thesis using l by (simp add: nxt_def)
qed

lemma nxt_least:
  assumes "p < q" "q \<le> length hs" "i < hs ! (q - 1)"
  shows "nxt hs i p \<le> q"
proof (rule ccontr)
  let ?t = "takeWhile (\<lambda>k. k \<le> i) (drop p hs)"
  assume "\<not> nxt hs i p \<le> q"
  then have k: "q - 1 - p < length ?t" using assms(1) by (simp add: nxt_def)
  then have "?t ! (q - 1 - p) \<le> i" by (metis nth_mem set_takeWhileD)
  moreover have "?t ! (q - 1 - p) = hs ! (q - 1)"
    using k assms(1,2) by (simp add: takeWhile_nth)
  ultimately show False using assms(3) by simp
qed

lemma nxt_0: "\<forall>h \<in> set hs. 1 \<le> h \<Longrightarrow> p < length hs \<Longrightarrow> nxt hs 0 p = p + 1"
  using nxt_least [of p "p + 1" hs 0] nxt_gt [of p hs 0] nth_mem [of p hs] by fastforce

lemma takeWhile_prefix:
  "xs = ys @ zs \<Longrightarrow> \<forall>h \<in> set ys. h \<le> (i::nat) \<Longrightarrow>
   length (takeWhile (\<lambda>k. k \<le> i) xs) = length ys + length (takeWhile (\<lambda>k. k \<le> i) zs)"
  by (simp add: takeWhile_append2)

lemma takeWhile_shorter: "\<exists>h \<in> set xs. (i::nat) < h \<Longrightarrow> length (takeWhile (\<lambda>k. k \<le> i) xs) < length xs"
  by (induction xs) auto

lemma nxt_between:
  assumes "p \<le> p'" "p' < nxt hs i p"
  shows "nxt hs i p' = nxt hs i p"
proof -
  let ?t = "takeWhile (\<lambda>k. k \<le> i) (drop p hs)"
  have k: "p' - p \<le> length ?t" using assms by (simp add: nxt_def)
  have t: "take (p' - p) ?t = take (p' - p) (drop p hs)"
    using k by (subst takeWhile_eq_take) (simp add: min_absorb1)
  have "drop p hs = take (p' - p) ?t @ drop p' hs"
    unfolding t using assms(1) append_take_drop_id [of "p' - p" "drop p hs", symmetric]
    unfolding drop_drop by simp
  moreover have "\<forall>h \<in> set (take (p' - p) ?t). h \<le> i"
    by (auto dest!: in_set_takeD set_takeWhileD)
  ultimately have "length ?t = length (take (p' - p) ?t) + length (takeWhile (\<lambda>k. k \<le> i) (drop p' hs))"
    by (rule takeWhile_prefix)
  moreover have "length (take (p' - p) ?t) = p' - p" using k by simp
  ultimately show ?thesis unfolding nxt_def using assms(1) by linarith
qed

lemma nxt_insert_before:
  assumes "p \<le> P" "P \<le> length hs"
  shows "nxt (take P hs @ lv # drop P hs) i p =
    (if nxt hs i p \<le> P then nxt hs i p else if i < lv then P + 1 else nxt hs i p + 1)"
proof -
  let ?f = "takeWhile (\<lambda>k. k \<le> i)"
  obtain a where d: "drop p hs = a @ drop P hs" "drop p (take P hs @ lv # drop P hs) = a @ lv # drop P hs"
      and la: "length a = P - p"
  proof
    show "drop p hs = drop p (take P hs) @ drop P hs"
      using assms drop_append [of p "take P hs" "drop P hs"] by (simp add: min_def del: drop_take)
    show "drop p (take P hs @ lv # drop P hs) = drop p (take P hs) @ lv # drop P hs"
      using assms by (simp add: min_def)
    show "length (drop p (take P hs)) = P - p" using assms by simp
  qed
  show ?thesis
  proof (cases "\<exists>h \<in> set a. i < h")
    case True
    then have "?f (a @ ys) = ?f a" for ys by (auto simp: takeWhile_append)
    moreover have "length (?f a) < length a"
      using True by (rule takeWhile_shorter)
    ultimately show ?thesis using la assms unfolding nxt_def d by auto
  next
    case False
    then have "?f (a @ ys) = a @ ?f ys" for ys by (auto simp: takeWhile_append2 not_less)
    then show ?thesis using la assms unfolding nxt_def d by auto
  qed
qed

lemma nxt_insert_after:
  assumes "P \<le> p" "p \<le> length hs"
  shows "nxt (take P hs @ lv # drop P hs) i (p + 1) = nxt hs i p + 1"
  using assms by (simp add: nxt_def drop_Cons' Suc_diff_le min_def)

subsection \<open>Reading the representation\<close>

abbreviation node_of :: "SkipList \<Rightarrow> nat list \<Rightarrow> nat \<Rightarrow> SkipListNode" where
  "node_of sl xs p \<equiv> sl_nodes sl (node_at sl xs p)"

lemma length_heights [simp]: "length (heights sl xs) = length xs"
  by (simp add: heights_def)

lemma heights_nth: "0 < p \<Longrightarrow> p \<le> length xs \<Longrightarrow> heights sl xs ! (p - 1) = height (node_of sl xs p)"
  by (cases p) (simp_all add: heights_def node_at_def)

lemma node_at_0 [simp]: "node_at sl xs 0 = sl_head sl"
  by (simp add: node_at_def)

lemma node_at_Suc [simp]: "p < length xs \<Longrightarrow> node_at sl xs (Suc p) = xs ! p"
  by (simp add: node_at_def)

lemma node_at_inj:
  "sl_rep sl xs \<Longrightarrow> p \<le> length xs \<Longrightarrow> q \<le> length xs \<Longrightarrow> node_at sl xs p = node_at sl xs q \<longleftrightarrow> p = q"
  unfolding sl_rep_def node_at_def by (subst nth_eq_iff_index_eq) auto

lemma node_at_mem: "p \<le> length xs \<Longrightarrow> node_at sl xs p \<in> set (sl_head sl # xs)"
  unfolding node_at_def by (rule nth_mem) simp

lemma node_at_less_fresh: "sl_rep sl xs \<Longrightarrow> p \<le> length xs \<Longrightarrow> node_at sl xs p < sl_fresh sl"
  using node_at_mem [of p xs sl] unfolding sl_rep_def by blast

lemma sl_rep_level_ok:
  "sl_rep sl xs \<Longrightarrow> p \<le> length xs \<Longrightarrow> i < height (node_of sl xs p) \<Longrightarrow> level_ok sl xs p i"
  unfolding sl_rep_def by blast

lemma sl_rep_height:
  assumes "sl_rep sl xs" "p \<le> length xs"
  shows "0 < height (node_of sl xs p) \<and> height (node_of sl xs p) \<le> SkipListMaxLevel \<and>
    (0 < p \<longrightarrow> height (node_of sl xs p) \<le> sl_level sl)"
proof (cases p)
  case 0
  then show ?thesis using assms unfolding sl_rep_def by (simp add: SkipListMaxLevel_def)
next
  case (Suc p')
  then have "height (node_of sl xs p) \<in> set (heights sl xs)"
    using assms(2) by (simp add: heights_def)
  with assms(1) show ?thesis unfolding sl_rep_def by (metis le_trans less_eq_Suc_le One_nat_def)
qed

lemma walk_rep:
  assumes rep: "sl_rep sl xs" and i: "i < sl_level sl"
  shows "p \<le> length xs \<Longrightarrow> i < height (node_of sl xs p) \<Longrightarrow>
    \<exists>p'. walk go (sl_nodes sl) i (node_at sl xs p) (int p) = Some (node_at sl xs p', int p') \<and>
      p \<le> p' \<and> p' \<le> length xs \<and> i < height (node_of sl xs p') \<and>
      (nxt (heights sl xs) i p' \<le> length xs \<longrightarrow>
         \<not> go (node_of sl xs (nxt (heights sl xs) i p')) (int (nxt (heights sl xs) i p'))) \<and>
      (\<forall>q. p < q \<longrightarrow> q \<le> length xs \<longrightarrow> i < height (node_of sl xs q) \<longrightarrow> \<not> go (node_of sl xs q) (int q) \<longrightarrow> p' < q) \<and>
      (p' = p \<or> go (node_of sl xs p') (int p'))"
proof (induction "length xs - p" arbitrary: p rule: less_induct)
  case less
  let ?hs = "heights sl xs" and ?q = "nxt (heights sl xs) i p"
  define l where "l = levels (node_of sl xs p) ! i"
  have l: "level_at (node_of sl xs p) i = Some l"
    using less.prems by (simp add: level_at_def height_def l_def)
  have lo: "forward l = (if ?q \<le> length xs then Some (node_at sl xs ?q) else None)"
      "span l = int (min ?q (length xs)) - int p"
    using sl_rep_level_ok [OF rep less.prems] i by (simp_all add: level_ok_def Let_def l_def)
  have pq: "p < ?q" by (rule nxt_gt)
  show ?case
  proof (cases "?q \<le> length xs \<and> go (node_of sl xs ?q) (int ?q)")
    case False
    have "walk go (sl_nodes sl) i (node_at sl xs p) (int p) = Some (node_at sl xs p, int p)"
      using False lo by (subst walk.simps) (auto simp: l)
    then show ?thesis using False less.prems by blast
  next
    case True
    have hq: "i < height (node_of sl xs ?q)"
      using nxt_height [of ?hs i p] True pq heights_nth [of ?q xs sl] by simp
    have w: "walk go (sl_nodes sl) i (node_at sl xs p) (int p) =
        walk go (sl_nodes sl) i (node_at sl xs ?q) (int ?q)"
      using True lo by (subst walk.simps) (simp add: l)
    have m: "length xs - ?q < length xs - p" using pq conjunct1 [OF True] by linarith
    obtain p' where p': "walk go (sl_nodes sl) i (node_at sl xs ?q) (int ?q) = Some (node_at sl xs p', int p')"
      "?q \<le> p'" "p' \<le> length xs" "i < height (node_of sl xs p')"
      "nxt ?hs i p' \<le> length xs \<longrightarrow> \<not> go (node_of sl xs (nxt ?hs i p')) (int (nxt ?hs i p'))"
      "\<forall>q. ?q < q \<longrightarrow> q \<le> length xs \<longrightarrow> i < height (node_of sl xs q) \<longrightarrow> \<not> go (node_of sl xs q) (int q) \<longrightarrow> p' < q"
      "p' = ?q \<or> go (node_of sl xs p') (int p')"
      using less.hyps [OF m _ hq] True by blast
    have "p' < q" if q: "p < q" "q \<le> length xs" "i < height (node_of sl xs q)" "\<not> go (node_of sl xs q) (int q)" for q
    proof -
      have "?q \<le> q" using nxt_least [of p q ?hs i] q heights_nth [of q xs sl] by simp
      moreover have "q \<noteq> ?q" using q(4) True by auto
      ultimately show ?thesis using p'(6) q by simp
    qed
    moreover have "p \<le> p'" using pq p'(2) by linarith
    moreover have "p' = p \<or> go (node_of sl xs p') (int p')" using p'(7) True by auto
    ultimately show ?thesis using p'(1,3-5) unfolding w by blast
  qed
qed

lemma search_levels_rep:
  assumes rep: "sl_rep sl xs"
  shows "i \<le> sl_level sl \<Longrightarrow> p \<le> length xs \<Longrightarrow> i \<le> height (node_of sl xs p) \<Longrightarrow>
    \<exists>ps. search_levels go (sl_nodes sl) i (node_at sl xs p) (int p) = Some (map (node_at sl xs) ps, map int ps) \<and>
      length ps = i \<and>
      (\<forall>j < i. p \<le> ps ! j \<and> ps ! j \<le> ps ! 0 \<and> ps ! 0 \<le> length xs \<and> j < height (node_of sl xs (ps ! j)) \<and>
         ps ! 0 < nxt (heights sl xs) j (ps ! j)) \<and>
      (0 < i \<longrightarrow> (nxt (heights sl xs) 0 (ps ! 0) \<le> length xs \<longrightarrow>
         \<not> go (node_of sl xs (nxt (heights sl xs) 0 (ps ! 0))) (int (nxt (heights sl xs) 0 (ps ! 0)))) \<and>
         (\<forall>q. p < q \<longrightarrow> q \<le> length xs \<longrightarrow> i \<le> height (node_of sl xs q) \<longrightarrow> \<not> go (node_of sl xs q) (int q) \<longrightarrow> ps ! 0 < q) \<and>
         (ps ! 0 = p \<or> go (node_of sl xs (ps ! 0)) (int (ps ! 0))))"
proof (induction i arbitrary: p)
  case 0
  then show ?case by simp
next
  case (Suc i)
  let ?hs = "heights sl xs" and ?n = "length xs"
  have i: "i < sl_level sl" "i < height (node_of sl xs p)" using Suc.prems by simp_all
  obtain p1 where p1: "walk go (sl_nodes sl) i (node_at sl xs p) (int p) = Some (node_at sl xs p1, int p1)"
    "p \<le> p1" "p1 \<le> ?n" "i < height (node_of sl xs p1)"
    "nxt ?hs i p1 \<le> ?n \<longrightarrow> \<not> go (node_of sl xs (nxt ?hs i p1)) (int (nxt ?hs i p1))"
    "\<forall>q. p < q \<longrightarrow> q \<le> ?n \<longrightarrow> i < height (node_of sl xs q) \<longrightarrow> \<not> go (node_of sl xs q) (int q) \<longrightarrow> p1 < q"
    "p1 = p \<or> go (node_of sl xs p1) (int p1)"
    using walk_rep [OF rep i(1) Suc.prems(2) i(2), of go] by blast
  obtain ps where ps: "search_levels go (sl_nodes sl) i (node_at sl xs p1) (int p1) = Some (map (node_at sl xs) ps, map int ps)"
    "length ps = i"
    "\<forall>j < i. p1 \<le> ps ! j \<and> ps ! j \<le> ps ! 0 \<and> ps ! 0 \<le> ?n \<and> j < height (node_of sl xs (ps ! j)) \<and> ps ! 0 < nxt ?hs j (ps ! j)"
    "0 < i \<longrightarrow> (nxt ?hs 0 (ps ! 0) \<le> ?n \<longrightarrow> \<not> go (node_of sl xs (nxt ?hs 0 (ps ! 0))) (int (nxt ?hs 0 (ps ! 0)))) \<and>
         (\<forall>q. p1 < q \<longrightarrow> q \<le> ?n \<longrightarrow> i \<le> height (node_of sl xs q) \<longrightarrow> \<not> go (node_of sl xs q) (int q) \<longrightarrow> ps ! 0 < q) \<and>
         (ps ! 0 = p1 \<or> go (node_of sl xs (ps ! 0)) (int (ps ! 0)))"
    using Suc.IH [of p1] Suc.prems p1 by force
  let ?ps = "ps @ [p1]"
  have s: "search_levels go (sl_nodes sl) (Suc i) (node_at sl xs p) (int p) =
      Some (map (node_at sl xs) ?ps, map int ?ps)"
    using p1(1) ps(1) by simp
  show ?case
  proof (cases "i = 0")
    case True
    then have e: "?ps = [p1]" using ps(2) by simp
    have "p1 < nxt ?hs 0 p1" by (rule nxt_gt)
    moreover have "\<forall>q. p < q \<longrightarrow> q \<le> ?n \<longrightarrow> Suc i \<le> height (node_of sl xs q) \<longrightarrow> \<not> go (node_of sl xs q) (int q) \<longrightarrow> p1 < q"
      using p1(6) Suc_le_lessD by blast
    ultimately show ?thesis using s p1(2-5,7) True unfolding e by (intro exI [of _ "[p1]"]) simp
  next
    case False
    then have z: "?ps ! 0 = ps ! 0" using ps(2) by (simp add: nth_append)
    have b: "ps ! 0 < nxt ?hs i p1"
    proof (cases "nxt ?hs i p1 \<le> ?n")
      case True
      then have "i < height (node_of sl xs (nxt ?hs i p1))"
        using nxt_height [of ?hs i p1] heights_nth [of "nxt ?hs i p1" xs sl] nxt_gt [of p1 ?hs i] by simp
      with True ps(4) False p1(5) nxt_gt [of p1 ?hs i] show ?thesis by simp
    next
      case no: False
      then show ?thesis using ps(3) False by (meson le_less_trans not_le gr0I)
    qed
    have "ps ! 0 < q" if q: "p < q" "q \<le> ?n" "Suc i \<le> height (node_of sl xs q)" "\<not> go (node_of sl xs q) (int q)" for q
    proof -
      have "p1 < q" using p1(6) q by simp
      then show ?thesis using ps(4) False q by simp
    qed
    moreover have "ps ! 0 = p \<or> go (node_of sl xs (ps ! 0)) (int (ps ! 0))"
      using ps(4) False p1(7) by auto
    moreover have "\<forall>j < Suc i. p \<le> ?ps ! j \<and> ?ps ! j \<le> ps ! 0 \<and> ps ! 0 \<le> ?n \<and>
        j < height (node_of sl xs (?ps ! j)) \<and> ps ! 0 < nxt ?hs j (?ps ! j)"
    proof (intro allI impI)
      fix j assume "j < Suc i"
      then consider "j < i" | "j = i" by linarith
      then show "p \<le> ?ps ! j \<and> ?ps ! j \<le> ps ! 0 \<and> ps ! 0 \<le> ?n \<and>
        j < height (node_of sl xs (?ps ! j)) \<and> ps ! 0 < nxt ?hs j (?ps ! j)"
      proof cases
        case 1
        then show ?thesis using ps(2,3) p1(2) by (auto simp: nth_append intro: order.trans)
      next
        case 2
        then show ?thesis using ps(2,3) p1(2,4) b False by (auto simp: nth_append)
      qed
    qed
    ultimately show ?thesis
      using s ps(2,4) z False by (intro exI [of _ ?ps]) simp
  qed
qed

subsection \<open>The loops over the levels\<close>

definition same_frame :: "(nat \<Rightarrow> SkipListNode) \<Rightarrow> (nat \<Rightarrow> SkipListNode) \<Rightarrow> bool" where
  "same_frame H H' \<longleftrightarrow>
     (\<forall>a. member (H' a) = member (H a) \<and> score (H' a) = score (H a) \<and> backward (H' a) = backward (H a) \<and>
        height (H' a) = height (H a))"

lemma same_frame_refl [simp]: "same_frame H H"
  by (simp add: same_frame_def)

lemma same_frame_set_level: "same_frame (set_level H a i l) H' \<longleftrightarrow> same_frame H H'"
  by (auto simp: same_frame_def set_level_def height_def)

lemma height_set_level [simp]: "height (set_level H a i l b) = height (H b)"
  by (simp add: set_level_def height_def)

lemma level_set_level:
  "j < height (H b) \<Longrightarrow>
   levels (set_level H a i l b) ! j = (if b = a \<and> j = i then l else levels (H b) ! j)"
  by (auto simp: set_level_def height_def nth_list_update)

lemma level_at_height: "i < height n \<Longrightarrow> level_at n i = Some (levels n ! i)"
  by (simp add: level_at_def height_def)

lemma raise_levels_rep:
  "distinct is \<Longrightarrow> \<forall>i \<in> set is. i < height (H h) \<Longrightarrow>
   \<exists>H'. raise_levels h n is H = Some H' \<and> same_frame H H' \<and>
     (\<forall>a j. j < height (H a) \<longrightarrow> levels (H' a) ! j =
        (if a = h \<and> j \<in> set is then (levels (H a) ! j)\<lparr>span := n\<rparr> else levels (H a) ! j))"
proof (induction "is" arbitrary: H)
  case (Cons i "is")
  let ?H = "set_level H h i ((levels (H h) ! i)\<lparr>span := n\<rparr>)"
  obtain H' where "raise_levels h n is ?H = Some H'" "same_frame ?H H'"
    "\<forall>a j. j < height (?H a) \<longrightarrow> levels (H' a) ! j =
        (if a = h \<and> j \<in> set is then (levels (?H a) ! j)\<lparr>span := n\<rparr> else levels (?H a) ! j)"
    using Cons.IH [of ?H] Cons.prems by auto
  then show ?case using Cons.prems
    by (auto simp: level_at_height same_frame_set_level level_set_level)
qed simp

lemma stretch_levels_rep:
  "distinct is \<Longrightarrow> \<forall>i \<in> set is. i < height (H (us ! i)) \<Longrightarrow>
   \<exists>H'. stretch_levels us is H = Some H' \<and> same_frame H H' \<and>
     (\<forall>a j. j < height (H a) \<longrightarrow> levels (H' a) ! j =
        (if j \<in> set is \<and> a = us ! j then (levels (H a) ! j)\<lparr>span := span (levels (H a) ! j) + 1\<rparr>
         else levels (H a) ! j))"
proof (induction "is" arbitrary: H)
  case (Cons i "is")
  let ?l = "levels (H (us ! i)) ! i"
  let ?H = "set_level H (us ! i) i (?l\<lparr>span := span ?l + 1\<rparr>)"
  obtain H' where "stretch_levels us is ?H = Some H'" "same_frame ?H H'"
    "\<forall>a j. j < height (?H a) \<longrightarrow> levels (H' a) ! j =
        (if j \<in> set is \<and> a = us ! j then (levels (?H a) ! j)\<lparr>span := span (levels (?H a) ! j) + 1\<rparr>
         else levels (?H a) ! j)"
    using Cons.IH [of ?H] Cons.prems by auto
  then show ?case using Cons.prems
    by (auto simp: level_at_height same_frame_set_level level_set_level)
qed simp

lemma link_levels_rep:
  "distinct is \<Longrightarrow> \<forall>i \<in> set is. i < height (H (us ! i)) \<and> us ! i \<noteq> x \<and> i < height (H x) \<Longrightarrow>
   \<exists>H'. link_levels x us rs r0 is H = Some H' \<and> same_frame H H' \<and>
     (\<forall>a j. j < height (H a) \<longrightarrow> levels (H' a) ! j =
        (if j \<in> set is \<and> a = x then
           \<lparr>forward = forward (levels (H (us ! j)) ! j), span = span (levels (H (us ! j)) ! j) - (r0 - rs ! j)\<rparr>
         else if j \<in> set is \<and> a = us ! j then \<lparr>forward = Some x, span = r0 - rs ! j + 1\<rparr>
         else levels (H a) ! j))"
proof (induction "is" arbitrary: H)
  case (Cons i "is")
  let ?l = "levels (H (us ! i)) ! i"
  let ?H1 = "set_level H x i \<lparr>forward = forward ?l, span = span ?l - (r0 - rs ! i)\<rparr>"
  let ?H = "set_level ?H1 (us ! i) i \<lparr>forward = Some x, span = r0 - rs ! i + 1\<rparr>"
  obtain H' where H': "link_levels x us rs r0 is ?H = Some H'" "same_frame ?H H'"
    "\<forall>a j. j < height (?H a) \<longrightarrow> levels (H' a) ! j =
        (if j \<in> set is \<and> a = x then
           \<lparr>forward = forward (levels (?H (us ! j)) ! j), span = span (levels (?H (us ! j)) ! j) - (r0 - rs ! j)\<rparr>
         else if j \<in> set is \<and> a = us ! j then \<lparr>forward = Some x, span = r0 - rs ! j + 1\<rparr>
         else levels (?H a) ! j)"
    using Cons.IH [of ?H] Cons.prems by auto
  have "link_levels x us rs r0 (i # is) H = Some H'"
    using H'(1) Cons.prems by (simp add: level_at_height Let_def)
  moreover have "same_frame H H'" using H'(2) by (simp add: same_frame_set_level)
  moreover have "levels (H' a) ! j =
      (if j \<in> set (i # is) \<and> a = x then
         \<lparr>forward = forward (levels (H (us ! j)) ! j), span = span (levels (H (us ! j)) ! j) - (r0 - rs ! j)\<rparr>
       else if j \<in> set (i # is) \<and> a = us ! j then \<lparr>forward = Some x, span = r0 - rs ! j + 1\<rparr>
       else levels (H a) ! j)" if "j < height (H a)" for a j
  proof -
    have u: "levels (?H (us ! j)) ! j = levels (H (us ! j)) ! j" if "j \<in> set is"
      using that Cons.prems by (auto simp: level_set_level)
    show ?thesis using that H'(3) Cons.prems u by (auto simp: level_set_level)
  qed
  ultimately show ?case by blast
qed simp

lemma unlink_levels_rep:
  "distinct is \<Longrightarrow>
   \<forall>i \<in> set is. i < height (H (us ! i)) \<and> us ! i \<noteq> x \<and>
     (forward (levels (H (us ! i)) ! i) = Some x \<longrightarrow> i < height (H x)) \<Longrightarrow>
   \<exists>H'. unlink_levels x us is H = Some H' \<and> same_frame H H' \<and>
     (\<forall>a j. j < height (H a) \<longrightarrow> levels (H' a) ! j =
        (if j \<in> set is \<and> a = us ! j then
           (let l = levels (H a) ! j; lx = levels (H x) ! j in
            if forward l = Some x then \<lparr>forward = forward lx, span = span l + (span lx - 1)\<rparr>
            else l\<lparr>span := span l - 1\<rparr>)
         else levels (H a) ! j))"
proof (induction "is" arbitrary: H)
  case (Cons i "is")
  let ?l = "levels (H (us ! i)) ! i" and ?lx = "levels (H x) ! i"
  let ?l' = "if forward ?l = Some x then \<lparr>forward = forward ?lx, span = span ?l + (span ?lx - 1)\<rparr>
    else ?l\<lparr>span := span ?l - 1\<rparr>"
  let ?H = "set_level H (us ! i) i ?l'"
  have same: "levels (?H (us ! j)) ! j = levels (H (us ! j)) ! j" if "j \<in> set is" for j
    using that Cons.prems by (auto simp: level_set_level)
  have ne: "us ! i \<noteq> x" using Cons.prems by simp
  then have hx: "?H x = H x" by (simp add: set_level_def)
  have pre: "\<forall>j \<in> set is. j < height (?H (us ! j)) \<and> us ! j \<noteq> x \<and>
     (forward (levels (?H (us ! j)) ! j) = Some x \<longrightarrow> j < height (?H x))"
    using Cons.prems same by (simp add: hx)
  obtain H' where H': "unlink_levels x us is ?H = Some H'" "same_frame ?H H'"
    "\<forall>a j. j < height (?H a) \<longrightarrow> levels (H' a) ! j =
        (if j \<in> set is \<and> a = us ! j then
           (let l = levels (?H a) ! j; lx = levels (?H x) ! j in
            if forward l = Some x then \<lparr>forward = forward lx, span = span l + (span lx - 1)\<rparr>
            else l\<lparr>span := span l - 1\<rparr>)
         else levels (?H a) ! j)"
    using Cons.IH [of ?H, OF _ pre] Cons.prems by auto
  have "unlink_levels x us (i # is) H = Some H'"
    using H'(1) Cons.prems by (auto simp: level_at_height split: if_splits)
  moreover have "same_frame H H'" using H'(2) by (simp add: same_frame_set_level)
  moreover have "levels (H' a) ! j =
      (if j \<in> set (i # is) \<and> a = us ! j then
         (let l = levels (H a) ! j; lx = levels (H x) ! j in
          if forward l = Some x then \<lparr>forward = forward lx, span = span l + (span lx - 1)\<rparr>
          else l\<lparr>span := span l - 1\<rparr>)
       else levels (H a) ! j)" if j: "j < height (H a)" for a j
  proof -
    have "levels (H' a) ! j =
        (if j \<in> set is \<and> a = us ! j then
           (let l = levels (?H a) ! j; lx = levels (H x) ! j in
            if forward l = Some x then \<lparr>forward = forward lx, span = span l + (span lx - 1)\<rparr>
            else l\<lparr>span := span l - 1\<rparr>)
         else levels (?H a) ! j)"
      using H'(3) j hx by simp
    moreover have "levels (?H a) ! j = (if a = us ! i \<and> j = i then ?l' else levels (H a) ! j)"
      using j by (rule level_set_level)
    ultimately show ?thesis using same Cons.prems(1) by (auto simp: Let_def)
  qed
  ultimately show ?case by blast
qed simp

subsection \<open>The cut found by a search\<close>

definition cut :: "SkipList \<Rightarrow> nat list \<Rightarrow> nat list \<Rightarrow> bool" where
  \<comment> \<open>\<open>ps ! j\<close> is the last position on level \<open>j\<close> at or before \<open>ps ! 0\<close>\<close>
  "cut sl xs ps \<longleftrightarrow> length ps = sl_level sl \<and>
     (\<forall>j < sl_level sl. ps ! j \<le> ps ! 0 \<and> ps ! 0 \<le> length xs \<and> j < height (node_of sl xs (ps ! j)) \<and>
        ps ! 0 < nxt (heights sl xs) j (ps ! j))"

lemma search_from_head:
  assumes "sl_rep sl xs"
  shows "\<exists>ps. search_levels go (sl_nodes sl) (sl_level sl) (sl_head sl) 0 =
      Some (map (node_at sl xs) ps, map int ps) \<and> cut sl xs ps \<and>
      (nxt (heights sl xs) 0 (ps ! 0) \<le> length xs \<longrightarrow>
         \<not> go (node_of sl xs (nxt (heights sl xs) 0 (ps ! 0))) (int (nxt (heights sl xs) 0 (ps ! 0)))) \<and>
      (ps ! 0 = 0 \<or> go (node_of sl xs (ps ! 0)) (int (ps ! 0)))"
proof -
  have h: "sl_level sl \<le> height (node_of sl xs 0)" "0 < sl_level sl"
    using assms by (simp_all add: sl_rep_def)
  from search_levels_rep [OF assms order_refl le0 h(1), of go] h(2)
  show ?thesis unfolding cut_def by auto
qed

lemma cut_nonempty: "sl_rep sl xs \<Longrightarrow> cut sl xs ps \<Longrightarrow> 0 < length ps"
  unfolding sl_rep_def cut_def by linarith

lemma cut_le: "sl_rep sl xs \<Longrightarrow> cut sl xs ps \<Longrightarrow> ps ! 0 \<le> length xs"
  using cut_nonempty [of sl xs ps] unfolding cut_def by simp

lemma cut_nxt:
  assumes "cut sl xs ps" "j < sl_level sl" "p \<le> ps ! 0" "p \<noteq> ps ! j" "j < height (node_of sl xs p)"
  shows "nxt (heights sl xs) j p \<le> ps ! 0"
proof -
  have c: "ps ! j \<le> ps ! 0" "ps ! 0 \<le> length xs" "j < height (node_of sl xs (ps ! j))"
      "ps ! 0 < nxt (heights sl xs) j (ps ! j)"
    using assms(1,2) by (auto simp: cut_def)
  show ?thesis
  proof (cases "p < ps ! j")
    case True
    then have "nxt (heights sl xs) j p \<le> ps ! j"
      using c heights_nth [of "ps ! j" xs sl] by (intro nxt_least) auto
    with c(1) show ?thesis by simp
  next
    case False
    with assms(4) have "ps ! j < p" by simp
    then have "nxt (heights sl xs) j (ps ! j) \<le> p"
      using assms(3,5) c(2) heights_nth [of p xs sl] by (intro nxt_least) auto
    with c(4) assms(3) show ?thesis by simp
  qed
qed

lemma heights_same_frame: "same_frame (sl_nodes sl) (sl_nodes sl') \<Longrightarrow> heights sl' xs = heights sl xs"
  by (simp add: heights_def same_frame_def)

lemma nxt_above:
  assumes "sl_rep sl xs" "sl_level sl \<le> j" "p \<le> length xs"
  shows "nxt (heights sl xs) j p = length xs + 1"
proof (rule ccontr)
  assume "nxt (heights sl xs) j p \<noteq> length xs + 1"
  then have n: "nxt (heights sl xs) j p \<le> length xs"
    using nxt_le [of p "heights sl xs" j] assms(3) by simp
  then have "j < heights sl xs ! (nxt (heights sl xs) j p - 1)" by (intro nxt_height) simp
  moreover have "heights sl xs ! (nxt (heights sl xs) j p - 1) \<in> set (heights sl xs)"
    using n nxt_gt [of p "heights sl xs" j] by (intro nth_mem) simp
  ultimately show False using assms(1,2) unfolding sl_rep_def by fastforce
qed

lemma raise_rep:
  assumes rep: "sl_rep sl xs" and cut: "cut sl xs ps" and lv: "lv \<le> SkipListMaxLevel"
  defines "tp \<equiv> max (sl_level sl) lv"
  shows "\<exists>H. raise_levels (sl_head sl) (sl_length sl) [sl_level sl..<lv] (sl_nodes sl) = Some H \<and>
    same_frame (sl_nodes sl) H \<and> sl_rep (sl\<lparr>sl_nodes := H, sl_level := tp\<rparr>) xs \<and>
    cut (sl\<lparr>sl_nodes := H, sl_level := tp\<rparr>) xs (ps @ replicate (lv - sl_level sl) 0)"
proof -
  let ?L = "sl_level sl" and ?n = "length xs" and ?hs = "heights sl xs"
  have hd: "height (sl_nodes sl (sl_head sl)) = SkipListMaxLevel" using rep by (simp add: sl_rep_def)
  have "\<exists>H'. raise_levels (sl_head sl) (sl_length sl) [?L..<lv] (sl_nodes sl) = Some H' \<and> same_frame (sl_nodes sl) H' \<and>
     (\<forall>a j. j < height (sl_nodes sl a) \<longrightarrow> levels (H' a) ! j =
        (if a = sl_head sl \<and> j \<in> set [?L..<lv] then (levels (sl_nodes sl a) ! j)\<lparr>span := sl_length sl\<rparr>
         else levels (sl_nodes sl a) ! j))"
    by (rule raise_levels_rep) (use hd lv in auto)
  then obtain H where H: "raise_levels (sl_head sl) (sl_length sl) [?L..<lv] (sl_nodes sl) = Some H"
    and fr: "same_frame (sl_nodes sl) H"
    and lev: "\<And>a j. j < height (sl_nodes sl a) \<Longrightarrow> levels (H a) ! j =
        (if a = sl_head sl \<and> ?L \<le> j \<and> j < lv then (levels (sl_nodes sl a) ! j)\<lparr>span := sl_length sl\<rparr>
         else levels (sl_nodes sl a) ! j)"
    by auto
  let ?sl = "sl\<lparr>sl_nodes := H, sl_level := tp\<rparr>"
  have na: "node_at ?sl xs = node_at sl xs" by (simp add: node_at_def fun_eq_iff)
  have hs: "heights ?sl xs = ?hs" using fr by (intro heights_same_frame) simp
  have ht: "height (H a) = height (sl_nodes sl a)" for a using fr by (simp add: same_frame_def)
  have "level_ok ?sl xs p i" if p: "p \<le> ?n" "i < height (node_of sl xs p)" for p i
  proof -
    have ok: "level_ok sl xs p i" by (rule sl_rep_level_ok [OF rep p])
    show ?thesis
    proof (cases "p = 0 \<and> ?L \<le> i \<and> i < lv")
      case True
      then have "nxt ?hs i 0 = ?n + 1" using nxt_above [OF rep] by simp
      moreover have "sl_length sl = int ?n" using rep by (simp add: sl_rep_def)
      ultimately show ?thesis using ok True p(2) lev [of i "sl_head sl"]
        by (simp add: level_ok_def Let_def na hs)
    next
      case False
      have "levels (H (node_at sl xs p)) ! i = levels (node_of sl xs p) ! i"
      proof (cases "node_at sl xs p = sl_head sl")
        case True
        then have "p = 0" using node_at_inj [OF rep p(1), of 0] by simp
        then show ?thesis using lev [OF p(2)] False by auto
      next
        case no: False
        then show ?thesis using lev [OF p(2)] by simp
      qed
      moreover have "i < ?L" if "i < tp"
      proof (rule ccontr)
        assume "\<not> i < ?L"
        then have "p = 0" using sl_rep_height [OF rep p(1)] p(2) by force
        then show False using False that \<open>\<not> i < ?L\<close> by (simp add: tp_def)
      qed
      ultimately show ?thesis using ok by (auto simp: level_ok_def Let_def na hs)
    qed
  qed
  moreover have "?L \<le> tp" "tp \<le> SkipListMaxLevel" using lv rep by (simp_all add: tp_def sl_rep_def)
  ultimately have "sl_rep ?sl xs"
    using rep fr unfolding sl_rep_def by (auto simp: na hs ht same_frame_def)
  moreover have "cut ?sl xs (ps @ replicate (lv - ?L) 0)"
  proof -
    have L: "length ps = ?L" "0 < ?L" using cut rep by (simp_all add: cut_def sl_rep_def)
    have "j < height (node_of sl xs 0) \<and> ps ! 0 < nxt ?hs j 0 \<and> ps ! 0 \<le> ?n"
      if "?L \<le> j" "j < lv" for j
      using nxt_above [OF rep that(1), of 0] cut L(2) hd that lv by (auto simp: cut_def)
    moreover have "length (ps @ replicate (lv - ?L) 0) = tp" using L(1) by (auto simp: tp_def)
    moreover have "\<not> j < ?L \<Longrightarrow> j < tp \<Longrightarrow> j < lv" for j by (simp add: tp_def)
    ultimately show ?thesis using cut L
      by (auto simp: cut_def na hs ht nth_append not_less)
  qed
  ultimately show ?thesis using H fr by blast
qed

subsection \<open>Insert\<close>

lemma node_at_insert:
  assumes "P \<le> length xs" "sl_head sl' = sl_head sl"
  shows "node_at sl' (take P xs @ x # drop P xs) p =
    (if p \<le> P then node_at sl xs p else if p = P + 1 then x else node_at sl xs (p - 1))"
  using assms by (cases p) (auto simp: node_at_def nth_append min_def nth_Cons' not_le intro!: arg_cong [of _ _ "(!) xs"])

lemma splice_rep:
  assumes rep: "sl_rep sl xs" and cut: "cut sl xs ps" and lv: "1 \<le> lv" "lv \<le> sl_level sl"
  defines "x \<equiv> sl_fresh sl" and "P \<equiv> ps ! 0"
  shows "\<exists>sl'. splice sl (map (node_at sl xs) ps) (map int ps) lv s m = Some sl' \<and>
    sl_rep sl' (take P xs @ x # drop P xs) \<and>
    member (sl_nodes sl' x) = m \<and> score (sl_nodes sl' x) = s \<and>
    (\<forall>a. a \<noteq> x \<longrightarrow> member (sl_nodes sl' a) = member (sl_nodes sl a) \<and> score (sl_nodes sl' a) = score (sl_nodes sl a))"
proof -
  let ?L = "sl_level sl" and ?n = "length xs" and ?hs = "heights sl xs" and ?H = "sl_nodes sl"
  let ?us = "map (node_at sl xs) ps" and ?rs = "map int ps"
  have c: "length ps = ?L" "0 < ?L"
      "\<And>j. j < ?L \<Longrightarrow> ps ! j \<le> P \<and> j < height (node_of sl xs (ps ! j)) \<and> P < nxt ?hs j (ps ! j)"
    using cut rep by (auto simp: cut_def P_def sl_rep_def)
  have Pn: "P \<le> ?n" using cut c(2) by (simp add: cut_def P_def)
  note c = c(1,2) Pn c(3)
  have us: "?us ! j = node_at sl xs (ps ! j)" "?rs ! j = int (ps ! j)" if "j < ?L" for j
    using that c(1) by simp_all
  have nx: "node_at sl xs p \<noteq> x" if "p \<le> ?n" for p
    using node_at_less_fresh [OF rep that] by (simp add: x_def)
  define H2 where "H2 = ?H(x := \<lparr>member = m, score = s, backward = None, levels = replicate lv no_level\<rparr>)"
  have h2: "height (H2 x) = lv" "\<And>p. p \<le> ?n \<Longrightarrow> H2 (node_at sl xs p) = node_of sl xs p"
    using nx by (simp_all add: H2_def height_def)
  have pj: "ps ! j \<le> ?n" if "j < ?L" for j using c(3) c(4) [OF that] by simp
  have "\<exists>H'. link_levels x ?us ?rs (?rs ! 0) [0..<lv] H2 = Some H' \<and> same_frame H2 H' \<and>
     (\<forall>a j. j < height (H2 a) \<longrightarrow> levels (H' a) ! j =
        (if j \<in> set [0..<lv] \<and> a = x then
           \<lparr>forward = forward (levels (H2 (?us ! j)) ! j), span = span (levels (H2 (?us ! j)) ! j) - (?rs ! 0 - ?rs ! j)\<rparr>
         else if j \<in> set [0..<lv] \<and> a = ?us ! j then \<lparr>forward = Some x, span = ?rs ! 0 - ?rs ! j + 1\<rparr>
         else levels (H2 a) ! j))"
    by (rule link_levels_rep) (use lv us h2 c(4) pj nx in auto)
  then obtain H3 where H3: "link_levels x ?us ?rs (?rs ! 0) [0..<lv] H2 = Some H3" "same_frame H2 H3"
    and lev3: "\<And>a j. j < height (H2 a) \<Longrightarrow> levels (H3 a) ! j =
        (if j < lv \<and> a = x then
           \<lparr>forward = forward (levels (node_of sl xs (ps ! j)) ! j),
            span = span (levels (node_of sl xs (ps ! j)) ! j) - (int P - int (ps ! j))\<rparr>
         else if j < lv \<and> a = node_at sl xs (ps ! j) then \<lparr>forward = Some x, span = int P - int (ps ! j) + 1\<rparr>
         else levels (H2 a) ! j)"
    using us c(2) lv h2(2) pj by (auto simp: P_def)
  have ht3: "height (H3 a) = height (H2 a)" for a using H3(2) by (simp add: same_frame_def)
  have "\<exists>H'. stretch_levels ?us [lv..<?L] H3 = Some H' \<and> same_frame H3 H' \<and>
     (\<forall>a j. j < height (H3 a) \<longrightarrow> levels (H' a) ! j =
        (if j \<in> set [lv..<?L] \<and> a = ?us ! j then (levels (H3 a) ! j)\<lparr>span := span (levels (H3 a) ! j) + 1\<rparr>
         else levels (H3 a) ! j))"
    by (rule stretch_levels_rep) (use us h2 c(4) pj ht3 in auto)
  then obtain H4 where H4: "stretch_levels ?us [lv..<?L] H3 = Some H4" "same_frame H3 H4"
    and lev4: "\<And>a j. j < height (H3 a) \<Longrightarrow> levels (H4 a) ! j =
        (if lv \<le> j \<and> j < ?L \<and> a = node_at sl xs (ps ! j)
         then (levels (H3 a) ! j)\<lparr>span := span (levels (H3 a) ! j) + 1\<rparr> else levels (H3 a) ! j)"
    using us by auto
  have fr: "member (H4 a) = member (H2 a)" "score (H4 a) = score (H2 a)" "backward (H4 a) = backward (H2 a)"
      "height (H4 a) = height (H2 a)" for a
    using H3(2) H4(2) by (simp_all add: same_frame_def)
  define b where "b = (if P = 0 then None else Some (node_at sl xs P))"
  define H5 where "H5 = H4(x := (H4 x)\<lparr>backward := b\<rparr>)"
  define H6 where "H6 = (if P < ?n then H5(xs ! P := (H5 (xs ! P))\<lparr>backward := Some x\<rparr>) else H5)"
  define sl' where "sl' = sl\<lparr>sl_nodes := H6, sl_fresh := x + 1,
      sl_tail := (if P < ?n then sl_tail sl else Some x), sl_length := sl_length sl + 1\<rparr>"
  have n0: "nxt ?hs 0 P = P + 1" if "P < ?n"
    using that rep by (intro nxt_0) (simp_all add: sl_rep_def)
  have next0: "forward (levels (node_of sl xs P) ! 0) = (if P < ?n then Some (xs ! P) else None)"
  proof -
    have ok: "level_ok sl xs P 0" using sl_rep_height [OF rep c(3)] by (intro sl_rep_level_ok [OF rep c(3)]) simp
    show ?thesis
    proof (cases "P < ?n")
      case True
      then show ?thesis using ok n0 by (simp add: level_ok_def Let_def)
    next
      case False
      then have "?n < nxt ?hs 0 P" using nxt_gt [of P ?hs 0] by simp
      then show ?thesis using ok False by (simp add: level_ok_def Let_def)
    qed
  qed
  have l0: "level_at (H5 x) 0 = Some (levels (H4 x) ! 0)"
    using lv(1) h2(1) fr(4) [of x] by (simp add: H5_def level_at_def height_def)
  have f0: "forward (levels (H4 x) ! 0) = (if P < ?n then Some (xs ! P) else None)"
    using lev4 [of 0 x] lev3 [of 0 x] lv(1) h2(1) ht3 next0 c(2) nx [of P] c(3) by (simp add: P_def)
  have b: "(if ?us ! 0 = sl_head sl then None else Some (?us ! 0)) = b"
    using us(1) [OF c(2)] node_at_inj [OF rep c(3), of 0] by (simp add: b_def P_def)
  have run: "splice sl ?us ?rs lv s m = Some sl'"
    using H3(1) H4(1) l0 f0 b by (simp add: splice_def Let_def sl'_def H6_def H5_def H2_def flip: x_def)
  have levs: "levels (H6 a) = levels (H4 a)" for a by (simp add: H6_def H5_def)
  have xP: "xs ! P \<noteq> x" if "P < ?n" using nx [of "Suc P"] that by simp
  have keys: "member (H6 a) = member (H2 a)" "score (H6 a) = score (H2 a)" for a
    using fr by (simp_all add: H6_def H5_def)
  have bwd: "backward (H6 a) = (if P < ?n \<and> a = xs ! P then Some x else if a = x then b else backward (?H a))" for a
    using fr(3) xP by (auto simp: H6_def H5_def H2_def)
  have ht: "height (H6 a) = height (H2 a)" for a using levs fr(4) [of a] by (simp add: height_def)
  have old: "levels (H6 (node_at sl xs p)) ! j =
      (if j < ?L \<and> p = ps ! j then
         (if j < lv then \<lparr>forward = Some x, span = int P - int p + 1\<rparr>
          else (levels (node_of sl xs p) ! j)\<lparr>span := span (levels (node_of sl xs p) ! j) + 1\<rparr>)
       else levels (node_of sl xs p) ! j)" if p: "p \<le> ?n" "j < height (node_of sl xs p)" for p j
  proof -
    have h: "j < height (H2 (node_at sl xs p))" using p h2(2) by simp
    have eq: "node_at sl xs p = node_at sl xs (ps ! j) \<longleftrightarrow> p = ps ! j" if "j < ?L"
      using node_at_inj [OF rep p(1) pj [OF that]] .
    show ?thesis
      unfolding levs using lev4 [of j "node_at sl xs p"] lev3 [OF h] h ht3 eq nx [OF p(1)] h2(2) [OF p(1)] lv(2)
      by auto
  qed
  have new: "levels (H6 x) ! j = \<lparr>forward = forward (levels (node_of sl xs (ps ! j)) ! j),
      span = span (levels (node_of sl xs (ps ! j)) ! j) - (int P - int (ps ! j))\<rparr>" if "j < lv" for j
    unfolding levs using lev4 [of j x] lev3 [of j x] that h2(1) ht3 by simp
  let ?xs = "take P xs @ x # drop P xs"
  have na: "node_at sl' ?xs p = (if p \<le> P then node_at sl xs p else if p = P + 1 then x else node_at sl xs (p - 1))" for p
    by (rule node_at_insert) (use c(3) in \<open>simp_all add: sl'_def\<close>)
  have hs: "heights sl' ?xs = take P ?hs @ lv # drop P ?hs"
  proof -
    have "height (H6 a) = height (?H a)" if "a \<in> set xs" for a
    proof -
      from that obtain k where "k < ?n" "a = xs ! k" by (auto simp: in_set_conv_nth)
      then show ?thesis using ht h2(2) [of "Suc k"] by simp
    qed
    then show ?thesis
      using ht h2(1) by (auto simp: heights_def sl'_def take_map drop_map dest: in_set_takeD in_set_dropD)
  qed
  have nodes': "sl_nodes sl' = H6" "sl_level sl' = ?L" by (simp_all add: sl'_def)
  have len: "length ?xs = ?n + 1" using c(3) by simp
  have ok': "level_ok sl' ?xs p i" if p: "p \<le> ?n + 1" "i < height (node_of sl' ?xs p)" for p i
  proof -
    consider (before) "p \<le> P" | (at) "p = P + 1" | (after) "P + 1 < p" by linarith
    then show ?thesis
    proof cases
      case before
      then have pn: "p \<le> ?n" using c(3) by simp
      have hi: "i < height (node_of sl xs p)"
        using p(2) before na ht h2(2) [OF pn] by (simp add: nodes')
      have ok: "level_ok sl xs p i" by (rule sl_rep_level_ok [OF rep pn hi])
      note nb = nxt_insert_before [OF before, of ?hs lv i]
      have q: "(if nxt ?hs i p \<le> P then nxt ?hs i p else if i < lv then P + 1 else nxt ?hs i p + 1) = nxt (heights sl' ?xs) i p"
        using nb c(3) by (simp add: hs)
      show ?thesis
      proof (cases "i < ?L")
        case False
        then have "nxt ?hs i p = ?n + 1" by (intro nxt_above [OF rep]) (use pn in simp_all)
        then show ?thesis using ok old [OF pn hi] False q c(3) lv(2) before
          by (auto simp: level_ok_def Let_def nodes' na len)
      next
        case L: True
        show ?thesis
        proof (cases "p = ps ! i")
          case True
          then have "P < nxt ?hs i p" using c(4) [OF L] by simp
          moreover have "nxt ?hs i p \<le> ?n + 1" using nxt_le [of p ?hs i] pn by simp
          ultimately have q2: "nxt (heights sl' ?xs) i p = (if i < lv then P + 1 else nxt ?hs i p + 1)"
              "P < nxt ?hs i p" "nxt ?hs i p \<le> ?n + 1"
            using q by simp_all
          show ?thesis
          proof (cases "i < lv")
            case up: True
            then have "nxt (heights sl' ?xs) i p = P + 1" using q2 by simp
            then show ?thesis using old [OF pn hi] L True c(3) before up
              by (simp add: level_ok_def Let_def nodes' na len)
          next
            case down: False
            then have "nxt (heights sl' ?xs) i p = nxt ?hs i p + 1" using q2 by simp
            then show ?thesis using ok old [OF pn hi] L True c(3) before down q2(2,3)
              by (auto simp: level_ok_def Let_def nodes' na len)
          qed
        next
          case no: False
          then have "nxt ?hs i p \<le> P" using cut_nxt [OF cut L _ no hi] before by (simp add: P_def)
          then show ?thesis using ok old [OF pn hi] L no q c(3) before
            by (auto simp: level_ok_def Let_def nodes' na len min_def)
        qed
      qed
    next
      case at
      then have i: "i < lv" using p(2) na ht h2(1) by (simp add: nodes')
      then have L: "i < ?L" using lv(2) by simp
      have ok: "level_ok sl xs (ps ! i) i" using c(4) [OF L] pj [OF L] by (intro sl_rep_level_ok [OF rep]) simp_all
      have q: "nxt ?hs i (ps ! i) = nxt ?hs i P"
        by (rule nxt_between [symmetric]) (use c(4) [OF L] in simp_all)
      have q': "nxt (heights sl' ?xs) i p = nxt ?hs i P + 1"
        using nxt_insert_after [of P P ?hs lv i] c(3) by (simp add: hs at)
      have "P < nxt ?hs i P" by (rule nxt_gt)
      then show ?thesis using ok new [OF i] q q' L c(3) pj [OF L] c(4) [OF L] at
        by (auto simp: level_ok_def Let_def nodes' na len min_def)
    next
      case after
      then obtain r where r: "p = r + 1" "P < r" "r \<le> ?n" using p(1) by (cases p) auto
      have hi: "i < height (node_of sl xs r)"
        using p(2) na ht h2(2) [OF r(3)] r by (simp add: nodes')
      have ok: "level_ok sl xs r i" by (rule sl_rep_level_ok [OF rep r(3) hi])
      have "\<not> (i < ?L \<and> r = ps ! i)" using c(4) [of i] r(2) by auto
      then have e: "levels (H6 (node_at sl xs r)) ! i = levels (node_of sl xs r) ! i"
        using old [OF r(3) hi] by (simp only: if_False)
      have q': "nxt (heights sl' ?xs) i p = nxt ?hs i r + 1"
        using nxt_insert_after [of P r ?hs lv i] r by (simp add: hs)
      have "r < nxt ?hs i r" by (rule nxt_gt)
      then show ?thesis using ok e q' r by (auto simp: level_ok_def Let_def nodes' na len min_def)
    qed
  qed
  have dist: "distinct (sl_head sl # xs)" "x \<notin> set (sl_head sl # xs)"
      "\<forall>a \<in> set (sl_head sl # xs). a < sl_fresh sl"
    using rep by (auto simp: sl_rep_def x_def)
  have back': "backward (H6 (?xs ! k)) = (if k = 0 then None else Some (?xs ! (k - 1)))" if k: "k < ?n + 1" for k
  proof -
    have bx: "backward (?H (xs ! k)) = (if k = 0 then None else Some (xs ! (k - 1)))" if "k < ?n" for k
      using rep that by (simp add: sl_rep_def)
    have inj: "xs ! k = xs ! P \<longleftrightarrow> k = P" if "k < ?n" "P < ?n" for k
      using dist(1) that by (simp add: nth_eq_iff_index_eq)
    have nex: "xs ! k \<noteq> x" if "k < ?n" for k using nx [of "Suc k"] that by simp
    consider "k < P" | "k = P" | "P < k" by linarith
    then show ?thesis
    proof cases
      case 1
      then show ?thesis using c(3) bwd [of "xs ! k"] bx [of k] inj [of k] nex [of k] by (auto simp: nth_append min_def)
    next
      case 2
      then show ?thesis using c(3) bwd [of x] xP by (cases P) (auto simp: nth_append min_def b_def)
    next
      case 3
      then obtain r where "k = r + 1" "P \<le> r" by (cases k) auto
      moreover have "P < r \<Longrightarrow> P + (r - Suc P) = r - Suc 0" by simp
      ultimately show ?thesis using k c(3) bwd [of "xs ! r"] bx [of r] inj [of r] nex [of r]
        by (auto simp: nth_append min_def nth_Cons' not_less le_eq_less_or_eq)
    qed
  qed
  have "set (heights sl' ?xs) = insert lv (set ?hs)"
    unfolding hs using set_append [of "take P ?hs" "drop P ?hs"] by auto
  moreover have "height (H6 (sl_head sl)) = SkipListMaxLevel"
    using ht [of "sl_head sl"] h2(2) [of 0] rep by (simp add: sl_rep_def)
  moreover have "distinct (sl_head sl # ?xs)" using dist distinct_take distinct_drop
    by (auto dest: in_set_takeD in_set_dropD simp: set_take_disj_set_drop_if_distinct)
  moreover have "set ?xs = insert x (set xs)"
    using set_append [of "take P xs" "drop P xs"] by auto
  moreover have "sl_tail sl' = Some (last ?xs)"
    using rep c(3) by (auto simp: sl'_def sl_rep_def last_drop)
  moreover have "member (H6 (sl_head sl)) = []"
    using keys [of "sl_head sl"] nx [of 0] rep by (simp add: H2_def sl_rep_def)
  ultimately have "sl_rep sl' ?xs"
    using rep ok' back' len dist lv unfolding sl_rep_def
    by (auto simp: sl'_def x_def less_SucI)
  moreover have "member (sl_nodes sl' x) = m" "score (sl_nodes sl' x) = s"
    using keys [of x] by (simp_all add: nodes' H2_def)
  moreover have "member (sl_nodes sl' a) = member (?H a) \<and> score (sl_nodes sl' a) = score (?H a)" if "a \<noteq> x" for a
    using keys [of a] that by (simp add: nodes' H2_def)
  ultimately show ?thesis using run by blast
qed

lemma randomLevel_range: "1 \<le> randomLevel draws \<and> randomLevel draws \<le> SkipListMaxLevel"
  by (simp add: randomLevel_def Let_def SkipListMaxLevel_def)

definition item_at :: "SkipList \<Rightarrow> nat \<Rightarrow> float64 \<times> string" where
  "item_at sl a = (score (sl_nodes sl a), member (sl_nodes sl a))"

definition items :: "SkipList \<Rightarrow> nat list \<Rightarrow> (float64 \<times> string) list" where
  "items sl xs = map (item_at sl) xs"

fun item_less :: "float64 \<times> string \<Rightarrow> float64 \<times> string \<Rightarrow> bool" where
  "item_less (s, m) (t, k) \<longleftrightarrow> flt s t \<or> (feq s t \<and> str_less m k)"

lemma goes_before_item: "goes_before s m (sl_nodes sl a) r \<longleftrightarrow> item_less (item_at sl a) (s, m)"
  by (simp add: goes_before_def item_at_def)

lemma length_items [simp]: "length (items sl xs) = length xs"
  by (simp add: items_def)

lemma items_nth: "p < length xs \<Longrightarrow> items sl xs ! p = item_at sl (xs ! p)"
  by (simp add: items_def)

lemma search_boundary:
  assumes rep: "sl_rep sl xs"
  shows "\<exists>ps. search_levels (goes_before s m) (sl_nodes sl) (sl_level sl) (sl_head sl) 0 =
      Some (map (node_at sl xs) ps, map int ps) \<and> cut sl xs ps \<and> ps ! 0 \<le> length xs \<and>
      (ps ! 0 < length xs \<longrightarrow> \<not> item_less (items sl xs ! (ps ! 0)) (s, m)) \<and>
      (0 < ps ! 0 \<longrightarrow> item_less (items sl xs ! (ps ! 0 - 1)) (s, m))"
proof -
  obtain ps where ps: "search_levels (goes_before s m) (sl_nodes sl) (sl_level sl) (sl_head sl) 0 =
      Some (map (node_at sl xs) ps, map int ps)" "cut sl xs ps"
      "nxt (heights sl xs) 0 (ps ! 0) \<le> length xs \<longrightarrow>
         \<not> goes_before s m (node_of sl xs (nxt (heights sl xs) 0 (ps ! 0))) (int (nxt (heights sl xs) 0 (ps ! 0)))"
      "ps ! 0 = 0 \<or> goes_before s m (node_of sl xs (ps ! 0)) (int (ps ! 0))"
    using search_from_head [OF rep, of "goes_before s m"] by blast
  have P: "ps ! 0 \<le> length xs" by (rule cut_le [OF rep ps(2)])
  have "nxt (heights sl xs) 0 (ps ! 0) = ps ! 0 + 1" if "ps ! 0 < length xs"
    using that rep by (intro nxt_0) (simp_all add: sl_rep_def)
  then have "ps ! 0 < length xs \<longrightarrow> \<not> item_less (items sl xs ! (ps ! 0)) (s, m)"
    using ps(3) by (auto simp: goes_before_item items_nth)
  moreover have "0 < ps ! 0 \<longrightarrow> item_less (items sl xs ! (ps ! 0 - 1)) (s, m)"
  proof
    assume z: "0 < ps ! 0"
    then obtain k where k: "ps ! 0 = Suc k" by (cases "ps ! 0") auto
    then show "item_less (items sl xs ! (ps ! 0 - 1)) (s, m)"
      using ps(4) P by (simp add: goes_before_item items_nth)
  qed
  ultimately show ?thesis using ps(1,2) P by (intro exI [of _ ps] conjI)
qed

lemma SkipList_Insert_rep:
  assumes rep: "sl_rep sl xs"
  shows "\<exists>sl' P. SkipList_Insert draws sl s m = Some sl' \<and> P \<le> length xs \<and>
    sl_rep sl' (take P xs @ sl_fresh sl # drop P xs) \<and>
    items sl' (take P xs @ sl_fresh sl # drop P xs) = take P (items sl xs) @ (s, m) # drop P (items sl xs) \<and>
    (P < length xs \<longrightarrow> \<not> item_less (items sl xs ! P) (s, m)) \<and>
    (0 < P \<longrightarrow> item_less (items sl xs ! (P - 1)) (s, m))"
proof -
  let ?lv = "randomLevel draws" and ?L = "sl_level sl"
  obtain ps where ps: "search_levels (goes_before s m) (sl_nodes sl) ?L (sl_head sl) 0 =
      Some (map (node_at sl xs) ps, map int ps)" "cut sl xs ps" "ps ! 0 \<le> length xs"
      "ps ! 0 < length xs \<longrightarrow> \<not> item_less (items sl xs ! (ps ! 0)) (s, m)"
      "0 < ps ! 0 \<longrightarrow> item_less (items sl xs ! (ps ! 0 - 1)) (s, m)"
    using search_boundary [OF rep, of s m] by (elim exE conjE) (rule that)
  have lv: "1 \<le> ?lv" "?lv \<le> SkipListMaxLevel" using randomLevel_range by simp_all
  let ?ps = "ps @ replicate (?lv - ?L) 0"
  obtain H where H: "raise_levels (sl_head sl) (sl_length sl) [?L..<?lv] (sl_nodes sl) = Some H"
    "same_frame (sl_nodes sl) H"
    "sl_rep (sl\<lparr>sl_nodes := H, sl_level := max ?L ?lv\<rparr>) xs"
    "cut (sl\<lparr>sl_nodes := H, sl_level := max ?L ?lv\<rparr>) xs ?ps"
    using raise_rep [OF rep ps(2) lv(2)] by blast
  let ?sl = "sl\<lparr>sl_nodes := H, sl_level := max ?L ?lv\<rparr>"
  have na: "node_at ?sl xs = node_at sl xs" by (simp add: node_at_def fun_eq_iff)
  have z: "?ps ! 0 = ps ! 0" using cut_nonempty [OF rep ps(2)] by (simp add: nth_append)
  have arrays: "map (node_at sl xs) ps @ replicate (?lv - ?L) (sl_head sl) = map (node_at ?sl xs) ?ps"
      "map int ps @ replicate (?lv - ?L) 0 = map int ?ps"
    by (simp_all add: na)
  obtain sl' where sl': "splice ?sl (map (node_at ?sl xs) ?ps) (map int ?ps) ?lv s m = Some sl'"
    "sl_rep sl' (take (ps ! 0) xs @ sl_fresh sl # drop (ps ! 0) xs)"
    "member (sl_nodes sl' (sl_fresh sl)) = m" "score (sl_nodes sl' (sl_fresh sl)) = s"
    "\<forall>a. a \<noteq> sl_fresh sl \<longrightarrow> member (sl_nodes sl' a) = member (H a) \<and> score (sl_nodes sl' a) = score (H a)"
    using splice_rep [OF H(3,4) lv(1), of s m] z by auto
  have "SkipList_Insert draws sl s m = Some sl'"
    using sl'(1) H(1) ps(1) by (simp only: SkipList_Insert_def Let_def bind.bind_lunit prod.case arrays)
  moreover have "item_at sl' a = item_at sl a" if "a \<in> set xs" for a
    using that sl'(5) H(2) rep by (auto simp: item_at_def same_frame_def sl_rep_def)
  then have "items sl' (take (ps ! 0) xs @ sl_fresh sl # drop (ps ! 0) xs) =
      take (ps ! 0) (items sl xs) @ (s, m) # drop (ps ! 0) (items sl xs)"
    using sl'(3,4) by (auto simp: items_def take_map drop_map item_at_def dest: in_set_takeD in_set_dropD)
  ultimately show ?thesis using sl'(2) ps(3-5) by (intro exI [of _ sl'] exI [of _ "ps ! 0"] conjI)
qed

subsection \<open>Delete\<close>

lemma lower_level_rep:
  "1 \<le> lv \<Longrightarrow> lv \<le> height n \<Longrightarrow>
   \<exists>k. lower_level n lv = Some k \<and> 1 \<le> k \<and> k \<le> lv \<and> (\<forall>j. k \<le> j \<longrightarrow> j < lv \<longrightarrow> forward (levels n ! j) = None)"
proof (induction n lv rule: lower_level.induct)
  case (1 n i)
  have l: "level_at n (Suc i) = Some (levels n ! Suc i)" using 1(3) by (simp add: level_at_height)
  show ?case
  proof (cases "forward (levels n ! Suc i) = None")
    case True
    then show ?thesis using 1(1) [of "levels n ! Suc i"] 1(3) l by (force simp: less_Suc_eq)
  next
    case False
    then show ?thesis using l by (intro exI [of _ "Suc (Suc i)"]) auto
  qed
qed auto

lemma deleteNode_rep:
  assumes rep: "sl_rep sl xs" and cut: "cut sl xs ps" and P: "ps ! 0 < length xs"
  defines "P \<equiv> ps ! 0"
  defines "x \<equiv> xs ! P" and "ys \<equiv> take P xs @ drop (P + 1) xs"
  shows "\<exists>sl'. deleteNode sl x (map (node_at sl xs) ps) = Some sl' \<and> sl_rep sl' ys \<and> sl_fresh sl' = sl_fresh sl \<and>
    (\<forall>a. member (sl_nodes sl' a) = member (sl_nodes sl a) \<and> score (sl_nodes sl' a) = score (sl_nodes sl a))"
proof -
  let ?L = "sl_level sl" and ?n = "length xs" and ?hs = "heights sl xs" and ?H = "sl_nodes sl"
  let ?us = "map (node_at sl xs) ps"
  let ?hs' = "take P ?hs @ drop (P + 1) ?hs"
  define h where "h = height (?H x)"
  have Pn: "P < ?n" using P by (simp add: P_def)
  have c: "length ps = ?L" "0 < ?L"
      "\<And>j. j < ?L \<Longrightarrow> ps ! j \<le> P \<and> j < height (node_of sl xs (ps ! j)) \<and> P < nxt ?hs j (ps ! j)"
    using cut rep by (auto simp: cut_def P_def sl_rep_def)
  have us: "?us ! j = node_at sl xs (ps ! j)" if "j < ?L" for j
    using that c(1) by simp
  have pj: "ps ! j \<le> ?n" if "j < ?L" for j using Pn c(3) [OF that] by simp
  have x: "x = node_at sl xs (P + 1)" using Pn by (simp add: x_def)
  have nx: "node_at sl xs p \<noteq> x" if "p \<le> P" for p
    using node_at_inj [OF rep, of p "P + 1"] that Pn by (simp add: x)
  have hsx: "?hs = take P ?hs' @ h # drop P ?hs'" "length ?hs' = ?n - 1"
    using Pn id_take_nth_drop [of P ?hs] by (simp_all add: h_def x_def heights_def min_def)
  have before: "nxt ?hs i p = (if nxt ?hs' i p \<le> P then nxt ?hs' i p else if i < h then P + 1 else nxt ?hs' i p + 1)"
    if "p \<le> P" for i p
    using nxt_insert_before [of p P ?hs' h i] hsx Pn that by simp
  have after: "nxt ?hs i (p + 1) = nxt ?hs' i p + 1" if "P \<le> p" "p < ?n" for i p
    using nxt_insert_after [of P p ?hs' h i] hsx Pn that by simp
  have at_cut: "P < nxt ?hs' j (ps ! j)" if "j < ?L" for j
    using before [of "ps ! j" j] c(3) [OF that] by (auto split: if_splits)
  have okc: "level_ok sl xs (ps ! j) j" if "j < ?L" for j
    using c(3) [OF that] pj [OF that] by (intro sl_rep_level_ok [OF rep]) simp_all
  have fwd: "forward (levels (node_of sl xs (ps ! j)) ! j) = Some x \<longleftrightarrow> j < h" if j: "j < ?L" for j
  proof
    assume "j < h"
    then show "forward (levels (node_of sl xs (ps ! j)) ! j) = Some x"
      using okc [OF j] before [of "ps ! j" j] at_cut [OF j] c(3) [OF j] Pn by (simp add: level_ok_def Let_def x)
  next
    assume f: "forward (levels (node_of sl xs (ps ! j)) ! j) = Some x"
    then have q: "nxt ?hs j (ps ! j) \<le> ?n" "node_at sl xs (nxt ?hs j (ps ! j)) = x"
      using okc [OF j] by (auto simp: level_ok_def Let_def split: if_splits)
    then have "nxt ?hs j (ps ! j) = P + 1"
      using node_at_inj [OF rep q(1), of "P + 1"] Pn by (simp add: x)
    then show "j < h" using before [of "ps ! j" j] at_cut [OF j] c(3) [OF j] by (auto split: if_splits)
  qed
  have "\<exists>H'. unlink_levels x ?us [0..<?L] ?H = Some H' \<and> same_frame ?H H' \<and>
     (\<forall>a j. j < height (?H a) \<longrightarrow> levels (H' a) ! j =
        (if j \<in> set [0..<?L] \<and> a = ?us ! j then
           (let l = levels (?H a) ! j; lx = levels (?H x) ! j in
            if forward l = Some x then \<lparr>forward = forward lx, span = span l + (span lx - 1)\<rparr>
            else l\<lparr>span := span l - 1\<rparr>)
         else levels (?H a) ! j))"
    by (rule unlink_levels_rep) (use us c(3) nx fwd in \<open>auto simp: h_def\<close>)
  then obtain H1 where H1: "unlink_levels x ?us [0..<?L] ?H = Some H1" "same_frame ?H H1"
    and lev1: "\<And>a j. j < height (?H a) \<Longrightarrow> levels (H1 a) ! j =
        (if j < ?L \<and> a = node_at sl xs (ps ! j) then
           (if j < h then \<lparr>forward = forward (levels (?H x) ! j),
               span = span (levels (?H a) ! j) + (span (levels (?H x) ! j) - 1)\<rparr>
            else (levels (?H a) ! j)\<lparr>span := span (levels (?H a) ! j) - 1\<rparr>)
         else levels (?H a) ! j)"
    using us fwd by (auto simp: Let_def)
  have ht1: "height (H1 a) = height (?H a)" for a using H1(2) by (simp add: same_frame_def)
  have hx: "0 < h" "h \<le> ?L" using sl_rep_height [OF rep, of "P + 1"] Pn by (simp_all add: h_def x)
  have lx: "levels (H1 x) ! j = levels (?H x) ! j" if "j < h" for j
    using lev1 [of j x] that hx c(3) [of j] nx [of "ps ! j"] by (auto simp: h_def)
  define y0 where "y0 = forward (levels (?H x) ! 0)"
  have okx: "level_ok sl xs (P + 1) j" if "j < h" for j
    using that Pn by (intro sl_rep_level_ok [OF rep]) (simp_all add: h_def x)
  have y0: "y0 = (if P + 1 < ?n then Some (xs ! (P + 1)) else None)"
  proof -
    have "nxt ?hs 0 (P + 1) = P + 2" if "P + 1 < ?n"
      using that rep nxt_0 [of ?hs "P + 1"] by (simp add: sl_rep_def)
    moreover have "P + 1 < nxt ?hs 0 (P + 1)" by (rule nxt_gt)
    ultimately show ?thesis using okx [OF hx(1)] by (auto simp: level_ok_def Let_def y0_def x)
  qed
  have l0: "level_at (H1 x) 0 = Some (levels (?H x) ! 0)"
    using hx(1) lx [of 0] ht1 [of x] by (simp add: level_at_height h_def)
  have bx: "backward (H1 x) = (if P = 0 then None else Some (xs ! (P - 1)))"
    using H1(2) rep Pn by (simp add: same_frame_def sl_rep_def x_def)
  define H2 where "H2 = (if P + 1 < ?n then H1(xs ! (P + 1) := (H1 (xs ! (P + 1)))\<lparr>backward := backward (H1 x)\<rparr>) else H1)"
  have levs: "levels (H2 a) = levels (H1 a)" for a by (simp add: H2_def)
  have keys: "member (H2 a) = member (?H a)" "score (H2 a) = score (?H a)" for a
    using H1(2) by (simp_all add: H2_def same_frame_def)
  have ht: "height (H2 a) = height (?H a)" for a using levs ht1 [of a] by (simp add: height_def)
  have bwd: "backward (H2 a) = (if P + 1 < ?n \<and> a = xs ! (P + 1) then backward (H1 x) else backward (?H a))" for a
    using H1(2) by (auto simp: H2_def same_frame_def)
  have hd: "height (H2 (sl_head sl)) = SkipListMaxLevel" using ht rep by (simp add: sl_rep_def)
  obtain k where k: "lower_level (H2 (sl_head sl)) ?L = Some k" "1 \<le> k" "k \<le> ?L"
      "\<And>j. k \<le> j \<Longrightarrow> j < ?L \<Longrightarrow> forward (levels (H2 (sl_head sl)) ! j) = None"
    using lower_level_rep [of ?L "H2 (sl_head sl)"] hd rep by (auto simp: sl_rep_def)
  define sl' where "sl' = sl\<lparr>sl_nodes := H2, sl_tail := (if P + 1 < ?n then sl_tail sl else backward (H1 x)),
      sl_level := k, sl_length := sl_length sl - 1\<rparr>"
  have "(case y0 of Some y \<Rightarrow> H1(y := (H1 y)\<lparr>backward := backward (H1 x)\<rparr>) | None \<Rightarrow> H1) = H2"
      "(case y0 of Some y \<Rightarrow> sl_tail sl | None \<Rightarrow> backward (H1 x)) = sl_tail sl'"
    using y0 by (simp_all add: H2_def sl'_def)
  then have run: "deleteNode sl x ?us = Some sl'"
    using H1(1) l0 k(1) by (simp add: deleteNode_def Let_def sl'_def y0_def)
  have nodes': "sl_nodes sl' = H2" "sl_level sl' = k" "sl_head sl' = sl_head sl" by (simp_all add: sl'_def)
  have len: "length ys = ?n - 1" using Pn by (simp add: ys_def)
  have na: "node_at sl' ys p = (if p \<le> P then node_at sl xs p else node_at sl xs (p + 1))" if "p \<le> ?n - 1" for p
    using that Pn by (cases p) (auto simp: node_at_def nodes' ys_def nth_append min_def)
  have hs: "heights sl' ys = ?hs'"
    using ht by (simp add: heights_def nodes' ys_def take_map drop_map)
  have old: "levels (H2 (node_at sl xs p)) ! j =
      (if j < ?L \<and> p = ps ! j then
         (if j < h then \<lparr>forward = forward (levels (?H x) ! j),
               span = span (levels (node_of sl xs p) ! j) + (span (levels (?H x) ! j) - 1)\<rparr>
            else (levels (node_of sl xs p) ! j)\<lparr>span := span (levels (node_of sl xs p) ! j) - 1\<rparr>)
       else levels (node_of sl xs p) ! j)" if p: "p \<le> ?n" "j < height (node_of sl xs p)" for p j
    unfolding levs using lev1 [OF p(2)] node_at_inj [OF rep p(1) pj [of j]] by auto
  have ok': "level_ok sl' ys p i" if p: "p \<le> ?n - 1" "i < height (node_of sl' ys p)" for p i
  proof (cases "p \<le> P")
    case True
    have pn: "p \<le> ?n" using p(1) by simp
    have hi: "i < height (node_of sl xs p)" using p na True ht by (simp add: nodes')
    have ok: "level_ok sl xs p i" by (rule sl_rep_level_ok [OF rep pn hi])
    have q: "nxt (heights sl' ys) i p = nxt ?hs' i p" by (simp add: hs)
    show ?thesis
    proof (cases "i < ?L \<and> p = ps ! i")
      case cutp: True
      have g: "P < nxt ?hs' i p" using at_cut cutp by simp
      have qP: "nxt ?hs' i p = nxt ?hs' i P"
        using nxt_between [OF True, of ?hs' i] g by simp
      have q1: "nxt ?hs i (P + 1) = nxt ?hs' i P + 1" by (rule after) (use Pn in simp_all)
      show ?thesis
      proof (cases "i < h")
        case up: True
        let ?Q = "nxt ?hs' i p" and ?l = "levels (node_of sl xs p) ! i" and ?lx = "levels (?H x) ! i"
        have "nxt ?hs i p = P + 1" using before [OF True, of i] g up by simp
        then have sp: "span ?l = int (P + 1) - int p" using ok cutp Pn by (simp add: level_ok_def Let_def)
        have lxv: "forward ?lx = (if ?Q + 1 \<le> ?n then Some (node_at sl xs (?Q + 1)) else None)"
            "span ?lx = int (min (?Q + 1) ?n) - int (P + 1)"
          using okx [OF up] cutp q1 qP by (simp_all add: level_ok_def Let_def x)
        have new: "levels (H2 (node_at sl' ys p)) ! i = \<lparr>forward = forward ?lx, span = span ?l + (span ?lx - 1)\<rparr>"
          using old [OF pn hi] cutp up na [OF p(1)] True by simp
        show ?thesis
        proof (cases "?Q \<le> ?n - 1")
          case le: True
          have "node_at sl' ys ?Q = node_at sl xs (?Q + 1)" using na [OF le] g by (simp del: node_at_Suc)
          moreover have "?Q + 1 \<le> ?n" using le Pn by linarith
          ultimately show ?thesis using g Pn le
            by (simp add: level_ok_def Let_def nodes' q len new lxv sp del: node_at_Suc)
        next
          case gt: False
          then show ?thesis using g Pn
            by (simp add: level_ok_def Let_def nodes' q len new lxv sp)
        qed
      next
        case down: False
        let ?Q = "nxt ?hs' i p" and ?l = "levels (node_of sl xs p) ! i"
        have "nxt ?hs i p = ?Q + 1" using before [OF True, of i] g down by simp
        then have lv: "forward ?l = (if ?Q + 1 \<le> ?n then Some (node_at sl xs (?Q + 1)) else None)"
            "span ?l = int (min (?Q + 1) ?n) - int p"
          using ok cutp by (simp_all add: level_ok_def Let_def)
        have new: "levels (H2 (node_at sl' ys p)) ! i = ?l\<lparr>span := span ?l - 1\<rparr>"
          using old [OF pn hi] cutp down na [OF p(1)] True by simp
        show ?thesis
        proof (cases "?Q \<le> ?n - 1")
          case le: True
          have "node_at sl' ys ?Q = node_at sl xs (?Q + 1)" using na [OF le] g by (simp del: node_at_Suc)
          moreover have "?Q + 1 \<le> ?n" using le Pn by linarith
          ultimately show ?thesis using g Pn le
            by (simp add: level_ok_def Let_def nodes' q len new lv del: node_at_Suc)
        next
          case gt: False
          then show ?thesis using g Pn
            by (simp add: level_ok_def Let_def nodes' q len new lv)
        qed
      qed
    next
      case other: False
      have e: "levels (H2 (node_at sl xs p)) ! i = levels (node_of sl xs p) ! i"
        using old [OF pn hi] other by (simp only: if_False)
      show ?thesis
      proof (cases "i < ?L")
        case L: True
        then have "nxt ?hs i p \<le> P" using cut_nxt [OF cut L _ _ hi] True other by (simp add: P_def)
        then have n1: "nxt ?hs i p = nxt (heights sl' ys) i p" "nxt (heights sl' ys) i p \<le> P"
          using before [OF True, of i] unfolding q by (auto split: if_splits)
        define Q where "Q = nxt (heights sl' ys) i p"
        have n2: "Q \<le> ?n - 1" "Q \<le> ?n" "Q \<le> P" using n1(2) Pn unfolding Q_def by linarith+
        have na1: "node_at sl' ys p = node_at sl xs p" "node_at sl' ys Q = node_at sl xs Q"
          using na [OF p(1)] na [OF n2(1)] True n2(3) by simp_all
        have "forward (levels (H2 (node_at sl' ys p)) ! i) = Some (node_at sl xs Q)"
            "span (levels (H2 (node_at sl' ys p)) ! i) = int Q - int p"
          using ok L n2 unfolding na1 e level_ok_def Let_def n1(1) Q_def [symmetric] by simp_all
        then show ?thesis
          unfolding level_ok_def Let_def nodes' len Q_def [symmetric] na1(2) using n2 by simp
      next
        case L: False
        then have "nxt ?hs i p = ?n + 1" by (intro nxt_above [OF rep]) (use pn in simp_all)
        moreover have "nxt ?hs' i p \<le> ?n" using nxt_le [of p ?hs' i] p(1) hsx(2) Pn by simp
        ultimately have "nxt ?hs' i p = ?n" using before [OF True, of i] Pn L hx by (auto split: if_splits)
        moreover have "node_at sl' ys p = node_at sl xs p" using na [OF p(1)] True by simp
        moreover have "\<not> ?n \<le> ?n - 1" using Pn by linarith
        ultimately show ?thesis using ok L k(3) \<open>nxt ?hs i p = ?n + 1\<close>
          by (simp add: level_ok_def Let_def nodes' len q e)
      qed
    qed
  next
    case False
    have pn: "p + 1 \<le> ?n" using p(1) Pn by linarith
    have hi: "i < height (node_of sl xs (p + 1))" using p na False ht by (simp add: nodes')
    have ok: "level_ok sl xs (p + 1) i" by (rule sl_rep_level_ok [OF rep pn hi])
    have "\<not> (i < ?L \<and> p + 1 = ps ! i)" using c(3) [of i] False by auto
    then have e: "levels (H2 (node_at sl xs (p + 1))) ! i = levels (node_of sl xs (p + 1)) ! i"
      using old [OF pn hi] by (simp only: if_False)
    have q: "nxt ?hs i (p + 1) = nxt (heights sl' ys) i p + 1"
      using after [of p i] False pn by (simp add: hs)
    let ?Q = "nxt (heights sl' ys) i p"
    have g: "p < ?Q" by (rule nxt_gt)
    have np: "node_at sl' ys p = node_at sl xs (p + 1)" using na [OF p(1)] False by (simp del: node_at_Suc)
    have ok1: "forward (levels (H2 (node_at sl' ys p)) ! i) = (if ?Q + 1 \<le> ?n then Some (node_at sl xs (?Q + 1)) else None)"
        "i < ?L \<longrightarrow> span (levels (H2 (node_at sl' ys p)) ! i) = int (min (?Q + 1) ?n) - int (p + 1)"
      using ok unfolding level_ok_def Let_def q np e by blast+
    show ?thesis
    proof (cases "?Q \<le> ?n - 1")
      case True
      have "node_at sl' ys ?Q = node_at sl xs (?Q + 1)" using na [OF True] g False by (simp del: node_at_Suc)
      moreover have "?Q + 1 \<le> ?n" using True Pn by linarith
      ultimately show ?thesis using ok1 True k(3)
        by (simp add: level_ok_def Let_def nodes' len del: node_at_Suc)
    next
      case no: False
      then have "\<not> ?Q + 1 \<le> ?n" by linarith
      then show ?thesis using ok1 no k(3) Pn
        by (simp add: level_ok_def Let_def nodes' len of_nat_diff)
    qed
  qed
  have bwd': "backward (H2 (ys ! j)) = (if j = 0 then None else Some (ys ! (j - 1)))" if j: "j < ?n - 1" for j
  proof -
    have bx': "backward (?H (xs ! j)) = (if j = 0 then None else Some (xs ! (j - 1)))" if "j < ?n" for j
      using rep that by (simp add: sl_rep_def)
    have inj: "xs ! j = xs ! (P + 1) \<longleftrightarrow> j = P + 1" if "j < ?n" "P + 1 < ?n" for j
      using rep that by (simp add: nth_eq_iff_index_eq sl_rep_def)
    show ?thesis
    proof (cases "j < P")
      case True
      then show ?thesis using bwd [of "xs ! j"] bx' [of j] inj [of j] Pn
        by (auto simp: ys_def nth_append min_def)
    next
      case False
      have e: "ys ! j = xs ! (j + 1)" using False j Pn by (simp add: ys_def nth_append min_def)
      show ?thesis
      proof (cases "j = P")
        case True
        then show ?thesis using bwd [of "xs ! (P + 1)"] bx j Pn e by (auto simp: ys_def nth_append min_def)
      next
        case no: False
        with False have "ys ! (j - 1) = xs ! j" "P < j" using j Pn by (auto simp: ys_def nth_append min_def)
        then show ?thesis using bwd [of "xs ! (j + 1)"] bx' [of "j + 1"] inj [of "j + 1"] e j Pn by auto
      qed
    qed
  qed
  have hk: "hh \<le> k" if "hh \<in> set ?hs'" for hh
  proof (rule ccontr)
    assume "\<not> hh \<le> k"
    moreover have "hh \<le> ?L" using that rep unfolding sl_rep_def by (auto dest: in_set_takeD in_set_dropD)
    ultimately have kL: "k < ?L" "k < hh" by simp_all
    then have f: "forward (levels (H2 (sl_head sl)) ! k) = None" using k(4) by simp
    have "k < height (node_of sl' ys 0)" using hd kL(1) rep by (simp add: nodes' sl_rep_def)
    then have "level_ok sl' ys 0 k" by (intro ok') simp_all
    then have "forward (levels (H2 (sl_head sl)) ! k) =
        (if nxt ?hs' k 0 \<le> ?n - 1 then Some (node_at sl' ys (nxt ?hs' k 0)) else None)"
      unfolding level_ok_def Let_def node_at_0 nodes' len hs by blast
    with f have "?n - 1 < nxt ?hs' k 0" by (metis not_le option.distinct(1))
    moreover have "\<exists>r < ?n - 1. ?hs' ! r = hh" using that unfolding in_set_conv_nth hsx(2) by blast
    then obtain r where r: "r < ?n - 1" "?hs' ! r = hh" by blast
    have "nxt ?hs' k 0 \<le> r + 1"
    proof (rule nxt_least)
      show "r + 1 \<le> length ?hs'" unfolding hsx(2) using r(1) by linarith
      show "k < ?hs' ! (r + 1 - 1)" unfolding add_diff_cancel_right' r(2) by (rule kL(2))
    qed simp
    ultimately show False using r(1) by linarith
  qed
  have "sl_tail sl' = (if ys = [] then None else Some (last ys))"
  proof (cases "P + 1 < ?n")
    case True
    then show ?thesis using rep by (auto simp: sl'_def sl_rep_def ys_def last_append)
  next
    case False
    then have "P = ?n - 1" using Pn by simp
    then have y: "ys = butlast xs" by (simp add: ys_def butlast_conv_take)
    show ?thesis
    proof (cases "P = 0")
      case True
      then show ?thesis using False bx y \<open>P = ?n - 1\<close> by (simp add: sl'_def flip: length_0_conv)
    next
      case no: False
      then have "ys \<noteq> []" "last ys = xs ! (P - 1)"
        using y \<open>P = ?n - 1\<close> by (auto simp: last_conv_nth nth_butlast simp flip: length_0_conv)
      then show ?thesis using False bx no by (simp add: sl'_def)
    qed
  qed
  moreover have "distinct (sl_head sl # ys)" "set ys \<subseteq> set xs"
    using rep by (auto simp: sl_rep_def ys_def set_take_disj_set_drop_if_distinct dest: in_set_takeD in_set_dropD)
  moreover have "\<forall>hh \<in> set ?hs'. 1 \<le> hh"
    using rep unfolding sl_rep_def by (auto dest: in_set_takeD in_set_dropD)
  moreover have "int (?n - 1) = sl_length sl - 1" using rep Pn by (simp add: sl_rep_def)
  moreover have "member (H2 (sl_head sl)) = []" using keys rep by (simp add: sl_rep_def)
  ultimately have "sl_rep sl' ys"
    unfolding sl_rep_def hs len using hd k(2,3) hk ok' bwd' rep
    by (auto simp: sl'_def sl_rep_def)
  then show ?thesis using run keys by (auto simp: sl'_def)
qed

lemma SkipList_Delete_rep:
  assumes rep: "sl_rep sl xs"
  shows "\<exists>sl' P. P \<le> length xs \<and>
    (P < length xs \<longrightarrow> \<not> item_less (items sl xs ! P) (s, m)) \<and>
    (0 < P \<longrightarrow> item_less (items sl xs ! (P - 1)) (s, m)) \<and>
    (if P < length xs \<and> feq (fst (items sl xs ! P)) s \<and> snd (items sl xs ! P) = m
     then SkipList_Delete sl s m = Some (sl', True) \<and> sl_rep sl' (take P xs @ drop (P + 1) xs) \<and>
       items sl' (take P xs @ drop (P + 1) xs) = take P (items sl xs) @ drop (P + 1) (items sl xs)
     else SkipList_Delete sl s m = Some (sl, False))"
proof -
  let ?H = "sl_nodes sl"
  obtain ps where ps: "search_levels (goes_before s m) ?H (sl_level sl) (sl_head sl) 0 =
      Some (map (node_at sl xs) ps, map int ps)" "cut sl xs ps" "ps ! 0 \<le> length xs"
      "ps ! 0 < length xs \<longrightarrow> \<not> item_less (items sl xs ! (ps ! 0)) (s, m)"
      "0 < ps ! 0 \<longrightarrow> item_less (items sl xs ! (ps ! 0 - 1)) (s, m)"
    using search_boundary [OF rep, of s m] by (elim exE conjE) (rule that)
  let ?P = "ps ! 0"
  have u0: "map (node_at sl xs) ps ! 0 = node_at sl xs ?P"
    using cut_nonempty [OF rep ps(2)] by simp
  have ok: "0 < height (node_of sl xs ?P)" "level_ok sl xs ?P 0"
    using sl_rep_height [OF rep ps(3)] by (auto intro: sl_rep_level_ok [OF rep ps(3)])
  have l0: "level_at (node_of sl xs ?P) 0 = Some (levels (node_of sl xs ?P) ! 0)"
    by (rule level_at_height [OF ok(1)])
  have "nxt (heights sl xs) 0 ?P = ?P + 1" if "?P < length xs"
    using that rep by (intro nxt_0) (simp_all add: sl_rep_def)
  moreover have "?P < nxt (heights sl xs) 0 ?P" by (rule nxt_gt)
  ultimately have fw: "forward (levels (node_of sl xs ?P) ! 0) = (if ?P < length xs then Some (xs ! ?P) else None)"
    using ok(2) by (auto simp: level_ok_def Let_def)
  show ?thesis
  proof (cases "?P < length xs \<and> feq (fst (items sl xs ! ?P)) s \<and> snd (items sl xs ! ?P) = m")
    case True
    then obtain sl' where sl': "deleteNode sl (xs ! ?P) (map (node_at sl xs) ps) = Some sl'"
      "sl_rep sl' (take ?P xs @ drop (?P + 1) xs)"
      "\<forall>a. member (sl_nodes sl' a) = member (?H a) \<and> score (sl_nodes sl' a) = score (?H a)"
      using deleteNode_rep [OF rep ps(2)] by blast
    have "feq (score (?H (xs ! ?P))) s \<and> member (?H (xs ! ?P)) = m"
      using True items_nth [of ?P xs sl] by (auto simp: item_at_def)
    then have "SkipList_Delete sl s m = Some (sl', True)"
      using True ps(1) u0 l0 fw sl'(1) unfolding SkipList_Delete_def by simp
    moreover have "items sl' (take ?P xs @ drop (?P + 1) xs) = take ?P (items sl xs) @ drop (?P + 1) (items sl xs)"
      using sl'(3) by (simp add: items_def item_at_def take_map drop_map)
    ultimately show ?thesis using True ps(3-5) sl'(2)
      by (intro exI [of _ sl'] exI [of _ ?P]) (simp only: if_True simp_thms)
  next
    case False
    have "SkipList_Delete sl s m = Some (sl, False)"
      using False ps(1) u0 l0 fw by (auto simp: SkipList_Delete_def items_nth item_at_def split: option.splits)
    then show ?thesis using False ps(3-5)
      by (intro exI [of _ sl] exI [of _ ?P]) (simp only: if_False simp_thms)
  qed
qed

subsection \<open>Ranks\<close>

lemma GetRank_levels_rep:
  assumes rep: "sl_rep sl xs" and K: "0 < K" "K \<le> length xs"
    and go: "\<And>q. 0 < q \<Longrightarrow> q \<le> length xs \<Longrightarrow> goes_upto s m (node_of sl xs q) (int q) \<longleftrightarrow> q \<le> K"
    and mem: "\<And>q. q \<le> length xs \<Longrightarrow> member (node_of sl xs q) = m \<longleftrightarrow> q = K"
  shows "0 < i \<Longrightarrow> i \<le> sl_level sl \<Longrightarrow> p \<le> K \<Longrightarrow> i \<le> height (node_of sl xs p) \<Longrightarrow>
    GetRank_levels s m (sl_nodes sl) i (node_at sl xs p) (int p) = Some (int K)"
proof (induction i arbitrary: p)
  case (Suc i)
  let ?hs = "heights sl xs"
  have i: "i < sl_level sl" "p \<le> length xs" "i < height (node_of sl xs p)" using Suc.prems K by simp_all
  obtain p' where p': "walk (goes_upto s m) (sl_nodes sl) i (node_at sl xs p) (int p) = Some (node_at sl xs p', int p')"
    "p \<le> p'" "p' \<le> length xs" "i < height (node_of sl xs p')"
    "nxt ?hs i p' \<le> length xs \<longrightarrow> \<not> goes_upto s m (node_of sl xs (nxt ?hs i p')) (int (nxt ?hs i p'))"
    "p' = p \<or> goes_upto s m (node_of sl xs p') (int p')"
    using walk_rep [OF rep i, of "goes_upto s m"] by blast
  have pK: "p' \<le> K" using p'(6) go [of p'] p'(3) Suc.prems(3) by (cases "p' = 0") auto
  show ?case
  proof (cases "p' = K")
    case True
    then show ?thesis using p'(1) mem [OF p'(3)] by simp
  next
    case False
    then have lt: "p' < K" using pK by simp
    have "0 < i"
    proof (rule ccontr)
      assume "\<not> 0 < i"
      moreover have "nxt ?hs 0 p' = p' + 1"
        using lt K rep by (intro nxt_0) (simp_all add: sl_rep_def)
      ultimately show False using p'(5) go [of "p' + 1"] lt K by simp
    qed
    then show ?thesis using Suc.IH [of p'] p'(1,4) i(1) pK mem [OF p'(3)] False by simp
  qed
qed simp

lemma GetNodeByRank_levels_rep:
  assumes rep: "sl_rep sl xs" and K: "0 < K" "K \<le> length xs"
  shows "0 < i \<Longrightarrow> i \<le> sl_level sl \<Longrightarrow> p \<le> K \<Longrightarrow> i \<le> height (node_of sl xs p) \<Longrightarrow>
    GetNodeByRank_levels (int K) (sl_nodes sl) i (node_at sl xs p) (int p) = Some (Some (node_at sl xs K))"
proof (induction i arbitrary: p)
  case (Suc i)
  let ?hs = "heights sl xs" and ?go = "\<lambda>_ r'. r' \<le> int K"
  have i: "i < sl_level sl" "p \<le> length xs" "i < height (node_of sl xs p)" using Suc.prems K by simp_all
  obtain p' where p': "walk ?go (sl_nodes sl) i (node_at sl xs p) (int p) = Some (node_at sl xs p', int p')"
    "p \<le> p'" "p' \<le> length xs" "i < height (node_of sl xs p')"
    "nxt ?hs i p' \<le> length xs \<longrightarrow> \<not> int (nxt ?hs i p') \<le> int K" "p' = p \<or> int p' \<le> int K"
    using walk_rep [OF rep i, of ?go] by blast
  have pK: "p' \<le> K" using p'(6) Suc.prems(3) by auto
  show ?case
  proof (cases "p' = K")
    case True
    then show ?thesis using p'(1) by simp
  next
    case False
    then have lt: "p' < K" using pK by simp
    have "0 < i"
    proof (rule ccontr)
      assume "\<not> 0 < i"
      moreover have "nxt ?hs 0 p' = p' + 1"
        using lt K rep by (intro nxt_0) (simp_all add: sl_rep_def)
      ultimately show False using p'(5) lt K by simp
    qed
    then show ?thesis using Suc.IH [of p'] p'(1,4) i(1) pK False by simp
  qed
qed simp

lemma GetNodeByRank_rep:
  assumes "sl_rep sl xs" "0 < K" "K \<le> length xs"
  shows "GetNodeByRank sl (int K) = Some (Some (xs ! (K - 1)))"
proof -
  have "0 < sl_level sl" "sl_level sl \<le> height (node_of sl xs 0)" "sl_length sl = int (length xs)"
    using assms(1) by (simp_all add: sl_rep_def)
  with GetNodeByRank_levels_rep [OF assms, of "sl_level sl" 0] assms(2,3)
  show ?thesis by (cases K) (simp_all add: GetNodeByRank_def)
qed

lemma collect_rep:
  assumes rep: "sl_rep sl xs"
  shows "p < length xs \<Longrightarrow>
    collect (sl_nodes sl) c (Some (xs ! p)) = Some (map (\<lambda>a. member (sl_nodes sl a)) (take c (drop p xs)))"
proof (induction c arbitrary: p)
  case (Suc c)
  have h: "0 < height (node_of sl xs (p + 1))" "level_ok sl xs (p + 1) 0"
    using sl_rep_height [OF rep, of "p + 1"] Suc.prems sl_rep_level_ok [OF rep, of "p + 1" 0] by simp_all
  have "nxt (heights sl xs) 0 (p + 1) = p + 2" if "p + 1 < length xs"
    using that rep nxt_0 [of "heights sl xs" "p + 1"] by (simp add: sl_rep_def)
  moreover have "p + 1 < nxt (heights sl xs) 0 (p + 1)" by (rule nxt_gt)
  ultimately have f: "forward (levels (sl_nodes sl (xs ! p)) ! 0) = (if p + 1 < length xs then Some (xs ! (p + 1)) else None)"
    using h(2) Suc.prems by (auto simp: level_ok_def Let_def)
  have l: "level_at (sl_nodes sl (xs ! p)) 0 = Some (levels (sl_nodes sl (xs ! p)) ! 0)"
    using h(1) Suc.prems by (intro level_at_height) simp
  have d: "drop p xs = xs ! p # drop (p + 1) xs" using Suc.prems by (simp add: Cons_nth_drop_Suc)
  show ?case
  proof (cases "p + 1 < length xs")
    case True
    then show ?thesis using Suc.IH [OF True] f l unfolding d by simp
  next
    case False
    then show ?thesis using f l unfolding d by (cases c) simp_all
  qed
qed (simp add: collect.simps)

lemma SkipList_Range_rep:
  assumes rep: "sl_rep sl xs"
  shows "SkipList_Range sl start0 stop0 = Some (redis_range (map snd (items sl xs)) start0 stop0)"
proof -
  let ?n = "int (length xs)"
  define a where "a = (if start0 < 0 then ?n + start0 else start0)"
  define b where "b = (if stop0 < 0 then ?n + stop0 else stop0)"
  have len: "sl_length sl = ?n" using rep by (simp add: sl_rep_def)
  have R: "redis_range (map snd (items sl xs)) start0 stop0 =
      map (\<lambda>i. map snd (items sl xs) ! nat i) [max 0 a..min (?n - 1) b]"
    by (simp add: redis_range_def Let_def a_def b_def)
  show ?thesis
  proof (cases "b < max 0 a \<or> ?n \<le> max 0 a")
    case True
    then have "SkipList_Range sl start0 stop0 = Some []"
      by (auto simp: SkipList_Range_def Let_def len max_def simp flip: a_def b_def)
    moreover have "[max 0 a..min (?n - 1) b] = []" using True by auto
    ultimately show ?thesis using R by simp
  next
    case False
    let ?lo = "max 0 a" and ?hi = "min (?n - 1) b"
    have lo: "0 \<le> ?lo" "?hi < ?n" "?lo \<le> ?hi" "nat ?lo < length xs" using False by auto
    have g: "GetNodeByRank sl (?lo + 1) = Some (Some (xs ! nat ?lo))"
      using GetNodeByRank_rep [OF rep, of "nat ?lo + 1"] lo by (simp add: add.commute)
    have hi: "(if ?n \<le> b then ?n - 1 else b) = ?hi" by (simp add: min_def)
    have lo': "(if a < 0 then 0 else a) = ?lo" by (simp add: max_def)
    have no: "\<not> (b < ?lo \<or> ?n \<le> ?lo)" by (rule False)
    have "SkipList_Range sl start0 stop0 = collect (sl_nodes sl) (nat (?hi - ?lo + 1)) (Some (xs ! nat ?lo))"
      unfolding SkipList_Range_def Let_def len a_def [symmetric] b_def [symmetric] hi lo' if_not_P [OF no] g by simp
    also have "\<dots> = Some (take (nat (?hi - ?lo + 1)) (drop (nat ?lo) (map snd (items sl xs))))"
      unfolding collect_rep [OF rep lo(4)] by (simp add: items_def item_at_def take_map drop_map)
    also have "take (nat (?hi - ?lo + 1)) (drop (nat ?lo) (map snd (items sl xs))) =
        map (\<lambda>i. map snd (items sl xs) ! nat i) [?lo..?hi]"
      by (rule segment_eq_map_upto) (use lo in simp_all)
    finally show ?thesis using R by simp
  qed
qed

end
