(* ===== verification/SortedSet.thy ===== *)
theory SortedSet
  imports SkipList
begin

text \<open>
  The composite of a skip list and a dictionary in \<open>core/eval_zset.go\<close>: the record \<open>ZSet\<close>,
  the loop bodies of \<open>ZADD\<close> and \<open>ZREM\<close>, and what they keep. \<open>zset_ok\<close> is the shape alone
  and holds whatever the scores are, NaN included; \<open>zset_sync\<close> adds that the list is sorted
  by score and member and holds exactly the pairs of the dictionary.
\<close>

section \<open>The data and the loop bodies\<close>

record ZSet =
  sl :: SkipList
  dict :: "(string, float64) gomap"

definition newZSet :: ZSet where
  "newZSet = \<lparr>sl = CreateSkipList, dict = []\<rparr>"

definition zset_add :: "int64 list \<Rightarrow> ZSet \<Rightarrow> float64 \<Rightarrow> string \<Rightarrow> (ZSet \<times> bool) option" where
  \<comment> \<open>one score and member of \<open>ZADD\<close>; the flag tells a brand new member\<close>
  "zset_add draws z s m =
     (case map_of (dict z) m of
        Some oldScore \<Rightarrow>
          if \<not> feq oldScore s then do {
            (sl1, _) \<leftarrow> SkipList_Delete (sl z) oldScore m;
            sl2 \<leftarrow> SkipList_Insert draws sl1 s m;
            Some (z\<lparr>sl := sl2, dict := AList.update m s (dict z)\<rparr>, False)
          }
          else Some (z, False)
      | None \<Rightarrow> do {
          sl2 \<leftarrow> SkipList_Insert draws (sl z) s m;
          Some (z\<lparr>sl := sl2, dict := AList.update m s (dict z)\<rparr>, True)
        })"

definition zset_rem :: "ZSet \<Rightarrow> string \<Rightarrow> (ZSet \<times> bool) option" where
  \<comment> \<open>one member of \<open>ZREM\<close>\<close>
  "zset_rem z m =
     (case map_of (dict z) m of
        Some s \<Rightarrow> do {
          (sl1, _) \<leftarrow> SkipList_Delete (sl z) s m;
          Some (z\<lparr>sl := sl1, dict := AList.delete m (dict z)\<rparr>, True)
        }
      | None \<Rightarrow> Some (z, False))"

section \<open>The order\<close>

lemma str_less_irrefl [simp]: "\<not> str_less s s"
  by (induction s) auto

lemma str_less_trans: "str_less s t \<Longrightarrow> str_less t u \<Longrightarrow> str_less s u"
proof (induction s t arbitrary: u rule: str_less.induct)
  case (2 d ds)
  then show ?case by (cases u) auto
next
  case (4 c cs d ds)
  then show ?case by (cases u) (auto split: if_splits)
qed auto

lemma str_less_total: "str_less s t \<or> s = t \<or> str_less t s"
proof (induction s t rule: str_less.induct)
  case (4 c cs d ds)
  have "c \<noteq> d \<Longrightarrow> (of_char c :: nat) < of_char d \<or> (of_char d :: nat) < of_char c"
    by (metis linorder_neqE_nat of_char_eq_iff)
  with 4 show ?case by auto
qed auto

lemma item_less_irrefl: "\<not> item_less a a"
  by (cases a) (simp add: flt_def)

lemma item_less_trans: "item_less a b \<Longrightarrow> item_less b c \<Longrightarrow> item_less a c"
  by (cases a; cases b; cases c) (auto simp: flt_def feq_def intro: str_less_trans)

lemma item_less_total:
  "\<not> f_nan s \<Longrightarrow> \<not> f_nan t \<Longrightarrow> item_less (s, m) (t, k) \<or> (feq s t \<and> m = k) \<or> item_less (t, k) (s, m)"
  using str_less_total [of m k] by (auto simp: flt_def feq_def)

lemma item_less_feq: "feq s t \<Longrightarrow> item_less x (s, m) \<longleftrightarrow> item_less x (t, m)"
  by (cases x) (auto simp: flt_def feq_def)

lemma sorted_insert:
  assumes "sorted_wrt R xs" "\<And>a b c. R a b \<Longrightarrow> R b c \<Longrightarrow> R a c" "P \<le> length xs"
    "P < length xs \<Longrightarrow> R y (xs ! P)" "0 < P \<Longrightarrow> R (xs ! (P - 1)) y"
  shows "sorted_wrt R (take P xs @ y # drop P xs)"
proof -
  have n: "R (xs ! i) (xs ! j)" if "i < j" "j < length xs" for i j
    using assms(1) that by (simp add: sorted_wrt_iff_nth_less)
  have "R a y" if a: "a \<in> set (take P xs)" for a
  proof -
    obtain i where i: "i < P" "i < length xs" "a = xs ! i" using a by (auto simp: in_set_conv_nth)
    show ?thesis
    proof (cases "i = P - 1")
      case True
      then show ?thesis using i assms(5) by simp
    next
      case False
      then have "R (xs ! i) (xs ! (P - 1))" using i assms(3) by (intro n) linarith+
      then show ?thesis using i assms(2,5) by (metis gr_zeroI not_less_zero)
    qed
  qed
  moreover have "R y b" if b: "b \<in> set (drop P xs)" for b
  proof -
    obtain i where i: "P \<le> i" "i < length xs" "b = xs ! i"
      using b assms(3) by (auto simp: in_set_conv_nth) (metis le_add1 add.commute less_diff_conv)
    then show ?thesis using assms(2,4) n [of P i] by (cases "i = P") auto
  qed
  moreover have "sorted_wrt R (take P xs)" "sorted_wrt R (drop P xs)"
    using assms(1) by (simp_all add: sorted_wrt_take sorted_wrt_drop)
  moreover have "R a b" if "a \<in> set (take P xs)" "b \<in> set (drop P xs)" for a b
    using calculation(1,2) that assms(2) by blast
  ultimately show ?thesis by (simp add: sorted_wrt_append)
qed

lemma sorted_remove: "sorted_wrt R xs \<Longrightarrow> sorted_wrt R (take P xs @ drop (Suc P) xs)"
  using sorted_wrt_append [of R "take P xs" "drop P xs"] sorted_wrt_drop [of R xs "Suc P"]
  by (auto simp: sorted_wrt_append dest!: in_set_dropD [of _ _ "drop P xs"])
    (metis Suc_eq_plus1 add.commute drop_drop in_set_dropD plus_1_eq_Suc)

section \<open>The shape is kept whatever the scores\<close>

definition zset_ok :: "ZSet \<Rightarrow> bool" where
  "zset_ok z \<longleftrightarrow> (\<exists>xs. sl_rep (sl z) xs) \<and> wf_gomap (dict z)"

lemma CreateSkipList_rep: "sl_rep CreateSkipList []"
  by (simp add: sl_rep_def CreateSkipList_def SkipListMaxLevel_def height_def heights_def level_ok_def
    Let_def node_at_def no_level_def nxt_def)

lemma newZSet_ok [simp, inv_intros]: "zset_ok newZSet"
  using CreateSkipList_rep by (auto simp: zset_ok_def newZSet_def)

lemma SkipList_Delete_ok:
  assumes "sl_rep l xs"
  shows "\<exists>l' b ys. SkipList_Delete l s m = Some (l', b) \<and> sl_rep l' ys"
proof -
  obtain l' P where "if P < length xs \<and> feq (fst (items l xs ! P)) s \<and> snd (items l xs ! P) = m
     then SkipList_Delete l s m = Some (l', True) \<and> sl_rep l' (take P xs @ drop (P + 1) xs) \<and>
       items l' (take P xs @ drop (P + 1) xs) = take P (items l xs) @ drop (P + 1) (items l xs)
     else SkipList_Delete l s m = Some (l, False)"
    using SkipList_Delete_rep [OF assms, of s m] by (elim exE conjE) (rule that)
  then show ?thesis using assms by (auto split: if_splits)
qed

lemma SkipList_Insert_ok:
  assumes "sl_rep l xs"
  shows "\<exists>l' ys. SkipList_Insert draws l s m = Some l' \<and> sl_rep l' ys"
  using SkipList_Insert_rep [OF assms, of draws s m] by blast

lemma zset_add_ok:
  assumes "zset_ok z"
  shows "\<exists>z' b. zset_add draws z s m = Some (z', b) \<and> zset_ok z'"
proof -
  obtain xs where rep: "sl_rep (sl z) xs" and wf: "wf_gomap (dict z)" using assms by (auto simp: zset_ok_def)
  show ?thesis
  proof (cases "map_of (dict z) m")
    case None
    then show ?thesis using SkipList_Insert_ok [OF rep, of draws s m] wf
      by (auto simp: zset_add_def zset_ok_def wf_gomap_update)
  next
    case (Some old)
    obtain l1 b1 xs1 where "SkipList_Delete (sl z) old m = Some (l1, b1)" "sl_rep l1 xs1"
      using SkipList_Delete_ok [OF rep] by blast
    then show ?thesis using SkipList_Insert_ok [of l1 xs1 draws s m] Some rep wf
      by (auto simp: zset_add_def zset_ok_def wf_gomap_update)
  qed
qed

lemma zset_rem_ok:
  assumes "zset_ok z"
  shows "\<exists>z' b. zset_rem z m = Some (z', b) \<and> zset_ok z'"
proof -
  obtain xs where rep: "sl_rep (sl z) xs" and wf: "wf_gomap (dict z)" using assms by (auto simp: zset_ok_def)
  show ?thesis
  proof (cases "map_of (dict z) m")
    case None
    then show ?thesis using assms by (auto simp: zset_rem_def)
  next
    case (Some old)
    then show ?thesis using SkipList_Delete_ok [OF rep, of old m] wf
      by (auto simp: zset_rem_def zset_ok_def wf_gomap_delete)
  qed
qed

section \<open>The list and the dictionary agree\<close>

definition sorted_items :: "(float64 \<times> string) list \<Rightarrow> bool" where
  "sorted_items its \<longleftrightarrow>
     sorted_wrt item_less its \<and> distinct (map snd its) \<and> (\<forall>x \<in> set its. \<not> f_nan (fst x))"

definition zset_rep :: "ZSet \<Rightarrow> nat list \<Rightarrow> bool" where
  "zset_rep z xs \<longleftrightarrow> sl_rep (sl z) xs \<and> wf_gomap (dict z) \<and> sorted_items (items (sl z) xs) \<and>
     (\<forall>s m. (s, m) \<in> set (items (sl z) xs) \<longleftrightarrow> map_of (dict z) m = Some s)"

definition zset_sync :: "ZSet \<Rightarrow> bool" where
  "zset_sync z \<longleftrightarrow> (\<exists>xs. zset_rep z xs)"

lemma zset_sync_ok: "zset_sync z \<Longrightarrow> zset_ok z"
  by (auto simp: zset_sync_def zset_rep_def zset_ok_def)

lemma newZSet_sync: "zset_sync newZSet"
  unfolding zset_sync_def
  by (rule exI [of _ "[]"]) (simp add: zset_rep_def newZSet_def CreateSkipList_rep items_def sorted_items_def)

lemma boundary_unique:
  assumes so: "sorted_wrt item_less its" and k: "k < length its" "its ! k = (t, m)" "feq t s"
    and P: "P \<le> length its" "P < length its \<longrightarrow> \<not> item_less (its ! P) (s, m)"
      "0 < P \<longrightarrow> item_less (its ! (P - 1)) (s, m)"
  shows "P = k"
proof -
  have n: "item_less (its ! i) (its ! j)" if "i < j" "j < length its" for i j
    using so that by (simp add: sorted_wrt_iff_nth_less)
  have e: "item_less x (s, m) \<longleftrightarrow> item_less x (its ! k)" for x
    unfolding k(2) using item_less_feq [OF k(3)] by blast
  have "\<not> P < k" using P(2) n [of P k] k(1) e by auto
  moreover have "\<not> k < P"
  proof
    assume kP: "k < P"
    then have lt: "item_less (its ! (P - 1)) (its ! k)" using P(3) e by simp
    show False
    proof (cases "k = P - 1")
      case True
      then show ?thesis using lt item_less_irrefl by simp
    next
      case False
      then have "item_less (its ! k) (its ! (P - 1))" using kP P(1) by (intro n) linarith+
      then show ?thesis using lt item_less_trans item_less_irrefl by blast
    qed
  qed
  ultimately show ?thesis by simp
qed

lemma zset_delete_rep:
  assumes "zset_rep z xs" "map_of (dict z) m = Some s"
  shows "\<exists>l' ys. SkipList_Delete (sl z) s m = Some (l', True) \<and> sl_rep l' ys \<and> sorted_items (items l' ys) \<and>
    (\<forall>t k. (t, k) \<in> set (items l' ys) \<longleftrightarrow> k \<noteq> m \<and> map_of (dict z) k = Some t)"
proof -
  let ?its = "items (sl z) xs"
  have rep: "sl_rep (sl z) xs" and so: "sorted_items ?its"
    and dom: "\<And>s m. (s, m) \<in> set ?its \<longleftrightarrow> map_of (dict z) m = Some s"
    using assms(1) by (auto simp: zset_rep_def)
  obtain l' P where P: "P \<le> length xs"
    "P < length xs \<longrightarrow> \<not> item_less (?its ! P) (s, m)" "0 < P \<longrightarrow> item_less (?its ! (P - 1)) (s, m)"
    and del: "if P < length xs \<and> feq (fst (?its ! P)) s \<and> snd (?its ! P) = m
     then SkipList_Delete (sl z) s m = Some (l', True) \<and> sl_rep l' (take P xs @ drop (P + 1) xs) \<and>
       items l' (take P xs @ drop (P + 1) xs) = take P ?its @ drop (P + 1) ?its
     else SkipList_Delete (sl z) s m = Some (sl z, False)"
    using SkipList_Delete_rep [OF rep, of s m] by (elim exE conjE) (rule that)
  have "(s, m) \<in> set ?its" using dom assms(2) by simp
  then obtain k where k: "k < length ?its" "?its ! k = (s, m)" by (auto simp: in_set_conv_nth)
  have "\<not> f_nan s" using so \<open>(s, m) \<in> set ?its\<close> by (force simp: sorted_items_def)
  then have fs: "feq s s" by (simp add: feq_def)
  have Pk: "P = k"
    by (rule boundary_unique [OF _ k fs]) (use so P in \<open>simp_all add: sorted_items_def\<close>)
  let ?ys = "take P xs @ drop (P + 1) xs"
  have d: "SkipList_Delete (sl z) s m = Some (l', True)" "sl_rep l' ?ys" "items l' ?ys = take k ?its @ drop (Suc k) ?its"
    using del k fs Pk by simp_all
  have split: "?its = take k ?its @ (s, m) # drop (Suc k) ?its"
    using id_take_nth_drop [OF k(1)] k(2) by simp
  have "sorted_items (take k ?its @ drop (Suc k) ?its)"
  proof -
    have "sorted_wrt item_less (take k ?its @ drop (Suc k) ?its)"
      using so by (simp add: sorted_items_def sorted_remove)
    moreover have "distinct (map snd (take k ?its @ (s, m) # drop (Suc k) ?its))"
      using so split by (simp add: sorted_items_def)
    moreover have "\<forall>x \<in> set (take k ?its @ drop (Suc k) ?its). \<not> f_nan (fst x)"
      using so by (auto simp: sorted_items_def dest: in_set_takeD in_set_dropD)
    ultimately show ?thesis by (simp add: sorted_items_def)
  qed
  moreover have "(t, j) \<in> set (take k ?its @ drop (Suc k) ?its) \<longleftrightarrow> j \<noteq> m \<and> map_of (dict z) j = Some t" for t j
  proof -
    have "distinct (map snd (take k ?its @ (s, m) # drop (Suc k) ?its))"
      using so split by (simp add: sorted_items_def)
    then have "m \<notin> snd ` set (take k ?its @ drop (Suc k) ?its)" by auto
    moreover have "set ?its = insert (s, m) (set (take k ?its @ drop (Suc k) ?its))"
      by (subst split) auto
    ultimately show ?thesis using dom [of t j] by force
  qed
  ultimately show ?thesis using d by auto
qed

lemma sorted_items_insert:
  assumes so: "sorted_items its" and m: "m \<notin> snd ` set its" and s: "\<not> f_nan s"
    and P: "P \<le> length its" "P < length its \<longrightarrow> \<not> item_less (its ! P) (s, m)"
      "0 < P \<longrightarrow> item_less (its ! (P - 1)) (s, m)"
  shows "sorted_items (take P its @ (s, m) # drop P its)"
proof -
  have "item_less (s, m) (its ! P)" if "P < length its"
  proof -
    obtain t k where tk: "its ! P = (t, k)" by force
    then have "(t, k) \<in> set its" using that nth_mem by metis
    then have "\<not> f_nan t" "k \<noteq> m" using so m by (force simp: sorted_items_def)+
    then show ?thesis using item_less_total [OF s, of t m k] P(2) that tk by auto
  qed
  then have "sorted_wrt item_less (take P its @ (s, m) # drop P its)"
    by (intro sorted_insert) (use so P item_less_trans in \<open>auto simp: sorted_items_def\<close>)
  moreover have "distinct (map snd (take P its @ (s, m) # drop P its))"
  proof -
    have "distinct (map snd (take P its) @ map snd (drop P its))"
      using so by (simp add: sorted_items_def flip: map_append)
    then show ?thesis using m by (auto dest: in_set_takeD in_set_dropD)
  qed
  moreover have "set (take P its @ (s, m) # drop P its) = insert (s, m) (set its)"
    using set_append [of "take P its" "drop P its"] by auto
  ultimately show ?thesis using so s by (simp add: sorted_items_def)
qed

lemma insert_sorted_rep:
  assumes rep: "sl_rep l xs" and so: "sorted_items (items l xs)" and m: "m \<notin> snd ` set (items l xs)" and s: "\<not> f_nan s"
  shows "\<exists>l' ys. SkipList_Insert draws l s m = Some l' \<and> sl_rep l' ys \<and> sorted_items (items l' ys) \<and>
    set (items l' ys) = insert (s, m) (set (items l xs))"
proof -
  obtain l' P where l': "SkipList_Insert draws l s m = Some l'" "P \<le> length xs"
    "sl_rep l' (take P xs @ sl_fresh l # drop P xs)"
    "items l' (take P xs @ sl_fresh l # drop P xs) = take P (items l xs) @ (s, m) # drop P (items l xs)"
    "P < length xs \<longrightarrow> \<not> item_less (items l xs ! P) (s, m)"
    "0 < P \<longrightarrow> item_less (items l xs ! (P - 1)) (s, m)"
    using SkipList_Insert_rep [OF rep, of draws s m] by (elim exE conjE) (rule that)
  have "sorted_items (take P (items l xs) @ (s, m) # drop P (items l xs))"
    by (rule sorted_items_insert [OF so m s]) (use l' in simp_all)
  moreover have "set (take P (items l xs) @ (s, m) # drop P (items l xs)) = insert (s, m) (set (items l xs))"
    using set_append [of "take P (items l xs)" "drop P (items l xs)"] by auto
  ultimately show ?thesis using l'(1,3,4) by metis
qed

lemma zset_add_sync:
  assumes "zset_sync z" "\<not> f_nan s"
  shows "\<exists>z'. zset_add draws z s m = Some (z', map_of (dict z) m = None) \<and> zset_sync z' \<and>
    map_of (dict z') = (case map_of (dict z) m of
       Some old \<Rightarrow> if feq old s then map_of (dict z) else (map_of (dict z))(m \<mapsto> s)
     | None \<Rightarrow> (map_of (dict z))(m \<mapsto> s))"
proof -
  obtain xs where r: "zset_rep z xs" using assms(1) by (auto simp: zset_sync_def)
  then have rep: "sl_rep (sl z) xs" and so: "sorted_items (items (sl z) xs)" and wf: "wf_gomap (dict z)"
    and dom: "\<And>s m. (s, m) \<in> set (items (sl z) xs) \<longleftrightarrow> map_of (dict z) m = Some s"
    by (auto simp: zset_rep_def)
  show ?thesis
  proof (cases "map_of (dict z) m")
    case None
    then have "m \<notin> snd ` set (items (sl z) xs)" using dom by force
    from insert_sorted_rep [OF rep so this assms(2)] obtain l' ys where
      "SkipList_Insert draws (sl z) s m = Some l'" "sl_rep l' ys" "sorted_items (items l' ys)"
      "set (items l' ys) = insert (s, m) (set (items (sl z) xs))" by blast
    then show ?thesis using None wf dom
      by (auto simp: zset_add_def zset_sync_def zset_rep_def wf_gomap_update intro!: exI [of _ ys])
  next
    case (Some old)
    show ?thesis
    proof (cases "feq old s")
      case True
      then show ?thesis using Some assms(1) by (simp add: zset_add_def)
    next
      case False
      obtain l1 xs1 where l1: "SkipList_Delete (sl z) old m = Some (l1, True)" "sl_rep l1 xs1"
        "sorted_items (items l1 xs1)"
        "\<forall>t k. (t, k) \<in> set (items l1 xs1) \<longleftrightarrow> k \<noteq> m \<and> map_of (dict z) k = Some t"
        using zset_delete_rep [OF r Some] by blast
      have "m \<notin> snd ` set (items l1 xs1)" using l1(4) by force
      from insert_sorted_rep [OF l1(2,3) this assms(2)] obtain l' ys where
        "SkipList_Insert draws l1 s m = Some l'" "sl_rep l' ys" "sorted_items (items l' ys)"
        "set (items l' ys) = insert (s, m) (set (items l1 xs1))" by blast
      then show ?thesis using Some False wf l1(1,4)
        by (auto simp: zset_add_def zset_sync_def zset_rep_def wf_gomap_update intro!: exI [of _ ys])
    qed
  qed
qed

lemma zset_rem_sync:
  assumes "zset_sync z"
  shows "\<exists>z'. zset_rem z m = Some (z', map_of (dict z) m \<noteq> None) \<and> zset_sync z' \<and>
    map_of (dict z') = (map_of (dict z))(m := None)"
proof -
  obtain xs where r: "zset_rep z xs" using assms(1) by (auto simp: zset_sync_def)
  show ?thesis
  proof (cases "map_of (dict z) m")
    case None
    then show ?thesis using assms by (auto simp: zset_rem_def)
  next
    case (Some old)
    obtain l1 xs1 where l1: "SkipList_Delete (sl z) old m = Some (l1, True)" "sl_rep l1 xs1"
      "sorted_items (items l1 xs1)"
      "\<forall>t k. (t, k) \<in> set (items l1 xs1) \<longleftrightarrow> k \<noteq> m \<and> map_of (dict z) k = Some t"
      using zset_delete_rep [OF r Some] by blast
    then show ?thesis using Some r
      by (auto simp: zset_rem_def zset_sync_def zset_rep_def wf_gomap_delete intro!: exI [of _ xs1])
  qed
qed

lemma zset_rank_sync:
  assumes r: "zset_rep z xs" and s: "map_of (dict z) m = Some s" and m: "m \<noteq> []"
  shows "\<exists>k < length xs. items (sl z) xs ! k = (s, m) \<and> GetRank (sl z) s m = Some (int k + 1)"
proof -
  let ?its = "items (sl z) xs"
  have rep: "sl_rep (sl z) xs" and so: "sorted_items ?its"
    and dom: "\<And>s m. (s, m) \<in> set ?its \<longleftrightarrow> map_of (dict z) m = Some s"
    using r by (auto simp: zset_rep_def)
  have "(s, m) \<in> set ?its" using dom s by simp
  then obtain k where k: "k < length xs" "?its ! k = (s, m)" by (auto simp: in_set_conv_nth)
  have nan: "\<not> f_nan s" using so \<open>(s, m) \<in> set ?its\<close> by (force simp: sorted_items_def)
  have upto: "goes_upto s m (node_of (sl z) xs q) (int q) \<longleftrightarrow> q \<le> k + 1" if q: "0 < q" "q \<le> length xs" for q
  proof -
    obtain j where j: "q = Suc j" "j < length xs" using q by (cases q) auto
    obtain t k' where t: "?its ! j = (t, k')" by force
    have e: "goes_upto s m (node_of (sl z) xs q) (int q) \<longleftrightarrow> item_less (?its ! j) (?its ! k) \<or> (feq t s \<and> k' = m)"
      using j t k by (auto simp: goes_upto_def items_nth item_at_def str_le_def)
    have n: "item_less (?its ! i) (?its ! i')" if "i < i'" "i' < length xs" for i i'
      using so that by (simp add: sorted_items_def sorted_wrt_iff_nth_less)
    have d: "i = i'" if "i < length xs" "i' < length xs" "snd (?its ! i) = snd (?its ! i')" for i i'
      using so that nth_eq_iff_index_eq [of "map snd ?its" i i'] by (simp add: sorted_items_def)
    consider "j < k" | "j = k" | "k < j" by linarith
    then show ?thesis
    proof cases
      case 1
      then show ?thesis using e n [of j k] k(1) j by simp
    next
      case 2
      then show ?thesis using e j k t nan by (simp add: feq_def)
    next
      case 3
      then have "\<not> item_less (?its ! j) (?its ! k)"
        using n [of k j] j(2) item_less_trans item_less_irrefl by blast
      moreover have "k' \<noteq> m" using d [of j k] j(2) k t 3 by auto
      ultimately show ?thesis using e 3 j by simp
    qed
  qed
  have mem: "member (node_of (sl z) xs q) = m \<longleftrightarrow> q = k + 1" if q: "q \<le> length xs" for q
  proof (cases q)
    case 0
    then show ?thesis using rep m by (simp add: sl_rep_def)
  next
    case (Suc j)
    then have "member (node_of (sl z) xs q) = snd (?its ! j)" using q by (simp add: items_nth item_at_def)
    then show ?thesis using so k Suc q nth_eq_iff_index_eq [of "map snd ?its" j k]
      by (auto simp: sorted_items_def)
  qed
  have "0 < sl_level (sl z)" "sl_level (sl z) \<le> height (node_of (sl z) xs 0)"
    using rep by (simp_all add: sl_rep_def)
  then have "GetRank (sl z) s m = Some (int (k + 1))"
    unfolding GetRank_def using GetRank_levels_rep [OF rep _ _ upto mem, of "sl_level (sl z)" 0] k(1) by simp
  then show ?thesis using k by (intro exI [of _ k]) simp
qed

section \<open>The properties\<close>

lemma SkipList_items_range:
  assumes "zset_rep z xs"
  shows "SkipList_Range (sl z) a b = Some (redis_range (map snd (items (sl z) xs)) a b)"
  using assms by (intro SkipList_Range_rep) (simp add: zset_rep_def)

lemma two_and_one [simp]:
  "feq 0x4000000000000000 0x3FF0000000000000 = False" "flt 0x4000000000000000 0x3FF0000000000000 = False"
  "feq 0x3FF0000000000000 0x3FF0000000000000 = True" "flt 0x3FF0000000000000 0x3FF0000000000000 = False"
  "\<not> f_nan 0x4000000000000000" "\<not> f_nan 0x3FF0000000000000"
  by (simp_all add: feq_def flt_def f_key_def f_nan_def f_magnitude_def)

definition two_members :: "ZSet option" where
  "two_members = do {
     (z1, _) \<leftarrow> zset_add [0] newZSet 0x4000000000000000 ''b'';
     (z2, _) \<leftarrow> zset_add [0] z1 0x3FF0000000000000 ''a'';
     Some z2
   }"

lemma two_members_sync:
  obtains z where "two_members = Some z" "zset_sync z" "map_of (dict z) = [''b'' \<mapsto> 0x4000000000000000, ''a'' \<mapsto> 0x3FF0000000000000]"
proof -
  obtain z1 where 1: "zset_add [0] newZSet 0x4000000000000000 ''b'' = Some (z1, True)" "zset_sync z1" "map_of (dict z1) = [''b'' \<mapsto> 0x4000000000000000]"
    using zset_add_sync [OF newZSet_sync, of "0x4000000000000000" "[0]" "''b''"] by (auto simp: newZSet_def)
  obtain z2 where "zset_add [0] z1 0x3FF0000000000000 ''a'' = Some (z2, True)" "zset_sync z2"
      "map_of (dict z2) = [''b'' \<mapsto> 0x4000000000000000, ''a'' \<mapsto> 0x3FF0000000000000]"
    using zset_add_sync [OF 1(2), of "0x3FF0000000000000" "[0]" "''a''"] 1(3) by auto
  with 1(1) show thesis by (intro that [of z2]) (simp_all add: two_members_def)
qed

lemma two_ranked:
  assumes "sorted_items its" "set its = {(0x3FF0000000000000, ''a''), (0x4000000000000000, ''b'')}"
  shows "its = [(0x3FF0000000000000, ''a''), (0x4000000000000000, ''b'')]"
proof -
  let ?x = "(0x3FF0000000000000, ''a'') :: float64 \<times> string" and ?y = "(0x4000000000000000, ''b'') :: float64 \<times> string"
  have d: "distinct its" using assms(1) by (simp add: sorted_items_def distinct_map)
  have "length its = 2" using distinct_card [OF d] by (simp add: assms(2))
  then obtain p q where pq: "its = [p, q]" by (auto simp: length_Suc_conv numeral_2_eq_2)
  have "\<not> item_less ?y ?x" by (simp add: goes_before_def)
  moreover have "{p, q} = {?x, ?y}" "p \<noteq> q" "item_less p q" using assms d by (auto simp: pq sorted_items_def)
  ultimately show ?thesis by (auto simp: pq doubleton_eq_iff)
qed

text \<open>C31: the composite of skip list and dictionary implements a finite map from members to
  scores, as long as scores are numbers: with such a score, \<open>ZADD\<close> of one member is the map's
  update (kept when the old score compares equal) and reports a brand new member, \<open>ZREM\<close> of one
  member is its removal and reports a present one, and both keep the two structures in step: the
  list sorted by score and member, with the span and the back pointer of every node right. A
  score of NaN takes them apart (\<open>NaN_score_duplicates_member\<close>).\<close>

theorem zset_refines_map:
  assumes "zset_sync z" "\<not> f_nan s"
  shows "(\<exists>z'. zset_add draws z s m = Some (z', map_of (dict z) m = None) \<and> zset_sync z' \<and>
      map_of (dict z') = (case map_of (dict z) m of
         Some old \<Rightarrow> if feq old s then map_of (dict z) else (map_of (dict z))(m \<mapsto> s)
       | None \<Rightarrow> (map_of (dict z))(m \<mapsto> s))) \<and>
    (\<exists>z'. zset_rem z m = Some (z', map_of (dict z) m \<noteq> None) \<and> zset_sync z' \<and>
      map_of (dict z') = (map_of (dict z))(m := None))"
  using zset_add_sync [OF assms] zset_rem_sync [OF assms(1)] by blast

lemma one_member_add: "\<exists>z'. zset_add [0] newZSet 0x3FF0000000000000 ''a'' = Some (z', True) \<and> zset_sync z'"
  using zset_add_sync [OF newZSet_sync, of "0x3FF0000000000000" "[0]" "''a''"]
  by (auto simp: newZSet_def f_nan_def f_magnitude_def)

lemma zset_refines_map_witness:
  "\<exists>z'. zset_add [0] newZSet 0x3FF0000000000000 ''a'' = Some (z', True) \<and> map_of (dict z') ''a'' = Some 0x3FF0000000000000"
  using zset_refines_map [OF newZSet_sync, of "0x3FF0000000000000" "[0]" "''a''"]
  by (auto simp: newZSet_def f_nan_def f_magnitude_def)

text \<open>C32: ranks and ranges of a set whose list and dictionary are in step read the sorted sequence
  of the dictionary's pairs: there is one sequence \<open>its\<close>, sorted by score then member and holding
  exactly the pairs of the dictionary, such that \<open>Range\<close> returns its slice (negative indices from
  the end, as Redis defines them) and \<open>GetRank\<close> returns one plus the position of every member that is
  not the empty string, for which it may be wrong (\<open>GetRank_misses_empty_member\<close>).\<close>

theorem zset_rank_and_range:
  assumes "zset_sync z"
  shows "\<exists>its. sorted_items its \<and> (\<forall>s m. (s, m) \<in> set its \<longleftrightarrow> map_of (dict z) m = Some s) \<and>
    (\<forall>start stop. SkipList_Range (sl z) start stop = Some (redis_range (map snd its) start stop)) \<and>
    (\<forall>s m. m \<noteq> [] \<longrightarrow> map_of (dict z) m = Some s \<longrightarrow>
       (\<exists>k < length its. its ! k = (s, m) \<and> GetRank (sl z) s m = Some (int k + 1)))"
proof -
  obtain xs where r: "zset_rep z xs" using assms by (auto simp: zset_sync_def)
  show ?thesis
  proof (rule exI [of _ "items (sl z) xs"], intro conjI allI impI)
    show "sorted_items (items (sl z) xs)" using r by (simp add: zset_rep_def)
    show "(s, m) \<in> set (items (sl z) xs) \<longleftrightarrow> map_of (dict z) m = Some s" for s m using r by (simp add: zset_rep_def)
    show "SkipList_Range (sl z) a b = Some (redis_range (map snd (items (sl z) xs)) a b)" for a b
      by (rule SkipList_items_range [OF r])
    show "\<exists>k < length (items (sl z) xs). items (sl z) xs ! k = (s, m) \<and> GetRank (sl z) s m = Some (int k + 1)"
      if "m \<noteq> []" "map_of (dict z) m = Some s" for s m
      using zset_rank_sync [OF r that(2,1)] by (simp add: items_def)
  qed
qed

lemma zset_rank_and_range_witness:
  "\<exists>z. two_members = Some z \<and> SkipList_Range (sl z) 0 (- 1) = Some [''a'', ''b''] \<and>
     GetRank (sl z) 0x3FF0000000000000 ''a'' = Some 1 \<and> GetRank (sl z) 0x4000000000000000 ''b'' = Some 2"
proof -
  obtain z where z: "two_members = Some z" "zset_sync z"
    "map_of (dict z) = [''b'' \<mapsto> 0x4000000000000000, ''a'' \<mapsto> 0x3FF0000000000000]" by (rule two_members_sync)
  from zset_rank_and_range [OF z(2)] obtain its where its: "sorted_items its" "\<And>s m. (s, m) \<in> set its \<longleftrightarrow> map_of (dict z) m = Some s"
    "\<And>i j. SkipList_Range (sl z) i j = Some (redis_range (map snd its) i j)"
    "\<And>s m. m \<noteq> [] \<Longrightarrow> map_of (dict z) m = Some s \<Longrightarrow> \<exists>k < length its. its ! k = (s, m) \<and> GetRank (sl z) s m = Some (int k + 1)"
    by blast
  have "set its = {(0x3FF0000000000000, ''a''), (0x4000000000000000, ''b'')}" using its(2) by (auto simp: z(3) split: if_splits)
  note l = two_ranked [OF its(1) this]
  have "GetRank (sl z) 0x3FF0000000000000 ''a'' = Some 1" "GetRank (sl z) 0x4000000000000000 ''b'' = Some 2"
    using its(4) [of "''a''" "0x3FF0000000000000"] its(4) [of "''b''" "0x4000000000000000"] by (auto simp: z(3) l less_Suc_eq)
  moreover have "SkipList_Range (sl z) 0 (- 1) = Some [''a'', ''b'']" by (simp add: its(3) l redis_range_def upto.simps)
  ultimately show ?thesis using z(1) by blast
qed

definition empty_member :: "ZSet option" where
  "empty_member = do {
     (z1, _) \<leftarrow> zset_add [0, 0xFFFF] newZSet 0x4000000000000000 ''b'';
     (z2, _) \<leftarrow> zset_add [0xFFFF] z1 0x3FF0000000000000 [];
     Some z2
   }"

lemma draw_one: "randomLevel [0xFFFF] = Suc 0"
  by (simp add: randomLevel_def SkipListMaxLevel_def)

lemma draw_two: "randomLevel [0, 0xFFFF] = Suc (Suc 0)"
  by (simp add: randomLevel_def SkipListMaxLevel_def)

lemmas skiplist_eval =
  SkipList_Insert_def splice_def newZSet_def CreateSkipList_def SkipListMaxLevel_def level_at_def no_level_def
  walk.simps goes_before_def goes_upto_def Let_def set_level_def draw_one draw_two upt_rec

text \<open>\<open>GetRank\<close> of the empty member is wrong: the head of the list also carries the empty
  string, so a walk that does not leave the head reports rank 0, "not found", for a member
  that is present with rank 1 (\<open>ZADD z 2 b 1 ""\<close> with nodes of two levels and of one).\<close>

theorem GetRank_misses_empty_member:
  "\<exists>z. empty_member = Some z \<and> map_of (dict z) [] = Some 0x3FF0000000000000 \<and>
     SkipList_Range (sl z) 0 (- 1) = Some [[], ''b''] \<and> GetRank (sl z) 0x3FF0000000000000 [] = Some 0"
  by (simp add: empty_member_def zset_add_def skiplist_eval SkipList_Range_def GetNodeByRank_def GetRank_def eval_nat_numeral)

text \<open>A score that is not a number takes list and dictionary apart: \<open>strconv.ParseFloat\<close> accepts \<open>nan\<close>,
  which compares equal to nothing, so that \<open>Delete\<close> does not find its node, and the member is
  inserted a second time when its score changes. This is why the properties of sorted sets ask for
  scores that are numbers.\<close>

definition quiet_nan :: float64 where
  \<comment> \<open>\<open>math.NaN()\<close>\<close>
  "quiet_nan = 0x7FF8000000000001"

lemma quiet_nan_compares [simp]: "feq quiet_nan x = False" "feq x quiet_nan = False" "flt quiet_nan x = False" "flt x quiet_nan = False"
  by (simp_all add: feq_def flt_def f_nan_def f_magnitude_def quiet_nan_def)

theorem NaN_score_duplicates_member:
  obtains z1 z2 where "zset_add [0xFFFF] newZSet quiet_nan ''a'' = Some (z1, True)"
    "zset_add [0xFFFF] z1 0x3FF0000000000000 ''a'' = Some (z2, False)" "dict z2 = [(''a'', 0x3FF0000000000000)]"
    "SkipList_Range (sl z2) 0 (- 1) = Some [''a'', ''a'']"
  by (simp add: zset_add_def skiplist_eval SkipList_Range_def SkipList_Delete_def GetNodeByRank_def eval_nat_numeral)

end
