(* ===== verification/GoHeap.thy ===== *)
theory GoHeap
  imports Prelude
begin

text \<open>
  The library package \<open>container/heap\<close>, which the eviction pool calls: \<open>up\<close>, \<open>down\<close>,
  \<open>Push\<close>, \<open>Pop\<close> and \<open>Fix\<close> over the methods \<open>Len\<close>, \<open>Less\<close>, \<open>Swap\<close>, \<open>Push\<close>, \<open>Pop\<close> of an
  interface value. The locale \<open>heap_interface\<close> states what the package asks of those
  methods (\<open>Less\<close> is a strict weak order of the elements, \<open>Swap\<close> exchanges two) and
  proves once what the package then promises.
\<close>

section \<open>The package\<close>

function heap_up :: "('h \<Rightarrow> nat \<Rightarrow> nat \<Rightarrow> bool) \<Rightarrow> ('h \<Rightarrow> nat \<Rightarrow> nat \<Rightarrow> 'h) \<Rightarrow> 'h \<Rightarrow> nat \<Rightarrow> 'h" where
  "heap_up lss swap h j =
     (let i = (j - 1) div 2 in
      if i = j \<or> \<not> lss h j i then h else heap_up lss swap (swap h i j) i)"
  by pat_completeness auto
termination
  by (relation "measure (\<lambda>(lss, swap, h, j). j)") auto

function heap_down ::
  "('h \<Rightarrow> nat \<Rightarrow> nat \<Rightarrow> bool) \<Rightarrow> ('h \<Rightarrow> nat \<Rightarrow> nat \<Rightarrow> 'h) \<Rightarrow> 'h \<Rightarrow> nat \<Rightarrow> nat \<Rightarrow> 'h \<times> nat" where
  "heap_down lss swap h i n =
     (let j1 = 2 * i + 1 in
      if n \<le> j1 then (h, i)
      else
        let j2 = j1 + 1; j = (if j2 < n \<and> lss h j2 j1 then j2 else j1) in
        if \<not> lss h j i then (h, i) else heap_down lss swap (swap h i j) j n)"
  by pat_completeness auto
termination
  by (relation "measure (\<lambda>(lss, swap, h, i, n). n - i)") (auto split: if_splits)

declare heap_up.simps [simp del] heap_down.simps [simp del]

definition heap_Fix ::
  "('h \<Rightarrow> nat \<Rightarrow> nat \<Rightarrow> bool) \<Rightarrow> ('h \<Rightarrow> nat \<Rightarrow> nat \<Rightarrow> 'h) \<Rightarrow> ('h \<Rightarrow> nat) \<Rightarrow> 'h \<Rightarrow> nat \<Rightarrow> 'h" where
  "heap_Fix lss swap len h i =
     (let (h1, i1) = heap_down lss swap h i (len h)
      in if \<not> i < i1 then heap_up lss swap h1 i else h1)"

definition heap_Push ::
  "('h \<Rightarrow> nat \<Rightarrow> nat \<Rightarrow> bool) \<Rightarrow> ('h \<Rightarrow> nat \<Rightarrow> nat \<Rightarrow> 'h) \<Rightarrow> ('h \<Rightarrow> nat) \<Rightarrow> ('h \<Rightarrow> 'x \<Rightarrow> 'h) \<Rightarrow> 'h \<Rightarrow> 'x \<Rightarrow> 'h" where
  "heap_Push lss swap len push h x = (let h1 = push h x in heap_up lss swap h1 (len h1 - 1))"

definition heap_Pop ::
  "('h \<Rightarrow> nat \<Rightarrow> nat \<Rightarrow> bool) \<Rightarrow> ('h \<Rightarrow> nat \<Rightarrow> nat \<Rightarrow> 'h) \<Rightarrow> ('h \<Rightarrow> nat) \<Rightarrow> ('h \<Rightarrow> 'h \<times> 'x) \<Rightarrow> 'h \<Rightarrow> 'h \<times> 'x" where
  "heap_Pop lss swap len pop h =
     (let n = len h - 1;
          h1 = swap h 0 n;
          (h2, _) = heap_down lss swap h1 0 n
      in pop h2)"

section \<open>Heap order on a list\<close>

definition par :: "nat \<Rightarrow> nat" where
  "par k = (k - 1) div 2"

definition swap_list :: "'a list \<Rightarrow> nat \<Rightarrow> nat \<Rightarrow> 'a list" where
  "swap_list xs i j = xs[i := xs ! j, j := xs ! i]"

lemma length_swap_list [simp]: "length (swap_list xs i j) = length xs"
  by (simp add: swap_list_def)

lemma nth_swap_list:
  "i < length xs \<Longrightarrow> j < length xs \<Longrightarrow> k < length xs \<Longrightarrow>
   swap_list xs i j ! k = (if k = i then xs ! j else if k = j then xs ! i else xs ! k)"
  by (auto simp: swap_list_def nth_list_update)

lemma mset_swap_list [simp]: "i < length xs \<Longrightarrow> j < length xs \<Longrightarrow> mset (swap_list xs i j) = mset xs"
  by (simp add: swap_list_def mset_swap)

lemma par_less: "0 < k \<Longrightarrow> par k < k"
  by (simp add: par_def)

lemma par_eq_iff: "0 < k \<Longrightarrow> par k = i \<longleftrightarrow> k = 2 * i + 1 \<or> k = 2 * i + 2"
  by (auto simp: par_def)

definition heap_at :: "('a \<Rightarrow> 'a \<Rightarrow> bool) \<Rightarrow> 'a list \<Rightarrow> nat \<Rightarrow> bool" where
  "heap_at lt xs k \<longleftrightarrow> \<not> lt (xs ! k) (xs ! par k)"

definition heap_list :: "('a \<Rightarrow> 'a \<Rightarrow> bool) \<Rightarrow> 'a list \<Rightarrow> nat \<Rightarrow> bool" where
  \<comment> \<open>the first \<open>n\<close> elements are heap-ordered: none comes before its parent\<close>
  "heap_list lt xs n \<longleftrightarrow> (\<forall>k. 0 < k \<longrightarrow> k < n \<longrightarrow> heap_at lt xs k)"

definition up_inv :: "('a \<Rightarrow> 'a \<Rightarrow> bool) \<Rightarrow> 'a list \<Rightarrow> nat \<Rightarrow> nat \<Rightarrow> bool" where
  \<comment> \<open>heap-ordered but for \<open>j\<close> and its parent, whose order \<open>up\<close> is repairing\<close>
  "up_inv lt xs n j \<longleftrightarrow>
     (\<forall>k. 0 < k \<longrightarrow> k < n \<longrightarrow> k \<noteq> j \<longrightarrow> heap_at lt xs k) \<and>
     (0 < j \<longrightarrow> (\<forall>k. 0 < k \<longrightarrow> k < n \<longrightarrow> par k = j \<longrightarrow> \<not> lt (xs ! k) (xs ! par j)))"

definition down_inv :: "('a \<Rightarrow> 'a \<Rightarrow> bool) \<Rightarrow> 'a list \<Rightarrow> nat \<Rightarrow> nat \<Rightarrow> bool" where
  \<comment> \<open>heap-ordered but for \<open>i\<close> against its parent and its children\<close>
  "down_inv lt xs n i \<longleftrightarrow>
     (\<forall>k. 0 < k \<longrightarrow> k < n \<longrightarrow> k \<noteq> i \<longrightarrow> par k \<noteq> i \<longrightarrow> heap_at lt xs k) \<and>
     (0 < i \<longrightarrow> (\<forall>k. 0 < k \<longrightarrow> k < n \<longrightarrow> par k = i \<longrightarrow> \<not> lt (xs ! k) (xs ! par i)))"

section \<open>The contract\<close>

locale heap_interface =
  fixes lss :: "'h \<Rightarrow> nat \<Rightarrow> nat \<Rightarrow> bool"
    and swap :: "'h \<Rightarrow> nat \<Rightarrow> nat \<Rightarrow> 'h"
    and elems :: "'h \<Rightarrow> 'a list"
    and lt :: "'a \<Rightarrow> 'a \<Rightarrow> bool"
  assumes less_lt: "i < length (elems h) \<Longrightarrow> j < length (elems h) \<Longrightarrow> lss h i j = lt (elems h ! i) (elems h ! j)"
    and elems_swap: "i < length (elems h) \<Longrightarrow> j < length (elems h) \<Longrightarrow> elems (swap h i j) = swap_list (elems h) i j"
    and lt_asym: "lt a b \<Longrightarrow> \<not> lt b a"
    and lt_trans_neg: "\<not> lt a b \<Longrightarrow> \<not> lt b c \<Longrightarrow> \<not> lt a c"
begin

lemma up_inv_step:
  assumes "up_inv lt xs n j" "j < n" "n \<le> length xs" "0 < j" "lt (xs ! j) (xs ! par j)"
  shows "up_inv lt (swap_list xs (par j) j) n (par j)"
proof -
  let ?ys = "swap_list xs (par j) j"
  have p: "par j < j" using assms(4) by (rule par_less)
  have y: "?ys ! k = (if k = par j then xs ! j else if k = j then xs ! par j else xs ! k)" if "k < n" for k
    using that assms(2,3) p by (simp add: nth_swap_list)
  have ok: "\<not> lt (xs ! k) (xs ! par k)" if "0 < k" "k < n" "k \<noteq> j" for k
    using assms(1) that by (simp add: up_inv_def heap_at_def)
  have child: "\<not> lt (xs ! k) (xs ! par j)" if "0 < k" "k < n" "par k = j" for k
    using assms(1,4) that by (simp add: up_inv_def)
  have "heap_at lt ?ys k" if k: "0 < k" "k < n" "k \<noteq> par j" for k
  proof -
    have pk: "par k < n" "par k < k" using par_less [OF k(1)] k(2) by simp_all
    consider "k = j" | "k \<noteq> j" "par k = j" | "k \<noteq> j" "par k = par j" | "k \<noteq> j" "par k \<noteq> j" "par k \<noteq> par j"
      by blast
    then show ?thesis
    proof cases
      case 1
      with y [OF k(2)] y [OF pk(1)] k(3) lt_asym [OF assms(5)] show ?thesis by (simp add: heap_at_def)
    next
      case 2
      with y [OF k(2)] y [OF pk(1)] k child [of k] p show ?thesis by (simp add: heap_at_def)
    next
      case 3
      have "\<not> lt (xs ! par j) (xs ! j)" by (rule lt_asym [OF assms(5)])
      with ok [OF k(1,2) 3(1)] 3(2) have "\<not> lt (xs ! k) (xs ! j)" by (metis lt_trans_neg)
      with y [OF k(2)] y [OF pk(1)] k 3 show ?thesis by (simp add: heap_at_def)
    next
      case 4
      with y [OF k(2)] y [OF pk(1)] k ok [OF k(1,2)] show ?thesis by (simp add: heap_at_def)
    qed
  qed
  moreover have "\<not> lt (?ys ! k) (?ys ! par (par j))" if k: "0 < par j" "0 < k" "k < n" "par k = par j" for k
  proof -
    have pp: "par (par j) < par j" "par j < n" using par_less [OF k(1)] p assms(2) by simp_all
    have "\<not> lt (xs ! par j) (xs ! par (par j))" using ok [of "par j"] k(1) p pp by simp
    moreover have "\<not> lt (xs ! k) (xs ! par j)" if "k \<noteq> j" using ok [OF k(2,3) that] k(4) by simp
    moreover have "k \<noteq> par j" using par_less [OF k(2)] k(4) by simp
    ultimately show ?thesis
      using y [OF k(3)] y [of "par (par j)"] pp p by (auto dest: lt_trans_neg)
  qed
  ultimately show ?thesis by (simp add: up_inv_def)
qed

lemma heap_up_correct:
  assumes "up_inv lt (elems h) n j" "j < n" "n \<le> length (elems h)"
  shows "heap_list lt (elems (heap_up lss swap h j)) n \<and>
    mset (elems (heap_up lss swap h j)) = mset (elems h)"
  using assms
proof (induction j arbitrary: h rule: less_induct)
  case (less j)
  let ?i = "(j - 1) div 2"
  show ?case
  proof (cases "?i = j \<or> \<not> lss h j ?i")
    case True
    then have "heap_up lss swap h j = h" by (subst heap_up.simps) simp
    moreover have "heap_list lt (elems h) n"
    proof (cases "j = 0")
      case True
      with less.prems show ?thesis by (auto simp: up_inv_def heap_list_def)
    next
      case False
      then have "?i < j" by simp
      with True less.prems less_lt [of j h ?i] have "heap_at lt (elems h) j"
        by (simp add: heap_at_def par_def)
      with less.prems show ?thesis by (auto simp: up_inv_def heap_list_def)
    qed
    ultimately show ?thesis by simp
  next
    case False
    then have j: "0 < j" and i: "?i < j" "?i = par j" by (auto simp: par_def intro: Nat.gr0I)
    have lt: "lt (elems h ! j) (elems h ! par j)"
      using False less.prems i less_lt [of j h ?i] by simp
    have e: "elems (swap h ?i j) = swap_list (elems h) (par j) j"
      using elems_swap [of ?i h j] less.prems i by simp
    have "up_inv lt (elems (swap h ?i j)) n ?i"
      using up_inv_step [OF less.prems j lt] e i(2) by simp
    then have IH: "heap_list lt (elems (heap_up lss swap (swap h ?i j) ?i)) n \<and>
        mset (elems (heap_up lss swap (swap h ?i j) ?i)) = mset (elems (swap h ?i j))"
      using less.IH [OF i(1), of "swap h ?i j"] less.prems i(1) e by simp
    moreover have "heap_up lss swap h j = heap_up lss swap (swap h ?i j) ?i"
      using False by (subst heap_up.simps) (simp add: Let_def)
    moreover have "mset (elems (swap h ?i j)) = mset (elems h)"
      using e less.prems i by simp
    ultimately show ?thesis by simp
  qed
qed

definition smallest_child :: "'h \<Rightarrow> nat \<Rightarrow> nat \<Rightarrow> nat" where
  "smallest_child h i n = (if 2 * i + 2 < n \<and> lss h (2 * i + 2) (2 * i + 1) then 2 * i + 2 else 2 * i + 1)"

lemma heap_down_unfold:
  "heap_down lss swap h i n =
     (if n \<le> 2 * i + 1 \<or> \<not> lss h (smallest_child h i n) i then (h, i)
      else heap_down lss swap (swap h i (smallest_child h i n)) (smallest_child h i n) n)"
  by (subst heap_down.simps) (simp add: smallest_child_def Let_def)

lemma smallest_child:
  assumes "2 * i + 1 < n" "n \<le> length (elems h)"
  defines "j \<equiv> smallest_child h i n"
  shows "i < j \<and> j < n \<and> par j = i \<and> (\<forall>k. 0 < k \<longrightarrow> k < n \<longrightarrow> par k = i \<longrightarrow> \<not> lt (elems h ! k) (elems h ! j))"
proof -
  have irr: "\<not> lt a a" for a using lt_asym [of a a] by blast
  have L: "lss h (2 * i + 2) (2 * i + 1) = lt (elems h ! (2 * i + 2)) (elems h ! (2 * i + 1))" if "2 * i + 2 < n"
    using less_lt assms(2) that by simp
  show ?thesis
    using assms(1) L irr lt_asym
    by (auto simp: j_def smallest_child_def par_eq_iff split: if_splits)
qed

lemma down_step:
  assumes "down_inv lt xs n i" "n \<le> length xs" "i < j" "j < n" "par j = i"
    "\<And>k. 0 < k \<Longrightarrow> k < n \<Longrightarrow> par k = i \<Longrightarrow> \<not> lt (xs ! k) (xs ! j)"
    "lt (xs ! j) (xs ! i)"
  shows "down_inv lt (swap_list xs i j) n j \<and> heap_at lt (swap_list xs i j) j"
proof -
  let ?ys = "swap_list xs i j"
  have j: "0 < j" using assms(3) by simp
  have y: "?ys ! k = (if k = i then xs ! j else if k = j then xs ! i else xs ! k)" if "k < n" for k
    using that assms(2,3,4) by (simp add: nth_swap_list)
  have old: "\<not> lt (xs ! k) (xs ! par k)" if "0 < k" "k < n" "k \<noteq> i" "par k \<noteq> i" for k
    using assms(1) that by (simp add: down_inv_def heap_at_def)
  have grand: "\<not> lt (xs ! k) (xs ! par i)" if "0 < i" "0 < k" "k < n" "par k = i" for k
    using assms(1) that by (simp add: down_inv_def)
  have "heap_at lt ?ys k" if k: "0 < k" "k < n" "par k \<noteq> j" for k
  proof -
    have pk: "par k < n" "par k < k" using par_less [OF k(1)] k(2) by simp_all
    consider "k = i" | "k = j" | "k \<noteq> i" "k \<noteq> j" "par k = i" | "k \<noteq> i" "k \<noteq> j" "par k \<noteq> i"
      by blast
    then show ?thesis
    proof cases
      case 1
      with y [OF k(2)] y [OF pk(1)] pk grand [OF _ j assms(4,5)] k assms(3)
      show ?thesis by (simp add: heap_at_def)
    next
      case 2
      with y [OF k(2)] y [OF pk(1)] pk lt_asym [OF assms(7)] assms(3,5)
      show ?thesis by (simp add: heap_at_def)
    next
      case 3
      with y [OF k(2)] y [OF pk(1)] assms(6) [OF k(1,2)] show ?thesis by (simp add: heap_at_def)
    next
      case 4
      with y [OF k(2)] y [OF pk(1)] old [OF k(1,2)] k(3) show ?thesis by (simp add: heap_at_def)
    qed
  qed
  moreover have "\<not> lt (?ys ! k) (?ys ! par j)" if k: "0 < k" "k < n" "par k = j" for k
  proof -
    have "k \<noteq> i" "k \<noteq> j" using par_less [OF k(1)] k(3) assms(3) by auto
    then show ?thesis
      using y [OF k(2)] y [of i] old [OF k(1,2)] k(3) assms(3,4,5) by simp
  qed
  moreover have "par j \<noteq> j" using assms(3,5) by simp
  ultimately show ?thesis using j assms(4) by (simp add: down_inv_def)
qed

lemma heap_down_frame:
  assumes "n \<le> length (elems h)"
  shows "let (h', i') = heap_down lss swap h i n in
    mset (elems h') = mset (elems h) \<and> i \<le> i' \<and> (i = i' \<longrightarrow> h' = h) \<and>
    drop n (elems h') = drop n (elems h)"
  using assms
proof (induction "n - i" arbitrary: h i rule: less_induct)
  case less
  let ?j = "smallest_child h i n"
  show ?case
  proof (cases "n \<le> 2 * i + 1 \<or> \<not> lss h ?j i")
    case True
    then show ?thesis by (subst heap_down_unfold) simp
  next
    case False
    have j: "i < ?j" "?j < n" using smallest_child [of i n h] False less.prems by auto
    have e: "elems (swap h i ?j) = swap_list (elems h) i ?j"
      using elems_swap [of i h ?j] j less.prems by simp
    have "heap_down lss swap h i n = heap_down lss swap (swap h i ?j) ?j n"
      using False by (subst heap_down_unfold) simp
    moreover have "n - ?j < n - i" using j by linarith
    ultimately show ?thesis
      using less.hyps [of ?j "swap h i ?j"] j less.prems e
      by (auto simp: Let_def swap_list_def mset_swap)
  qed
qed

lemma heap_down_correct:
  assumes "down_inv lt (elems h) n i" "0 < i \<longrightarrow> heap_at lt (elems h) i" "i < n" "n \<le> length (elems h)"
  shows "heap_list lt (elems (fst (heap_down lss swap h i n))) n"
  using assms
proof (induction "n - i" arbitrary: h i rule: less_induct)
  case less
  let ?j = "smallest_child h i n"
  show ?case
  proof (cases "n \<le> 2 * i + 1 \<or> \<not> lss h ?j i")
    case True
    have "heap_at lt (elems h) k" if k: "0 < k" "k < n" for k
    proof (cases "par k = i")
      case True
      then have b: "2 * i + 1 < n" using k par_eq_iff [of k i] by auto
      note c = smallest_child [OF b less.prems(4)]
      have "\<not> lt (elems h ! ?j) (elems h ! i)"
        using \<open>n \<le> 2 * i + 1 \<or> \<not> lss h ?j i\<close> b less_lt [of ?j h i] c less.prems by simp
      moreover have "\<not> lt (elems h ! k) (elems h ! ?j)" using c k True by blast
      ultimately show ?thesis using True lt_trans_neg by (metis heap_at_def)
    next
      case False
      with less.prems(1,2) k show ?thesis by (cases "k = i") (simp_all add: down_inv_def)
    qed
    with True show ?thesis by (subst heap_down_unfold) (simp add: heap_list_def)
  next
    case False
    then have b: "2 * i + 1 < n" by simp
    note c = smallest_child [OF b less.prems(4)]
    have e: "elems (swap h i ?j) = swap_list (elems h) i ?j"
      using elems_swap [of i h ?j] c less.prems by simp
    have l: "lt (elems h ! ?j) (elems h ! i)"
      using False less_lt [of ?j h i] c less.prems by simp
    have s: "down_inv lt (elems (swap h i ?j)) n ?j \<and> heap_at lt (elems (swap h i ?j)) ?j"
      unfolding e by (rule down_step) (use c l less.prems in auto)
    have "heap_down lss swap h i n = heap_down lss swap (swap h i ?j) ?j n"
      using False by (subst heap_down_unfold) simp
    moreover have "heap_list lt (elems (fst (heap_down lss swap (swap h i ?j) ?j n))) n"
      by (rule less.hyps) (use c s e less.prems in auto)
    ultimately show ?thesis by simp
  qed
qed

lemma heap_down_moved:
  assumes "down_inv lt (elems h) n i" "i < n" "n \<le> length (elems h)" "heap_down lss swap h i n = (h', i')" "i < i'"
  shows "heap_list lt (elems h') n"
proof -
  let ?j = "smallest_child h i n"
  have b: "\<not> (n \<le> 2 * i + 1 \<or> \<not> lss h ?j i)"
    using assms(4,5) by (subst (asm) heap_down_unfold) (auto split: if_splits)
  then have b': "2 * i + 1 < n" by simp
  note c = smallest_child [OF b' assms(3)]
  have e: "elems (swap h i ?j) = swap_list (elems h) i ?j"
    using elems_swap [of i h ?j] c assms by simp
  have l: "lt (elems h ! ?j) (elems h ! i)"
    using b less_lt [of ?j h i] c assms by simp
  have s: "down_inv lt (elems (swap h i ?j)) n ?j \<and> heap_at lt (elems (swap h i ?j)) ?j"
    unfolding e by (rule down_step) (use c l assms in auto)
  have "heap_down lss swap (swap h i ?j) ?j n = (h', i')"
    using assms(4) b by (subst (asm) heap_down_unfold) simp
  with heap_down_correct [of "swap h i ?j" n ?j] s c e assms(2,3) show ?thesis by simp
qed

lemma heap_down_stays:
  assumes "down_inv lt (elems h) n i" "i < n" "n \<le> length (elems h)" "heap_down lss swap h i n = (h', i)"
  shows "up_inv lt (elems h) n i"
proof -
  let ?j = "smallest_child h i n"
  have stop: "n \<le> 2 * i + 1 \<or> \<not> lss h ?j i"
  proof (rule ccontr)
    assume b: "\<not> (n \<le> 2 * i + 1 \<or> \<not> lss h ?j i)"
    then have c: "i < ?j" "?j < n" using smallest_child [of i n h] assms(3) by auto
    have e: "length (elems (swap h i ?j)) = length (elems h)"
      using elems_swap [of i h ?j] c assms by simp
    have "heap_down lss swap (swap h i ?j) ?j n = (h', i)"
      using assms(4) b by (subst (asm) heap_down_unfold) simp
    with heap_down_frame [of n "swap h i ?j" ?j] c e assms(3) show False by simp
  qed
  have "heap_at lt (elems h) k" if k: "0 < k" "k < n" "k \<noteq> i" for k
  proof (cases "par k = i")
    case True
    then have b: "2 * i + 1 < n" using k par_eq_iff [of k i] by auto
    note c = smallest_child [OF b assms(3)]
    have "\<not> lt (elems h ! ?j) (elems h ! i)"
      using stop b less_lt [of ?j h i] c assms by simp
    moreover have "\<not> lt (elems h ! k) (elems h ! ?j)" using c k True by blast
    ultimately show ?thesis using True lt_trans_neg by (metis heap_at_def)
  next
    case False
    with assms(1) k show ?thesis by (simp add: down_inv_def)
  qed
  with assms(1) show ?thesis by (simp add: up_inv_def down_inv_def)
qed

lemma heap_Fix_correct:
  assumes "down_inv lt (elems h) (length (elems h)) i" "i < length (elems h)" "len h = length (elems h)"
  shows "heap_list lt (elems (heap_Fix lss swap len h i)) (length (elems h)) \<and>
    mset (elems (heap_Fix lss swap len h i)) = mset (elems h)"
proof -
  let ?n = "length (elems h)"
  obtain h1 i1 where d: "heap_down lss swap h i ?n = (h1, i1)" by force
  have f: "mset (elems h1) = mset (elems h)" "i \<le> i1" "i = i1 \<longrightarrow> h1 = h"
    using heap_down_frame [of ?n h i] d assms(2) by auto
  show ?thesis
  proof (cases "i < i1")
    case True
    then show ?thesis using heap_down_moved [OF assms(1,2) _ d] f d assms(3) by (simp add: heap_Fix_def)
  next
    case False
    then have "i1 = i" "h1 = h" using f by auto
    with d have "up_inv lt (elems h) ?n i" using heap_down_stays [OF assms(1,2)] by simp
    from heap_up_correct [OF this assms(2)] show ?thesis
      using \<open>i1 = i\<close> \<open>h1 = h\<close> d assms(3) by (simp add: heap_Fix_def)
  qed
qed

lemma heap_up_preserves:
  assumes "\<And>h i j. I h \<Longrightarrow> i < length (elems h) \<Longrightarrow> j < length (elems h) \<Longrightarrow> I (swap h i j)"
    "I h" "j < length (elems h)"
  shows "I (heap_up lss swap h j)"
  using assms(2,3)
proof (induction j arbitrary: h rule: less_induct)
  case (less j)
  let ?i = "(j - 1) div 2"
  show ?case
  proof (cases "?i = j \<or> \<not> lss h j ?i")
    case True
    then show ?thesis using less.prems by (subst heap_up.simps) simp
  next
    case False
    then have i: "?i < j" by linarith
    have e: "length (elems (swap h ?i j)) = length (elems h)"
      using elems_swap [of ?i h j] i less.prems by simp
    have "I (heap_up lss swap (swap h ?i j) ?i)"
      by (rule less.IH) (use i e less.prems assms(1) in simp_all)
    then show ?thesis using False by (subst heap_up.simps) (simp add: Let_def)
  qed
qed

lemma heap_down_preserves:
  assumes "\<And>h i j. I h \<Longrightarrow> i < length (elems h) \<Longrightarrow> j < length (elems h) \<Longrightarrow> I (swap h i j)"
    "I h" "n \<le> length (elems h)"
  shows "I (fst (heap_down lss swap h i n))"
  using assms(2,3)
proof (induction "n - i" arbitrary: h i rule: less_induct)
  case less
  let ?j = "smallest_child h i n"
  show ?case
  proof (cases "n \<le> 2 * i + 1 \<or> \<not> lss h ?j i")
    case True
    then show ?thesis using less.prems by (subst heap_down_unfold) simp
  next
    case False
    have j: "i < ?j" "?j < n" using smallest_child [of i n h] False less.prems by auto
    have e: "length (elems (swap h i ?j)) = length (elems h)"
      using elems_swap [of i h ?j] j less.prems by simp
    have "I (fst (heap_down lss swap (swap h i ?j) ?j n))"
      by (rule less.hyps) (use j e less.prems assms(1) in simp_all)
    then show ?thesis using False by (subst heap_down_unfold) simp
  qed
qed

lemma heap_Fix_preserves:
  assumes "\<And>h i j. I h \<Longrightarrow> i < length (elems h) \<Longrightarrow> j < length (elems h) \<Longrightarrow> I (swap h i j)"
    "I h" "i < length (elems h)" "len h = length (elems h)"
  shows "I (heap_Fix lss swap len h i)"
proof -
  obtain h1 i1 where d: "heap_down lss swap h i (length (elems h)) = (h1, i1)" by force
  have "I h1" using heap_down_preserves [where I = I, OF assms(1,2), of "length (elems h)" i] d by simp
  moreover have "length (elems h1) = length (elems h)"
    using heap_down_frame [of "length (elems h)" h i] d by (auto dest: mset_eq_length)
  ultimately show ?thesis
    using heap_up_preserves [where I = I, OF assms(1)] assms(3,4) d by (simp add: heap_Fix_def)
qed

lemma heap_up_mset:
  "j < length (elems h) \<Longrightarrow> mset (elems (heap_up lss swap h j)) = mset (elems h)"
  by (rule heap_up_preserves [where I = "\<lambda>h'. mset (elems h') = mset (elems h)"])
    (auto simp: elems_swap dest: mset_eq_length)

lemma heap_Fix_mset:
  assumes "i < length (elems h)" "len h = length (elems h)"
  shows "mset (elems (heap_Fix lss swap len h i)) = mset (elems h)"
proof -
  obtain h1 i1 where d: "heap_down lss swap h i (length (elems h)) = (h1, i1)" by force
  have f: "mset (elems h1) = mset (elems h)"
    using heap_down_frame [of "length (elems h)" h i] d by simp
  then have "length (elems h1) = length (elems h)" by (rule mset_eq_length)
  with f d assms heap_up_mset [of i h1] show ?thesis by (simp add: heap_Fix_def)
qed

lemma heap_top:
  assumes "heap_list lt (elems h) n" "k < n"
  shows "\<not> lt (elems h ! k) (elems h ! 0)"
  using assms(2)
proof (induction k rule: less_induct)
  case (less k)
  show ?case
  proof (cases "k = 0")
    case True
    then show ?thesis using lt_asym by blast
  next
    case False
    then have p: "par k < k" by (simp add: par_less)
    with less have "\<not> lt (elems h ! par k) (elems h ! 0)" by simp
    moreover have "\<not> lt (elems h ! k) (elems h ! par k)"
      using assms(1) False less.prems by (simp add: heap_list_def heap_at_def)
    ultimately show ?thesis using lt_trans_neg by blast
  qed
qed

lemma heap_leaf:
  assumes "heap_list lt (elems h) n" "k < n"
  shows "\<exists>l. n div 2 \<le> l \<and> l < n \<and> \<not> lt (elems h ! l) (elems h ! k)"
  using assms(2)
proof (induction "n - k" arbitrary: k rule: less_induct)
  case less
  show ?case
  proof (cases "n div 2 \<le> k")
    case True
    then show ?thesis using less.prems lt_asym by blast
  next
    case False
    then have c: "2 * k + 1 < n" by linarith
    with less.hyps [of "2 * k + 1"] less.prems
    obtain l where l: "n div 2 \<le> l" "l < n" "\<not> lt (elems h ! l) (elems h ! (2 * k + 1))" by fastforce
    have "heap_at lt (elems h) (2 * k + 1)" using assms(1) c by (simp add: heap_list_def)
    then have "\<not> lt (elems h ! (2 * k + 1)) (elems h ! k)" by (simp add: heap_at_def par_def)
    with l show ?thesis using lt_trans_neg by blast
  qed
qed

end

locale heap_container = heap_interface lss swap elems lt
  for lss :: "'h \<Rightarrow> nat \<Rightarrow> nat \<Rightarrow> bool" and swap elems and lt :: "'a \<Rightarrow> 'a \<Rightarrow> bool" +
  fixes len :: "'h \<Rightarrow> nat"
    and push :: "'h \<Rightarrow> 'x \<Rightarrow> 'h"
    and pop :: "'h \<Rightarrow> 'h \<times> 'x"
    and val :: "'x \<Rightarrow> 'a"
  assumes len: "len h = length (elems h)"
    and elems_push: "elems (push h x) = elems h @ [val x]"
    and elems_pop: "elems h \<noteq> [] \<Longrightarrow>
      elems (fst (pop h)) = butlast (elems h) \<and> val (snd (pop h)) = last (elems h)"
begin

lemma heap_Push_mset:
  "mset (elems (heap_Push lss swap len push h x)) = add_mset (val x) (mset (elems h))"
  using heap_up_mset [of "length (elems h)" "push h x"] by (simp add: heap_Push_def Let_def len elems_push)

lemma heap_Pop_mset:
  assumes "elems h \<noteq> []"
  shows "add_mset (val (snd (heap_Pop lss swap len pop h))) (mset (elems (fst (heap_Pop lss swap len pop h)))) =
    mset (elems h)"
proof -
  let ?n = "length (elems h) - 1"
  obtain h2 i2 where d: "heap_down lss swap (swap h 0 ?n) 0 ?n = (h2, i2)" by force
  have "0 < length (elems h)" "?n < length (elems h)" using assms by simp_all
  then have e: "elems (swap h 0 ?n) = swap_list (elems h) 0 ?n" "?n \<le> length (elems (swap h 0 ?n))"
    and me: "mset (elems (swap h 0 ?n)) = mset (elems h)"
    by (simp_all add: elems_swap)
  have f: "mset (elems h2) = mset (elems h)"
    using heap_down_frame [OF e(2), of 0] d me by simp
  then have ne: "elems h2 \<noteq> []" using assms by (metis mset_zero_iff_right)
  have "heap_Pop lss swap len pop h = pop h2"
    unfolding heap_Pop_def Let_def len d by simp
  moreover have "add_mset (last (elems h2)) (mset (butlast (elems h2))) = mset (elems h2)"
    by (metis append_butlast_last_id mset_append ne union_mset_add_mset_right add.right_neutral mset.simps)
  ultimately show ?thesis using elems_pop [OF ne] f by simp
qed

lemma heap_Push_correct:
  assumes "heap_list lt (elems h) (len h)"
  shows "heap_list lt (elems (heap_Push lss swap len push h x)) (len (heap_Push lss swap len push h x)) \<and>
    mset (elems (heap_Push lss swap len push h x)) = add_mset (val x) (mset (elems h))"
proof -
  let ?h = "push h x" and ?n = "length (elems h)"
  have "up_inv lt (elems ?h) (Suc ?n) ?n"
    using assms par_less [of ?n] by (auto simp: up_inv_def heap_list_def heap_at_def elems_push nth_append len par_eq_iff)
      (auto simp: par_def)
  from heap_up_correct [OF this] have u: "heap_list lt (elems (heap_up lss swap ?h ?n)) (Suc ?n)"
      "mset (elems (heap_up lss swap ?h ?n)) = mset (elems ?h)"
    by (simp_all add: elems_push)
  from mset_eq_length [OF u(2)] u show ?thesis
    by (simp add: heap_Push_def Let_def len elems_push)
qed

lemma heap_Pop_correct:
  assumes "heap_list lt (elems h) (len h)" "elems h \<noteq> []"
  defines "r \<equiv> heap_Pop lss swap len pop h"
  shows "heap_list lt (elems (fst r)) (len (fst r)) \<and> val (snd r) = hd (elems h) \<and>
    add_mset (val (snd r)) (mset (elems (fst r))) = mset (elems h)"
proof -
  let ?n = "length (elems h) - 1" and ?xs = "elems h"
  let ?h1 = "swap h 0 ?n"
  have n: "?n < length ?xs" "0 < length ?xs" using assms(2) by simp_all
  have e: "elems ?h1 = swap_list ?xs 0 ?n" using elems_swap n by simp
  obtain h2 i2 where d: "heap_down lss swap ?h1 0 ?n = (h2, i2)" by force
  have f: "mset (elems h2) = mset ?xs" "drop ?n (elems h2) = drop ?n (elems ?h1)"
    using heap_down_frame [of ?n ?h1 0] d e n by auto
  have len2: "length (elems h2) = Suc ?n" using mset_eq_length [OF f(1)] n by simp
  have hl: "heap_list lt (elems h2) ?n"
  proof (cases "?n = 0")
    case True
    then show ?thesis by (simp add: heap_list_def)
  next
    case False
    have y: "elems ?h1 ! k = ?xs ! k" if "0 < k" "k < ?n" for k
      unfolding e using that n by (simp add: nth_swap_list)
    have "heap_at lt (elems ?h1) k" if k: "0 < k" "k < ?n" "par k \<noteq> 0" for k
      using y [OF k(1,2)] y [of "par k"] k par_less [OF k(1)] assms(1)
      by (simp add: heap_list_def heap_at_def len)
    then have "down_inv lt (elems ?h1) ?n 0"
      by (simp add: down_inv_def)
    with heap_down_correct [of ?h1 ?n 0] False d e show ?thesis by simp
  qed
  have ne: "elems h2 \<noteq> []" using len2 by auto
  have lst: "last (elems h2) = hd ?xs"
  proof -
    have swap_ne: "swap_list ?xs 0 ?n \<noteq> []"
      using assms(2) by (metis length_0_conv length_swap_list)
    have "last (elems h2) = last (drop ?n (elems h2))" using len2 by simp
    also have "\<dots> = last (drop ?n (swap_list ?xs 0 ?n))" by (simp only: f(2) e)
    also have "\<dots> = swap_list ?xs 0 ?n ! ?n"
      using n last_conv_nth [of "swap_list ?xs 0 ?n"] swap_ne by simp
    also have "\<dots> = hd ?xs" using n assms(2) by (simp add: nth_swap_list hd_conv_nth)
    finally show ?thesis .
  qed
  have r: "r = pop h2" unfolding r_def heap_Pop_def Let_def len d by simp
  note p = elems_pop [OF ne]
  have "heap_list lt (elems (fst r)) (len (fst r))"
    using hl p len2 by (auto simp: r len heap_list_def heap_at_def nth_butlast par_def)
  moreover have "add_mset (last (elems h2)) (mset (butlast (elems h2))) = mset (elems h2)"
    by (metis append_butlast_last_id mset_append ne union_mset_add_mset_right add.right_neutral mset.simps)
  ultimately show ?thesis using p lst f(1) by (simp add: r)
qed

end

end
