(* ===== verification/EvictionPool.thy ===== *)
theory EvictionPool
  imports GoHeap
begin

text \<open>
  \<open>core/evictionpool.go\<close> and the LRU clock of \<open>core/eviction.go\<close>: the pool of at most
  16 eviction candidates, a heap of \<open>PoolItem\<close>s with the longest idle time on top.
  The clock reading \<open>now\<close> (Unix seconds) is an argument: the code reads it from
  \<open>time.Now\<close> at every comparison, and the model takes one reading per operation.
  \<open>keyset\<close> maps a key to its item in the code; only the presence of the key is ever
  read, so the model keeps the list of its keys.
  The laws of \<open>container/heap\<close> hold by the interpretation \<open>ep\<close> of \<open>heap_container\<close>.
\<close>

section \<open>The LRU clock\<close>

definition getCurrentClock :: "int64 \<Rightarrow> uint32" where
  "getCurrentClock unix = and (ucast unix) 0x00FFFFF"

definition getIdleTime :: "int64 \<Rightarrow> uint32 \<Rightarrow> uint32" where
  "getIdleTime now lastAccessedAt =
     (let c = getCurrentClock now in
      if lastAccessedAt \<le> c then c - lastAccessedAt
      else (0x00FFFFF - lastAccessedAt) + c)"

lemma unat_getCurrentClock: "unat (getCurrentClock t) = unat t mod 2 ^ 20"
proof -
  have "unat (and (ucast t) (mask 20) :: uint32) = unat (ucast t :: uint32) mod 2 ^ 20"
    by (simp only: take_bit_eq_mask [symmetric] unsigned_take_bit_eq) (simp only: take_bit_eq_mod)
  also have "\<dots> = unat t mod 2 ^ 20"
    by (simp add: unsigned_ucast_eq take_bit_eq_mod mod_mod_cancel)
  finally show ?thesis by (simp add: getCurrentClock_def mask_eq_decr_exp)
qed

lemma getCurrentClock_less: "unat (getCurrentClock t) < 2 ^ 20"
  by (simp add: unat_getCurrentClock)

lemma unat_idle_later:
  assumes "unat a \<le> unat (b :: uint32)"
  shows "unat (b - a) = unat b - unat a"
  using assms by (simp add: unat_sub word_le_nat_alt)

lemma getIdleTime_nat:
  assumes "unat l < 2 ^ 20"
  shows "unat (getIdleTime now l) =
    (let c = unat now mod 2 ^ 20 in if unat l \<le> c then c - unat l else 2 ^ 20 - 1 - unat l + c)"
proof (cases "l \<le> getCurrentClock now")
  case True
  then show ?thesis
    by (simp add: getIdleTime_def Let_def unat_sub unat_getCurrentClock word_le_nat_alt)
next
  case False
  have "unat (0x00FFFFF - l) = 2 ^ 20 - 1 - unat l"
    using assms by (subst unat_sub) (simp_all add: word_le_nat_alt)
  moreover have "unat (0x00FFFFF - l + getCurrentClock now) = unat (0x00FFFFF - l) + unat (getCurrentClock now)"
    using calculation getCurrentClock_less [of now] by (subst unat_add_lem [THEN iffD1]) simp_all
  ultimately show ?thesis
    using False by (simp add: getIdleTime_def Let_def unat_getCurrentClock word_le_nat_alt not_le)
qed

lemma getIdleTime_same_epoch:
  assumes "unat t0 \<le> unat t1" "unat t0 div 2 ^ 20 = unat t1 div 2 ^ 20"
  shows "unat (getIdleTime t1 (getCurrentClock t0)) = unat t1 - unat t0"
proof -
  have "unat t0 = 2 ^ 20 * (unat t1 div 2 ^ 20) + unat t0 mod 2 ^ 20"
    "unat t1 = 2 ^ 20 * (unat t1 div 2 ^ 20) + unat t1 mod 2 ^ 20"
    using assms(2) by (metis mult_div_mod_eq)+
  then have "unat t0 mod 2 ^ 20 \<le> unat t1 mod 2 ^ 20"
    "unat t1 - unat t0 = unat t1 mod 2 ^ 20 - unat t0 mod 2 ^ 20"
    using assms(1) by linarith+
  with getIdleTime_nat [OF getCurrentClock_less [of t0], of t1] show ?thesis
    by (simp add: unat_getCurrentClock Let_def)
qed

lemma getIdleTime_next_epoch:
  assumes "unat t1 - unat t0 < 2 ^ 20" "unat t1 div 2 ^ 20 = unat t0 div 2 ^ 20 + 1"
  shows "unat (getIdleTime t1 (getCurrentClock t0)) = unat t1 - unat t0 - 1"
proof -
  define q where "q = unat t0 div 2 ^ 20"
  have t: "unat t0 = 2 ^ 20 * q + unat t0 mod 2 ^ 20" "unat t1 = 2 ^ 20 * (q + 1) + unat t1 mod 2 ^ 20"
    "unat t0 mod 2 ^ 20 < 2 ^ 20"
    unfolding q_def assms(2) [symmetric] by simp_all
  have arith: "b < a \<and> t1 - t0 - 1 = K - 1 - a + b"
    if "t0 = K * q + a" "t1 = K * (q + 1) + b" "a < K" "t1 - t0 < K" for a b t0 t1 K :: nat
    using that by (auto simp: algebra_simps)
  note arith [OF t assms(1)]
  with getIdleTime_nat [OF getCurrentClock_less [of t0], of t1] show ?thesis
    by (simp add: unat_getCurrentClock Let_def)
qed

section \<open>The pool\<close>

record PoolItem =
  key :: string
  lastaccessedat :: uint32
  index :: int

record EvictionPool =
  pool :: "PoolItem list"
  keyset :: "string list"

definition ePoolSizeMax :: nat where
  "ePoolSizeMax = 16"

definition EvictionPool_Len :: "EvictionPool \<Rightarrow> nat" where
  "EvictionPool_Len pq = length (pool pq)"

definition EvictionPool_Less :: "int64 \<Rightarrow> EvictionPool \<Rightarrow> nat \<Rightarrow> nat \<Rightarrow> bool" where
  "EvictionPool_Less now pq i j \<longleftrightarrow>
     getIdleTime now (lastaccessedat (pool pq ! j)) < getIdleTime now (lastaccessedat (pool pq ! i))"

definition EvictionPool_Swap :: "EvictionPool \<Rightarrow> nat \<Rightarrow> nat \<Rightarrow> EvictionPool" where
  "EvictionPool_Swap pq i j =
     (let p = (pool pq)[i := pool pq ! j, j := pool pq ! i];
          p = p[i := (p ! i)\<lparr>index := int i\<rparr>];
          p = p[j := (p ! j)\<lparr>index := int j\<rparr>]
      in pq\<lparr>pool := p\<rparr>)"

definition EvictionPool_Push :: "EvictionPool \<Rightarrow> PoolItem \<Rightarrow> EvictionPool" where
  "EvictionPool_Push pq item = pq\<lparr>pool := pool pq @ [item\<lparr>index := int (length (pool pq))\<rparr>]\<rparr>"

definition EvictionPool_Pop :: "EvictionPool \<Rightarrow> EvictionPool \<times> PoolItem" where
  "EvictionPool_Pop pq =
     (let old = pool pq; n = length old; item = (old ! (n - 1))\<lparr>index := -1\<rparr>
      in (pq\<lparr>pool := take (n - 1) old\<rparr>, item))"

fun least_idle :: "int64 \<Rightarrow> PoolItem list \<Rightarrow> nat \<Rightarrow> nat list \<Rightarrow> nat" where
  \<comment> \<open>the scan of \<open>PushItem\<close>: \<open>for i := minIdx + 1; i < len(pq.pool); i++\<close>\<close>
  "least_idle now p minIdx [] = minIdx"
| "least_idle now p minIdx (i # is) =
     (if getIdleTime now (lastaccessedat (p ! i)) < getIdleTime now (lastaccessedat (p ! minIdx))
      then least_idle now p i is else least_idle now p minIdx is)"

definition PushItem :: "int64 \<Rightarrow> EvictionPool \<Rightarrow> string \<Rightarrow> uint32 \<Rightarrow> EvictionPool" where
  "PushItem now pq k l =
     (if k \<in> set (keyset pq) then pq
      else
        let newIdleTime = getIdleTime now l;
            item = \<lparr>key = k, lastaccessedat = l, index = 0\<rparr>
        in if length (pool pq) < ePoolSizeMax
           then heap_Push (EvictionPool_Less now) EvictionPool_Swap EvictionPool_Len EvictionPool_Push
                  (pq\<lparr>keyset := k # keyset pq\<rparr>) item
           else
             let n = length (pool pq);
                 minIdx = least_idle now (pool pq) (n div 2) [n div 2 + 1..<n];
                 worst = pool pq ! minIdx
             in if getIdleTime now (lastaccessedat worst) < newIdleTime
                then heap_Fix (EvictionPool_Less now) EvictionPool_Swap EvictionPool_Len
                       (pq\<lparr>pool := (pool pq)[minIdx := worst\<lparr>key := k, lastaccessedat := l\<rparr>],
                           keyset := k # removeAll (key worst) (keyset pq)\<rparr>) minIdx
                else pq)"

definition PopItem :: "int64 \<Rightarrow> EvictionPool \<Rightarrow> EvictionPool \<times> PoolItem option" where
  "PopItem now pq =
     (if pool pq = [] then (pq, None)
      else
        let (pq1, item) = heap_Pop (EvictionPool_Less now) EvictionPool_Swap EvictionPool_Len EvictionPool_Pop pq
        in (pq1\<lparr>keyset := removeAll (key item) (keyset pq1)\<rparr>, Some item))"

definition PoolStats :: "int64 \<Rightarrow> EvictionPool \<Rightarrow> nat \<times> uint32" where
  "PoolStats now pq =
     (length (pool pq),
      if 0 < length (pool pq) then getIdleTime now (lastaccessedat (pool pq ! 0)) else 0)"

definition newEvictionPool :: EvictionPool where
  "newEvictionPool = \<lparr>pool = [], keyset = []\<rparr>"

section \<open>The pool keeps the contract of the heap package\<close>

definition item_view :: "PoolItem \<Rightarrow> string \<times> uint32" where
  "item_view it = (key it, lastaccessedat it)"

definition pool_view :: "EvictionPool \<Rightarrow> (string \<times> uint32) list" where
  "pool_view pq = map item_view (pool pq)"

definition idler :: "int64 \<Rightarrow> string \<times> uint32 \<Rightarrow> string \<times> uint32 \<Rightarrow> bool" where
  "idler now a b \<longleftrightarrow> getIdleTime now (snd b) < getIdleTime now (snd a)"

lemma item_view_index [simp]: "item_view (it\<lparr>index := i\<rparr>) = item_view it"
  by (simp add: item_view_def)

lemma length_pool_view [simp]: "length (pool_view pq) = length (pool pq)"
  by (simp add: pool_view_def)

lemma pool_view_Nil [simp]: "pool_view pq = [] \<longleftrightarrow> pool pq = []"
  by (simp add: pool_view_def)

lemma pool_view_Swap:
  "i < length (pool pq) \<Longrightarrow> j < length (pool pq) \<Longrightarrow>
   pool_view (EvictionPool_Swap pq i j) = swap_list (pool_view pq) i j"
  by (rule nth_equalityI)
    (auto simp: EvictionPool_Swap_def pool_view_def swap_list_def Let_def nth_list_update)

interpretation ep: heap_container "EvictionPool_Less now" EvictionPool_Swap pool_view "idler now"
    EvictionPool_Len EvictionPool_Push EvictionPool_Pop item_view for now
proof
  show "EvictionPool_Less now h i j = idler now (pool_view h ! i) (pool_view h ! j)"
    if "i < length (pool_view h)" "j < length (pool_view h)" for h i j
    using that by (simp add: EvictionPool_Less_def idler_def pool_view_def item_view_def)
  show "pool_view (EvictionPool_Swap h i j) = swap_list (pool_view h) i j"
    if "i < length (pool_view h)" "j < length (pool_view h)" for h i j
    using that by (simp add: pool_view_Swap)
  show "pool_view (fst (EvictionPool_Pop h)) = butlast (pool_view h) \<and>
      item_view (snd (EvictionPool_Pop h)) = last (pool_view h)" if "pool_view h \<noteq> []" for h
    using that by (simp add: EvictionPool_Pop_def pool_view_def Let_def butlast_conv_take take_map last_conv_nth)
qed (auto simp: idler_def EvictionPool_Len_def EvictionPool_Push_def pool_view_def)

section \<open>The invariant of the pool\<close>

definition indexed :: "PoolItem list \<Rightarrow> bool" where
  "indexed p \<longleftrightarrow> (\<forall>i < length p. index (p ! i) = int i)"

definition pool_keys :: "EvictionPool \<Rightarrow> string list" where
  "pool_keys pq = map fst (pool_view pq)"

definition pool_ok :: "EvictionPool \<Rightarrow> bool" where
  "pool_ok pq \<longleftrightarrow>
     length (pool pq) \<le> ePoolSizeMax \<and> distinct (pool_keys pq) \<and>
     set (keyset pq) = set (pool_keys pq) \<and> indexed (pool pq)"

definition pool_heap :: "int64 \<Rightarrow> EvictionPool \<Rightarrow> bool" where
  "pool_heap now pq \<longleftrightarrow> heap_list (idler now) (pool_view pq) (length (pool pq))"

lemma pool_keys_mset: "mset (pool_keys pq) = image_mset fst (mset (pool_view pq))"
  by (simp add: pool_keys_def)

lemma distinct_mset_keys: "mset (pool_keys p) = mset (pool_keys q) \<Longrightarrow> distinct (pool_keys p) = distinct (pool_keys q)"
  by (rule mset_eq_imp_distinct_iff)

lemma Swap_indexed:
  "indexed (pool pq) \<Longrightarrow> i < length (pool pq) \<Longrightarrow> j < length (pool pq) \<Longrightarrow> indexed (pool (EvictionPool_Swap pq i j))"
  by (auto simp: indexed_def EvictionPool_Swap_def Let_def nth_list_update)

lemma Swap_keyset [simp]: "keyset (EvictionPool_Swap pq i j) = keyset pq"
  by (simp add: EvictionPool_Swap_def Let_def)

lemma ep_fields_up:
  assumes "indexed (pool pq)" "j < length (pool pq)"
  shows "indexed (pool (heap_up (EvictionPool_Less now) EvictionPool_Swap pq j)) \<and>
    keyset (heap_up (EvictionPool_Less now) EvictionPool_Swap pq j) = keyset pq"
  by (rule ep.heap_up_preserves [where I = "\<lambda>h. indexed (pool h) \<and> keyset h = keyset pq"])
    (use assms in \<open>simp_all add: Swap_indexed\<close>)

lemma ep_fields_Fix:
  assumes "indexed (pool pq)" "i < length (pool pq)"
  shows "indexed (pool (heap_Fix (EvictionPool_Less now) EvictionPool_Swap EvictionPool_Len pq i)) \<and>
    keyset (heap_Fix (EvictionPool_Less now) EvictionPool_Swap EvictionPool_Len pq i) = keyset pq"
  by (rule ep.heap_Fix_preserves [where I = "\<lambda>h. indexed (pool h) \<and> keyset h = keyset pq"])
    (use assms in \<open>simp_all add: Swap_indexed EvictionPool_Len_def\<close>)

lemma ep_fields_Push:
  fixes now item
  assumes "indexed (pool pq)"
  defines "r \<equiv> heap_Push (EvictionPool_Less now) EvictionPool_Swap EvictionPool_Len EvictionPool_Push pq item"
  shows "indexed (pool r) \<and> keyset r = keyset pq"
proof -
  have "indexed (pool (EvictionPool_Push pq item))" "keyset (EvictionPool_Push pq item) = keyset pq"
    using assms(1) by (auto simp: indexed_def EvictionPool_Push_def nth_append less_Suc_eq)
  with ep_fields_up [of "EvictionPool_Push pq item" "length (pool pq)" now] show ?thesis
    by (simp add: r_def heap_Push_def EvictionPool_Len_def) (simp add: EvictionPool_Push_def)
qed

lemma ep_fields_Pop:
  fixes now
  assumes "indexed (pool pq)" "pool pq \<noteq> []"
  defines "r \<equiv> heap_Pop (EvictionPool_Less now) EvictionPool_Swap EvictionPool_Len EvictionPool_Pop pq"
  shows "indexed (pool (fst r)) \<and> keyset (fst r) = keyset pq"
proof -
  let ?n = "length (pool pq) - 1" and ?I = "\<lambda>h. indexed (pool h) \<and> keyset h = keyset pq"
  let ?h1 = "EvictionPool_Swap pq 0 ?n"
  have "?I ?h1" using assms(1,2) by (simp add: Swap_indexed)
  moreover have "?n \<le> length (pool_view ?h1)" using assms(2) by (simp add: pool_view_Swap)
  ultimately have "?I (fst (heap_down (EvictionPool_Less now) EvictionPool_Swap ?h1 0 ?n))"
    by (intro ep.heap_down_preserves [where I = ?I]) (simp_all add: Swap_indexed)
  then show ?thesis
    by (auto simp: r_def heap_Pop_def EvictionPool_Len_def EvictionPool_Pop_def Let_def indexed_def split: prod.splits)
qed

lemma least_idle_correct:
  "m < length p \<Longrightarrow> set is \<subseteq> {..<length p} \<Longrightarrow>
   (let r = least_idle now p m is in
    r \<in> insert m (set is) \<and>
    (\<forall>i \<in> insert m (set is). getIdleTime now (lastaccessedat (p ! r)) \<le> getIdleTime now (lastaccessedat (p ! i))))"
proof (induction now p m "is" rule: least_idle.induct)
  case (2 now p m i "is")
  then show ?case by (auto simp: Let_def)
qed simp

lemma least_idle_min:
  fixes now
  assumes "pool_heap now pq" "pool pq \<noteq> []"
  defines "n \<equiv> length (pool pq)"
  defines "m \<equiv> least_idle now (pool pq) (n div 2) [n div 2 + 1..<n]"
  shows "m < n \<and> (\<forall>it \<in> set (pool pq). getIdleTime now (lastaccessedat (pool pq ! m)) \<le> getIdleTime now (lastaccessedat it))"
proof -
  have "0 < n" using assms(2) by (simp add: n_def)
  then have h: "n div 2 < n" by simp
  have s: "insert (n div 2) (set [n div 2 + 1..<n]) = {n div 2..<n}" using h by auto
  have "set [n div 2 + 1..<n] \<subseteq> {..<length (pool pq)}" by (auto simp: n_def)
  from least_idle_correct [OF h [unfolded n_def] this, of now]
  have r: "m \<in> {n div 2..<n}"
    "\<forall>i \<in> {n div 2..<n}. getIdleTime now (lastaccessedat (pool pq ! m)) \<le> getIdleTime now (lastaccessedat (pool pq ! i))"
    unfolding s [unfolded n_def] Let_def m_def n_def by blast+
  have "getIdleTime now (lastaccessedat (pool pq ! m)) \<le> getIdleTime now (lastaccessedat (pool pq ! k))" if "k < n" for k
  proof -
    have "\<exists>l. n div 2 \<le> l \<and> l < n \<and> \<not> idler now (pool_view pq ! l) (pool_view pq ! k)"
      using ep.heap_leaf [of now pq n k] assms(1) that by (simp add: pool_heap_def n_def)
    then obtain l where l: "n div 2 \<le> l" "l < n" "\<not> idler now (pool_view pq ! l) (pool_view pq ! k)"
      by blast
    then have "getIdleTime now (lastaccessedat (pool pq ! l)) \<le> getIdleTime now (lastaccessedat (pool pq ! k))"
      using that by (simp add: idler_def pool_view_def item_view_def n_def)
    with r(2) l show ?thesis by (meson atLeastLessThan_iff order.trans)
  qed
  with r(1) show ?thesis by (auto simp: in_set_conv_nth n_def)
qed

lemma newEvictionPool_ok [inv_intros]: "pool_ok newEvictionPool" "pool_heap now newEvictionPool"
  by (simp_all add: pool_ok_def newEvictionPool_def pool_keys_def pool_view_def indexed_def pool_heap_def heap_list_def)

lemma pool_keys_unfold: "set (pool_keys pq) = fst ` set (pool_view pq)"
  by (simp add: pool_keys_def)

lemma PushItem_present: "k \<in> set (keyset pq) \<Longrightarrow> PushItem now pq k l = pq"
  by (simp add: PushItem_def)

lemma PushItem_room_ok:
  fixes now pq k l
  assumes "pool_ok pq" "k \<notin> set (keyset pq)" "length (pool pq) < ePoolSizeMax"
  defines "r \<equiv> PushItem now pq k l"
  shows "pool_ok r \<and> mset (pool_view r) = add_mset (k, l) (mset (pool_view pq))"
proof -
  let ?pq = "pq\<lparr>keyset := k # keyset pq\<rparr>" and ?it = "\<lparr>key = k, lastaccessedat = l, index = 0\<rparr>"
  have r: "r = heap_Push (EvictionPool_Less now) EvictionPool_Swap EvictionPool_Len EvictionPool_Push ?pq ?it"
    using assms(2,3) by (simp add: r_def PushItem_def Let_def)
  have v: "pool_view ?pq = pool_view pq" by (simp add: pool_view_def)
  have h: "mset (pool_view r) = add_mset (k, l) (mset (pool_view pq))"
    using ep.heap_Push_mset [of now ?pq ?it] v by (simp add: r item_view_def)
  have f: "indexed (pool r)" "keyset r = k # keyset pq"
    using ep_fields_Push [of ?pq now ?it] assms(1) by (simp_all add: r pool_ok_def)
  have keys: "mset (pool_keys r) = mset (k # pool_keys pq)"
    by (simp add: pool_keys_mset h)
  have "length (pool r) = Suc (length (pool pq))"
    using mset_eq_length [OF keys] by (simp add: pool_keys_def)
  moreover have "distinct (pool_keys r)" "set (keyset r) = set (pool_keys r)"
    using assms(1,2) mset_eq_imp_distinct_iff [OF keys] mset_eq_setD [OF keys] f by (auto simp: pool_ok_def)
  ultimately show ?thesis using h f assms(3) by (simp add: pool_ok_def)
qed

lemma PushItem_room:
  fixes now pq k l
  assumes "pool_ok pq" "pool_heap now pq" "k \<notin> set (keyset pq)" "length (pool pq) < ePoolSizeMax"
  defines "r \<equiv> PushItem now pq k l"
  shows "pool_ok r \<and> pool_heap now r \<and> mset (pool_view r) = add_mset (k, l) (mset (pool_view pq))"
proof -
  let ?pq = "pq\<lparr>keyset := k # keyset pq\<rparr>" and ?it = "\<lparr>key = k, lastaccessedat = l, index = 0\<rparr>"
  have r: "r = heap_Push (EvictionPool_Less now) EvictionPool_Swap EvictionPool_Len EvictionPool_Push ?pq ?it"
    using assms(3,4) by (simp add: r_def PushItem_def Let_def)
  have v: "pool_view ?pq = pool_view pq" "pool ?pq = pool pq" by (simp_all add: pool_view_def)
  have "pool_heap now r"
    using ep.heap_Push_correct [of now ?pq ?it] assms(2) v
    by (simp add: r pool_heap_def EvictionPool_Len_def)
  then show ?thesis using PushItem_room_ok [OF assms(1,3,4)] by (simp add: r_def)
qed

text \<open>With the pool full, the new candidate replaces one of least idle time, if it is idler.\<close>

lemma down_inv_change:
  assumes "heap_list (idler now) xs n" "i < n" "n \<le> length xs" "\<not> idler now (xs ! i) y"
  shows "down_inv (idler now) (xs[i := y]) n i"
proof -
  have o: "\<not> idler now (xs ! k) (xs ! par k)" if "0 < k" "k < n" for k
    using assms(1) that by (simp add: heap_list_def heap_at_def)
  have "heap_at (idler now) (xs[i := y]) k" if "0 < k" "k < n" "k \<noteq> i" "par k \<noteq> i" for k
    using that o [of k] by (simp add: heap_at_def)
  moreover have "\<not> idler now (xs[i := y] ! k) (xs[i := y] ! par i)" if "0 < i" "0 < k" "k < n" "par k = i" for k
  proof -
    have n: "k \<noteq> i" "par i \<noteq> i" using par_less [of k] par_less [of i] that by auto
    have "\<not> idler now (xs ! k) (xs ! i)" using o [of k] that by simp
    moreover have "\<not> idler now (xs ! i) (xs ! par i)" using o [of i] that assms(2) by simp
    ultimately have "\<not> idler now (xs ! k) (xs ! par i)" by (auto simp: idler_def)
    with n show ?thesis by simp
  qed
  ultimately show ?thesis by (simp add: down_inv_def)
qed

definition worst_index :: "int64 \<Rightarrow> EvictionPool \<Rightarrow> nat" where
  "worst_index now pq =
     (let n = length (pool pq) in least_idle now (pool pq) (n div 2) [n div 2 + 1..<n])"

definition replaced :: "EvictionPool \<Rightarrow> nat \<Rightarrow> string \<Rightarrow> uint32 \<Rightarrow> EvictionPool" where
  "replaced pq m k l =
     pq\<lparr>pool := (pool pq)[m := (pool pq ! m)\<lparr>key := k, lastaccessedat := l\<rparr>],
        keyset := k # removeAll (key (pool pq ! m)) (keyset pq)\<rparr>"

lemma PushItem_full_eq:
  assumes "k \<notin> set (keyset pq)" "\<not> length (pool pq) < ePoolSizeMax"
  shows "PushItem now pq k l =
    (if idler now (k, l) (item_view (pool pq ! worst_index now pq))
     then heap_Fix (EvictionPool_Less now) EvictionPool_Swap EvictionPool_Len
            (replaced pq (worst_index now pq) k l) (worst_index now pq)
     else pq)"
  unfolding PushItem_def Let_def worst_index_def idler_def item_view_def replaced_def using assms by simp

lemma worst_index_less: "pool pq \<noteq> [] \<Longrightarrow> worst_index now pq < length (pool pq)"
proof -
  let ?n = "length (pool pq)"
  assume "pool pq \<noteq> []"
  then have h: "?n div 2 < ?n" by simp
  have "set [?n div 2 + 1..<?n] \<subseteq> {..<?n}" by auto
  from least_idle_correct [OF h this, of now]
  have "worst_index now pq \<in> insert (?n div 2) (set [?n div 2 + 1..<?n])"
    unfolding worst_index_def Let_def by blast
  with h show ?thesis by auto
qed

lemma pool_view_replaced: "pool_view (replaced pq m k l) = (pool_view pq)[m := (k, l)]"
  by (simp add: pool_view_def map_update item_view_def replaced_def)

lemma length_replaced [simp]: "length (pool (replaced pq m k l)) = length (pool pq)"
  by (simp add: replaced_def)

lemma PushItem_replace_mset:
  fixes now pq k l
  defines "m \<equiv> worst_index now pq"
  defines "r \<equiv> heap_Fix (EvictionPool_Less now) EvictionPool_Swap EvictionPool_Len (replaced pq m k l) m"
  assumes "pool pq \<noteq> []"
  shows "mset (pool_view r) = add_mset (k, l) (mset (pool_view pq) - {#item_view (pool pq ! m)#})"
proof -
  have m: "m < length (pool pq)" using worst_index_less [OF assms(3)] by (simp add: m_def)
  then have "mset (pool_view r) = mset ((pool_view pq)[m := (k, l)])"
    unfolding r_def using ep.heap_Fix_mset [of m "replaced pq m k l" EvictionPool_Len now]
    by (simp add: pool_view_replaced EvictionPool_Len_def)
  with m show ?thesis by (simp add: mset_update) (simp add: pool_view_def)
qed

lemma PushItem_full_ok:
  fixes now pq k l
  assumes "pool_ok pq" "k \<notin> set (keyset pq)" "length (pool pq) = ePoolSizeMax"
  shows "pool_ok (PushItem now pq k l)"
proof (cases "idler now (k, l) (item_view (pool pq ! worst_index now pq))")
  case False
  then show ?thesis using assms by (simp add: PushItem_full_eq)
next
  case True
  define m where "m = worst_index now pq"
  define r where "r = PushItem now pq k l"
  have ne: "pool pq \<noteq> []" using assms(3) by (auto simp: ePoolSizeMax_def)
  have m: "m < length (pool pq)" using worst_index_less [OF ne] by (simp add: m_def)
  have r: "r = heap_Fix (EvictionPool_Less now) EvictionPool_Swap EvictionPool_Len (replaced pq m k l) m"
    using True assms(2,3) by (simp add: r_def PushItem_full_eq m_def)
  have v: "mset (pool_view r) = mset ((pool_view pq)[m := (k, l)])"
    unfolding r using ep.heap_Fix_mset [of m "replaced pq m k l" EvictionPool_Len now] m
    by (simp add: pool_view_replaced EvictionPool_Len_def)
  have len: "length (pool r) = length (pool pq)" using mset_eq_length [OF v] by simp
  have f: "indexed (pool r)" "keyset r = k # removeAll (key (pool pq ! m)) (keyset pq)"
    using ep_fields_Fix [of "replaced pq m k l" m now] m assms(1)
    by (auto simp: r pool_ok_def indexed_def nth_list_update replaced_def)
  have "mset (pool_keys r) = mset ((pool_keys pq)[m := k])"
    unfolding pool_keys_mset v by (simp add: pool_keys_def map_update flip: mset_map)
  note keys = mset_eq_setD [OF this] mset_eq_imp_distinct_iff [OF this]
  have pk: "distinct (pool_keys pq)" "m < length (pool_keys pq)" "pool_keys pq ! m = key (pool pq ! m)"
      "set (keyset pq) = set (pool_keys pq)"
    using assms(1) m by (simp_all add: pool_ok_def pool_keys_def pool_view_def item_view_def)
  have "set ((pool_keys pq)[m := k]) = insert k (set (pool_keys pq) - {key (pool pq ! m)})"
    using set_update_distinct [OF pk(1,2)] pk(3) by simp
  then have "set (keyset r) = set (pool_keys r)" using f(2) pk(4) keys(1) by auto
  moreover have "distinct (pool_keys r)"
    using keys(2) pk assms(2) by (simp add: distinct_list_update)
  ultimately show ?thesis using f len assms(3) by (simp add: pool_ok_def r_def)
qed

lemma PushItem_full:
  fixes now pq k l
  assumes "pool_ok pq" "pool_heap now pq" "k \<notin> set (keyset pq)" "length (pool pq) = ePoolSizeMax"
  defines "r \<equiv> PushItem now pq k l"
  shows "pool_ok r \<and> pool_heap now r \<and>
    (\<exists>w \<in> set (pool_view pq). (\<forall>v \<in> set (pool_view pq). \<not> idler now w v) \<and>
       mset (pool_view r) = (if idler now (k, l) w then add_mset (k, l) (mset (pool_view pq) - {#w#})
                             else mset (pool_view pq)))"
proof -
  define m where "m = worst_index now pq"
  let ?w = "item_view (pool pq ! m)"
  have ne: "pool pq \<noteq> []" using assms(4) by (auto simp: ePoolSizeMax_def)
  have m: "m < length (pool pq)"
      "\<forall>it \<in> set (pool pq). getIdleTime now (lastaccessedat (pool pq ! m)) \<le> getIdleTime now (lastaccessedat it)"
    using least_idle_min [OF assms(2) ne] by (simp_all add: m_def worst_index_def Let_def)
  have w: "?w \<in> set (pool_view pq)" "\<forall>v \<in> set (pool_view pq). \<not> idler now ?w v"
    using m by (auto simp: pool_view_def idler_def item_view_def not_less)
  have ok: "pool_ok r" using PushItem_full_ok [OF assms(1,3,4)] by (simp add: r_def)
  have r: "r = (if idler now (k, l) ?w
      then heap_Fix (EvictionPool_Less now) EvictionPool_Swap EvictionPool_Len (replaced pq m k l) m else pq)"
    using PushItem_full_eq [of k pq now l] assms(3,4) by (simp add: r_def m_def)
  show ?thesis
  proof (cases "idler now (k, l) ?w")
    case False
    then have "r = pq" by (simp add: r)
    with False w assms(1,2) show ?thesis by auto
  next
    case True
    with r have r: "r = heap_Fix (EvictionPool_Less now) EvictionPool_Swap EvictionPool_Len (replaced pq m k l) m"
      by simp
    have mv: "mset (pool_view r) = add_mset (k, l) (mset (pool_view pq) - {#?w#})"
      using PushItem_replace_mset [OF ne, of now k l] by (simp add: r m_def)
    have "down_inv (idler now) (pool_view (replaced pq m k l)) (length (pool_view (replaced pq m k l))) m"
      unfolding pool_view_replaced using True m(1) assms(2)
      by (intro down_inv_change) (auto simp: idler_def pool_heap_def pool_view_def)
    from ep.heap_Fix_correct [where len = EvictionPool_Len, OF this]
    have h: "heap_list (idler now) (pool_view r) (length (pool pq))"
        "mset (pool_view r) = mset (pool_view (replaced pq m k l))"
      using m(1) by (simp_all add: r EvictionPool_Len_def)
    have "pool_heap now r" using h(1) mset_eq_length [OF h(2)] by (simp add: pool_heap_def)
    then show ?thesis using ok True w mv by auto
  qed
qed

lemma PushItem_pool_ok [inv_intros]:
  assumes "pool_ok pq"
  shows "pool_ok (PushItem now pq k l)"
proof (cases "k \<in> set (keyset pq)")
  case True
  then show ?thesis using assms by (simp add: PushItem_present)
next
  case False
  consider "length (pool pq) < ePoolSizeMax" | "length (pool pq) = ePoolSizeMax"
    using assms(1) by (force simp: pool_ok_def)
  then show ?thesis
    using PushItem_room_ok [OF assms False] PushItem_full_ok [OF assms False] by cases blast+
qed

lemma PushItem_subset:
  "mset (pool_view (PushItem now pq k l)) \<subseteq># add_mset (k, l) (mset (pool_view pq))"
proof (cases "k \<in> set (keyset pq)")
  case True
  then show ?thesis by (simp add: PushItem_present subseteq_mset_def)
next
  case new: False
  show ?thesis
  proof (cases "length (pool pq) < ePoolSizeMax")
    case True
    let ?pq = "pq\<lparr>keyset := k # keyset pq\<rparr>" and ?it = "\<lparr>key = k, lastaccessedat = l, index = 0\<rparr>"
    have "pool_view ?pq = pool_view pq" by (simp add: pool_view_def)
    then show ?thesis using new True ep.heap_Push_mset [of now ?pq ?it]
      by (simp add: PushItem_def Let_def item_view_def)
  next
    case False
    then have "pool pq \<noteq> []" by (auto simp: ePoolSizeMax_def)
    then show ?thesis using new False PushItem_replace_mset [of pq now k l]
      by (simp add: PushItem_full_eq)
  qed
qed

lemma PushItem_ok [inv_intros]:
  assumes "pool_ok pq" "pool_heap now pq"
  shows "pool_ok (PushItem now pq k l)" "pool_heap now (PushItem now pq k l)"
proof -
  have "pool_ok (PushItem now pq k l) \<and> pool_heap now (PushItem now pq k l)"
  proof (cases "k \<in> set (keyset pq)")
    case True
    then show ?thesis using assms by (simp add: PushItem_present)
  next
    case False
    consider "length (pool pq) < ePoolSizeMax" | "length (pool pq) = ePoolSizeMax"
      using assms(1) by (force simp: pool_ok_def)
    then show ?thesis
      using PushItem_room [OF assms False] PushItem_full [OF assms False] by cases blast+
  qed
  then show "pool_ok (PushItem now pq k l)" "pool_heap now (PushItem now pq k l)" by simp_all
qed

lemma PopItem_empty [simp]: "pool pq = [] \<Longrightarrow> PopItem now pq = (pq, None)"
  by (simp add: PopItem_def)

lemma PopItem_some:
  fixes now pq
  assumes "pool pq \<noteq> []"
  shows "\<exists>pq' item. PopItem now pq = (pq', Some item) \<and>
    mset (pool_view pq) = add_mset (item_view item) (mset (pool_view pq')) \<and>
    (pool_ok pq \<longrightarrow> pool_ok pq')"
proof -
  obtain pq1 item where d: "heap_Pop (EvictionPool_Less now) EvictionPool_Swap EvictionPool_Len EvictionPool_Pop pq = (pq1, item)"
    by force
  have h: "mset (pool_view pq) = add_mset (item_view item) (mset (pool_view pq1))"
    using ep.heap_Pop_mset [of pq now] assms d by simp
  let ?r = "pq1\<lparr>keyset := removeAll (key item) (keyset pq1)\<rparr>"
  have v: "pool_view ?r = pool_view pq1" "pool_keys ?r = pool_keys pq1" "pool ?r = pool pq1"
    by (simp_all add: pool_view_def pool_keys_def)
  have keys: "mset (pool_keys pq) = mset (key item # pool_keys pq1)"
    by (simp add: pool_keys_mset h) (simp add: item_view_def)
  note k = mset_eq_setD [OF keys] mset_eq_imp_distinct_iff [OF keys] mset_eq_length [OF keys]
  have "pool_ok ?r" if ok: "pool_ok pq"
  proof -
    have f: "indexed (pool pq1)" "keyset pq1 = keyset pq"
      using ep_fields_Pop [of pq now] d assms ok by (simp_all add: pool_ok_def)
    have km: "set (pool_keys pq) = insert (key item) (set (pool_keys pq1))" "key item \<notin> set (pool_keys pq1)"
        "distinct (pool_keys pq1)"
      using k(1,2) ok by (simp_all add: pool_ok_def)
    have "length (pool pq) = Suc (length (pool pq1))" using k(3) by (simp add: pool_keys_def)
    then have "length (pool pq1) \<le> ePoolSizeMax" using ok by (simp add: pool_ok_def)
    moreover have "set (keyset ?r) = set (pool_keys pq1)"
      using km f(2) ok by (simp add: pool_ok_def)
    ultimately show ?thesis unfolding pool_ok_def v using km(3) f(1) by simp
  qed
  moreover have "PopItem now pq = (?r, Some item)" using assms d by (simp add: PopItem_def)
  ultimately show ?thesis using h v by metis
qed

lemma PopItem_ok:
  fixes now pq
  assumes "pool_ok pq" "pool_heap now pq" "pool pq \<noteq> []"
  shows "\<exists>pq' item. PopItem now pq = (pq', Some item) \<and> pool_ok pq' \<and> pool_heap now pq' \<and>
    mset (pool_view pq) = add_mset (item_view item) (mset (pool_view pq')) \<and>
    (\<forall>v \<in> set (pool_view pq). \<not> idler now v (item_view item))"
proof -
  obtain pq1 item where d: "heap_Pop (EvictionPool_Less now) EvictionPool_Swap EvictionPool_Len EvictionPool_Pop pq = (pq1, item)"
    by force
  have "heap_list (idler now) (pool_view pq1) (length (pool pq1)) \<and> item_view item = hd (pool_view pq) \<and>
      add_mset (item_view item) (mset (pool_view pq1)) = mset (pool_view pq)"
  proof -
    have p: "heap_list (idler now) (pool_view pq) (EvictionPool_Len pq)" "pool_view pq \<noteq> []"
      using assms(2,3) by (simp_all add: pool_heap_def EvictionPool_Len_def)
    show ?thesis
      using ep.heap_Pop_correct [OF p, unfolded d fst_conv snd_conv] unfolding EvictionPool_Len_def .
  qed
  then have h: "heap_list (idler now) (pool_view pq1) (length (pool pq1))" "item_view item = hd (pool_view pq)"
      "add_mset (item_view item) (mset (pool_view pq1)) = mset (pool_view pq)"
    by blast+
  have f: "indexed (pool pq1)" "keyset pq1 = keyset pq"
    using ep_fields_Pop [of pq now] d assms(1,3) by (simp_all add: pool_ok_def)
  let ?r = "pq1\<lparr>keyset := removeAll (key item) (keyset pq1)\<rparr>"
  have v: "pool_view ?r = pool_view pq1" "pool_keys ?r = pool_keys pq1"
    by (simp_all add: pool_view_def pool_keys_def)
  have keys: "mset (pool_keys pq) = mset (key item # pool_keys pq1)"
    by (simp add: pool_keys_mset h(3) [symmetric]) (simp add: pool_keys_def item_view_def)
  note k = mset_eq_setD [OF keys] mset_eq_imp_distinct_iff [OF keys] mset_eq_length [OF keys]
  have km: "set (pool_keys pq) = insert (key item) (set (pool_keys pq1))" "key item \<notin> set (pool_keys pq1)"
      "distinct (pool_keys pq1)"
    using k(1,2) assms(1) by (simp_all add: pool_ok_def)
  have "length (pool pq) = Suc (length (pool pq1))" using k(3) by (simp add: pool_keys_def)
  then have "length (pool pq1) \<le> ePoolSizeMax" using assms(1) by (simp add: pool_ok_def)
  moreover have "set (keyset ?r) = set (pool_keys pq1)"
    using km f(2) assms(1) by (simp add: pool_ok_def)
  ultimately have ok: "pool_ok ?r" unfolding pool_ok_def v using km(3) f(1) by simp
  have top: "\<not> idler now u (item_view item)" if "u \<in> set (pool_view pq)" for u
  proof -
    have "\<exists>i. i < length (pool pq) \<and> pool_view pq ! i = u"
      using that by (simp only: in_set_conv_nth length_pool_view)
    then obtain i where "i < length (pool pq)" "pool_view pq ! i = u"
      by blast
    moreover have "item_view item = pool_view pq ! 0"
      unfolding h(2) by (rule hd_conv_nth) (simp add: assms(3))
    ultimately show ?thesis
      using ep.heap_top [OF assms(2) [unfolded pool_heap_def]] by metis
  qed
  have "PopItem now pq = (?r, Some item)" using assms(3) d by (simp add: PopItem_def)
  moreover have "pool_heap now ?r" unfolding pool_heap_def v using h(1) by simp
  moreover have "mset (pool_view pq) = add_mset (item_view item) (mset (pool_view ?r))"
    unfolding v h(3) ..
  ultimately show ?thesis using ok top by blast
qed

section \<open>Properties\<close>

text \<open>C21: \<open>PushItem\<close> keeps the pool well-formed (at most 16 items, no key twice, the key set
  and the positions in step with the array) and heap-ordered, ignores a key already there,
  adds a candidate while there is room, and in a full pool replaces an item of least idle time
  exactly when the new candidate is idler than it.\<close>

theorem PushItem_keeps_best:
  assumes "pool_ok pq" "pool_heap now pq"
  shows "(pool_ok (PushItem now pq k l) \<and> pool_heap now (PushItem now pq k l)) \<and>
    (k \<in> set (pool_keys pq) \<longrightarrow> PushItem now pq k l = pq) \<and>
    (k \<notin> set (pool_keys pq) \<longrightarrow> length (pool pq) < ePoolSizeMax \<longrightarrow>
         mset (pool_view (PushItem now pq k l)) = add_mset (k, l) (mset (pool_view pq))) \<and>
    (k \<notin> set (pool_keys pq) \<longrightarrow> length (pool pq) = ePoolSizeMax \<longrightarrow>
         (\<exists>w \<in> set (pool_view pq). (\<forall>v \<in> set (pool_view pq). \<not> idler now w v) \<and>
            mset (pool_view (PushItem now pq k l)) =
              (if idler now (k, l) w then add_mset (k, l) (mset (pool_view pq) - {#w#})
               else mset (pool_view pq))))"
proof (intro conjI)
  have k: "set (keyset pq) = set (pool_keys pq)" using assms(1) by (simp add: pool_ok_def)
  show "pool_ok (PushItem now pq k l)" "pool_heap now (PushItem now pq k l)"
    using PushItem_ok [OF assms] by blast+
  show "k \<in> set (pool_keys pq) \<longrightarrow> PushItem now pq k l = pq"
    using PushItem_present k by blast
  show "k \<notin> set (pool_keys pq) \<longrightarrow> length (pool pq) < ePoolSizeMax \<longrightarrow>
      mset (pool_view (PushItem now pq k l)) = add_mset (k, l) (mset (pool_view pq))"
    using PushItem_room [OF assms] k by blast
  show "k \<notin> set (pool_keys pq) \<longrightarrow> length (pool pq) = ePoolSizeMax \<longrightarrow>
      (\<exists>w \<in> set (pool_view pq). (\<forall>v \<in> set (pool_view pq). \<not> idler now w v) \<and>
         mset (pool_view (PushItem now pq k l)) =
           (if idler now (k, l) w then add_mset (k, l) (mset (pool_view pq) - {#w#})
            else mset (pool_view pq)))"
    using PushItem_full [OF assms] k by blast
qed

lemma PushItem_keeps_best_witness:
  "mset (pool_view (PushItem 100 newEvictionPool ''k'' 40)) = {#(''k'', 40)#}"
  using PushItem_keeps_best [where k = "''k''" and now = 100 and l = 40, OF newEvictionPool_ok]
  by (simp add: newEvictionPool_def pool_keys_def pool_view_def ePoolSizeMax_def)

text \<open>\<open>PopItem\<close> on a non-empty pool returns an item no other item is idler than, removes
  exactly that item from the heap and from the key set, and keeps the pool well-formed.\<close>

theorem PopItem_takes_idlest:
  assumes "pool_ok pq" "pool_heap now pq" "pool pq \<noteq> []"
  shows "\<exists>pq' item. PopItem now pq = (pq', Some item) \<and> pool_ok pq' \<and> pool_heap now pq' \<and>
    mset (pool_view pq) = add_mset (item_view item) (mset (pool_view pq')) \<and>
    key item \<notin> set (keyset pq') \<and>
    (\<forall>v \<in> set (pool_view pq). getIdleTime now (snd v) \<le> getIdleTime now (lastaccessedat item))"
proof -
  obtain pq' item where p: "PopItem now pq = (pq', Some item)" "pool_ok pq'" "pool_heap now pq'"
    "mset (pool_view pq) = add_mset (item_view item) (mset (pool_view pq'))"
    "\<forall>v \<in> set (pool_view pq). \<not> idler now v (item_view item)"
    using PopItem_ok [OF assms] by blast
  have "mset (pool_keys pq) = mset (key item # pool_keys pq')"
    by (simp add: pool_keys_mset p(4)) (simp add: item_view_def)
  from mset_eq_imp_distinct_iff [OF this] have "key item \<notin> set (keyset pq')"
    using assms(1) p(2) by (simp add: pool_ok_def)
  moreover have "\<forall>v \<in> set (pool_view pq). getIdleTime now (snd v) \<le> getIdleTime now (lastaccessedat item)"
    using p(5) by (simp add: idler_def item_view_def not_less)
  ultimately show ?thesis using p(1-4) by blast
qed

lemma PopItem_takes_idlest_witness:
  "snd (PopItem 100 (PushItem 100 (PushItem 100 newEvictionPool ''a'' 90) ''b'' 40)) \<noteq> None"
proof -
  let ?pq = "PushItem 100 (PushItem 100 newEvictionPool ''a'' 90) ''b'' 40"
  have "pool_ok ?pq" "pool_heap 100 ?pq" by (intro inv_intros)+
  moreover have "pool ?pq \<noteq> []" by code_simp
  ultimately show ?thesis using PopItem_takes_idlest [of ?pq 100] by auto
qed

text \<open>The idle time of a key is exact while the 20-bit clock stays in one period of
  \<open>2 ^ 20\<close> seconds, and one second short of the elapsed time once it has wrapped.\<close>

theorem getIdleTime_elapsed:
  assumes "unat t0 \<le> unat t1" "unat t1 - unat t0 < 2 ^ 20"
  shows "unat (getIdleTime t1 (getCurrentClock t0)) =
    unat t1 - unat t0 - (if unat t0 div 2 ^ 20 = unat t1 div 2 ^ 20 then 0 else 1)"
proof (cases "unat t0 div 2 ^ 20 = unat t1 div 2 ^ 20")
  case True
  then show ?thesis using getIdleTime_same_epoch [OF assms(1)] by simp
next
  case False
  have "unat t1 div 2 ^ 20 \<le> (unat t0 + 2 ^ 20) div 2 ^ 20"
    using assms by (intro div_le_mono) linarith
  then have "unat t1 div 2 ^ 20 \<le> unat t0 div 2 ^ 20 + 1" by simp
  moreover have "unat t0 div 2 ^ 20 \<le> unat t1 div 2 ^ 20" using assms(1) by (rule div_le_mono)
  ultimately have "unat t1 div 2 ^ 20 = unat t0 div 2 ^ 20 + 1" using False by linarith
  with getIdleTime_next_epoch [OF assms(2)] False show ?thesis by simp
qed

lemma getIdleTime_elapsed_witness:
  "unat (getIdleTime 0x100005 (getCurrentClock 0x0FFFFA)) = 10"
  using getIdleTime_elapsed [of "0x0FFFFA" "0x100005"] by simp

end
