(* ===== verification/Store.thy ===== *)
theory Store
  imports TypeEncoding IntSet ZipList QuickList SortedSet EvictionPool Config
begin

text \<open>
  \<open>core/store.go\<close>, \<open>core/object.go\<close>, \<open>core/expire.go\<close>, \<open>core/stats.go\<close> and the eviction
  strategies of \<open>core/eviction.go\<close>: the package variables are the fields of the record
  \<open>db\<close>, an \<open>*Obj\<close> is an address of its object heap \<open>objs\<close> (the map \<open>expires\<close> is keyed by
  the pointer), and every operation is a function on \<open>db\<close>.

  What the run time chooses is a field of \<open>env\<close>: \<open>iter_order\<close> the order of a \<open>range\<close> over a
  map, \<open>pool_get\<close> the object a \<open>sync.Pool\<close> hands out. \<open>db.tick\<close> counts these choices, so
  that two iterations may differ. \<open>iterate\<close> and \<open>pool_choice\<close> admit any function there:
  an order that is not a permutation, or an object that is not pooled, is disregarded.
  The remaining fields of \<open>env\<close> are library functions whose result the code only passes on:
  the draws of \<open>rand.Int\<close>, \<open>strings.ToUpper\<close> and \<open>ToLower\<close> on strings that are not ASCII,
  \<open>strconv.ParseFloat\<close> and \<open>FormatFloat\<close>, \<open>fmt.Sprintf("%v", v)\<close> of a value that is not a
  string, \<open>path.Match\<close>, and the formatted floats and the uptime that \<open>LRU\<close> and \<open>INFO\<close> print.
  Clock readings are fields that only the environment changes. The read-write lock is not
  modelled: the server runs one command at a time.
\<close>

section \<open>Objects and the database\<close>

datatype gvalue =
    VNil
  | VStr string
  | VZip ZipList
  | VHash "(string, string) gomap"
  | VQuick QuickList
  | VIntSet IntSet
  | VSet "(string, unit) gomap"
  | VZSet ZSet

record Obj =
  TypeEncoding :: uint8
  Value :: gvalue
  LastAccessedAt :: uint32

record db =
  store :: "(string, nat) gomap"
  expires :: "(nat, uint64) gomap"
  objs :: "nat \<Rightarrow> Obj"
  objPool :: "nat list"
  objNext :: nat
  KeyspaceStat :: "(string, int) gomap list"
  ePool :: EvictionPool
  GlobalCachedTime :: int64
  unixNow :: int64
  tick :: nat

record env =
  cfg :: config
  iter_order :: "nat \<Rightarrow> string list \<Rightarrow> string list"
  pool_get :: "nat \<Rightarrow> nat list \<Rightarrow> nat option"
  rand_draws :: "nat \<Rightarrow> int64 list"
  upper_uni :: "string \<Rightarrow> string"
  lower_uni :: "string \<Rightarrow> string"
  parse_float :: "string \<Rightarrow> float64 option"
  format_float :: "float64 \<Rightarrow> string"
  sprint :: "gvalue \<Rightarrow> string"
  path_match :: "string \<Rightarrow> string \<Rightarrow> bool"
  ratio_text :: string
  memory_text :: "int \<Rightarrow> string"
  uptime :: "nat \<Rightarrow> int64"
  ops_text :: "nat \<Rightarrow> string"

definition empty_obj :: Obj where
  "empty_obj = \<lparr>TypeEncoding = 0, Value = VNil, LastAccessedAt = 0\<rparr>"

definition init_db :: "int64 \<Rightarrow> int64 \<Rightarrow> db" where
  "init_db millis secs =
     \<lparr>store = [], expires = [], objs = (\<lambda>_. empty_obj), objPool = [], objNext = 0,
      KeyspaceStat = replicate 4 [], ePool = newEvictionPool,
      GlobalCachedTime = millis, unixNow = secs, tick = 0\<rparr>"

definition iterate :: "env \<Rightarrow> db \<Rightarrow> string list \<Rightarrow> string list" where
  "iterate e d ks = (let p = iter_order e (tick d) ks in if mset p = mset ks then p else ks)"

definition pool_choice :: "env \<Rightarrow> db \<Rightarrow> nat option" where
  "pool_choice e d =
     (case pool_get e (tick d) (objPool d) of
        None \<Rightarrow> None
      | Some a \<Rightarrow> if a \<in> set (objPool d) then Some a else None)"

definition ticked :: "db \<Rightarrow> db" where
  "ticked d = d\<lparr>tick := tick d + 1\<rparr>"

section \<open>Keyspace statistics\<close>

definition stat_value :: "db \<Rightarrow> nat \<Rightarrow> string \<Rightarrow> int" where
  "stat_value d num metric = (case map_of (KeyspaceStat d ! num) metric of None \<Rightarrow> 0 | Some v \<Rightarrow> v)"

definition UpdatDBStat :: "int \<Rightarrow> string \<Rightarrow> int \<Rightarrow> db \<Rightarrow> db" where
  "UpdatDBStat num metric val d =
     (if 0 \<le> num \<and> num < int (length (KeyspaceStat d))
      then d\<lparr>KeyspaceStat := (KeyspaceStat d)[nat num := AList.update metric val (KeyspaceStat d ! nat num)]\<rparr>
      else d)"

definition bump_keys :: "int \<Rightarrow> db \<Rightarrow> db" where
  \<comment> \<open>\<open>KeyspaceStat[0]["keys"]++\<close> and \<open>--\<close>\<close>
  "bump_keys n d =
     d\<lparr>KeyspaceStat := (KeyspaceStat d)[0 := AList.update ''keys'' (stat_value d 0 ''keys'' + n) (KeyspaceStat d ! 0)]\<rparr>"

section \<open>Expiry\<close>

definition setExpiry :: "nat \<Rightarrow> int64 \<Rightarrow> db \<Rightarrow> db" where
  "setExpiry obj expDurationMs d =
     d\<lparr>expires := AList.update obj (GlobalCachedTime d + expDurationMs) (expires d)\<rparr>"

definition hasExpired :: "db \<Rightarrow> nat \<Rightarrow> bool" where
  "hasExpired d obj =
     (case map_of (expires d) obj of None \<Rightarrow> False | Some ex \<Rightarrow> ex \<le> GlobalCachedTime d)"

definition getExpiry :: "db \<Rightarrow> nat \<Rightarrow> uint64 \<times> bool" where
  "getExpiry d obj = (case map_of (expires d) obj of None \<Rightarrow> (0, False) | Some ex \<Rightarrow> (ex, True))"

section \<open>Deletion, eviction\<close>

definition delLocked :: "string \<Rightarrow> db \<Rightarrow> db \<times> bool" where
  "delLocked k d =
     (case map_of (store d) k of
        None \<Rightarrow> (d, False)
      | Some obj \<Rightarrow>
          let d = d\<lparr>store := AList.delete k (store d)\<rparr>;
              d = d\<lparr>expires := AList.delete obj (expires d)\<rparr>;
              d = bump_keys (- 1) d;
              d = d\<lparr>objs := (objs d)(obj := (objs d obj)\<lparr>Value := VNil\<rparr>)\<rparr>;
              d = d\<lparr>objPool := obj # objPool d\<rparr>
          in (d, True))"

definition Del :: "string \<Rightarrow> db \<Rightarrow> db \<times> bool" where
  "Del k d = delLocked k d"

definition StoreLen :: "db \<Rightarrow> int" where
  "StoreLen d = int (length (store d))"

definition store_keys :: "db \<Rightarrow> string list" where
  "store_keys d = map fst (store d)"

definition evictFirst :: "env \<Rightarrow> db \<Rightarrow> db" where
  "evictFirst e d =
     (case iterate e d (store_keys d) of [] \<Rightarrow> ticked d | k # ks \<Rightarrow> fst (delLocked k (ticked d)))"

definition GetKeyIdleTime :: "db \<Rightarrow> string \<Rightarrow> uint32 \<times> bool" where
  "GetKeyIdleTime d k =
     (case map_of (store d) k of
        None \<Rightarrow> (0, False)
      | Some obj \<Rightarrow> (getIdleTime (unixNow d) (LastAccessedAt (objs d obj)), True))"

fun populate_loop :: "int \<Rightarrow> int \<Rightarrow> string list \<Rightarrow> db \<Rightarrow> db" where
  "populate_loop sampleSize sampled [] d = d"
| "populate_loop sampleSize sampled (k # ks) d =
     (case map_of (store d) k of
        None \<Rightarrow> populate_loop sampleSize sampled ks d
      | Some obj \<Rightarrow>
          let d1 = d\<lparr>ePool := PushItem (unixNow d) (ePool d) k (LastAccessedAt (objs d obj))\<rparr>
          in if sampleSize \<le> sampled + 1 then d1 else populate_loop sampleSize (sampled + 1) ks d1)"

definition populateEvictionPool :: "env \<Rightarrow> db \<Rightarrow> db" where
  "populateEvictionPool e d =
     populate_loop (LRUSampleSize (cfg e)) 0 (iterate e d (store_keys d)) (ticked d)"

definition stale :: "db \<Rightarrow> nat" where
  \<comment> \<open>the pool items whose key is no longer stored\<close>
  "stale d = size (filter_mset (\<lambda>x. map_of (store d) (fst x) = None) (mset (pool_view (ePool d))))"

lemma populate_loop_frame:
  "store (populate_loop n i ks d) = store d \<and> expires (populate_loop n i ks d) = expires d \<and>
   objs (populate_loop n i ks d) = objs d \<and> objPool (populate_loop n i ks d) = objPool d \<and>
   objNext (populate_loop n i ks d) = objNext d \<and> KeyspaceStat (populate_loop n i ks d) = KeyspaceStat d \<and>
   GlobalCachedTime (populate_loop n i ks d) = GlobalCachedTime d \<and>
   unixNow (populate_loop n i ks d) = unixNow d \<and> tick (populate_loop n i ks d) = tick d"
  by (induction n i ks d rule: populate_loop.induct) (simp_all add: Let_def split: option.splits)

lemma stale_PushItem:
  assumes "map_of (store d) k = Some obj"
  shows "stale (d\<lparr>ePool := PushItem now (ePool d) k l\<rparr>) \<le> stale d"
proof -
  let ?P = "\<lambda>x :: string \<times> uint32. map_of (store d) (fst x) = None"
  have "filter_mset ?P (mset (pool_view (PushItem now (ePool d) k l))) \<subseteq>#
      filter_mset ?P (add_mset (k, l) (mset (pool_view (ePool d))))"
    by (rule multiset_filter_mono) (rule PushItem_subset)
  then show ?thesis using assms by (simp add: stale_def size_mset_mono)
qed

lemma stale_populate_loop: "stale (populate_loop n i ks d) \<le> stale d"
proof (induction n i ks d rule: populate_loop.induct)
  case (2 n i k ks d)
  show ?case
  proof (cases "map_of (store d) k")
    case None
    then show ?thesis using 2(1) by simp
  next
    case (Some obj)
    show ?thesis
      using 2(2) [OF Some refl] stale_PushItem [OF Some, of "unixNow d" "LastAccessedAt (objs d obj)"]
      by (auto simp: Some Let_def)
  qed
qed simp

lemma stale_ticked [simp]: "stale (ticked d) = stale d"
  by (simp add: stale_def ticked_def)

lemma stale_pop:
  assumes "PopItem now (ePool d) = (pq, Some item)" "map_of (store d) (key item) = None"
  shows "stale (d\<lparr>ePool := pq\<rparr>) < stale d"
proof -
  have "pool (ePool d) \<noteq> []" using assms(1) by (auto simp: PopItem_def)
  then have "mset (pool_view (ePool d)) = add_mset (item_view item) (mset (pool_view pq))"
    using PopItem_some [of "ePool d" now] assms(1) by auto
  then show ?thesis using assms(2) by (simp add: stale_def item_view_def)
qed

function evict_lru_loop :: "env \<Rightarrow> int \<Rightarrow> int \<Rightarrow> db \<Rightarrow> db \<times> int" where
  "evict_lru_loop e evictCount evicted d =
     (if evicted < evictCount then
        let d1 = populateEvictionPool e d in
        if EvictionPool_Len (ePool d1) = 0 then (d1, evicted)
        else
          case PopItem (unixNow d1) (ePool d1) of
            (pq, None) \<Rightarrow> (d1\<lparr>ePool := pq\<rparr>, evicted)
          | (pq, Some item) \<Rightarrow>
              if map_of (store d1) (key item) \<noteq> None
              then evict_lru_loop e evictCount (evicted + 1) (fst (delLocked (key item) (d1\<lparr>ePool := pq\<rparr>)))
              else evict_lru_loop e evictCount evicted (d1\<lparr>ePool := pq\<rparr>)
      else (d, evicted))"
  by pat_completeness auto
termination
proof (relation "inv_image (less_than <*lex*> less_than) (\<lambda>(e, n, i, d). (nat (n - i), stale d))", goal_cases)
  case 1
  then show ?case by auto
next
  case 2
  then show ?case by auto
next
  case (3 e n i d d1 pq r item)
  have "stale d1 \<le> stale (ticked d)"
    unfolding 3(2) populateEvictionPool_def by (rule stale_populate_loop)
  moreover have "stale (d1\<lparr>ePool := pq\<rparr>) < stale d1"
    by (rule stale_pop [of "unixNow d1" d1 pq item]) (use 3 in simp_all)
  ultimately show ?case by simp
qed

declare evict_lru_loop.simps [simp del]

definition evictAllKeysLRU :: "env \<Rightarrow> db \<Rightarrow> db" where
  "evictAllKeysLRU e d =
     (let evictCount = EvictionCount (cfg e) (KeysLimit (cfg e));
          evictCount = (if evictCount < 1 then 1 else evictCount)
      in fst (evict_lru_loop e evictCount 0 d))"

fun evict_random_loop :: "int \<Rightarrow> string list \<Rightarrow> db \<Rightarrow> db" where
  "evict_random_loop evictCount [] d = d"
| "evict_random_loop evictCount (k # ks) d =
     (let d1 = fst (delLocked k d)
      in if evictCount - 1 = 0 then d1 else evict_random_loop (evictCount - 1) ks d1)"

definition evictAllKeysRandom :: "env \<Rightarrow> db \<Rightarrow> db" where
  "evictAllKeysRandom e d =
     evict_random_loop (EvictionCount (cfg e) (KeysLimit (cfg e))) (iterate e d (store_keys d)) (ticked d)"

definition evict :: "env \<Rightarrow> db \<Rightarrow> db" where
  "evict e d =
     (if EvictionStrategy (cfg e) = ''simple-first'' then evictFirst e d
      else if EvictionStrategy (cfg e) = ''allkeys-random'' then evictAllKeysRandom e d
      else if EvictionStrategy (cfg e) = ''allkeys-lru'' then evictAllKeysLRU e d
      else evictAllKeysLRU e d)"

section \<open>Objects in and out of the store\<close>

definition NewObj :: "env \<Rightarrow> gvalue \<Rightarrow> int64 \<Rightarrow> uint8 \<Rightarrow> uint8 \<Rightarrow> db \<Rightarrow> nat \<times> db" where
  "NewObj e v expDurationMs oType oEnc d =
     (let (obj, d1) =
            (case pool_choice e d of
               Some a \<Rightarrow> (a, (ticked d)\<lparr>objPool := remove1 a (objPool d)\<rparr>)
             | None \<Rightarrow> (objNext d, (ticked d)\<lparr>objNext := objNext d + 1\<rparr>));
          d2 = d1\<lparr>objs := (objs d1)(obj :=
                 \<lparr>TypeEncoding = or oType oEnc, Value = v, LastAccessedAt = getCurrentClock (unixNow d)\<rparr>)\<rparr>
      in (obj, if 0 < sint expDurationMs then setExpiry obj expDurationMs d2 else d2))"

definition touch :: "nat \<Rightarrow> db \<Rightarrow> db" where
  \<comment> \<open>\<open>obj.LastAccessedAt = getCurrentClock()\<close>\<close>
  "touch obj d = d\<lparr>objs := (objs d)(obj := (objs d obj)\<lparr>LastAccessedAt := getCurrentClock (unixNow d)\<rparr>)\<rparr>"

definition Put :: "env \<Rightarrow> string \<Rightarrow> nat \<Rightarrow> db \<Rightarrow> db" where
  "Put e k obj d =
     (let d = (if KeysLimit (cfg e) \<le> StoreLen d then evict e d else d);
          d = touch obj d;
          d = d\<lparr>store := AList.update k obj (store d)\<rparr>
      in bump_keys 1 d)"

definition Get :: "string \<Rightarrow> db \<Rightarrow> nat option \<times> db" where
  "Get k d =
     (case map_of (store d) k of
        None \<Rightarrow> (None, d)
      | Some v \<Rightarrow>
          if hasExpired d v
          then (None, if map_of (store d) k \<noteq> None then fst (delLocked k d) else d)
          else (Some v, touch v d))"

section \<open>Active expiry\<close>

fun expire_loop :: "string list \<Rightarrow> int \<Rightarrow> int \<Rightarrow> db \<Rightarrow> db \<times> int" where
  "expire_loop [] limit expiresCount d = (d, expiresCount)"
| "expire_loop (k # ks) limit expiresCount d =
     (let (d1, limit1, count1) =
            (case map_of (store d) k of
               None \<Rightarrow> (d, limit, expiresCount)
             | Some obj \<Rightarrow>
                 if hasExpired d obj then (fst (delLocked k d), limit - 1, expiresCount + 1)
                 else (d, limit, expiresCount))
      in if limit1 = 0 then (d1, count1) else expire_loop ks limit1 count1 d1)"

definition expireSample :: "env \<Rightarrow> db \<Rightarrow> db \<times> int" where
  \<comment> \<open>the sample and the number of keys it deleted; the code returns this number over 20\<close>
  "expireSample e d = expire_loop (iterate e d (store_keys d)) 20 0 (ticked d)"

lemma store_delLocked [simp]: "store (fst (delLocked k d)) = AList.delete k (store d)"
proof (cases "map_of (store d) k")
  case None
  then have "k \<notin> fst ` set (store d)" by (simp add: map_of_None_notin)
  with None show ?thesis by (simp add: delLocked_def delete_absent)
qed (simp add: delLocked_def Let_def bump_keys_def)

lemma delLocked_other [simp]:
  "ePool (fst (delLocked k d)) = ePool d" "GlobalCachedTime (fst (delLocked k d)) = GlobalCachedTime d"
  "unixNow (fst (delLocked k d)) = unixNow d" "tick (fst (delLocked k d)) = tick d"
  "objNext (fst (delLocked k d)) = objNext d"
  by (simp_all add: delLocked_def Let_def bump_keys_def split: option.splits)

lemma expire_loop_count:
  "int (length (store (fst (expire_loop ks limit n d)))) + snd (expire_loop ks limit n d) \<le> int (length (store d)) + n"
proof (induction ks limit n d rule: expire_loop.induct)
  case (2 k ks limit n d)
  have l: "int (length (AList.delete k (store d))) + 1 \<le> int (length (store d))" if "map_of (store d) k \<noteq> None"
  proof -
    have "k \<in> fst ` set (store d)" using that by (simp add: map_of_None_notin)
    then have "length (AList.delete k (store d)) < length (store d)"
      by (auto simp: AList.delete_eq intro!: length_filter_less)
    then show ?thesis by simp
  qed
  show ?case
  proof (cases "map_of (store d) k")
    case None
    then show ?thesis using 2 by (simp add: Let_def)
  next
    case (Some obj)
    show ?thesis
    proof (cases "hasExpired d obj")
      case True
      then show ?thesis using 2 Some l by (simp add: Let_def) (fastforce split: if_splits)
    next
      case False
      then show ?thesis using 2 Some by (simp add: Let_def)
    qed
  qed
qed simp

lemma expireSample_count:
  "int (length (store (fst (expireSample e d)))) + snd (expireSample e d) \<le> int (length (store d))"
  using expire_loop_count [of "iterate e d (store_keys d)" 20 0 "ticked d"]
  by (simp add: expireSample_def ticked_def)

function DeleteExpiredKey :: "env \<Rightarrow> db \<Rightarrow> db" where
  \<comment> \<open>\<open>frac < 0.25\<close> holds of \<open>float32(n)/20\<close> exactly when \<open>n < 5\<close>\<close>
  "DeleteExpiredKey e d =
     (let (d1, n) = expireSample e d in if n < 5 then d1 else DeleteExpiredKey e d1)"
  by pat_completeness auto
termination
proof (relation "measure (\<lambda>(e, d). length (store d))", goal_cases)
  case (2 e d p d1 n)
  then show ?case using expireSample_count [of e d] by (cases "expireSample e d") auto
qed simp

declare DeleteExpiredKey.simps [simp del]

end
