(* ===== verification/StoreInv.thy ===== *)
theory StoreInv
  imports Store
begin

text \<open>
  What the store keeps. \<open>db_inv\<close> is the invariant of \<open>store\<close>, \<open>expires\<close> and the object pool:
  no object serves two keys, a pooled object is neither stored nor expiring, and every stored
  object carries a value of the Go type that its type byte announces, so that the type
  assertions of the commands succeed. \<open>lview\<close> is the abstract database: what a client can
  observe of a key (type byte, value, expiry), expired keys being absent.

  The locale \<open>deletion_invariant\<close> states what eviction and active expiry need of a property
  to keep it; its interpretations give the invariant (\<open>dbi\<close>), the fate of an object that a
  command holds before it is stored (\<open>held\<close>) and the survival of the other keys (\<open>sub\<close>).
\<close>

section \<open>Well-formed values\<close>

fun wf_value :: "uint8 \<Rightarrow> gvalue \<Rightarrow> bool" where
  "wf_value te VNil = False"
| "wf_value te (VStr s) = (getType te = OBJ_TYPE_STRING \<and> (getEncoding te = OBJ_ENCODING_INT \<longrightarrow> is_int s))"
| "wf_value te (VZip z) = (te = or OBJ_TYPE_HASH OBJ_ENCODING_ZIPLIST \<and> zl_hash_inv z)"
| "wf_value te (VHash m) = (te = or OBJ_TYPE_HASH OBJ_ENCODING_HT \<and> wf_gomap m)"
| "wf_value te (VQuick q) = (te = or OBJ_TYPE_LIST OBJ_ENCODING_QUICKLIST \<and> ql_inv q)"
| "wf_value te (VIntSet s) = (te = or OBJ_TYPE_SET OBJ_ENCODING_INTSET \<and> intset_inv s)"
| "wf_value te (VSet m) = (te = or OBJ_TYPE_SET OBJ_ENCODING_HT \<and> wf_gomap m)"
| "wf_value te (VZSet z) = (te = or OBJ_TYPE_ZSET OBJ_ENCODING_SKIPLIST \<and> zset_ok z)"

definition wf_obj :: "Obj \<Rightarrow> bool" where
  "wf_obj ob \<longleftrightarrow> wf_value (TypeEncoding ob) (Value ob)"

lemma wf_obj_touch [simp]: "wf_obj (ob\<lparr>LastAccessedAt := c\<rparr>) = wf_obj ob"
  by (simp add: wf_obj_def)

section \<open>The invariant\<close>

definition stored :: "db \<Rightarrow> nat set" where
  "stored d = ran (map_of (store d))"

definition expiring :: "db \<Rightarrow> nat set" where
  "expiring d = dom (map_of (expires d))"

definition one_key :: "db \<Rightarrow> bool" where
  "one_key d \<longleftrightarrow> (\<forall>k k' a. map_of (store d) k = Some a \<longrightarrow> map_of (store d) k' = Some a \<longrightarrow> k = k')"

definition db_inv :: "db \<Rightarrow> bool" where
  "db_inv d \<longleftrightarrow>
     wf_gomap (store d) \<and> one_key d \<and> wf_gomap (expires d) \<and>
     (\<forall>a \<in> stored d \<union> expiring d \<union> set (objPool d). a < objNext d) \<and>
     distinct (objPool d) \<and> set (objPool d) \<inter> (stored d \<union> expiring d) = {} \<and>
     (\<forall>a \<in> stored d. wf_obj (objs d a)) \<and>
     length (KeyspaceStat d) = 4 \<and> pool_ok (ePool d)"

lemma init_db_inv [simp, inv_intros]: "db_inv (init_db t u)"
  by (simp add: db_inv_def init_db_def newEvictionPool_ok stored_def expiring_def one_key_def)

lemma map_of_stored: "map_of (store d) k = Some a \<Longrightarrow> a \<in> stored d"
  by (simp add: stored_def ranI)

lemma storedE:
  assumes "a \<in> stored d"
  obtains k where "map_of (store d) k = Some a"
  using assms by (auto simp: stored_def ran_def)

lemma db_invD:
  assumes "db_inv d"
  shows "wf_gomap (store d)" "wf_gomap (expires d)" "one_key d" "distinct (objPool d)"
    "length (KeyspaceStat d) = 4" "pool_ok (ePool d)"
    "a \<in> stored d \<Longrightarrow> a < objNext d" "a \<in> expiring d \<Longrightarrow> a < objNext d"
    "a \<in> set (objPool d) \<Longrightarrow> a < objNext d"
    "a \<in> stored d \<Longrightarrow> a \<notin> set (objPool d)" "a \<in> expiring d \<Longrightarrow> a \<notin> set (objPool d)"
    "a \<in> stored d \<Longrightarrow> wf_obj (objs d a)"
  using assms unfolding db_inv_def by auto

lemma db_inv_wf_obj: "db_inv d \<Longrightarrow> map_of (store d) k = Some a \<Longrightarrow> wf_obj (objs d a)"
  by (rule db_invD(12)) (simp_all add: map_of_stored)

lemma db_inv_inj:
  "db_inv d \<Longrightarrow> map_of (store d) k = Some a \<Longrightarrow> map_of (store d) k' = Some a \<Longrightarrow> k = k'"
  using db_invD(3) [of d] unfolding one_key_def by blast

lemma map_of_expires_None:
  assumes "db_inv d" "a \<in> set (objPool d) \<or> objNext d \<le> a"
  shows "map_of (expires d) a = None"
proof -
  have "a \<notin> expiring d" using assms db_invD(8,11) [OF assms(1), of a] by auto
  then show ?thesis by (simp add: expiring_def domIff)
qed

lemma length_bump_keys [simp]: "length (KeyspaceStat (bump_keys n d)) = length (KeyspaceStat d)"
  by (simp add: bump_keys_def)

lemma bump_keys_other [simp]:
  "store (bump_keys n d) = store d" "expires (bump_keys n d) = expires d" "objs (bump_keys n d) = objs d"
  "objPool (bump_keys n d) = objPool d" "objNext (bump_keys n d) = objNext d" "ePool (bump_keys n d) = ePool d"
  "GlobalCachedTime (bump_keys n d) = GlobalCachedTime d" "unixNow (bump_keys n d) = unixNow d"
  "tick (bump_keys n d) = tick d" "stored (bump_keys n d) = stored d" "expiring (bump_keys n d) = expiring d"
  by (simp_all add: bump_keys_def stored_def expiring_def)

lemma delLocked_Some:
  "map_of (store d) k = Some a \<Longrightarrow>
   expires (fst (delLocked k d)) = AList.delete a (expires d) \<and>
   objs (fst (delLocked k d)) = (objs d)(a := (objs d a)\<lparr>Value := VNil\<rparr>) \<and>
   objPool (fst (delLocked k d)) = a # objPool d \<and> length (KeyspaceStat (fst (delLocked k d))) = length (KeyspaceStat d)"
  by (simp add: delLocked_def Let_def bump_keys_def)

lemma delLocked_None: "map_of (store d) k = None \<Longrightarrow> fst (delLocked k d) = d"
  by (simp add: delLocked_def)

lemma snd_delLocked [simp]: "snd (delLocked k d) \<longleftrightarrow> map_of (store d) k \<noteq> None"
  by (simp add: delLocked_def Let_def split: option.splits)

lemma expiring_delLocked: "map_of (store d) k = Some a \<Longrightarrow> expiring (fst (delLocked k d)) = expiring d - {a}"
  by (simp add: expiring_def delLocked_Some)

lemma stored_delLocked:
  assumes "db_inv d" "map_of (store d) k = Some a"
  shows "stored (fst (delLocked k d)) = stored d - {a}"
proof (rule set_eqI, rule iffI)
  fix b assume "b \<in> stored (fst (delLocked k d))"
  then obtain k' where k': "((map_of (store d))(k := None)) k' = Some b" by (elim storedE) simp
  then have "k' \<noteq> k" "map_of (store d) k' = Some b" by (auto split: if_splits)
  then show "b \<in> stored d - {a}" using db_inv_inj [OF assms(1,2), of k'] map_of_stored by auto
next
  fix b assume "b \<in> stored d - {a}"
  then obtain k' where k': "map_of (store d) k' = Some b" "b \<noteq> a" by (auto elim: storedE)
  then have "map_of (store (fst (delLocked k d))) k' = Some b" using assms(2) by auto
  then show "b \<in> stored (fst (delLocked k d))" by (rule map_of_stored)
qed

lemma delLocked_inv [inv_intros]:
  assumes "db_inv d"
  shows "db_inv (fst (delLocked k d))"
proof (cases "map_of (store d) k")
  case None
  then show ?thesis using assms by (simp add: delLocked_None)
next
  case (Some a)
  let ?d = "fst (delLocked k d)"
  note inv = db_invD [OF assms]
  have a: "a \<in> stored d" by (rule map_of_stored [OF Some])
  have "one_key ?d" using inv(3) unfolding one_key_def by auto
  then show ?thesis
    using inv a delLocked_Some [OF Some]
    unfolding db_inv_def expiring_delLocked [OF Some] stored_delLocked [OF assms Some]
    by (auto simp: wf_gomap_delete)
qed

section \<open>Properties that deletions keep\<close>

locale deletion_invariant =
  fixes P :: "db \<Rightarrow> bool"
  assumes P_del: "P d \<Longrightarrow> P (fst (delLocked k d))"
    and P_push: "P d \<Longrightarrow> P (d\<lparr>ePool := PushItem now (ePool d) k l\<rparr>)"
    and P_pop: "P d \<Longrightarrow> P (d\<lparr>ePool := fst (PopItem now (ePool d))\<rparr>)"
    and P_tick: "P d \<Longrightarrow> P (ticked d)"
begin

lemma P_populate_loop: "P d \<Longrightarrow> P (populate_loop n i ks d)"
  by (induction n i ks d rule: populate_loop.induct) (auto simp: Let_def P_push split: option.splits)

lemma P_populate: "P d \<Longrightarrow> P (populateEvictionPool e d)"
  by (simp add: populateEvictionPool_def P_populate_loop P_tick)

lemma P_evict_lru_loop: "P d \<Longrightarrow> P (fst (evict_lru_loop e n i d))"
proof (induction e n i d rule: evict_lru_loop.induct)
  case (1 e n i d)
  let ?d1 = "populateEvictionPool e d"
  obtain pq r where p: "PopItem (unixNow ?d1) (ePool ?d1) = (pq, r)" by force
  have P1: "P ?d1" by (rule P_populate [OF 1(3)])
  have P2: "P (?d1\<lparr>ePool := pq\<rparr>)" using P_pop [OF P1, of "unixNow ?d1"] p by simp
  show ?case
  proof (cases "i < n \<and> EvictionPool_Len (ePool ?d1) \<noteq> 0")
    case False
    then show ?thesis using P1 1(3) by (subst evict_lru_loop.simps) auto
  next
    case True
    then show ?thesis
      using p P2 P_del [OF P2] 1(1) [of ?d1 pq r] 1(2) [of ?d1 pq r]
      by (subst evict_lru_loop.simps) (auto simp: Let_def split: option.splits)
  qed
qed

lemma P_evict_random_loop: "P d \<Longrightarrow> P (evict_random_loop n ks d)"
  by (induction n ks d rule: evict_random_loop.induct) (auto simp: Let_def P_del)

lemma P_evict: "P d \<Longrightarrow> P (evict e d)"
  by (auto simp: evict_def evictFirst_def evictAllKeysLRU_def evictAllKeysRandom_def Let_def
      P_del P_tick P_evict_lru_loop P_evict_random_loop split: list.splits)

lemma P_expire_loop: "P d \<Longrightarrow> P (fst (expire_loop ks limit n d))"
  by (induction ks limit n d rule: expire_loop.induct) (auto simp: Let_def P_del split: option.splits if_splits)

lemma P_expireSample: "P d \<Longrightarrow> P (fst (expireSample e d))"
  by (simp add: expireSample_def P_expire_loop P_tick)

lemma P_DeleteExpiredKey: "P d \<Longrightarrow> P (DeleteExpiredKey e d)"
proof (induction e d rule: DeleteExpiredKey.induct)
  case (1 e d)
  obtain d1 n where s: "expireSample e d = (d1, n)" by force
  have "P d1" using P_expireSample [OF 1(2), of e] s by simp
  then show ?case using 1(1) [OF s [symmetric] refl] s
    by (subst DeleteExpiredKey.simps) auto
qed

end

interpretation dbi: deletion_invariant db_inv
proof
  show "db_inv (d\<lparr>ePool := fst (PopItem now (ePool d))\<rparr>)" if "db_inv d" for d now
  proof -
    have "pool_ok (fst (PopItem now (ePool d)))"
      using that PopItem_some [of "ePool d" now] by (cases "pool (ePool d) = []") (auto simp: db_inv_def)
    then show ?thesis using that by (simp add: db_inv_def stored_def expiring_def one_key_def)
  qed
qed (erule delLocked_inv, simp_all add: db_inv_def ticked_def PushItem_pool_ok stored_def expiring_def one_key_def)

end
