(* ===== verification/StoreSpec.thy ===== *)
theory StoreSpec
  imports StoreInv
begin

text \<open>
  The abstract database \<open>lview\<close> (what a client can observe of each key) and the refinement of
  the store's operations: reads do not change it, a deletion removes one key, a new object is
  invisible until it is stored, and \<open>Put\<close> stores its object and loses other keys to eviction
  only. The key limit, the effect of the eviction strategies and of active expiry follow.
\<close>

section \<open>The abstract database\<close>

type_synonym lentry = "uint8 \<times> gvalue \<times> uint64 option"

definition obj_entry :: "db \<Rightarrow> nat \<Rightarrow> lentry" where
  "obj_entry d a = (TypeEncoding (objs d a), Value (objs d a), map_of (expires d) a)"

definition lview :: "db \<Rightarrow> string \<Rightarrow> lentry option" where
  "lview d k =
     (case map_of (store d) k of
        None \<Rightarrow> None
      | Some a \<Rightarrow> if hasExpired d a then None else Some (obj_entry d a))"

definition live_entry :: "int64 \<Rightarrow> lentry \<Rightarrow> lentry option" where
  \<comment> \<open>an entry whose expiry has passed is not visible\<close>
  "live_entry now en = (case en of (te, v, Some ex) \<Rightarrow> if ex \<le> now then None else Some en | _ \<Rightarrow> Some en)"

lemma lview_live: "lview d k = (case map_of (store d) k of None \<Rightarrow> None | Some a \<Rightarrow> live_entry (GlobalCachedTime d) (obj_entry d a))"
  by (simp add: lview_def live_entry_def obj_entry_def hasExpired_def split: option.splits)

lemma lview_Some_iff:
  "lview d k = Some en \<longleftrightarrow> (\<exists>a. map_of (store d) k = Some a \<and> \<not> hasExpired d a \<and> en = obj_entry d a)"
  by (auto simp: lview_def split: option.splits)

lemma lview_cong:
  assumes "store d' = store d" "expires d' = expires d" "GlobalCachedTime d' = GlobalCachedTime d"
    "\<And>a. a \<in> stored d \<Longrightarrow> TypeEncoding (objs d' a) = TypeEncoding (objs d a) \<and> Value (objs d' a) = Value (objs d a)"
  shows "lview d' = lview d"
proof
  fix k
  show "lview d' k = lview d k"
    using assms(4) map_of_stored [of d k]
    by (auto simp: lview_def hasExpired_def obj_entry_def assms(1-3) split: option.splits)
qed

section \<open>What deletions keep\<close>

definition same_clock :: "db \<Rightarrow> db \<Rightarrow> bool" where
  "same_clock d0 d \<longleftrightarrow> GlobalCachedTime d = GlobalCachedTime d0 \<and> unixNow d = unixNow d0"

definition held :: "nat \<Rightarrow> db \<Rightarrow> bool" where
  \<comment> \<open>allocated, and in the hands of the running command only\<close>
  "held a d \<longleftrightarrow> a < objNext d \<and> a \<notin> stored d \<and> a \<notin> set (objPool d)"

definition shrinks :: "db \<Rightarrow> db \<Rightarrow> bool" where
  \<comment> \<open>every key is as in \<open>d0\<close> or gone, every held object is as in \<open>d0\<close>\<close>
  "shrinks d0 d \<longleftrightarrow> db_inv d \<and> same_clock d0 d \<and> lview d \<subseteq>\<^sub>m lview d0 \<and>
     map_of (store d) \<subseteq>\<^sub>m map_of (store d0) \<and> length (store d) \<le> length (store d0) \<and>
     (\<forall>a. held a d0 \<longrightarrow> held a d \<and> objs d a = objs d0 a \<and> map_of (expires d) a = map_of (expires d0) a)"

lemma shrinks_refl: "db_inv d \<Longrightarrow> shrinks d d"
  by (simp add: shrinks_def same_clock_def)

lemma lview_delLocked:
  assumes "db_inv d"
  shows "lview (fst (delLocked k d)) = (lview d)(k := None)"
proof (cases "map_of (store d) k")
  case None
  then show ?thesis by (auto simp: delLocked_None lview_def)
next
  case (Some a)
  show ?thesis
  proof
    fix k'
    have "b \<noteq> a" if "k' \<noteq> k" "map_of (store d) k' = Some b" for b
      using db_inv_inj [OF assms Some, of k'] that by auto
    then show "lview (fst (delLocked k d)) k' = ((lview d)(k := None)) k'"
      using delLocked_Some [OF Some]
      by (auto simp: lview_def hasExpired_def obj_entry_def split: option.splits)
  qed
qed

lemma held_delLocked:
  assumes "db_inv d" "held a d"
  shows "held a (fst (delLocked k d)) \<and> objs (fst (delLocked k d)) a = objs d a \<and>
    map_of (expires (fst (delLocked k d))) a = map_of (expires d) a"
proof (cases "map_of (store d) k")
  case None
  then show ?thesis using assms by (simp add: delLocked_None)
next
  case (Some b)
  have "b \<in> stored d" by (rule map_of_stored [OF Some])
  then have "a \<noteq> b" using assms(2) by (auto simp: held_def)
  then show ?thesis
    using assms(2) delLocked_Some [OF Some] stored_delLocked [OF assms(1) Some] by (auto simp: held_def)
qed

lemma shrinks_delLocked:
  assumes "shrinks d0 d"
  shows "shrinks d0 (fst (delLocked k d))"
proof -
  have inv: "db_inv d" using assms by (simp add: shrinks_def)
  have "length (AList.delete k (store d)) \<le> length (store d)" by (rule length_delete_le)
  then show ?thesis
    using assms held_delLocked [OF inv, of _ k] delLocked_inv [OF inv]
    by (auto simp: shrinks_def same_clock_def lview_delLocked [OF inv] map_le_def)
qed

lemma shrinks_frame:
  assumes "shrinks d0 d" "db_inv d'" "store d' = store d" "expires d' = expires d" "objs d' = objs d"
    "objPool d' = objPool d" "objNext d' = objNext d" "same_clock d d'"
  shows "shrinks d0 d'"
proof -
  have "lview d' = lview d" using assms by (intro lview_cong) (simp_all add: same_clock_def)
  moreover have "held a d' \<longleftrightarrow> held a d" for a using assms by (simp add: held_def stored_def)
  ultimately show ?thesis using assms by (simp add: shrinks_def same_clock_def)
qed

interpretation sh: deletion_invariant "shrinks d0" for d0
proof
  fix d k now l
  assume s: "shrinks d0 d"
  then have inv: "db_inv d" by (simp add: shrinks_def)
  show "shrinks d0 (fst (delLocked k d))" using s by (rule shrinks_delLocked)
  show "shrinks d0 (d\<lparr>ePool := PushItem now (ePool d) k l\<rparr>)"
    using s dbi.P_push [OF inv] by (rule shrinks_frame) (simp_all add: same_clock_def)
  show "shrinks d0 (d\<lparr>ePool := fst (PopItem now (ePool d))\<rparr>)"
    using s dbi.P_pop [OF inv] by (rule shrinks_frame) (simp_all add: same_clock_def)
  show "shrinks d0 (ticked d)"
    using s dbi.P_tick [OF inv] by (rule shrinks_frame) (simp_all add: same_clock_def ticked_def)
qed

section \<open>Get, Del\<close>

lemma touch_other [simp]:
  "store (touch a d) = store d" "expires (touch a d) = expires d" "objPool (touch a d) = objPool d"
  "objNext (touch a d) = objNext d" "ePool (touch a d) = ePool d" "KeyspaceStat (touch a d) = KeyspaceStat d"
  "GlobalCachedTime (touch a d) = GlobalCachedTime d" "unixNow (touch a d) = unixNow d" "tick (touch a d) = tick d"
  "stored (touch a d) = stored d" "expiring (touch a d) = expiring d"
  "TypeEncoding (objs (touch a d) b) = TypeEncoding (objs d b)" "Value (objs (touch a d) b) = Value (objs d b)"
  "wf_obj (objs (touch a d) b) = wf_obj (objs d b)" "hasExpired (touch a d) b = hasExpired d b"
  "obj_entry (touch a d) b = obj_entry d b" "held b (touch a d) = held b d"
  by (auto simp: touch_def stored_def expiring_def wf_obj_def hasExpired_def obj_entry_def held_def split: option.splits)

lemma touch_inv [inv_intros]: "db_inv d \<Longrightarrow> db_inv (touch a d)"
  unfolding db_inv_def one_key_def touch_other .

lemma lview_touch [simp]: "lview (touch a d) = lview d"
  by (rule lview_cong) simp_all

lemma Get_fst: "fst (Get k d) = (case map_of (store d) k of None \<Rightarrow> None | Some a \<Rightarrow> if hasExpired d a then None else Some a)"
  by (simp add: Get_def split: option.splits)

lemma Get_None_iff: "fst (Get k d) = None \<longleftrightarrow> lview d k = None"
  by (simp add: Get_fst lview_def split: option.splits)

lemma Get_SomeD:
  assumes "fst (Get k d) = Some a"
  shows "map_of (store d) k = Some a \<and> \<not> hasExpired d a \<and> snd (Get k d) = touch a d \<and> lview d k = Some (obj_entry d a)"
  using assms by (auto simp: Get_def lview_def split: option.splits if_splits)

lemma Get_inv [inv_intros]: "db_inv d \<Longrightarrow> db_inv (snd (Get k d))"
  by (auto simp: Get_def touch_inv delLocked_inv split: option.splits)

lemma lview_Get [simp]: "db_inv d \<Longrightarrow> lview (snd (Get k d)) = lview d"
  by (auto simp: Get_def lview_delLocked lview_def split: option.splits)

lemma held_Get: "db_inv d \<Longrightarrow> held a d \<Longrightarrow>
   held a (snd (Get k d)) \<and> TypeEncoding (objs (snd (Get k d)) a) = TypeEncoding (objs d a) \<and>
   Value (objs (snd (Get k d)) a) = Value (objs d a)"
  using held_delLocked [of d a k] by (auto simp: Get_def split: option.splits)

lemma Get_clock [simp]: "GlobalCachedTime (snd (Get k d)) = GlobalCachedTime d" "unixNow (snd (Get k d)) = unixNow d"
  by (auto simp: Get_def split: option.splits)

lemma Del_inv [inv_intros]: "db_inv d \<Longrightarrow> db_inv (fst (Del k d))"
  by (simp add: Del_def delLocked_inv)

lemma lview_Del: "db_inv d \<Longrightarrow> lview (fst (Del k d)) = (lview d)(k := None)"
  by (simp add: Del_def lview_delLocked)

section \<open>New objects\<close>

lemma NewObj_spec:
  fixes e v ms ty enc
  assumes "db_inv d"
  defines "r \<equiv> NewObj e v ms ty enc d"
  shows "db_inv (snd r) \<and> held (fst r) (snd r) \<and> fst r \<notin> stored d \<and> lview (snd r) = lview d \<and> store (snd r) = store d \<and>
    same_clock d (snd r) \<and> (\<forall>b. held b d \<longrightarrow> b \<noteq> fst r \<and> held b (snd r) \<and> objs (snd r) b = objs d b \<and> map_of (expires (snd r)) b = map_of (expires d) b) \<and>
    objs (snd r) (fst r) = \<lparr>TypeEncoding = or ty enc, Value = v, LastAccessedAt = getCurrentClock (unixNow d)\<rparr> \<and>
    map_of (expires (snd r)) (fst r) = (if 0 < sint ms then Some (GlobalCachedTime d + ms) else None)"
proof -
  note inv = db_invD [OF assms(1)]
  have free: "a \<notin> stored d \<and> a \<notin> expiring d" if "a \<in> set (objPool d) \<or> a = objNext d" for a
    using that inv(7,8,10,11) [of a] by auto
  obtain a d1 where a: "(a, d1) = (case pool_choice e d of
               Some a \<Rightarrow> (a, (ticked d)\<lparr>objPool := remove1 a (objPool d)\<rparr>)
             | None \<Rightarrow> (objNext d, (ticked d)\<lparr>objNext := objNext d + 1\<rparr>))" by (metis surj_pair)
  have mem: "a \<in> set (objPool d) \<or> a = objNext d"
    using a by (auto simp: pool_choice_def split: option.splits if_splits)
  have d1: "store d1 = store d \<and> expires d1 = expires d \<and> objs d1 = objs d \<and> KeyspaceStat d1 = KeyspaceStat d \<and>
    ePool d1 = ePool d \<and> GlobalCachedTime d1 = GlobalCachedTime d \<and> unixNow d1 = unixNow d \<and>
    objNext d \<le> objNext d1 \<and> a < objNext d1 \<and> a \<notin> set (objPool d1) \<and> set (objPool d1) \<subseteq> set (objPool d) \<and> distinct (objPool d1)"
    using a inv(4) inv(9) [of a] inv(9) [of "objNext d"] set_remove1_subset [of a "objPool d"]
    by (auto simp: ticked_def pool_choice_def split: option.splits if_splits)
  define d2 where "d2 = d1\<lparr>objs := (objs d1)(a :=
                 \<lparr>TypeEncoding = or ty enc, Value = v, LastAccessedAt = getCurrentClock (unixNow d)\<rparr>)\<rparr>"
  have r: "r = (a, if 0 < sint ms then setExpiry a ms d2 else d2)"
    unfolding r_def NewObj_def Let_def a [symmetric] by (simp add: d2_def)
  have fields: "store (snd r) = store d \<and> objs (snd r) = (objs d)(a :=
      \<lparr>TypeEncoding = or ty enc, Value = v, LastAccessedAt = getCurrentClock (unixNow d)\<rparr>) \<and>
    expires (snd r) = (if 0 < sint ms then AList.update a (GlobalCachedTime d + ms) (expires d) else expires d) \<and>
    objPool (snd r) = objPool d1 \<and> objNext (snd r) = objNext d1 \<and> KeyspaceStat (snd r) = KeyspaceStat d \<and>
    ePool (snd r) = ePool d \<and> GlobalCachedTime (snd r) = GlobalCachedTime d \<and> unixNow (snd r) = unixNow d"
    using d1 by (simp add: r d2_def setExpiry_def)
  have ne: "map_of (expires d) a = None" using free [OF mem] by (auto simp: expiring_def)
  have st: "stored (snd r) = stored d" and ex: "expiring (snd r) \<subseteq> insert a (expiring d)"
    using fields by (auto simp: stored_def expiring_def split: if_splits)
  have "lview (snd r) = lview d"
  proof
    fix k
    have "b \<noteq> a" if "map_of (store d) k = Some b" for b using free [OF mem] map_of_stored [OF that] by auto
    then show "lview (snd r) k = lview d k" using fields
      by (auto simp: lview_def hasExpired_def obj_entry_def split: option.splits)
  qed
  moreover have "wf_obj (objs (snd r) b)" if "b \<in> stored d" for b
    using that free [OF mem] inv(12) fields by auto
  moreover have "wf_gomap (expires (snd r))" using fields inv(2) by (simp add: wf_gomap_update)
  moreover have "b < objNext d1 \<and> b \<notin> set (objPool d1)" if "b \<in> stored d \<or> b \<in> expiring (snd r)" for b
  proof -
    have "b = a \<or> b \<in> stored d \<or> b \<in> expiring d" using that ex by auto
    then show ?thesis using d1 inv(7,8,10,11) [of b] by auto
  qed
  moreover have "b < objNext d1" if "b \<in> set (objPool d1)" for b
    using d1 inv(9) [of b] that by auto
  moreover have "one_key (snd r)" using inv(3) fields by (simp add: one_key_def)
  ultimately have dbi: "db_inv (snd r)"
    unfolding db_inv_def st using inv(1,5,6) fields d1 by auto
  have "held a (snd r)" using fields d1 free [OF mem] by (simp add: held_def st)
  moreover have "b \<noteq> a \<and> held b (snd r)" if "held b d" for b
    using that mem d1 fields by (auto simp: held_def st)
  ultimately show ?thesis
    using dbi \<open>lview (snd r) = lview d\<close> fields ne free [OF mem] by (auto simp: r same_clock_def)
qed

section \<open>Values replaced in place\<close>

definition set_value :: "nat \<Rightarrow> uint8 \<Rightarrow> gvalue \<Rightarrow> db \<Rightarrow> db" where
  \<comment> \<open>\<open>obj.TypeEncoding = te; obj.Value = v\<close>, and what the mutation of a value behind its pointer
    amounts to, since no two objects share one\<close>
  "set_value a te v d = d\<lparr>objs := (objs d)(a := (objs d a)\<lparr>TypeEncoding := te, Value := v\<rparr>)\<rparr>"

lemma set_value_other [simp]:
  "store (set_value a te v d) = store d" "expires (set_value a te v d) = expires d"
  "objPool (set_value a te v d) = objPool d" "objNext (set_value a te v d) = objNext d"
  "ePool (set_value a te v d) = ePool d" "KeyspaceStat (set_value a te v d) = KeyspaceStat d"
  "GlobalCachedTime (set_value a te v d) = GlobalCachedTime d" "unixNow (set_value a te v d) = unixNow d"
  "tick (set_value a te v d) = tick d" "stored (set_value a te v d) = stored d"
  "expiring (set_value a te v d) = expiring d" "held b (set_value a te v d) = held b d"
  "hasExpired (set_value a te v d) b = hasExpired d b"
  by (auto simp: set_value_def stored_def expiring_def held_def hasExpired_def split: option.splits)

lemma set_value_objs [simp]:
  "TypeEncoding (objs (set_value a te v d) b) = (if b = a then te else TypeEncoding (objs d b))"
  "Value (objs (set_value a te v d) b) = (if b = a then v else Value (objs d b))"
  by (simp_all add: set_value_def)

lemma set_value_inv [inv_intros]:
  assumes "db_inv d" "wf_value te v"
  shows "db_inv (set_value a te v d)"
proof -
  have "wf_obj (objs (set_value a te v d) b)" if "b \<in> stored d" for b
    using db_invD(12) [OF assms(1) that] assms(2) by (simp add: wf_obj_def)
  then show ?thesis using assms(1) unfolding db_inv_def one_key_def set_value_other by blast
qed

lemma lview_set_value:
  assumes "db_inv d" "map_of (store d) k = Some a"
  shows "lview (set_value a te v d) k' = (if k' = k then (if hasExpired d a then None else Some (te, v, map_of (expires d) a)) else lview d k')"
proof -
  have "b \<noteq> a" if "map_of (store d) k' = Some b" "k' \<noteq> k" for b
    using db_inv_inj [OF assms, of k'] that by auto
  then show ?thesis using assms(2) by (auto simp: lview_def obj_entry_def split: option.splits)
qed

lemma lview_set_value_held: "held a d \<Longrightarrow> lview (set_value a te v d) = lview d"
  by (rule lview_cong) (auto simp: held_def)

section \<open>Put\<close>

definition make_room :: "env \<Rightarrow> db \<Rightarrow> db" where
  "make_room e d = (if KeysLimit (cfg e) \<le> StoreLen d then evict e d else d)"

lemma make_room_shrinks: "db_inv d \<Longrightarrow> shrinks d (make_room e d)"
  by (simp add: make_room_def shrinks_refl sh.P_evict)

lemma Put_make_room: "Put e k a d = bump_keys 1 ((touch a (make_room e d))\<lparr>store := AList.update k a (store (make_room e d))\<rparr>)"
  by (simp add: Put_def make_room_def Let_def)

lemma Put_inv [inv_intros]:
  assumes "db_inv d" "held a d" "wf_obj (objs d a)"
  shows "db_inv (Put e k a d)"
proof -
  let ?m = "make_room e d"
  have s: "shrinks d ?m" by (rule make_room_shrinks [OF assms(1)])
  then have m: "db_inv ?m" "held a ?m" "objs ?m a = objs d a" using assms(2) by (simp_all add: shrinks_def)
  note inv = db_invD [OF m(1)]
  have p: "store (Put e k a d) = AList.update k a (store ?m) \<and> expires (Put e k a d) = expires ?m \<and>
     objs (Put e k a d) = objs (touch a ?m) \<and> objPool (Put e k a d) = objPool ?m \<and> objNext (Put e k a d) = objNext ?m \<and>
     ePool (Put e k a d) = ePool ?m \<and> length (KeyspaceStat (Put e k a d)) = length (KeyspaceStat ?m)"
    by (simp add: Put_make_room)
  have st: "stored (Put e k a d) \<subseteq> insert a (stored ?m)" and ex: "expiring (Put e k a d) = expiring ?m"
    using p by (auto simp: stored_def expiring_def ran_def)
  have "one_key (Put e k a d)"
    using inv(3) m(2) p map_of_stored unfolding one_key_def held_def by (auto split: if_splits)
  moreover have "wf_gomap (store (Put e k a d))" using p inv(1) by (simp add: wf_gomap_update)
  moreover have "wf_obj (objs (Put e k a d) b) \<and> b < objNext ?m \<and> b \<notin> set (objPool ?m)"
    if "b \<in> stored (Put e k a d)" for b
    using subsetD [OF st that] inv(7,10,12) m(2,3) assms(3) p by (auto simp: held_def)
  ultimately show ?thesis
    using inv(2,4,5,6,8,9,11) p unfolding db_inv_def ex by auto
qed

lemma Put_other [simp]:
  "GlobalCachedTime (Put e k a d) = GlobalCachedTime (make_room e d)"
  "unixNow (Put e k a d) = unixNow (make_room e d)"
  by (simp_all add: Put_make_room)

lemma lview_Put:
  assumes "db_inv d" "held a d"
  shows "lview (Put e k a d) = (lview (make_room e d)) (k := live_entry (GlobalCachedTime d) (obj_entry d a))"
proof
  fix k'
  let ?m = "make_room e d"
  have s: "shrinks d ?m" by (rule make_room_shrinks [OF assms(1)])
  then have m: "held a ?m" "objs ?m a = objs d a" "map_of (expires ?m) a = map_of (expires d) a"
    "GlobalCachedTime ?m = GlobalCachedTime d" using assms(2) by (simp_all add: shrinks_def same_clock_def)
  then have oe: "obj_entry ?m a = obj_entry d a" by (simp add: obj_entry_def)
  have v: "obj_entry (Put e k a d) b = obj_entry ?m b" for b
    unfolding Put_make_room by (simp add: obj_entry_def)
  have st: "map_of (store (Put e k a d)) k' = (if k' = k then Some a else map_of (store ?m) k')"
    by (simp add: Put_make_room)
  show "lview (Put e k a d) k' = ((lview ?m)(k := live_entry (GlobalCachedTime d) (obj_entry d a))) k'"
    unfolding lview_live v st Put_other m(4) using oe by simp
qed

section \<open>The properties\<close>

definition default_env :: env where
  \<comment> \<open>the source's configuration, maps iterated in the order of the list, a pool that reuses
    the object returned last\<close>
  "default_env = \<lparr>cfg = default_config, iter_order = (\<lambda>n ks. ks), pool_get = (\<lambda>n ps. case ps of [] \<Rightarrow> None | a # as \<Rightarrow> Some a),
     rand_draws = (\<lambda>_. []), upper_uni = (\<lambda>s. s), lower_uni = (\<lambda>s. s), parse_float = (\<lambda>_. None),
     format_float = (\<lambda>_. []), sprint = (\<lambda>_. []), path_match = (\<lambda>p k. p = ''*'' \<or> p = k),
     ratio_text = ''0.40'', memory_text = (\<lambda>_. ''0.00''), uptime = (\<lambda>_. 0), ops_text = (\<lambda>_. ''0.00'')\<rparr>"

text \<open>C24: \<open>Get\<close> refines a lookup in the abstract database: it returns an object exactly for a
  key that is visible, the object carries the visible entry, and neither the lazy deletion
  of an expired key nor the access time it writes is visible.\<close>

theorem Get_refines_lookup:
  assumes "db_inv d"
  shows "map_option (obj_entry (snd (Get k d))) (fst (Get k d)) = lview d k \<and>
    lview (snd (Get k d)) = lview d \<and> db_inv (snd (Get k d))"
proof (cases "fst (Get k d)")
  case None
  then show ?thesis using assms by (simp add: Get_None_iff Get_inv)
next
  case (Some a)
  then show ?thesis using Get_SomeD [OF Some] Get_inv [OF assms, of k] lview_Get [OF assms, of k] by simp
qed

lemma Get_refines_lookup_witness: "lview (snd (Get ''a'' (init_db 0 0))) = lview (init_db 0 0)"
  using Get_refines_lookup [OF init_db_inv, of "''a''" 0 0] by simp

lemma NewObj_Put_view:
  fixes e v ms ty enc k
  assumes "db_inv d" "wf_value (or ty enc) v"
  defines "d1 \<equiv> snd (NewObj e v ms ty enc d)"
  defines "d2 \<equiv> Put e k (fst (NewObj e v ms ty enc d)) d1"
  defines "en \<equiv> (or ty enc, v, if 0 < sint ms then Some (GlobalCachedTime d + ms) else None)"
  shows "db_inv d2 \<and> lview d2 k = live_entry (GlobalCachedTime d) en \<and>
    (\<forall>k'. k' \<noteq> k \<longrightarrow> lview d2 k' = lview d k' \<or> lview d2 k' = None) \<and>
    (StoreLen d < KeysLimit (cfg e) \<longrightarrow> lview d2 = (lview d)(k := live_entry (GlobalCachedTime d) en))"
proof -
  note n = NewObj_spec [OF assms(1), of e v ms ty enc, folded d1_def]
  let ?a = "fst (NewObj e v ms ty enc d)"
  have inv: "db_inv d1" "held ?a d1" "wf_obj (objs d1 ?a)" and v: "lview d1 = lview d"
    and c: "GlobalCachedTime d1 = GlobalCachedTime d" and s: "store d1 = store d"
    using n assms(2) by (simp_all add: wf_obj_def same_clock_def)
  have oe: "obj_entry d1 ?a = en" using n by (simp add: obj_entry_def en_def)
  have l: "lview d2 = (lview (make_room e d1))(k := live_entry (GlobalCachedTime d) en)"
    unfolding d2_def lview_Put [OF inv(1,2)] oe c ..
  have sub: "lview (make_room e d1) \<subseteq>\<^sub>m lview d"
    using make_room_shrinks [OF inv(1), of e] v by (simp add: shrinks_def)
  have "lview (make_room e d1) k' = lview d k' \<or> lview (make_room e d1) k' = None" for k'
    using sub unfolding map_le_def by (metis domIff)
  moreover have "make_room e d1 = d1" if "StoreLen d < KeysLimit (cfg e)"
    using that s by (simp add: make_room_def StoreLen_def)
  moreover have "db_inv d2" unfolding d2_def by (rule Put_inv [OF inv])
  ultimately show ?thesis by (simp add: l v)
qed

text \<open>C25: \<open>NewObj\<close> followed by \<open>Put\<close>, as every command that creates a key calls them, makes the
  key visible with the type byte, the value and the expiry it was created with (unless that
  expiry has already passed), and keeps the invariant; the other keys are as before, or
  evicted, and none is evicted while the store is below its limit.\<close>

theorem NewObj_Put_refines_update:
  fixes e v ms ty enc k
  assumes "db_inv d" "wf_value (or ty enc) v"
  defines "d1 \<equiv> snd (NewObj e v ms ty enc d)"
  defines "d2 \<equiv> Put e k (fst (NewObj e v ms ty enc d)) d1"
  defines "en \<equiv> (or ty enc, v, if 0 < sint ms then Some (GlobalCachedTime d + ms) else None)"
  shows "db_inv d2 \<and> lview d2 k = live_entry (GlobalCachedTime d) en \<and>
    (\<forall>k'. k' \<noteq> k \<longrightarrow> lview d2 k' = lview d k' \<or> lview d2 k' = None) \<and>
    (StoreLen d < KeysLimit (cfg e) \<longrightarrow> lview d2 = (lview d)(k := live_entry (GlobalCachedTime d) en))"
  unfolding d1_def d2_def en_def by (rule NewObj_Put_view [OF assms(1,2)])

lemma NewObj_Put_refines_update_witness:
  "lview (Put default_env ''k'' (fst (NewObj default_env (VStr ''v'') 0 OBJ_TYPE_STRING OBJ_ENCODING_RAW (init_db 5 5)))
     (snd (NewObj default_env (VStr ''v'') 0 OBJ_TYPE_STRING OBJ_ENCODING_RAW (init_db 5 5)))) ''k''
   = Some (or OBJ_TYPE_STRING OBJ_ENCODING_RAW, VStr ''v'', None)"
proof -
  have "wf_value (or OBJ_TYPE_STRING OBJ_ENCODING_RAW) (VStr ''v'')" 
    by (simp add: OBJ_TYPE_STRING_def OBJ_ENCODING_RAW_def OBJ_ENCODING_INT_def getType_def getEncoding_def)
  from NewObj_Put_refines_update [OF init_db_inv [of 5 5] this, where e = default_env and ms = 0 and k = "''k''"]
  show ?thesis by (simp add: live_entry_def)
qed

text \<open>\<open>Del\<close> removes its key from the abstract database and nothing else, and reports whether
  the key was stored (an expired key that is still stored counts).\<close>

theorem Del_refines_removal:
  assumes "db_inv d"
  shows "lview (fst (Del k d)) = (lview d)(k := None) \<and> db_inv (fst (Del k d)) \<and>
    (snd (Del k d) \<longleftrightarrow> map_of (store d) k \<noteq> None) \<and> StoreLen (fst (Del k d)) = StoreLen d - (if snd (Del k d) then 1 else 0)"
proof -
  have "length (store d) > 0" if "map_of (store d) k \<noteq> None" using that by (cases "store d") auto
  then show ?thesis
    using assms db_invD(1) [OF assms]
    lview_Del [OF assms, of k] Del_inv [OF assms, of k]
    by (auto simp: Del_def StoreLen_def length_delete_gomap Suc_le_eq of_nat_diff)
qed

lemma Del_refines_removal_witness: "lview (fst (Del ''a'' (init_db 0 0))) = (lview (init_db 0 0))(''a'' := None)"
  using Del_refines_removal [OF init_db_inv, of "''a''" 0 0] by simp

end
