(* ===== verification/Eviction.thy ===== *)
theory Eviction
  imports StoreSpec
begin

text \<open>
  What eviction and active expiry achieve: the exact number of keys each strategy of
  \<open>core/eviction.go\<close> removes, the key limit that \<open>Put\<close> keeps, and the effect of
  \<open>DeleteExpiredKey\<close> of \<open>core/expire.go\<close>.
\<close>

section \<open>Deleting stored keys\<close>

lemma length_store_delLocked:
  "db_inv d \<Longrightarrow> length (store (fst (delLocked k d))) =
     (if map_of (store d) k = None then length (store d) else length (store d) - 1)"
  using db_invD(1) [of d] by (simp add: length_delete_gomap)

lemma store_nonempty: "map_of (store d) k \<noteq> None \<Longrightarrow> 0 < length (store d)"
  by (cases "store d") auto

lemma iterate_mset [simp]: "mset (iterate e d ks) = mset ks"
  by (simp add: iterate_def Let_def)

lemma iterate_set [simp]: "set (iterate e d ks) = set ks"
  by (rule mset_eq_setD) simp

lemma iterate_length [simp]: "length (iterate e d ks) = length ks"
  by (rule mset_eq_length) simp

lemma iterate_distinct [simp]: "distinct (iterate e d ks) = distinct ks"
  by (rule mset_eq_imp_distinct_iff) simp

lemma store_keys_iff: "k \<in> set (store_keys d) \<longleftrightarrow> map_of (store d) k \<noteq> None"
  by (simp add: store_keys_def map_of_None_notin)

lemma length_store_keys [simp]: "length (store_keys d) = length (store d)"
  by (simp add: store_keys_def)

lemma distinct_store_keys: "db_inv d \<Longrightarrow> distinct (store_keys d)"
  using db_invD(1) [of d] by (simp add: store_keys_def wf_gomap_def)

section \<open>Approximate LRU\<close>

lemma PushItem_nonempty:
  assumes "pool_ok pq"
  shows "pool (PushItem now pq k l) \<noteq> []"
proof (cases "k \<in> set (keyset pq)")
  case True
  then have "k \<in> set (pool_keys pq)" using assms by (simp add: pool_ok_def)
  then have "pool pq \<noteq> []" by (auto simp: pool_keys_def pool_view_def)
  then show ?thesis using True by (simp add: PushItem_present)
next
  case new: False
  show ?thesis
  proof (cases "length (pool pq) < ePoolSizeMax")
    case True
    have "mset (pool_view (PushItem now pq k l)) = add_mset (k, l) (mset (pool_view pq))"
      using PushItem_room_ok [OF assms new True] by simp
    then show ?thesis by (auto simp: pool_view_def)
  next
    case False
    then have ne: "pool pq \<noteq> []" by (auto simp: ePoolSizeMax_def)
    show ?thesis
    proof (cases "idler now (k, l) (item_view (pool pq ! worst_index now pq))")
      case True
      have "mset (pool_view (PushItem now pq k l)) \<noteq> {#}"
        unfolding PushItem_full_eq [OF new False] using True PushItem_replace_mset [OF ne, of now k l] by simp
      then show ?thesis by (auto simp: pool_view_def)
    next
      case False
      then show ?thesis using PushItem_full_eq [OF new \<open>\<not> length (pool pq) < ePoolSizeMax\<close>] ne by simp
    qed
  qed
qed

lemma populate_loop_nonempty:
  assumes "pool_ok (ePool d)" "(\<exists>k \<in> set ks. map_of (store d) k \<noteq> None) \<or> pool (ePool d) \<noteq> []"
  shows "pool (ePool (populate_loop n i ks d)) \<noteq> []"
  using assms
proof (induction n i ks d rule: populate_loop.induct)
  case (2 n i k ks d)
  show ?case
  proof (cases "map_of (store d) k")
    case None
    then show ?thesis using 2(1,3,4) by auto
  next
    case (Some obj)
    let ?d1 = "d\<lparr>ePool := PushItem (unixNow d) (ePool d) k (LastAccessedAt (objs d obj))\<rparr>"
    have "pool_ok (ePool ?d1)" "pool (ePool ?d1) \<noteq> []"
      using 2(3) by (simp_all add: PushItem_pool_ok PushItem_nonempty)
    then show ?thesis using 2(2) [OF Some refl] by (simp add: Some Let_def)
  qed
qed simp

lemma populate_store [simp]: "store (populateEvictionPool e d) = store d"
  by (simp add: populateEvictionPool_def populate_loop_frame ticked_def)

lemma populate_nonempty:
  assumes "db_inv d" "store d \<noteq> []"
  shows "pool (ePool (populateEvictionPool e d)) \<noteq> []"
  unfolding populateEvictionPool_def
proof (rule populate_loop_nonempty)
  show "pool_ok (ePool (ticked d))" using assms(1) by (simp add: db_inv_def ticked_def)
  have "\<exists>k. k \<in> set (store_keys d)" using assms(2) by (cases "store d") (auto simp: store_keys_def)
  then show "(\<exists>k \<in> set (iterate e d (store_keys d)). map_of (store (ticked d)) k \<noteq> None) \<or> pool (ePool (ticked d)) \<noteq> []"
    by (auto simp: store_keys_iff ticked_def)
qed

lemma evict_lru_loop_count:
  assumes "db_inv d" "i \<le> n"
  shows "length (store (fst (evict_lru_loop e n i d))) = length (store d) - nat (n - i)"
  using assms
proof (induction e n i d rule: evict_lru_loop.induct)
  case (1 e n i d)
  let ?d1 = "populateEvictionPool e d"
  have inv1: "db_inv ?d1" using 1(3) by (rule dbi.P_populate)
  show ?case
  proof (cases "i < n")
    case False
    then show ?thesis using 1(4) by (simp add: evict_lru_loop.simps)
  next
    case lt: True
    show ?thesis
    proof (cases "EvictionPool_Len (ePool ?d1) = 0")
      case True
      then have "store d = []" using populate_nonempty [OF 1(3), of e] by (auto simp: EvictionPool_Len_def)
      then show ?thesis using True lt by (subst evict_lru_loop.simps) (simp add: Let_def)
    next
      case False
      then have "pool (ePool ?d1) \<noteq> []" by (auto simp: EvictionPool_Len_def)
      from PopItem_some [OF this, of "unixNow ?d1"] obtain pq item
        where p: "PopItem (unixNow ?d1) (ePool ?d1) = (pq, Some item)" by (elim exE conjE) (rule that)
      have inv2: "db_inv (?d1\<lparr>ePool := pq\<rparr>)" using dbi.P_pop [OF inv1, of "unixNow ?d1"] p by simp
      show ?thesis
      proof (cases "map_of (store d) (key item)")
        case None
        then have "evict_lru_loop e n i d = evict_lru_loop e n i (?d1\<lparr>ePool := pq\<rparr>)"
          using lt False p by (subst evict_lru_loop.simps) (simp add: Let_def)
        moreover have "length (store (fst (evict_lru_loop e n i (?d1\<lparr>ePool := pq\<rparr>)))) = length (store d) - nat (n - i)"
          using 1(2) [OF lt refl False p [symmetric] refl _ inv2 1(4)] None by simp
        ultimately show ?thesis by simp
      next
        case (Some a)
        let ?d2 = "fst (delLocked (key item) (?d1\<lparr>ePool := pq\<rparr>))"
        have "evict_lru_loop e n i d = evict_lru_loop e n (i + 1) ?d2"
          using lt False p Some by (subst evict_lru_loop.simps) (simp add: Let_def)
        moreover have "length (store (fst (evict_lru_loop e n (i + 1) ?d2))) = length (store ?d2) - nat (n - (i + 1))"
          using 1(1) [OF lt refl False p [symmetric] refl _ delLocked_inv [OF inv2]] Some lt by simp
        moreover have "length (store ?d2) = length (store d) - 1"
          using length_store_delLocked [OF inv2, of "key item"] Some by simp
        moreover have "nat (n - i) = Suc (nat (n - (i + 1)))" using lt by simp
        ultimately show ?thesis by simp
      qed
    qed
  qed
qed

section \<open>Random eviction\<close>

definition victims :: "int \<Rightarrow> 'a list \<Rightarrow> 'a list" where
  "victims n ks = (if 1 \<le> n then take (nat n) ks else ks)"

lemma victims_Cons: "victims n (k # ks) = k # (if n - 1 = 0 then [] else victims (n - 1) ks)"
  by (auto simp: victims_def take_Cons' nat_diff_distrib)

lemma lview_random_loop:
  "db_inv d \<Longrightarrow> lview (evict_random_loop n ks d) = lview d |` (- set (victims n ks))"
proof (induction n ks d rule: evict_random_loop.induct)
  case (2 n k ks d)
  have inv: "db_inv (fst (delLocked k d))" by (rule delLocked_inv [OF 2(2)])
  show ?case
    using 2(1) [OF refl _ inv] lview_delLocked [OF 2(2), of k]
    by (auto simp: Let_def victims_Cons restrict_map_def fun_eq_iff)
qed (auto simp: victims_def restrict_map_def)

lemma random_loop_count:
  "db_inv d \<Longrightarrow> distinct ks \<Longrightarrow> \<forall>k \<in> set ks. map_of (store d) k \<noteq> None \<Longrightarrow>
   length (store (evict_random_loop n ks d)) = length (store d) - length (victims n ks)"
proof (induction n ks d rule: evict_random_loop.induct)
  case (2 n k ks d)
  have inv: "db_inv (fst (delLocked k d))" by (rule delLocked_inv [OF 2(2)])
  have l: "length (store (fst (delLocked k d))) = length (store d) - 1"
    using length_store_delLocked [OF 2(2), of k] 2(4) by simp
  have ks: "\<forall>k' \<in> set ks. map_of (store (fst (delLocked k d))) k' \<noteq> None" using 2(3,4) by auto
  show ?case
  proof (cases "n - 1 = 0")
    case True
    then show ?thesis using l by (simp add: Let_def victims_Cons)
  next
    case False
    then show ?thesis
      using 2(1) [OF refl False inv _ ks] 2(3) l unfolding victims_Cons by (simp add: Let_def)
  qed
qed (simp add: victims_def)

section \<open>The strategies, the key limit\<close>

definition evicted_count :: "config \<Rightarrow> nat \<Rightarrow> nat" where
  \<comment> \<open>how many of \<open>n\<close> keys one call of \<open>evict\<close> removes\<close>
  "evicted_count c n =
     (let m = EvictionCount c (KeysLimit c) in
      if EvictionStrategy c = ''simple-first'' then min 1 n
      else if EvictionStrategy c = ''allkeys-random'' then (if 1 \<le> m then min (nat m) n else n)
      else min (nat (max 1 m)) n)"

lemma ticked_inv [inv_intros]: "db_inv d \<Longrightarrow> db_inv (ticked d)"
  by (rule dbi.P_tick)

lemma ticked_store [simp]: "store (ticked d) = store d" by (simp add: ticked_def)

lemma evictFirst_count:
  assumes "db_inv d"
  shows "length (store (evictFirst e d)) = length (store d) - 1"
proof (cases "iterate e d (store_keys d)")
  case Nil
  then have "length (store d) = 0" using iterate_length [of e d "store_keys d"] by simp
  then show ?thesis using Nil by (simp add: evictFirst_def)
next
  case (Cons k ks)
  then have "k \<in> set (store_keys d)" using iterate_set [of e d "store_keys d"] by auto
  then show ?thesis
    using Cons length_store_delLocked [OF ticked_inv [OF assms], of k] by (auto simp: evictFirst_def store_keys_iff)
qed

lemma evictAllKeysRandom_count:
  assumes "db_inv d"
  shows "length (store (evictAllKeysRandom e d)) =
    length (store d) - length (victims (EvictionCount (cfg e) (KeysLimit (cfg e))) (store_keys d))"
proof -
  let ?ks = "iterate e d (store_keys d)" and ?n = "EvictionCount (cfg e) (KeysLimit (cfg e))"
  have "length (store (evict_random_loop ?n ?ks (ticked d))) = length (store (ticked d)) - length (victims ?n ?ks)"
    by (rule random_loop_count) (use assms in \<open>simp_all add: ticked_inv distinct_store_keys store_keys_iff\<close>)
  then show ?thesis by (simp add: evictAllKeysRandom_def victims_def)
qed

lemma evict_count:
  assumes "db_inv d"
  shows "length (store (evict e d)) = length (store d) - evicted_count (cfg e) (length (store d))"
  using evictFirst_count [OF assms, of e] evictAllKeysRandom_count [OF assms, of e]
    evict_lru_loop_count [OF assms, of 0 "EvictionCount (cfg e) (KeysLimit (cfg e))" e]
    evict_lru_loop_count [OF assms, of 0 1 e]
  by (auto simp: evict_def evicted_count_def victims_def Let_def evictAllKeysLRU_def max_def min_def)

lemma evicted_count_pos: "0 < n \<Longrightarrow> 0 < evicted_count c n"
  by (auto simp: evicted_count_def Let_def)

lemma make_room_limit:
  assumes "db_inv d" "1 \<le> KeysLimit (cfg e)" "int (length (store d)) \<le> KeysLimit (cfg e)"
  shows "int (length (store (make_room e d))) < KeysLimit (cfg e)"
proof (cases "KeysLimit (cfg e) \<le> StoreLen d")
  case True
  then have "0 < length (store d)" using assms(2) unfolding StoreLen_def by linarith
  from evicted_count_pos [OF this, of "cfg e"] show ?thesis
    using True assms evict_count [OF assms(1), of e] by (simp add: make_room_def StoreLen_def)
qed (simp add: make_room_def StoreLen_def)

lemma length_store_Put: "length (store (Put e k a d)) \<le> length (store (make_room e d)) + 1"
  by (simp add: Put_make_room length_update_gomap)

lemma Put_keeps_limit:
  assumes "db_inv d" "1 \<le> KeysLimit (cfg e)" "int (length (store d)) \<le> KeysLimit (cfg e)"
  shows "int (length (store (Put e k a d))) \<le> KeysLimit (cfg e)"
  using make_room_limit [OF assms] length_store_Put [of e k a d] by simp

section \<open>Active expiry\<close>

lemma lview_del_expired:
  assumes "db_inv d" "map_of (store d) k = Some a" "hasExpired d a"
  shows "lview (fst (delLocked k d)) = lview d"
  using assms by (auto simp: lview_delLocked lview_def)

lemma hasExpired_delLocked:
  assumes "db_inv d" "map_of (store (fst (delLocked k d))) k' = Some b"
  shows "hasExpired (fst (delLocked k d)) b = hasExpired d b"
proof (cases "map_of (store d) k")
  case None
  then show ?thesis by (simp add: delLocked_None)
next
  case (Some a)
  have "k' \<noteq> k" "map_of (store d) k' = Some b" using assms(2) by (auto split: if_splits)
  then have "b \<noteq> a" using db_inv_inj [OF assms(1) Some, of k'] by auto
  then show ?thesis using delLocked_Some [OF Some] by (simp add: hasExpired_def split: option.splits)
qed

lemma lview_expire_loop: "db_inv d \<Longrightarrow> lview (fst (expire_loop ks limit n d)) = lview d"
proof (induction ks limit n d rule: expire_loop.induct)
  case (2 k ks limit n d)
  show ?case
    using 2 delLocked_inv [OF 2(2), of k] lview_del_expired [OF 2(2), of k]
    by (auto simp: Let_def split: option.splits)
qed simp

definition no_expired :: "db \<Rightarrow> string set \<Rightarrow> bool" where
  "no_expired d ks \<longleftrightarrow> (\<forall>k \<in> ks. \<forall>a. map_of (store d) k = Some a \<longrightarrow> \<not> hasExpired d a)"

lemma lview_ticked [simp]: "lview (ticked d) = lview d"
  by (rule lview_cong) (simp_all add: ticked_def)

lemma no_expired_delLocked: "db_inv d \<Longrightarrow> no_expired d ks \<Longrightarrow> no_expired (fst (delLocked k d)) ks"
  unfolding no_expired_def using hasExpired_delLocked [of d k] by (auto split: if_splits)

lemma no_expired_expire_loop: "db_inv d \<Longrightarrow> no_expired d vs \<Longrightarrow> no_expired (fst (expire_loop ks limit n d)) vs"
proof (induction ks limit n d rule: expire_loop.induct)
  case (2 k ks limit n d)
  show ?case
    using 2 delLocked_inv [OF 2(2), of k] no_expired_delLocked [OF 2(2,3), of k]
    by (auto simp: Let_def split: option.splits)
qed simp

lemma expire_loop_complete:
  assumes "db_inv d" "0 < limit" "snd (expire_loop ks limit n d) < n + limit"
  shows "no_expired (fst (expire_loop ks limit n d)) (set ks)"
  using assms
proof (induction ks limit n d rule: expire_loop.induct)
  case (2 k ks limit n d)
  show ?case
  proof (cases "\<exists>a. map_of (store d) k = Some a \<and> hasExpired d a")
    case True
    let ?d1 = "fst (delLocked k d)"
    have inv: "db_inv ?d1" by (rule delLocked_inv [OF 2(2)])
    have e: "expire_loop (k # ks) limit n d = (if limit - 1 = 0 then (?d1, n + 1) else expire_loop ks (limit - 1) (n + 1) ?d1)"
      using True by (auto simp: Let_def)
    have l: "limit - 1 \<noteq> 0" using 2(3,4) e by auto
    have "no_expired (fst (expire_loop ks (limit - 1) (n + 1) ?d1)) (set ks)"
      using 2(1) [of "(?d1, limit - 1, n + 1)" "?d1" "(limit - 1, n + 1)" "limit - 1" "n + 1"] True 2(3,4) inv l e by auto
    moreover have "no_expired ?d1 {k}" by (simp add: no_expired_def)
    then have "no_expired (fst (expire_loop ks (limit - 1) (n + 1) ?d1)) {k}" by (rule no_expired_expire_loop [OF inv])
    ultimately show ?thesis using e l by (simp add: no_expired_def)
  next
    case False
    then have e: "expire_loop (k # ks) limit n d = expire_loop ks limit n d"
      using 2(3) by (auto simp: Let_def split: option.splits)
    have "no_expired (fst (expire_loop ks limit n d)) (set ks)"
      using 2(1) [of "(d, limit, n)" d "(limit, n)" limit n] False 2(2,3,4) e by (auto split: option.splits)
    moreover have "no_expired d {k}" using False by (auto simp: no_expired_def)
    then have "no_expired (fst (expire_loop ks limit n d)) {k}" by (rule no_expired_expire_loop [OF 2(2)])
    ultimately show ?thesis using e by (simp add: no_expired_def)
  qed
qed (simp add: no_expired_def)

lemma expireSample_store_subset: "db_inv d \<Longrightarrow> map_of (store (fst (expireSample e d))) \<subseteq>\<^sub>m map_of (store d)"
  using sh.P_expireSample [OF shrinks_refl, of d e] by (simp add: shrinks_def)

lemma expireSample_complete:
  assumes "db_inv d" "snd (expireSample e d) < 20"
  shows "no_expired (fst (expireSample e d)) UNIV"
proof -
  have "no_expired (fst (expireSample e d)) (set (store_keys d))"
    using expire_loop_complete [OF ticked_inv [OF assms(1)], of 20 "iterate e d (store_keys d)" 0] assms(2)
    by (simp add: expireSample_def)
  moreover have "k \<in> set (store_keys d)" if "map_of (store (fst (expireSample e d))) k = Some a" for k a
    using expireSample_store_subset [OF assms(1), of e] that by (auto simp: store_keys_iff map_le_def dom_def)
  ultimately show ?thesis unfolding no_expired_def by blast
qed

lemma DeleteExpiredKey_complete:
  "db_inv d \<Longrightarrow> no_expired (DeleteExpiredKey e d) UNIV \<and> lview (DeleteExpiredKey e d) = lview d"
proof (induction e d rule: DeleteExpiredKey.induct)
  case (1 e d)
  obtain d1 n where s: "expireSample e d = (d1, n)" by force
  have inv: "db_inv d1" using dbi.P_expireSample [OF 1(2), of e] s by simp
  have v: "lview d1 = lview d"
    using lview_expire_loop [OF ticked_inv [OF 1(2)], of "iterate e d (store_keys d)" 20 0] s
    by (simp add: expireSample_def)
  have u: "DeleteExpiredKey e d = (if n < 5 then d1 else DeleteExpiredKey e d1)"
    by (subst DeleteExpiredKey.simps) (simp add: s)
  show ?case
  proof (cases "n < 5")
    case True
    then show ?thesis using u v expireSample_complete [OF 1(2), of e] s by simp
  next
    case False
    then show ?thesis using u v 1(1) [OF s [symmetric] refl False inv] by simp
  qed
qed

section \<open>The properties\<close>

text \<open>C27: one call of \<open>evict\<close> removes exactly the number of keys its strategy announces (one, the
  configured share, at least one under LRU; all of them under a random strategy whose share
  rounds to zero), keeps the store's invariant, and changes no key that survives.\<close>

theorem evict_removes_share:
  assumes "db_inv d"
  shows "length (store (evict e d)) = length (store d) - evicted_count (cfg e) (length (store d)) \<and>
    db_inv (evict e d) \<and> lview (evict e d) \<subseteq>\<^sub>m lview d"
  using evict_count [OF assms] dbi.P_evict [OF assms] sh.P_evict [OF shrinks_refl [OF assms]]
  by (simp add: shrinks_def)

lemma evict_removes_share_witness:
  "length (store (evict default_env (init_db 0 0))) = 0"
  using evict_removes_share [OF init_db_inv, of default_env 0 0] by (simp add: init_db_def)

text \<open>C26: \<open>Put\<close> keeps the number of keys within \<open>KeysLimit\<close>, whatever the eviction strategy, the
  order of the map and the object stored.\<close>

theorem Put_within_limit:
  assumes "db_inv d" "1 \<le> KeysLimit (cfg e)" "StoreLen d \<le> KeysLimit (cfg e)"
  shows "StoreLen (Put e k a d) \<le> KeysLimit (cfg e)"
  using Put_keeps_limit [OF assms(1,2)] assms(3) by (simp add: StoreLen_def)

lemma Put_within_limit_witness:
  "StoreLen (Put default_env ''k'' 0 (init_db 0 0)) \<le> 100"
  using Put_within_limit [OF init_db_inv, of default_env 0 0 "''k''" 0]
  by (simp add: default_env_def default_config_def init_db_def StoreLen_def)



end
