(* ===== verification/Resp.thy ===== *)
theory Resp
  imports Prelude
begin

text \<open>
  \<open>core/resp.go\<close>: the RESP encoder, the generic decoder (\<open>DecodeOne\<close>) and the command parser
  of the server (\<open>DecodeCommands\<close>). A Go byte slice is a pair of its backing array, as far as
  the capacity goes, and its length: an index is checked against the length, a slice
  expression against the capacity, and a failed check is a panic. Lengths are Go \<open>int\<close>s that
  wrap at 64 bits. A parsed command holds \<open>None\<close> for a name that the parser did not write.

  The lemmas: what the parsers read of a number that the encoder wrote; the round trips of
  replies and of pipelined commands; concrete inputs that panic or read beyond their end.
\<close>

section \<open>Values and the encoder\<close>

datatype goval =
    GoString string
  | GoInt64 int64
  | GoInt int64
  | GoInt32 "32 word"
  | GoUint uint64
  | GoStrings "string list"
  | GoError string
  | GoOther \<comment> \<open>any other dynamic type, \<open>[]interface{}\<close> included\<close>

definition CRLF :: string where
  "CRLF = [CHR 0x0D, CHR 0x0A]"

definition RESP_NIL :: string where "RESP_NIL = ''$-1'' @ CRLF"
definition RESP_OK :: string where "RESP_OK = ''+OK'' @ CRLF"
definition RESP_QUEUED :: string where "RESP_QUEUED = ''+QUEUED'' @ CRLF"
definition RESP_ZERO :: string where "RESP_ZERO = '':0'' @ CRLF"
definition RESP_ONE :: string where "RESP_ONE = '':1'' @ CRLF"
definition RESP_MINUS_1 :: string where "RESP_MINUS_1 = '':-1'' @ CRLF"
definition RESP_MINUS_2 :: string where "RESP_MINUS_2 = '':-2'' @ CRLF"

lemmas resp_consts = RESP_NIL_def RESP_OK_def RESP_QUEUED_def RESP_ZERO_def RESP_ONE_def
  RESP_MINUS_1_def RESP_MINUS_2_def CRLF_def

definition bulk :: "string \<Rightarrow> string" where
  "bulk s = CHR ''$'' # FormatInt (of_nat (length s)) @ CRLF @ s @ CRLF"

definition AppendUint :: "uint64 \<Rightarrow> string" where
  "AppendUint v = FormatNat (unat v)"

fun Encode :: "goval \<Rightarrow> bool \<Rightarrow> string" where
  "Encode (GoString v) isSimple = (if isSimple then CHR ''+'' # v @ CRLF else bulk v)"
| "Encode (GoInt64 v) isSimple = CHR '':'' # FormatInt v @ CRLF"
| "Encode (GoInt v) isSimple = CHR '':'' # FormatInt v @ CRLF"
| "Encode (GoInt32 v) isSimple = CHR '':'' # FormatInt (scast v) @ CRLF"
| "Encode (GoUint v) isSimple = CHR '':'' # AppendUint v @ CRLF"
| "Encode (GoStrings v) isSimple = CHR ''*'' # FormatInt (of_nat (length v)) @ CRLF @ concat (map bulk v)"
| "Encode (GoError msg) isSimple = CHR ''-'' # msg @ CRLF"
| "Encode GoOther isSimple = RESP_NIL"

section \<open>Slices\<close>

type_synonym slice = "string \<times> nat"

definition as_slice :: "string \<Rightarrow> slice" where
  \<comment> \<open>\<open>[]byte(s)\<close>, with no spare capacity\<close>
  "as_slice s = (s, length s)"

definition slice_bytes :: "slice \<Rightarrow> string" where
  "slice_bytes d = take (snd d) (fst d)"

definition byte_at :: "slice \<Rightarrow> int \<Rightarrow> char outcome" where
  "byte_at d i = (if 0 \<le> i \<and> i < int (snd d) then Inr (fst d ! nat i) else Inl IndexOutOfRange)"

definition slice_from :: "slice \<Rightarrow> int \<Rightarrow> slice outcome" where
  \<comment> \<open>\<open>d[lo:]\<close>\<close>
  "slice_from d lo =
     (if 0 \<le> lo \<and> lo \<le> int (snd d) then Inr (drop (nat lo) (fst d), snd d - nat lo) else Inl SliceBounds)"

definition slice_string :: "slice \<Rightarrow> int \<Rightarrow> int \<Rightarrow> string outcome" where
  \<comment> \<open>\<open>string(d[lo:hi])\<close>: the bound of \<open>hi\<close> is the capacity\<close>
  "slice_string d lo hi =
     (if 0 \<le> lo \<and> lo \<le> hi \<and> hi \<le> int (length (fst d)) then Inr (take (nat (hi - lo)) (drop (nat lo) (fst d)))
      else Inl SliceBounds)"

section \<open>The readers\<close>

definition CR :: char where
  "CR = CHR 0x0D"

definition byte_digit :: "char \<Rightarrow> int" where
  \<comment> \<open>\<open>c - '0'\<close> on bytes\<close>
  "byte_digit c = int ((of_char c + 208) mod 256)"

fun readLength_loop :: "string \<Rightarrow> int \<Rightarrow> int \<Rightarrow> (int \<times> int) outcome" where
  "readLength_loop [] pos len = Inl IndexOutOfRange"
| "readLength_loop (c # cs) pos len =
     (if c = CR then Inr (len, pos + 2) else readLength_loop cs (pos + 1) (wrap64 (len * 10 + byte_digit c)))"

definition readLength :: "slice \<Rightarrow> (int \<times> int) outcome" where
  "readLength d = readLength_loop (slice_bytes d) 0 0"

fun scan_line :: "string \<Rightarrow> string outcome" where
  \<comment> \<open>the bytes before the first carriage return\<close>
  "scan_line [] = Inl IndexOutOfRange"
| "scan_line (c # cs) = (if c = CR then Inr [] else obind (scan_line cs) (\<lambda>s. Inr (c # s)))"

definition readSimpleString :: "slice \<Rightarrow> (string \<times> int) outcome" where
  "readSimpleString d = obind (scan_line (drop 1 (slice_bytes d))) (\<lambda>s. Inr (s, int (length s) + 3))"

definition readError :: "slice \<Rightarrow> (string \<times> int) outcome" where
  "readError d = readSimpleString d"

fun readInt64_loop :: "string \<Rightarrow> int \<Rightarrow> int64 \<Rightarrow> (int64 \<times> int) outcome" where
  "readInt64_loop [] pos value = Inl IndexOutOfRange"
| "readInt64_loop (c # cs) pos value =
     (if c = CR then Inr (value, pos + 2) else readInt64_loop cs (pos + 1) (value * 10 + of_int (byte_digit c)))"

definition readInt64 :: "slice \<Rightarrow> (int64 \<times> int) outcome" where
  "readInt64 d = readInt64_loop (drop 1 (slice_bytes d)) 1 0"

definition readBulkString :: "slice \<Rightarrow> (string \<times> int) outcome" where
  "readBulkString d =
     obind (slice_from d 1) (\<lambda>s.
     obind (readLength s) (\<lambda>(len, delta).
       let pos = 1 + delta in
       obind (slice_string d pos (wrap64 (pos + len))) (\<lambda>str. Inr (str, pos + len + 2))))"

datatype dvalue = DNil | DString string | DInt int64 | DArray "dvalue list"

type_synonym decoded = "dvalue \<times> int \<times> string option" \<comment> \<open>value, delta, error\<close>

fun read_elems :: "(slice \<Rightarrow> decoded outcome) \<Rightarrow> slice \<Rightarrow> nat \<Rightarrow> int \<Rightarrow> dvalue list \<Rightarrow> decoded outcome" where
  "read_elems decode d 0 pos elems = Inr (DArray elems, pos, None)"
| "read_elems decode d (Suc n) pos elems =
     obind (slice_from d pos) (\<lambda>s.
     obind (decode s) (\<lambda>(elem, delta, err).
       if err \<noteq> None then Inr (DNil, 0, err) else read_elems decode d n (pos + delta) (elems @ [elem])))"

definition max_elems :: int where
  \<comment> \<open>\<open>make([]interface{}, n)\<close> panics when \<open>n\<close> elements of 16 bytes exceed the address space of 48 bits\<close>
  "max_elems = 2 ^ 44"

fun DecodeOne_fuel :: "nat \<Rightarrow> slice \<Rightarrow> decoded outcome" where
  \<comment> \<open>the fuel bounds the nesting of arrays\<close>
  "DecodeOne_fuel 0 d = Inl StackOverflow"
| "DecodeOne_fuel (Suc f) d =
     (if snd d = 0 then Inr (DNil, 0, Some ''no data'')
      else obind (byte_at d 0) (\<lambda>c.
        if c = CHR ''+'' then obind (readSimpleString d) (\<lambda>(s, delta). Inr (DString s, delta, None))
        else if c = CHR ''-'' then obind (readError d) (\<lambda>(s, delta). Inr (DString s, delta, None))
        else if c = CHR '':'' then obind (readInt64 d) (\<lambda>(v, delta). Inr (DInt v, delta, None))
        else if c = CHR ''$'' then obind (readBulkString d) (\<lambda>(s, delta). Inr (DString s, delta, None))
        else if c = CHR ''*'' then
          obind (slice_from d 1) (\<lambda>s.
          obind (readLength s) (\<lambda>(count, delta).
            if count < 0 \<or> max_elems < count then Inl MakeSlice
            else read_elems (DecodeOne_fuel f) d (nat count) (1 + delta) []))
        else Inr (DNil, 0, None)))"

definition DecodeOne :: "slice \<Rightarrow> decoded outcome" where
  "DecodeOne d = DecodeOne_fuel (snd d + 1) d"

section \<open>Commands\<close>

definition is_ascii :: "char \<Rightarrow> bool" where
  "is_ascii c \<longleftrightarrow> of_char c < (128::nat)"

definition upper_byte :: "char \<Rightarrow> char" where
  "upper_byte c = (let n = of_char c in if 97 \<le> n \<and> n \<le> (122::nat) then char_of (n - 32) else c)"

definition ToUpper :: "(string \<Rightarrow> string) \<Rightarrow> string \<Rightarrow> string" where
  \<comment> \<open>\<open>strings.ToUpper\<close>; \<open>uni\<close> is its result on a string with a non-ASCII byte (the Unicode tables)\<close>
  "ToUpper uni s = (if \<forall>c \<in> set s. is_ascii c then map upper_byte s else uni s)"

type_synonym parsed = "string option \<times> string list"

function args_loop ::
  "(string \<Rightarrow> string) \<Rightarrow> slice \<Rightarrow> int \<Rightarrow> int \<Rightarrow> int \<Rightarrow> string option \<Rightarrow> string list \<Rightarrow>
   (int \<times> parsed \<times> string option) outcome" where
  "args_loop uni d i cnt index cmd args =
     (if i < cnt then
        obind (byte_at d index) (\<lambda>c.
          if c \<noteq> CHR ''$'' then Inr (index, (cmd, args), Some ''expected '$' for bulk string'')
          else
            obind (slice_from d (index + 1)) (\<lambda>s.
            obind (readLength s) (\<lambda>(strLen, delta).
              let index = index + 1 + delta in
              obind (slice_string d index (wrap64 (index + strLen))) (\<lambda>token.
                args_loop uni d (i + 1) cnt (index + strLen + 2)
                  (if i = 0 then Some (ToUpper uni token) else cmd)
                  (if i = 0 then args else args @ [token])))))
      else Inr (index, (cmd, args), None))"
  by pat_completeness auto
termination
  by (relation "measure (\<lambda>(uni, d, i, cnt, index, cmd, args). nat (cnt - i))") auto

declare args_loop.simps [simp del]

lemma readLength_loop_delta: "readLength_loop s pos len = Inr (v, delta) \<Longrightarrow> pos + 2 \<le> delta"
  by (induction s pos len rule: readLength_loop.induct) (auto split: if_splits)

lemma readLength_delta: "readLength d = Inr (v, delta) \<Longrightarrow> 2 \<le> delta"
  using readLength_loop_delta [of "slice_bytes d" 0 0] by (simp add: readLength_def)

lemma readLength_loop_range:
  "readLength_loop s pos len = Inr (v, delta) \<Longrightarrow> - (2 ^ 63) \<le> len \<and> len < 2 ^ 63 \<Longrightarrow> - (2 ^ 63) \<le> v \<and> v < 2 ^ 63"
  by (induction s pos len rule: readLength_loop.induct) (use wrap64_range in \<open>auto split: if_splits\<close>)

lemma readLength_range: "readLength d = Inr (v, delta) \<Longrightarrow> - (2 ^ 63) \<le> v \<and> v < 2 ^ 63"
  using readLength_loop_range [of "slice_bytes d" 0 0] by (simp add: readLength_def)

lemma slice_string_bounds:
  assumes "slice_string d lo (wrap64 (lo + n)) = Inr s" "- (2 ^ 63) \<le> n \<and> n < 2 ^ 63"
  shows "0 \<le> lo \<and> 0 \<le> n \<and> lo + n \<le> int (length (fst d)) \<and> lo + n < 2 ^ 63 \<and>
    s = take (nat n) (drop (nat lo) (fst d))"
proof -
  have b: "0 \<le> lo" "lo \<le> wrap64 (lo + n)" "wrap64 (lo + n) \<le> int (length (fst d))"
    and s: "s = take (nat (wrap64 (lo + n) - lo)) (drop (nat lo) (fst d))"
    using assms(1) by (auto simp: slice_string_def split: if_splits)
  have "lo + n < 2 ^ 63"
  proof (rule ccontr)
    assume "\<not> lo + n < 2 ^ 63"
    then have "wrap64 (lo + n) = lo + n - 2 ^ 64"
      using b(2) wrap64_range [of "lo + n"] assms(2) by (intro wrap64_over) auto
    then show False using b assms(2) wrap64_range [of "lo + n"] by simp
  qed
  then have "wrap64 (lo + n) = lo + n" using b(1) assms(2) by (intro wrap64_id) auto
  then show ?thesis using b s \<open>lo + n < 2 ^ 63\<close> by simp
qed

lemma args_loop_index:
  "args_loop uni d i cnt index cmd args = Inr (index', r) \<Longrightarrow> index \<le> index'"
proof (induction uni d i cnt index cmd args rule: args_loop.induct)
  case (1 uni d i cnt index cmd args)
  show ?case
  proof (cases "i < cnt")
    case False
    then show ?thesis using 1(2) by (simp add: args_loop.simps)
  next
    case True
    from 1(2) True obtain c where c: "byte_at d index = Inr c"
      by (subst (asm) args_loop.simps) (auto simp: obind_eq_Inr)
    show ?thesis
    proof (cases "c = CHR ''$''")
      case False
      then show ?thesis using 1(2) True c by (subst (asm) args_loop.simps) simp
    next
      case dollar: True
      from 1(2) True c dollar obtain s strLen delta token where
        s: "slice_from d (index + 1) = Inr s" and l: "readLength s = Inr (strLen, delta)"
        and t: "slice_string d (index + 1 + delta) (wrap64 (index + 1 + delta + strLen)) = Inr token"
        and r: "args_loop uni d (i + 1) cnt (index + 1 + delta + strLen + 2) (if i = 0 then Some (ToUpper uni token) else cmd)
          (if i = 0 then args else args @ [token]) = Inr (index', r)"
        by (subst (asm) args_loop.simps) (auto simp: obind_eq_Inr Let_def)
      have "index + 1 + delta + strLen + 2 \<le> index'"
        by (rule 1(1) [OF True c _ s l refl refl t r]) (simp add: dollar)
      moreover have "0 \<le> strLen" using slice_string_bounds [OF t readLength_range [OF l]] by simp
      ultimately show ?thesis using readLength_delta [OF l] by simp
    qed
  qed
qed

text \<open>An error of the decoder has a text, and the command that it leaves unfinished, if any: its cell
  has been taken from the pool.\<close>

type_synonym decode_error = "string \<times> parsed option"

function commands_loop ::
  "(string \<Rightarrow> string) \<Rightarrow> slice \<Rightarrow> int \<Rightarrow> parsed list \<Rightarrow> (parsed list \<times> decode_error option) outcome" where
  "commands_loop uni d index cmds =
     (if index < int (snd d) then
        obind (byte_at d index) (\<lambda>c.
          if c \<noteq> CHR ''*'' then Inr (cmds, Some (''expected '*' at start of command'', None))
          else
            obind (slice_from d (index + 1)) (\<lambda>s.
            obind (readLength s) (\<lambda>(cnt, delta).
              let index = index + 1 + delta in
              if cnt = 0 then commands_loop uni d index cmds
              else obind (args_loop uni d 0 cnt index None []) (\<lambda>(index, cmd, err).
                case err of
                  Some m \<Rightarrow> Inr (cmds, Some (m, Some cmd))
                | None \<Rightarrow> commands_loop uni d index (cmds @ [cmd])))))
      else Inr (cmds, None))"
  by pat_completeness auto
termination
proof (relation "measure (\<lambda>(uni, d, index, cmds). nat (int (snd d) - index))", goal_cases)
  case 1
  then show ?case by simp
next
  case (2 uni d index cmds c s r n delta index1)
  then have "2 \<le> delta" by (intro readLength_delta [of s n]) simp
  then show ?case using 2(1,7) by simp
next
  case (3 uni d index cmds c s r n delta index1 r1 index2 r2)
  have "2 \<le> delta" by (rule readLength_delta [of s n]) (use 3 in simp)
  moreover have "index1 \<le> index2" by (rule args_loop_index [of uni d 0 n index1 None "[]" index2 r2]) (use 3 in simp)
  ultimately show ?case using 3(1,7) by simp
qed

declare commands_loop.simps [simp del]

definition DecodeCommands :: "(string \<Rightarrow> string) \<Rightarrow> slice \<Rightarrow> (parsed list \<times> decode_error option) outcome" where
  "DecodeCommands uni d = (if snd d = 0 then Inr ([], Some (''no data'', None)) else commands_loop uni d 0 [])"

section \<open>Reading back what the encoder wrote\<close>

lemma byte_digit_digit_char: "n < 10 \<Longrightarrow> byte_digit (digit_char n) = int n"
proof -
  assume n: "n < 10"
  have "(of_char (digit_char n) :: nat) = 48 + n" using n by (simp add: digit_char_def)
  then show ?thesis using n by (simp add: byte_digit_def)
qed

lemma digit_char_not_CR: "n < 10 \<Longrightarrow> digit_char n \<noteq> CR"
proof
  assume "n < 10" "digit_char n = CR"
  then have "(of_char (digit_char n) :: nat) = of_char CR" by simp
  then show False using \<open>n < 10\<close> by (simp add: digit_char_def CR_def)
qed

lemma readLength_loop_FormatNat:
  "n < 2 ^ 63 \<Longrightarrow> readLength_loop (FormatNat n @ cs) pos 0 = readLength_loop cs (pos + int (length (FormatNat n))) (int n)"
proof (induction n arbitrary: cs rule: FormatNat.induct)
  case (1 n)
  show ?case
  proof (cases "n < 10")
    case True
    then show ?thesis
      by (subst (1 2) FormatNat.simps) (simp add: digit_char_not_CR byte_digit_digit_char wrap64_id)
  next
    case False
    have u: "FormatNat n = FormatNat (n div 10) @ [digit_char (n mod 10)]"
      using False by (subst FormatNat.simps) simp
    have "wrap64 (int (n div 10) * 10 + int (n mod 10)) = int n"
    proof -
      have "int (n div 10) * 10 + int (n mod 10) = int n" by presburger
      then show ?thesis using 1(2) by (simp add: wrap64_id)
    qed
    then show ?thesis
      using 1(1) [OF False, of "digit_char (n mod 10) # cs"] 1(2)
      unfolding u by (simp add: digit_char_not_CR byte_digit_digit_char algebra_simps)
  qed
qed

lemma FormatInt_of_nat: "n < 2 ^ 63 \<Longrightarrow> FormatInt (of_nat n) = FormatNat n"
proof -
  assume n: "n < 2 ^ 63"
  have "sint (of_nat n :: int64) = int n"
    using n by (simp add: signed_of_nat signed_take_bit_int_eq_self)
  then show ?thesis by (simp add: FormatInt_def)
qed

lemma readLength_FormatNat:
  assumes "n < 2 ^ 63" "slice_bytes d = FormatNat n @ CRLF @ rest"
  shows "readLength d = Inr (int n, int (length (FormatNat n)) + 2)"
  using readLength_loop_FormatNat [OF assms(1), of "CRLF @ rest" 0]
  by (simp add: readLength_def assms(2) CRLF_def CR_def)

lemma slice_bytes_from:
  assumes "slice_bytes d = pre @ post" "snd d \<le> length (fst d)"
  shows "slice_from d (int (length pre)) = Inr (drop (length pre) (fst d), snd d - length pre) \<and>
    slice_bytes (drop (length pre) (fst d), snd d - length pre) = post \<and> length pre \<le> snd d"
proof -
  have "length (slice_bytes d) = snd d" using assms(2) by (simp add: slice_bytes_def)
  then have l: "length pre \<le> snd d" using assms(1) by simp
  have "drop (length pre) (slice_bytes d) = post" by (simp add: assms(1))
  then show ?thesis using l by (simp add: slice_from_def slice_bytes_def drop_take)
qed

lemma byte_at_pos:
  assumes "slice_bytes d = pre @ c # post" "snd d \<le> length (fst d)"
  shows "byte_at d (int (length pre)) = Inr c"
proof -
  have "length (slice_bytes d) = snd d" using assms(2) by (simp add: slice_bytes_def)
  then have l: "length pre < snd d" using assms(1) by simp
  have "slice_bytes d ! length pre = c" by (simp add: assms(1))
  then show ?thesis using l by (simp add: byte_at_def slice_bytes_def)
qed

lemma slice_string_pos:
  assumes "slice_bytes d = pre @ s @ post" "snd d \<le> length (fst d)"
  shows "slice_string d (int (length pre)) (int (length pre) + int (length s)) = Inr s"
proof -
  have "length (slice_bytes d) = snd d" using assms(2) by (simp add: slice_bytes_def)
  then have l: "length pre + length s \<le> snd d" using assms(1) by simp
  have "take (length s) (drop (length pre) (slice_bytes d)) = s" by (simp add: assms(1))
  moreover have "take (length s) (drop (length pre) (slice_bytes d)) = take (length s) (drop (length pre) (fst d))"
    using l by (simp add: slice_bytes_def drop_take min_def)
  ultimately show ?thesis using l assms(2) by (simp add: slice_string_def)
qed

section \<open>Pipelined commands\<close>

definition encode_command :: "string list \<Rightarrow> string" where
  \<comment> \<open>what a client sends\<close>
  "encode_command ws = Encode (GoStrings ws) False"

lemma bulk_eq: "length w < 2 ^ 63 \<Longrightarrow> bulk w = CHR ''$'' # FormatNat (length w) @ CRLF @ w @ CRLF"
  by (simp add: bulk_def FormatInt_of_nat)

lemma args_loop_step:
  assumes d: "slice_bytes d = pre @ bulk w @ post" "snd d \<le> length (fst d)" "snd d < 2 ^ 61" and i: "i < cnt"
  shows "args_loop uni d i cnt (int (length pre)) cmd args =
    args_loop uni d (i + 1) cnt (int (length (pre @ bulk w)))
      (if i = 0 then Some (ToUpper uni w) else cmd) (if i = 0 then args else args @ [w])"
proof -
  let ?F = "FormatNat (length w)"
  have "length (slice_bytes d) = snd d" using d(2) by (simp add: slice_bytes_def)
  then have l: "length pre + length (bulk w) < 2 ^ 61" using d(1,3) by simp
  then have w: "length w < 2 ^ 61" by (simp add: bulk_def)
  then have b: "bulk w = CHR ''$'' # ?F @ CRLF @ w @ CRLF" by (intro bulk_eq) simp
  then have lb: "int (length (bulk w)) = int (length w) + (5 + int (length ?F))" by (simp add: CRLF_def)
  have s0: "slice_bytes d = pre @ CHR ''$'' # ?F @ CRLF @ w @ CRLF @ post" using d(1) b by simp
  have s1: "slice_bytes d = (pre @ [CHR ''$'']) @ ?F @ CRLF @ w @ CRLF @ post" using s0 by simp
  have s2: "slice_bytes d = (pre @ CHR ''$'' # ?F @ CRLF) @ w @ CRLF @ post" using s0 by simp
  note f = slice_bytes_from [OF s1 d(2)]
  have r: "readLength (drop (length (pre @ [CHR ''$''])) (fst d), snd d - length (pre @ [CHR ''$''])) = Inr (int (length w), int (length ?F) + 2)"
    by (rule readLength_FormatNat) (use f w in simp_all)
  let ?p = "int (length pre) + 1 + (int (length ?F) + 2)"
  have "wrap64 (?p + int (length w)) = ?p + int (length w)" using l lb by (intro wrap64_id) simp_all
  moreover have "?p = int (length (pre @ CHR ''$'' # ?F @ CRLF))" by (simp add: CRLF_def)
  ultimately have t: "slice_string d ?p (wrap64 (?p + int (length w))) = Inr w"
    using slice_string_pos [OF s2 d(2)] by simp
  show ?thesis
    by (subst args_loop.simps) (use byte_at_pos [OF s0 d(2)] f r t i in \<open>simp add: lb ac_simps\<close>)
qed

lemma args_loop_words:
  assumes "slice_bytes d = pre @ concat (map bulk ws) @ post" "snd d \<le> length (fst d)" "snd d < 2 ^ 61" "0 < i"
  shows "args_loop uni d i (i + int (length ws)) (int (length pre)) cmd args =
    Inr (int (length (pre @ concat (map bulk ws))), (cmd, args @ ws), None)"
  using assms
proof (induction ws arbitrary: pre i args)
  case Nil
  then show ?case by (subst args_loop.simps) simp
next
  case (Cons w ws)
  have "args_loop uni d i (i + int (length (w # ws))) (int (length pre)) cmd args =
    args_loop uni d (i + 1) (i + 1 + int (length ws)) (int (length (pre @ bulk w))) cmd (args @ [w])"
    using args_loop_step [of d pre w "concat (map bulk ws) @ post" i "i + int (length (w # ws))" uni cmd args] Cons(2-5)
    by (simp add: ac_simps)
  also have "\<dots> = Inr (int (length ((pre @ bulk w) @ concat (map bulk ws))), (cmd, (args @ [w]) @ ws), None)"
    by (rule Cons(1)) (use Cons(2-5) in simp_all)
  finally show ?case by simp
qed

lemma encode_command_eq:
  "length ws < 2 ^ 63 \<Longrightarrow> encode_command ws = CHR ''*'' # FormatNat (length ws) @ CRLF @ concat (map bulk ws)"
  by (simp add: encode_command_def FormatInt_of_nat)

lemma length_concat_bulk: "length ws \<le> length (concat (map bulk ws))"
  by (induction ws) (auto simp: bulk_def)

lemma commands_loop_step:
  assumes d: "slice_bytes d = pre @ encode_command (w # ws) @ post" "snd d \<le> length (fst d)" "snd d < 2 ^ 61"
  shows "commands_loop uni d (int (length pre)) cmds =
    commands_loop uni d (int (length (pre @ encode_command (w # ws)))) (cmds @ [(Some (ToUpper uni w), ws)])"
proof -
  let ?n = "length (w # ws)" and ?C = "concat (map bulk (w # ws))"
  let ?F = "FormatNat ?n"
  have len: "length (slice_bytes d) = snd d" using d(2) by (simp add: slice_bytes_def)
  then have l: "length pre + length (encode_command (w # ws)) < 2 ^ 61" using d(1,3) by simp
  have "?n \<le> length (encode_command (w # ws))"
    using length_concat_bulk [of "w # ws"] by (simp add: encode_command_def)
  then have n: "?n < 2 ^ 61" using l by linarith
  then have e: "encode_command (w # ws) = CHR ''*'' # ?F @ CRLF @ ?C" by (intro encode_command_eq) simp
  have s0: "slice_bytes d = pre @ CHR ''*'' # ?F @ CRLF @ ?C @ post" using d(1) e by simp
  have s1: "slice_bytes d = (pre @ [CHR ''*'']) @ ?F @ CRLF @ ?C @ post" using s0 by simp
  have s2: "slice_bytes d = (pre @ CHR ''*'' # ?F @ CRLF) @ bulk w @ concat (map bulk ws) @ post" using s0 by simp
  have s3: "slice_bytes d = (pre @ CHR ''*'' # ?F @ CRLF @ bulk w) @ concat (map bulk ws) @ post" using s0 by simp
  note f = slice_bytes_from [OF s1 d(2)]
  have r: "readLength (drop (length (pre @ [CHR ''*''])) (fst d), snd d - length (pre @ [CHR ''*''])) = Inr (int ?n, int (length ?F) + 2)"
    by (rule readLength_FormatNat) (use f n in simp_all)
  have p: "int (length pre) + 1 + (int (length ?F) + 2) = int (length (pre @ CHR ''*'' # ?F @ CRLF))"
    by (simp add: CRLF_def)
  have "args_loop uni d 0 (int ?n) (int (length (pre @ CHR ''*'' # ?F @ CRLF))) None [] =
    args_loop uni d 1 (1 + int (length ws)) (int (length (pre @ CHR ''*'' # ?F @ CRLF @ bulk w))) (Some (ToUpper uni w)) []"
    using args_loop_step [OF s2 d(2,3), of 0 "int ?n" uni None "[]"] by (simp add: ac_simps)
  also have "\<dots> = Inr (int (length ((pre @ CHR ''*'' # ?F @ CRLF @ bulk w) @ concat (map bulk ws))), (Some (ToUpper uni w), [] @ ws), None)"
    by (rule args_loop_words [OF s3 d(2,3)]) simp
  finally have a: "args_loop uni d 0 (int ?n) (int (length pre) + 1 + (int (length ?F) + 2)) None [] =
    Inr (int (length (pre @ encode_command (w # ws))), (Some (ToUpper uni w), ws), None)"
    unfolding p e by simp
  have "int (length pre) < int (snd d)" using len s0 by (metis length_append length_Cons less_add_Suc1 of_nat_less_iff add_Suc_right)
  then show ?thesis
    by (subst commands_loop.simps) (use byte_at_pos [OF s0 d(2)] f r a in \<open>simp add: Let_def ac_simps\<close>)
qed

definition parsed_of :: "(string \<Rightarrow> string) \<Rightarrow> string list \<Rightarrow> parsed" where
  "parsed_of uni ws = (case ws of [] \<Rightarrow> (None, []) | w # ws \<Rightarrow> (Some (ToUpper uni w), ws))"

lemma commands_loop_pipeline:
  assumes "slice_bytes d = pre @ concat (map encode_command css)" "snd d \<le> length (fst d)" "snd d < 2 ^ 61"
    "\<forall>ws \<in> set css. ws \<noteq> []"
  shows "commands_loop uni d (int (length pre)) cmds = Inr (cmds @ map (parsed_of uni) css, None)"
  using assms
proof (induction css arbitrary: pre cmds)
  case Nil
  then have "snd d = length pre" by (metis append.right_neutral concat.simps(1) length_take list.map(1) min.absorb2 slice_bytes_def)
  then show ?case by (subst commands_loop.simps) simp
next
  case (Cons ws css)
  then obtain w ws' where ws: "ws = w # ws'" by (cases ws) auto
  have "commands_loop uni d (int (length pre)) cmds =
    commands_loop uni d (int (length (pre @ encode_command ws))) (cmds @ [parsed_of uni ws])"
    using commands_loop_step [of d pre w ws' "concat (map encode_command css)" uni cmds] Cons(2-4)
    by (simp add: ws parsed_of_def)
  also have "\<dots> = Inr ((cmds @ [parsed_of uni ws]) @ map (parsed_of uni) css, None)"
    by (rule Cons(1)) (use Cons(2-5) in simp_all)
  finally show ?case by simp
qed

section \<open>The generic decoder\<close>

lemma readBulkString_delta: "readBulkString d = Inr (s, delta) \<Longrightarrow> 0 \<le> delta"
proof -
  assume a: "readBulkString d = Inr (s, delta)"
  obtain s1 len d1 where l: "readLength s1 = Inr (len, d1)" and t: "slice_string d (1 + d1) (wrap64 (1 + d1 + len)) = Inr s"
    and e: "delta = 1 + d1 + len + 2"
    using a by (auto simp: readBulkString_def obind_eq_Inr Let_def)
  have "0 \<le> 1 + d1 + len" using slice_string_bounds [OF t readLength_range [OF l]] by auto
  then show ?thesis unfolding e by simp
qed

lemma readInt64_loop_delta: "readInt64_loop s pos v = Inr (v', delta) \<Longrightarrow> pos + 2 \<le> delta"
  by (induction s pos v rule: readInt64_loop.induct) (auto split: if_splits)

lemma read_elems_delta:
  assumes "\<And>s v delta err. decode s = Inr (v, delta, err) \<Longrightarrow> 0 \<le> delta"
  shows "read_elems decode d n pos elems = Inr (v, delta, err) \<Longrightarrow> 0 \<le> pos \<Longrightarrow> 0 \<le> delta"
proof (induction n arbitrary: pos elems)
  case (Suc n)
  then obtain s e dl er where s: "slice_from d pos = Inr s" "decode s = Inr (e, dl, er)"
    and r: "(if er \<noteq> None then Inr (DNil, 0, er) else read_elems decode d n (pos + dl) (elems @ [e]))
      = Inr (v, delta, err)"
    by (auto simp: obind_eq_Inr split: if_splits)
  have "0 \<le> dl" by (rule assms [OF s(2)])
  then show ?case using r Suc by (auto split: if_splits)
qed auto

lemma DecodeOne_fuel_delta: "DecodeOne_fuel f d = Inr (v, delta, err) \<Longrightarrow> 0 \<le> delta"
proof (induction f arbitrary: d v delta err)
  case (Suc f)
  show ?case
  proof (cases "snd d \<noteq> 0 \<and> byte_at d 0 = Inr (CHR ''*'')")
    case False
    then show ?thesis
      using Suc(2) readBulkString_delta [of d]
      by (auto simp: obind_eq_Inr readSimpleString_def readError_def readInt64_def split: if_splits
          dest!: readInt64_loop_delta)
  next
    case True
    then obtain s n d1 where "readLength s = Inr (n, d1)" "read_elems (DecodeOne_fuel f) d (nat n) (1 + d1) [] = Inr (v, delta, err)"
      using Suc(2) by (auto simp: obind_eq_Inr split: if_splits)
    then show ?thesis using read_elems_delta [of "DecodeOne_fuel f" d "nat n" "1 + d1" "[]" v delta err] Suc(1) readLength_delta [of s n d1] by auto
  qed
qed simp

lemma read_elems_cong:
  assumes "\<And>s. snd s < snd d \<Longrightarrow> decode s = decode' s" "\<And>s v delta err. decode' s = Inr (v, delta, err) \<Longrightarrow> 0 \<le> delta"
  shows "0 < pos \<Longrightarrow> 0 < snd d \<Longrightarrow> read_elems decode d n pos elems = read_elems decode' d n pos elems"
proof (induction n arbitrary: pos elems)
  case (Suc n)
  show ?case
  proof (cases "slice_from d pos")
    case (Inr s)
    then have "snd s < snd d" using Suc(2,3) by (auto simp: slice_from_def split: if_splits)
    then have e: "decode s = decode' s" by (rule assms(1))
    show ?thesis
    proof (cases "decode' s")
      case r: (Inr q)
      obtain x dl er where q: "q = (x, dl, er)" by (cases q)
      have "0 \<le> dl" using assms(2) r q by simp
      then show ?thesis using Inr e r q Suc by simp
    qed (use Inr e in simp)
  qed simp
qed simp

lemma DecodeOne_fuel_enough: "snd d < f \<Longrightarrow> snd d < f' \<Longrightarrow> DecodeOne_fuel f d = DecodeOne_fuel f' d"
proof (induction f arbitrary: d f')
  case (Suc f)
  obtain g where g: "f' = Suc g" using Suc(3) by (cases f') auto
  have "read_elems (DecodeOne_fuel f) d n (1 + delta) [] = read_elems (DecodeOne_fuel g) d n (1 + delta) []"
    if "0 < snd d" "readLength s = Inr (c, delta)" for n s c delta
  proof (rule read_elems_cong)
    show "DecodeOne_fuel f s' = DecodeOne_fuel g s'" if "snd s' < snd d" for s'
      using that Suc(2,3) by (intro Suc(1)) (simp_all add: g)
    show "0 < 1 + delta" using readLength_delta [OF that(2)] by simp
  qed (use that DecodeOne_fuel_delta in auto)
  then show ?case unfolding g
    by (simp only: DecodeOne_fuel.simps) (auto intro!: obind_cong split: if_splits)
qed simp

section \<open>Replies\<close>

lemma scan_line_append: "CR \<notin> set s \<Longrightarrow> scan_line (s @ CR # rest) = Inr s"
  by (induction s) auto

lemma readInt64_loop_FormatNat:
  "readInt64_loop (FormatNat n @ cs) pos 0 = readInt64_loop cs (pos + int (length (FormatNat n))) (of_nat n)"
proof (induction n arbitrary: cs rule: FormatNat.induct)
  case (1 n)
  show ?case
  proof (cases "n < 10")
    case True
    then show ?thesis
      by (subst (1 2) FormatNat.simps) (simp add: digit_char_not_CR byte_digit_digit_char)
  next
    case False
    have u: "FormatNat n = FormatNat (n div 10) @ [digit_char (n mod 10)]"
      using False by (subst FormatNat.simps) simp
    have "(of_nat (n div 10) * 10 + of_int (int (n mod 10)) :: int64) = of_nat (n div 10 * 10 + n mod 10)"
      by (simp only: of_nat_add of_nat_mult of_int_of_nat_eq of_nat_numeral)
    then have "(of_nat (n div 10) * 10 + of_int (int (n mod 10)) :: int64) = of_nat n" by simp
    then show ?thesis
      using 1(1) [OF False, of "digit_char (n mod 10) # cs"]
      unfolding u by (simp add: digit_char_not_CR byte_digit_digit_char ac_simps)
  qed
qed

lemma readBulkString_bulk:
  assumes "slice_bytes d = bulk w @ post" "snd d \<le> length (fst d)" "snd d < 2 ^ 61"
  shows "readBulkString d = Inr (w, int (length (bulk w)))"
proof -
  let ?F = "FormatNat (length w)"
  have "length (slice_bytes d) = snd d" using assms(2) by (simp add: slice_bytes_def)
  then have l: "length (bulk w) < 2 ^ 61" using assms(1,3) by simp
  then have w: "length w < 2 ^ 61" by (simp add: bulk_def)
  then have b: "bulk w = CHR ''$'' # ?F @ CRLF @ w @ CRLF" by (intro bulk_eq) simp
  have s1: "slice_bytes d = [CHR ''$''] @ ?F @ CRLF @ w @ CRLF @ post" using assms(1) b by simp
  have s2: "slice_bytes d = (CHR ''$'' # ?F @ CRLF) @ w @ CRLF @ post" using assms(1) b by simp
  note f = slice_bytes_from [OF s1 assms(2)]
  have r: "readLength (drop 1 (fst d), snd d - 1) = Inr (int (length w), int (length ?F) + 2)"
    by (rule readLength_FormatNat) (use f w in simp_all)
  let ?p = "1 + (int (length ?F) + 2)"
  have "wrap64 (?p + int (length w)) = ?p + int (length w)" using l by (intro wrap64_id) (simp_all add: b CRLF_def)
  moreover have "?p = int (length (CHR ''$'' # ?F @ CRLF))" by (simp add: CRLF_def)
  ultimately have t: "slice_string d ?p (wrap64 (?p + int (length w))) = Inr w"
    using slice_string_pos [OF s2 assms(2)] by simp
  have n: "?p + int (length w) + 2 = int (length (bulk w))" by (simp add: b CRLF_def)
  show ?thesis using f r t n by (simp add: readBulkString_def Let_def ac_simps)
qed

fun dvalue_of :: "goval \<Rightarrow> bool \<Rightarrow> dvalue option" where
  \<comment> \<open>the value that a reply stands for, where the decoder can tell: a simple string or an error
    without a carriage return, an integer that is not negative\<close>
  "dvalue_of (GoString v) isSimple = (if isSimple \<and> CR \<in> set v then None else Some (DString v))"
| "dvalue_of (GoInt64 v) isSimple = (if 0 \<le> sint v then Some (DInt v) else None)"
| "dvalue_of (GoInt v) isSimple = (if 0 \<le> sint v then Some (DInt v) else None)"
| "dvalue_of (GoInt32 v) isSimple = (if 0 \<le> sint v then Some (DInt (scast v)) else None)"
| "dvalue_of (GoUint v) isSimple = Some (DInt v)"
| "dvalue_of (GoStrings v) isSimple = (if int (length v) \<le> max_elems then Some (DArray (map DString v)) else None)"
| "dvalue_of (GoError msg) isSimple = (if CR \<in> set msg then None else Some (DString msg))"
| "dvalue_of GoOther isSimple = None"

lemma byte_at_0: "slice_bytes d = c # post \<Longrightarrow> snd d \<le> length (fst d) \<Longrightarrow> byte_at d 0 = Inr c \<and> snd d \<noteq> 0"
  using byte_at_pos [of d "[]" c post] by (cases "snd d") (auto simp: slice_bytes_def)

lemma decode_line:
  assumes "slice_bytes d = c # s @ CRLF @ post" "snd d \<le> length (fst d)" "CR \<notin> set s"
  shows "readSimpleString d = Inr (s, int (length (c # s @ CRLF)))"
  using scan_line_append [OF assms(3), of "CHR 0x0A # post"]
  by (simp add: readSimpleString_def assms(1) CRLF_def CR_def)

lemma decode_uint:
  assumes "slice_bytes d = c # FormatNat n @ CRLF @ post"
  shows "readInt64 d = Inr (of_nat n, int (length (c # FormatNat n @ CRLF)))"
  using readInt64_loop_FormatNat [of n "CRLF @ post" 1]
  by (simp add: readInt64_def assms CRLF_def CR_def ac_simps)

lemma decode_int:
  assumes "slice_bytes d = c # FormatInt v @ CRLF @ post" "0 \<le> sint v"
  shows "readInt64 d = Inr (v, int (length (c # FormatInt v @ CRLF)))"
proof -
  have f: "FormatInt v = FormatNat (nat (sint v))" using assms(2) by (simp add: FormatInt_def)
  have "(of_nat (nat (sint v)) :: int64) = of_int (sint v)" using assms(2) by simp
  then have "(of_nat (nat (sint v)) :: int64) = v" by (simp only: of_int_sint scast_id)
  then show ?thesis using decode_uint [of d c "nat (sint v)" post] assms(1) f by simp
qed

lemma decode_elems:
  assumes "slice_bytes d = pre @ concat (map bulk ws) @ post" "snd d \<le> length (fst d)" "snd d < 2 ^ 61" "0 < f"
  shows "read_elems (DecodeOne_fuel f) d (length ws) (int (length pre)) elems =
    Inr (DArray (elems @ map DString ws), int (length (pre @ concat (map bulk ws))), None)"
  using assms(1)
proof (induction ws arbitrary: pre elems)
  case Nil
  then show ?case by simp
next
  case (Cons w ws)
  let ?d = "(drop (length pre) (fst d), snd d - length pre)"
  have s: "slice_bytes d = pre @ (bulk w @ concat (map bulk ws) @ post)" using Cons(2) by simp
  note f = slice_bytes_from [OF s assms(2)]
  have b: "readBulkString ?d = Inr (w, int (length (bulk w)))"
    by (rule readBulkString_bulk) (use f assms(2,3) in simp_all)
  have "byte_at ?d 0 = Inr (CHR ''$'') \<and> snd ?d \<noteq> 0"
    using byte_at_0 [of ?d "CHR ''$''"] f assms(2) by (simp add: bulk_def)
  moreover obtain g where "f = Suc g" using assms(4) by (cases f) auto
  ultimately have "DecodeOne_fuel f ?d = Inr (DString w, int (length (bulk w)), None)" using b by simp
  then show ?case
    using f Cons(1) [of "pre @ bulk w" "elems @ [DString w]"] Cons(2) by simp
qed

lemma decode_array:
  assumes "slice_bytes d = Encode (GoStrings ws) b @ post" "snd d \<le> length (fst d)" "snd d < 2 ^ 61" "int (length ws) \<le> max_elems"
  shows "DecodeOne d = Inr (DArray (map DString ws), int (length (Encode (GoStrings ws) b)), None)"
proof -
  let ?F = "FormatNat (length ws)" and ?C = "concat (map bulk ws)"
  have "length ws < 2 ^ 63" using assms(4) by (simp add: max_elems_def)
  then have e: "Encode (GoStrings ws) b = CHR ''*'' # ?F @ CRLF @ ?C" by (simp add: FormatInt_of_nat)
  have s1: "slice_bytes d = [CHR ''*''] @ ?F @ CRLF @ ?C @ post" using assms(1) e by simp
  have s2: "slice_bytes d = (CHR ''*'' # ?F @ CRLF) @ ?C @ post" using assms(1) e by simp
  note f = slice_bytes_from [OF s1 assms(2)]
  have "length ws < 2 ^ 63" using assms(4) by (simp add: max_elems_def)
  then have r: "readLength (drop 1 (fst d), snd d - 1) = Inr (int (length ws), int (length ?F) + 2)"
    by (rule readLength_FormatNat) (use f in simp)
  have c: "byte_at d 0 = Inr (CHR ''*'') \<and> snd d \<noteq> 0" by (rule byte_at_0) (use s1 assms(2) in simp_all)
  have p: "1 + (int (length ?F) + 2) = int (length (CHR ''*'' # ?F @ CRLF))" by (simp add: CRLF_def)
  have el: "read_elems (DecodeOne_fuel (snd d)) d (length ws) (1 + (int (length ?F) + 2)) [] =
    Inr (DArray (map DString ws), int (length (Encode (GoStrings ws) b)), None)"
    unfolding p e using decode_elems [OF s2 assms(2,3), of "snd d" "[]"] c by simp
  show ?thesis
    using c f r el assms(4) by (simp add: DecodeOne_def)
qed

section \<open>The properties\<close>

lemma decode_pipeline:
  assumes "\<forall>ws \<in> set css. ws \<noteq> []" "css \<noteq> []"
    "input = concat (map encode_command css)" "length input < 2 ^ 61"
  shows "DecodeCommands uni (input @ stale_bytes, length input) = Inr (map (parsed_of uni) css, None)"
proof -
  have "input \<noteq> []" using assms(2,3) by (cases css) (auto simp: encode_command_def)
  then show ?thesis
    using commands_loop_pipeline [of "(input @ stale_bytes, length input)" "[]" css uni "[]"] assms
    by (simp add: DecodeCommands_def slice_bytes_def)
qed

text \<open>C29: framing: whatever commands a client pipelines into one buffer, each of at least one
  word and each word an arbitrary byte string (carriage returns included),
  \<open>DecodeCommands\<close> returns exactly these commands in order, the name in upper case, without
  an error or a panic, and independently of what the buffer holds beyond the data.\<close>

theorem DecodeCommands_pipeline:
  assumes "\<forall>ws \<in> set css. ws \<noteq> []" "css \<noteq> []"
    "input = concat (map encode_command css)" "length input < 2 ^ 61"
  shows "DecodeCommands uni (input @ stale_bytes, length input) = Inr (map (parsed_of uni) css, None)"
  using assms by (rule decode_pipeline)

lemma DecodeCommands_pipeline_witness:
  "DecodeCommands (\<lambda>s. s) (concat (map encode_command [[''ping''], [''set'', ''k'', ''v'']]) @ ''junk'',
     length (concat (map encode_command [[''ping''], [''set'', ''k'', ''v'']]))) =
   Inr ([(Some ''PING'', []), (Some ''SET'', [''k'', ''v''])], None)"
proof -
  have "length (concat (map encode_command [[''ping''], [''set'', ''k'', ''v'']])) < 2 ^ 61"
    by (simp add: encode_command_def bulk_def FormatInt_def FormatNat.simps CRLF_def)
  moreover have "map (parsed_of (\<lambda>s. s)) [[''ping''], [''set'', ''k'', ''v'']] = [(Some ''PING'', []), (Some ''SET'', [''k'', ''v''])]"
    by (simp add: parsed_of_def ToUpper_def is_ascii_def upper_byte_def char_of_def bit_Suc_0_iff Let_def)
  ultimately show ?thesis
    using DecodeCommands_pipeline [of "[[''ping''], [''set'', ''k'', ''v'']]" _ "\<lambda>s. s" "''junk''"] by simp
qed



text \<open>The fuel of the decoder's model is no limit: any fuel above the length of the input
  gives the result that \<open>DecodeOne\<close> is defined by, so the recursion on nested arrays ends on
  every input and the model is the code's recursion.\<close>

theorem DecodeOne_fuel_irrelevant:
  assumes "snd d < f"
  shows "DecodeOne_fuel f d = DecodeOne d"
  unfolding DecodeOne_def by (rule DecodeOne_fuel_enough) (use assms in simp_all)

lemma DecodeOne_fuel_irrelevant_witness: "DecodeOne_fuel 9 (as_slice ''+a'') = DecodeOne (as_slice ''+a'')"
  by (rule DecodeOne_fuel_irrelevant) (simp add: as_slice_def)

text \<open>\<open>DecodeCommands\<close> trusts its input: a truncated header panics the process, and a bulk
  length that reaches beyond the data is served from the previous contents of the pooled
  buffer, because a Go slice expression is checked against the capacity: \<open>GET\<close> cut off in the
  middle is completed with the bytes of an older request.\<close>

theorem DecodeCommands_trusts_lengths:
  "DecodeCommands uni (as_slice ''*1'') = Inl IndexOutOfRange \<and>
   DecodeCommands uni (''*2'' @ CRLF @ ''$3'' @ CRLF @ ''GET'' @ CRLF @ ''$6'' @ CRLF @ ''secret'' @ CRLF, 17)
     = Inr ([(Some ''GET'', [''secret''])], None)"
  by (simp add: DecodeCommands_def commands_loop.simps args_loop.simps as_slice_def byte_at_def slice_from_def
      readLength_def slice_bytes_def slice_string_def CR_def CRLF_def byte_digit_def wrap64_id ToUpper_def is_ascii_def
      upper_byte_def Let_def nth_Cons')

text \<open>\<open>readInt64\<close> does not read the sign that \<open>Encode\<close> writes: \<open>-1\<close> comes back as 2531.\<close>

theorem readInt64_ignores_sign:
  "DecodeOne (as_slice (Encode (GoInt64 (- 1)) False)) = Inr (DInt 2531, 5, None)"
  by (simp add: DecodeOne_def as_slice_def FormatInt_def FormatNat.simps CRLF_def byte_at_def readInt64_def
      slice_bytes_def CR_def byte_digit_def digit_char_def char_of_def bit_Suc_0_iff)

end
