(* ===== verification/Command.thy ===== *)
theory Command
  imports Eviction Resp
begin

text \<open>
  What the commands share: replies, the type assertions on a stored value, the look-up that
  creates a missing object (\<open>hashGetOrCreate\<close> and its siblings), and the vocabulary of their
  correctness. \<open>db_ok\<close> is the invariant with the key limit; \<open>evolves e ks d d'\<close> says that a
  step keeps it and changes no other visible key than those in \<open>ks\<close>, except that eviction
  may remove keys; \<open>served\<close> says of a command that it returns a reply, without a panic, in a
  state that evolved.
\<close>

type_synonym command = "env \<Rightarrow> string list \<Rightarrow> db \<Rightarrow> (string \<times> db) outcome"

section \<open>Replies\<close>

definition error_reply :: "string \<Rightarrow> string" where
  "error_reply msg = Encode (GoError msg) False"

definition int_reply :: "int \<Rightarrow> string" where
  \<comment> \<open>\<open>Encode(int64(n), false)\<close>\<close>
  "int_reply n = Encode (GoInt64 (of_int n)) False"

definition array_reply :: "string list \<Rightarrow> string" where
  "array_reply xs = Encode (GoStrings xs) False"

definition wrongtype_reply :: string where
  "wrongtype_reply = error_reply ''WRONGTYPE Operation against a key holding the wrong kind of value''"

definition not_integer_reply :: string where
  "not_integer_reply = error_reply ''ERR value is not an integer or out of range''"

definition arity_reply :: "string \<Rightarrow> string" where
  "arity_reply c = error_reply (''ERR wrong number of arguments for '' @ [CHR 0x27] @ c @ [CHR 0x27] @ '' command'')"

section \<open>Type assertions on a stored value\<close>

definition as_str :: "gvalue \<Rightarrow> string outcome" where
  "as_str v = (case v of VStr s \<Rightarrow> Inr s | _ \<Rightarrow> Inl TypeAssertion)"

definition as_zip :: "gvalue \<Rightarrow> ZipList outcome" where
  "as_zip v = (case v of VZip z \<Rightarrow> Inr z | _ \<Rightarrow> Inl TypeAssertion)"

definition as_hash :: "gvalue \<Rightarrow> (string, string) gomap outcome" where
  "as_hash v = (case v of VHash m \<Rightarrow> Inr m | _ \<Rightarrow> Inl TypeAssertion)"

definition as_quick :: "gvalue \<Rightarrow> QuickList outcome" where
  "as_quick v = (case v of VQuick q \<Rightarrow> Inr q | _ \<Rightarrow> Inl TypeAssertion)"

definition as_intset :: "gvalue \<Rightarrow> IntSet outcome" where
  "as_intset v = (case v of VIntSet s \<Rightarrow> Inr s | _ \<Rightarrow> Inl TypeAssertion)"

definition as_set :: "gvalue \<Rightarrow> (string, unit) gomap outcome" where
  "as_set v = (case v of VSet m \<Rightarrow> Inr m | _ \<Rightarrow> Inl TypeAssertion)"

definition as_zset :: "gvalue \<Rightarrow> ZSet outcome" where
  "as_zset v = (case v of VZSet z \<Rightarrow> Inr z | _ \<Rightarrow> Inl TypeAssertion)"

lemmas as_defs = as_str_def as_zip_def as_hash_def as_quick_def as_intset_def as_set_def as_zset_def

lemma as_simps [simp]:
  "as_str (VStr s) = Inr s" "as_zip (VZip z) = Inr z" "as_hash (VHash m) = Inr m" "as_quick (VQuick q) = Inr q"
  "as_intset (VIntSet i) = Inr i" "as_set (VSet t) = Inr t" "as_zset (VZSet x) = Inr x"
  by (simp_all add: as_defs)

text \<open>On a well-formed object the type byte decides the dynamic type of the value.\<close>

lemma type_consts:
  "getType (or OBJ_TYPE_HASH OBJ_ENCODING_ZIPLIST) = OBJ_TYPE_HASH" "getType (or OBJ_TYPE_HASH OBJ_ENCODING_HT) = OBJ_TYPE_HASH"
  "getType (or OBJ_TYPE_LIST OBJ_ENCODING_QUICKLIST) = OBJ_TYPE_LIST" "getType (or OBJ_TYPE_SET OBJ_ENCODING_INTSET) = OBJ_TYPE_SET"
  "getType (or OBJ_TYPE_SET OBJ_ENCODING_HT) = OBJ_TYPE_SET" "getType (or OBJ_TYPE_ZSET OBJ_ENCODING_SKIPLIST) = OBJ_TYPE_ZSET"
  "getEncoding (or OBJ_TYPE_HASH OBJ_ENCODING_ZIPLIST) = OBJ_ENCODING_ZIPLIST" "getEncoding (or OBJ_TYPE_HASH OBJ_ENCODING_HT) = OBJ_ENCODING_HT"
  "getEncoding (or OBJ_TYPE_LIST OBJ_ENCODING_QUICKLIST) = OBJ_ENCODING_QUICKLIST" "getEncoding (or OBJ_TYPE_SET OBJ_ENCODING_INTSET) = OBJ_ENCODING_INTSET"
  "getEncoding (or OBJ_TYPE_SET OBJ_ENCODING_HT) = OBJ_ENCODING_HT" "getEncoding (or OBJ_TYPE_ZSET OBJ_ENCODING_SKIPLIST) = OBJ_ENCODING_SKIPLIST"
  "getType (or OBJ_TYPE_STRING OBJ_ENCODING_INT) = OBJ_TYPE_STRING" "getEncoding (or OBJ_TYPE_STRING OBJ_ENCODING_INT) = OBJ_ENCODING_INT"
  "getType (or OBJ_TYPE_STRING OBJ_ENCODING_RAW) = OBJ_TYPE_STRING" "getEncoding (or OBJ_TYPE_STRING OBJ_ENCODING_RAW) = OBJ_ENCODING_RAW"
  "getType (or OBJ_TYPE_STRING OBJ_ENCODING_EMBSTR) = OBJ_TYPE_STRING" "getEncoding (or OBJ_TYPE_STRING OBJ_ENCODING_EMBSTR) = OBJ_ENCODING_EMBSTR"
  by (simp_all add: obj_type_defs obj_encoding_defs getType_def getEncoding_def)

lemma type_neq [simp]:
  "OBJ_TYPE_STRING \<noteq> OBJ_TYPE_HASH" "OBJ_TYPE_STRING \<noteq> OBJ_TYPE_LIST" "OBJ_TYPE_STRING \<noteq> OBJ_TYPE_SET" "OBJ_TYPE_STRING \<noteq> OBJ_TYPE_ZSET"
  "OBJ_TYPE_HASH \<noteq> OBJ_TYPE_STRING" "OBJ_TYPE_HASH \<noteq> OBJ_TYPE_LIST" "OBJ_TYPE_HASH \<noteq> OBJ_TYPE_SET" "OBJ_TYPE_HASH \<noteq> OBJ_TYPE_ZSET"
  "OBJ_TYPE_LIST \<noteq> OBJ_TYPE_STRING" "OBJ_TYPE_LIST \<noteq> OBJ_TYPE_HASH" "OBJ_TYPE_LIST \<noteq> OBJ_TYPE_SET" "OBJ_TYPE_LIST \<noteq> OBJ_TYPE_ZSET"
  "OBJ_TYPE_SET \<noteq> OBJ_TYPE_STRING" "OBJ_TYPE_SET \<noteq> OBJ_TYPE_HASH" "OBJ_TYPE_SET \<noteq> OBJ_TYPE_LIST" "OBJ_TYPE_SET \<noteq> OBJ_TYPE_ZSET"
  "OBJ_TYPE_ZSET \<noteq> OBJ_TYPE_STRING" "OBJ_TYPE_ZSET \<noteq> OBJ_TYPE_HASH" "OBJ_TYPE_ZSET \<noteq> OBJ_TYPE_LIST" "OBJ_TYPE_ZSET \<noteq> OBJ_TYPE_SET"
  by (simp_all add: obj_type_defs)

lemma encoding_neq [simp]:
  "OBJ_ENCODING_ZIPLIST \<noteq> OBJ_ENCODING_HT" "OBJ_ENCODING_HT \<noteq> OBJ_ENCODING_ZIPLIST"
  "OBJ_ENCODING_INTSET \<noteq> OBJ_ENCODING_HT" "OBJ_ENCODING_HT \<noteq> OBJ_ENCODING_INTSET"
  "OBJ_ENCODING_RAW \<noteq> OBJ_ENCODING_INT" "OBJ_ENCODING_EMBSTR \<noteq> OBJ_ENCODING_INT"
  by (simp_all add: obj_encoding_defs)

lemma wf_string: "wf_value te v \<Longrightarrow> getType te = OBJ_TYPE_STRING \<Longrightarrow> \<exists>s. v = VStr s"
  by (cases v) (simp_all add: type_consts)

lemma wf_hash:
  "wf_value te v \<Longrightarrow> getType te = OBJ_TYPE_HASH \<Longrightarrow>
   (\<exists>z. v = VZip z \<and> te = or OBJ_TYPE_HASH OBJ_ENCODING_ZIPLIST \<and> zl_hash_inv z) \<or>
   (\<exists>m. v = VHash m \<and> te = or OBJ_TYPE_HASH OBJ_ENCODING_HT \<and> wf_gomap m)"
  by (cases v) (simp_all add: type_consts)

lemma wf_list:
  "wf_value te v \<Longrightarrow> getType te = OBJ_TYPE_LIST \<Longrightarrow>
   \<exists>q. v = VQuick q \<and> te = or OBJ_TYPE_LIST OBJ_ENCODING_QUICKLIST \<and> ql_inv q"
  by (cases v) (simp_all add: type_consts)

lemma wf_set:
  "wf_value te v \<Longrightarrow> getType te = OBJ_TYPE_SET \<Longrightarrow>
   (\<exists>i. v = VIntSet i \<and> te = or OBJ_TYPE_SET OBJ_ENCODING_INTSET \<and> intset_inv i) \<or>
   (\<exists>m. v = VSet m \<and> te = or OBJ_TYPE_SET OBJ_ENCODING_HT \<and> wf_gomap m)"
  by (cases v) (simp_all add: type_consts)

lemma wf_zset:
  "wf_value te v \<Longrightarrow> getType te = OBJ_TYPE_ZSET \<Longrightarrow>
   \<exists>z. v = VZSet z \<and> te = or OBJ_TYPE_ZSET OBJ_ENCODING_SKIPLIST \<and> zset_ok z"
  by (cases v) (simp_all add: type_consts)

section \<open>Steps that keep the database well-formed\<close>

definition db_ok :: "env \<Rightarrow> db \<Rightarrow> bool" where
  "db_ok e d \<longleftrightarrow> db_inv d \<and> StoreLen d \<le> KeysLimit (cfg e)"

definition evolves :: "env \<Rightarrow> string set \<Rightarrow> db \<Rightarrow> db \<Rightarrow> bool" where
  "evolves e ks d d' \<longleftrightarrow> db_ok e d' \<and> GlobalCachedTime d' = GlobalCachedTime d \<and>
     (\<forall>k. k \<notin> ks \<longrightarrow> lview d' k = lview d k \<or> lview d' k = None)"

definition served :: "env \<Rightarrow> string set \<Rightarrow> db \<Rightarrow> (string \<times> db) outcome \<Rightarrow> bool" where
  "served e ks d r \<longleftrightarrow> (case r of Inl _ \<Rightarrow> False | Inr (reply, d') \<Rightarrow> evolves e ks d d')"

lemma served_simps [simp]: "served e ks d (Inr (reply, d')) = evolves e ks d d'" "\<not> served e ks d (Inl p)"
  by (simp_all add: served_def)

lemma db_ok_inv: "db_ok e d \<Longrightarrow> db_inv d"
  by (simp add: db_ok_def)

lemma evolves_refl [simp, intro]: "db_ok e d \<Longrightarrow> evolves e ks d d"
  by (simp add: evolves_def)

lemma evolves_ok: "evolves e ks d d' \<Longrightarrow> db_ok e d'"
  by (simp add: evolves_def)

lemma evolves_inv: "evolves e ks d d' \<Longrightarrow> db_inv d'"
  by (simp add: evolves_def db_ok_def)

lemma evolves_trans: "evolves e ks d d1 \<Longrightarrow> evolves e ks d1 d2 \<Longrightarrow> evolves e ks d d2"
  unfolding evolves_def by metis

lemma evolves_mono: "evolves e ks d d' \<Longrightarrow> ks \<subseteq> ls \<Longrightarrow> evolves e ls d d'"
  unfolding evolves_def by (meson subsetD)

lemma served_trans: "evolves e ks d d1 \<Longrightarrow> served e ks d1 r \<Longrightarrow> served e ks d r"
  by (auto simp: served_def intro: evolves_trans split: sum.splits)

lemma served_mono: "served e ks d r \<Longrightarrow> ks \<subseteq> ls \<Longrightarrow> served e ls d r"
  by (auto simp: served_def intro: evolves_mono split: sum.splits)

lemma length_store_Get: "length (store (snd (Get k d))) \<le> length (store d)"
  by (auto simp: Get_def length_delete_le split: option.splits)

lemma evolves_Get [intro]:
  assumes "db_ok e d"
  shows "evolves e ks d (snd (Get k d))"
  using assms Get_inv [of d k] length_store_Get [of k d]
  by (auto simp: evolves_def db_ok_def StoreLen_def)

lemma evolves_Del [intro]:
  assumes "db_ok e d" "k \<in> ks"
  shows "evolves e ks d (fst (Del k d))"
  using assms delLocked_inv [of d k] lview_delLocked [of d k] length_delete_le [of k "store d"]
  by (auto simp: evolves_def db_ok_def StoreLen_def Del_def)

lemma evolves_set_value [intro]:
  assumes "db_ok e d" "map_of (store d) k = Some a" "wf_value te v" "k \<in> ks"
  shows "evolves e ks d (set_value a te v d)"
  using assms set_value_inv [of d te v a] lview_set_value [of d k a te v]
  by (auto simp: evolves_def db_ok_def StoreLen_def)

lemma evolves_ticked [intro]: "db_ok e d \<Longrightarrow> evolves e ks d (ticked d)"
  by (auto simp: evolves_def db_ok_def StoreLen_def ticked_inv) (simp add: ticked_def)

lemma lview_Put_frame:
  assumes "db_inv d" "held a d" "k' \<noteq> k"
  shows "lview (Put e k a d) k' = lview d k' \<or> lview (Put e k a d) k' = None"
proof -
  have "lview (make_room e d) \<subseteq>\<^sub>m lview d"
    using make_room_shrinks [OF assms(1), of e] by (simp add: shrinks_def)
  then have "lview (make_room e d) k' = lview d k' \<or> lview (make_room e d) k' = None"
    unfolding map_le_def by (metis domIff)
  then show ?thesis using assms(3) by (simp add: lview_Put [OF assms(1,2)])
qed

lemma evolves_NewObj_Put [intro]:
  assumes "db_ok e d" "config_ok (cfg e)" "wf_value (or ty enc) v" "k \<in> ks"
  shows "evolves e ks d (Put e k (fst (NewObj e v ms ty enc d)) (snd (NewObj e v ms ty enc d)))"
proof -
  let ?a = "fst (NewObj e v ms ty enc d)" and ?d = "snd (NewObj e v ms ty enc d)"
  note n = NewObj_spec [OF db_ok_inv [OF assms(1)], of e v ms ty enc]
  have n1: "db_inv ?d" "held ?a ?d" "wf_obj (objs ?d ?a)" "lview ?d = lview d" "StoreLen ?d = StoreLen d"
    "GlobalCachedTime ?d = GlobalCachedTime d"
    using n assms(3) by (simp_all add: wf_obj_def same_clock_def StoreLen_def)
  have "StoreLen (Put e k ?a ?d) \<le> KeysLimit (cfg e)"
    using Put_keeps_limit [OF n1(1), of e k ?a] assms(1,2) n1(5) by (simp add: db_ok_def config_ok_def StoreLen_def)
  moreover have "GlobalCachedTime (make_room e ?d) = GlobalCachedTime ?d"
    using make_room_shrinks [OF n1(1), of e] by (simp add: shrinks_def same_clock_def)
  moreover have "lview (Put e k ?a ?d) k' = lview d k' \<or> lview (Put e k ?a ?d) k' = None" if "k' \<notin> ks" for k'
  proof -
    have "k' \<noteq> k" using that assms(4) by blast
    then show ?thesis using lview_Put_frame [OF n1(1,2), of k' k e] n1(4) by simp
  qed
  ultimately show ?thesis
    using Put_inv [OF n1(1-3)] n1(6) by (simp add: evolves_def db_ok_def)
qed

section \<open>Look up or create\<close>

lemma Get_cases:
  assumes "db_ok e d"
  obtains (missing) d1 where "Get k d = (None, d1)" "evolves e ks d d1" "lview d k = None" "lview d1 = lview d"
  | (found) a d1 where "Get k d = (Some a, d1)" "evolves e ks d d1" "lview d1 = lview d"
      "map_of (store d1) k = Some a" "\<not> hasExpired d1 a" "lview d k = Some (obj_entry d1 a)"
      "wf_value (TypeEncoding (objs d1 a)) (Value (objs d1 a))"
proof (cases "fst (Get k d)")
  case None
  then obtain d1 where g: "Get k d = (None, d1)" by (cases "Get k d") auto
  show thesis
    by (rule missing [OF g])
      (use evolves_Get [OF assms, of ks k] g None lview_Get [OF db_ok_inv [OF assms], of k] Get_None_iff [of k d] in simp_all)
next
  case (Some a)
  then obtain d1 where g: "Get k d = (Some a, d1)" by (cases "Get k d") auto
  have "wf_obj (objs d a)" using Get_SomeD [OF Some] db_inv_wf_obj [OF db_ok_inv [OF assms], of k a] by simp
  then show thesis
    by (intro found [OF g])
      (use evolves_Get [OF assms, of ks k] g Get_SomeD [OF Some] in \<open>simp_all add: wf_obj_def\<close>)
qed

definition held_at :: "db \<Rightarrow> string \<Rightarrow> nat \<Rightarrow> bool" where
  "held_at d k a \<longleftrightarrow> map_of (store d) k = Some a \<and> \<not> hasExpired d a"

lemma lview_held_at: "held_at d k a \<Longrightarrow> lview d k = Some (obj_entry d a)"
  by (simp add: held_at_def lview_def)

lemma set_value_held_at [simp]: "held_at (set_value a' te v d) k a = held_at d k a"
  by (simp add: held_at_def)

lemma obj_entry_set_value [simp]:
  "obj_entry (set_value a te v d) a = (te, v, map_of (expires d) a)"
  by (simp add: obj_entry_def)

lemma lview_update:
  "db_inv d \<Longrightarrow> held_at d k a \<Longrightarrow> lview (set_value a te v d) = (lview d)(k \<mapsto> (te, v, map_of (expires d) a))"
  by (auto simp: held_at_def lview_set_value fun_eq_iff)

lemma evolves_update:
  "db_ok e d \<Longrightarrow> held_at d k a \<Longrightarrow> wf_value te v \<Longrightarrow> k \<in> ks \<Longrightarrow> evolves e ks d (set_value a te v d)"
  by (rule evolves_set_value) (simp_all add: held_at_def)

definition create ::
  "env \<Rightarrow> uint8 \<Rightarrow> uint8 \<Rightarrow> gvalue \<Rightarrow> string \<Rightarrow> db \<Rightarrow> nat \<times> db" where
  \<comment> \<open>\<open>obj = NewObj(v, -1, ty, enc); Put(key, obj)\<close>\<close>
  "create e ty enc v ky d = (let (obj, d1) = NewObj e v (- 1) ty enc d in (obj, Put e ky obj d1))"

lemma create_spec:
  assumes "db_ok e d" "config_ok (cfg e)" "wf_value (or ty enc) v"
  obtains a d1 where "create e ty enc v k d = (a, d1)" "evolves e {k} d d1" "held_at d1 k a"
    "obj_entry d1 a = (or ty enc, v, None)"
proof -
  let ?a = "fst (NewObj e v (- 1) ty enc d)" and ?d = "snd (NewObj e v (- 1) ty enc d)"
  note n = NewObj_spec [OF db_ok_inv [OF assms(1)], of e v "- 1" ty enc]
  have inv: "db_inv ?d" "held ?a ?d" using n by simp_all
  have m: "objs (make_room e ?d) ?a = objs ?d ?a" "map_of (expires (make_room e ?d)) ?a = map_of (expires ?d) ?a"
    using make_room_shrinks [OF inv(1), of e] inv(2) by (simp_all add: shrinks_def)
  have oe: "obj_entry (Put e k ?a ?d) ?a = (or ty enc, v, None)"
    using m n unfolding Put_make_room by (simp add: obj_entry_def touch_def)
  show thesis
  proof (rule that)
    show "create e ty enc v k d = (?a, Put e k ?a ?d)" by (simp add: create_def split: prod.splits)
    show "evolves e {k} d (Put e k ?a ?d)" by (rule evolves_NewObj_Put [OF assms]) simp
    have "map_of (store (Put e k ?a ?d)) k = Some ?a" unfolding Put_make_room by simp
    then show "held_at (Put e k ?a ?d) k ?a" using oe by (simp add: held_at_def obj_entry_def hasExpired_def)
    show "obj_entry (Put e k ?a ?d) ?a = (or ty enc, v, None)" by (rule oe)
  qed
qed

definition type_get_or_create ::
  "env \<Rightarrow> uint8 \<Rightarrow> uint8 \<Rightarrow> gvalue \<Rightarrow> string \<Rightarrow> db \<Rightarrow> nat option \<times> db" where
  \<comment> \<open>the body of \<open>hashGetOrCreate\<close>, \<open>listGetOrCreate\<close>, \<open>zsetGetOrCreate\<close>; \<open>None\<close>: the error reply\<close>
  "type_get_or_create e ty enc v ky d =
     (case Get ky d of
        (None, d1) \<Rightarrow> (let (obj, d2) = create e ty enc v ky d1 in (Some obj, d2))
      | (Some obj, d1) \<Rightarrow>
          if assertType (TypeEncoding (objs d1 obj)) ty \<noteq> None then (None, d1) else (Some obj, d1))"

definition entry_type :: "lentry \<Rightarrow> uint8" where
  "entry_type en = getType (fst en)"

lemma get_or_create_cases:
  assumes "db_ok e d" "config_ok (cfg e)" "wf_value (or ty enc) v" "getType (or ty enc) = ty"
  obtains (wrong) d1 en where "type_get_or_create e ty enc v k d = (None, d1)" "evolves e {k} d d1" "lview d1 = lview d"
      "lview d k = Some en" "entry_type en \<noteq> ty"
  | (new) a d1 where "type_get_or_create e ty enc v k d = (Some a, d1)" "evolves e {k} d d1" "lview d k = None"
      "held_at d1 k a" "obj_entry d1 a = (or ty enc, v, None)"
  | (old) a d1 where "type_get_or_create e ty enc v k d = (Some a, d1)" "evolves e {k} d d1" "lview d1 = lview d"
      "held_at d1 k a" "lview d k = Some (obj_entry d1 a)" "getType (TypeEncoding (objs d1 a)) = ty"
      "wf_value (TypeEncoding (objs d1 a)) (Value (objs d1 a))"
using assms(1)
proof (cases rule: Get_cases [where k = k and ks = "{k}"])
  case (missing d1)
  obtain a d2 where c: "create e ty enc v k d1 = (a, d2)" "evolves e {k} d1 d2" "held_at d2 k a"
    "obj_entry d2 a = (or ty enc, v, None)"
    by (rule create_spec [OF evolves_ok [OF missing(2)] assms(2,3)])
  show thesis
    by (rule new [of a d2]) (use missing c evolves_trans in \<open>auto simp: type_get_or_create_def\<close>)
next
  case (found a d1)
  show thesis
  proof (cases "getType (TypeEncoding (objs d1 a)) = ty")
    case True
    then show thesis
      by (intro old [of a d1]) (use found in \<open>simp_all add: type_get_or_create_def assertType_def held_at_def\<close>)
  next
    case False
    then show thesis
      by (intro wrong [of d1 "obj_entry d1 a"])
        (use found in \<open>simp_all add: type_get_or_create_def assertType_def entry_type_def obj_entry_def\<close>)
  qed
qed

section \<open>Commands on a container\<close>

definition typed_lookup ::
  "uint8 \<Rightarrow> string \<Rightarrow> string \<Rightarrow> (nat \<Rightarrow> db \<Rightarrow> (string \<times> db) outcome) \<Rightarrow> db \<Rightarrow> (string \<times> db) outcome" where
  \<comment> \<open>\<open>obj := Get(key)\<close>, the reply for a missing key, the type check\<close>
  "typed_lookup ty ky miss f d =
     (case Get ky d of
        (None, d) \<Rightarrow> Inr (miss, d)
      | (Some obj, d) \<Rightarrow>
          if assertType (TypeEncoding (objs d obj)) ty \<noteq> None then Inr (wrongtype_reply, d) else f obj d)"

definition set_val :: "nat \<Rightarrow> gvalue \<Rightarrow> db \<Rightarrow> db" where
  \<comment> \<open>\<open>obj.Value\<close> mutated, the type byte kept\<close>
  "set_val a v d = set_value a (TypeEncoding (objs d a)) v d"

text \<open>What a command on type \<open>ty\<close> finds under a key: the value and the expiry, \<open>VNil\<close> for a
  missing key, \<open>None\<close> for a key of another type.\<close>

definition slot :: "uint8 \<Rightarrow> lentry option \<Rightarrow> (gvalue \<times> uint64 option) option" where
  "slot ty en =
     (case en of
        None \<Rightarrow> Some (VNil, None)
      | Some (te, v, ex) \<Rightarrow> if getType te = ty then Some (v, ex) else None)"

definition stores ::
  "env \<Rightarrow> uint8 \<Rightarrow> string \<Rightarrow> (gvalue \<Rightarrow> bool) \<Rightarrow> uint64 option \<Rightarrow> db \<Rightarrow> db \<Rightarrow> bool" where
  \<comment> \<open>the step leaves a value \<open>P\<close> describes under the key, with expiry \<open>ex\<close>, and the other keys
    alone, unless it created the key and had to evict\<close>
  "stores e ty k P ex d d' \<longleftrightarrow>
     evolves e {k} d d' \<and> (\<exists>te v. lview d' k = Some (te, v, ex) \<and> getType te = ty \<and> P v) \<and>
     (lview d k \<noteq> None \<longrightarrow> (\<forall>k'. k' \<noteq> k \<longrightarrow> lview d' k' = lview d k'))"

lemma evolves_in: "evolves e {k} d d' \<Longrightarrow> k \<in> ks \<Longrightarrow> evolves e ks d d'"
  using evolves_mono [of e "{k}" d d' ks] by simp

lemma typed_lookup_cases:
  assumes "db_ok e d"
  obtains (missing) d1 where "\<And>miss f. typed_lookup ty k miss f d = Inr (miss, d1)" "evolves e {} d d1" "lview d1 = lview d"
      "lview d k = None" "slot ty (lview d k) = Some (VNil, None)"
  | (wrong) d1 where "\<And>miss f. typed_lookup ty k miss f d = Inr (wrongtype_reply, d1)" "evolves e {} d d1" "lview d1 = lview d"
      "slot ty (lview d k) = None"
  | (found) a d1 where "\<And>miss f. typed_lookup ty k miss f d = f a d1" "evolves e {} d d1" "lview d1 = lview d" "held_at d1 k a"
      "lview d k = Some (obj_entry d1 a)" "slot ty (lview d k) = Some (Value (objs d1 a), map_of (expires d1) a)"
      "getType (TypeEncoding (objs d1 a)) = ty" "wf_value (TypeEncoding (objs d1 a)) (Value (objs d1 a))"
using assms
proof (cases rule: Get_cases [where k = k and ks = "{}"])
  case m: (missing d1)
  then show thesis by (intro missing [of d1]) (simp_all add: typed_lookup_def slot_def)
next
  case f: (found a d1)
  show thesis
  proof (cases "getType (TypeEncoding (objs d1 a)) = ty")
    case True
    then show thesis
      by (intro found [of a d1]) (use f in \<open>simp_all add: typed_lookup_def assertType_def held_at_def slot_def obj_entry_def\<close>)
  next
    case False
    then show thesis
      by (intro wrong [of d1]) (use f in \<open>simp_all add: typed_lookup_def assertType_def slot_def obj_entry_def\<close>)
  qed
qed

lemma served_typed_lookup:
  assumes "db_ok e d"
    "\<And>a d1. evolves e ks d d1 \<Longrightarrow> held_at d1 k a \<Longrightarrow> getType (TypeEncoding (objs d1 a)) = ty \<Longrightarrow>
       wf_value (TypeEncoding (objs d1 a)) (Value (objs d1 a)) \<Longrightarrow> served e ks d (f a d1)"
  shows "served e ks d (typed_lookup ty k miss f d)"
  using assms(1)
proof (cases rule: typed_lookup_cases [where ty = ty and k = k])
  case (found a d1)
  then show ?thesis using assms(2) [of d1 a] evolves_mono [OF found(2), of ks] by simp
qed (auto intro: evolves_mono)

lemma get_or_create_slot:
  assumes "db_ok e d" "config_ok (cfg e)" "wf_value (or ty enc) v" "getType (or ty enc) = ty" "view v = view VNil"
  obtains (wrong) d1 where "type_get_or_create e ty enc v k d = (None, d1)" "evolves e {k} d d1" "lview d1 = lview d"
      "slot ty (lview d k) = None"
  | (obj) a d1 v0 where "type_get_or_create e ty enc v k d = (Some a, d1)" "evolves e {k} d d1" "held_at d1 k a"
      "slot ty (lview d k) = Some (v0, map_of (expires d1) a)" "view (Value (objs d1 a)) = view v0"
      "getType (TypeEncoding (objs d1 a)) = ty" "wf_value (TypeEncoding (objs d1 a)) (Value (objs d1 a))"
      "lview d k \<noteq> None \<longrightarrow> lview d1 = lview d"
using assms(1-4)
proof (cases rule: get_or_create_cases [where k = k])
  case w: (wrong d1 en)
  then show thesis by (intro wrong [of d1]) (auto simp: slot_def entry_type_def split: prod.splits)
next
  case (new a d1)
  then show thesis
    by (intro obj [of a d1 VNil]) (use assms(3-5) in \<open>simp_all add: slot_def obj_entry_def\<close>)
next
  case (old a d1)
  then show thesis
    by (intro obj [of a d1 "Value (objs d1 a)"]) (simp_all add: slot_def obj_entry_def)
qed

lemma set_value_again [simp]: "set_value a te v (set_value a te' v' d) = set_value a te v d"
  by (simp add: set_value_def)

lemma slot_present: "slot ty (lview d k) = Some (v, ex) \<Longrightarrow> v \<noteq> VNil \<Longrightarrow> lview d k \<noteq> None"
  by (cases "lview d k") (simp_all add: slot_def)

lemma slot_cases:
  obtains "slot ty en = None" | v0 ex where "slot ty en = Some (v0, ex)"
  by (cases "slot ty en") auto

lemma set_value_same: "TypeEncoding (objs d a) = te \<Longrightarrow> Value (objs d a) = v \<Longrightarrow> set_value a te v d = d"
  by (auto simp: set_value_def)

lemma stores_update:
  assumes "evolves e {k} d d1" "held_at d1 k a" "lview d k \<noteq> None \<longrightarrow> lview d1 = lview d" "wf_value te v" "getType te = ty" "P v"
  shows "stores e ty k P (map_of (expires d1) a) d (set_value a te v d1)"
  using assms evolves_trans [OF assms(1) evolves_update [OF evolves_ok [OF assms(1)] assms(2,4), of "{k}"]]
    lview_update [OF evolves_inv [OF assms(1)] assms(2)]
  by (simp add: stores_def)

lemma stores_evolves: "stores e ty k P ex d d' \<Longrightarrow> evolves e {k} d d'"
  by (simp add: stores_def)

text \<open>A command that takes elements away: the key goes with the last of them.\<close>

definition leaves ::
  "env \<Rightarrow> uint8 \<Rightarrow> string \<Rightarrow> bool \<Rightarrow> (gvalue \<Rightarrow> bool) \<Rightarrow> uint64 option \<Rightarrow> db \<Rightarrow> db \<Rightarrow> bool" where
  "leaves e ty k emp P ex d d' \<longleftrightarrow>
     (if emp then evolves e {k} d d' \<and> lview d' = (lview d)(k := None) else stores e ty k P ex d d')"

lemma leaves_update:
  assumes "evolves e {k} d d1" "held_at d1 k a" "lview d1 = lview d" "wf_value te v" "getType te = ty" "emp \<or> P v"
  shows "leaves e ty k emp P (map_of (expires d1) a) d
    (if emp then fst (Del k (set_value a te v d1)) else set_value a te v d1)"
proof -
  let ?d = "set_value a te v d1"
  have ev: "evolves e {k} d ?d"
    by (rule evolves_trans [OF assms(1) evolves_update [OF evolves_ok [OF assms(1)] assms(2,4)]]) simp
  have "evolves e {k} d (fst (Del k ?d))"
    by (rule evolves_trans [OF ev evolves_Del [OF evolves_ok [OF ev]]]) simp
  moreover have "lview (fst (Del k ?d)) = (lview d)(k := None)"
    using lview_Del [OF evolves_inv [OF ev], of k] lview_update [OF evolves_inv [OF assms(1)] assms(2), of te v] assms(3)
    by simp
  ultimately show ?thesis using assms by (auto simp: leaves_def intro: stores_update)
qed

lemma leaves_evolves: "leaves e ty k emp P ex d d' \<Longrightarrow> evolves e {k} d d'"
  by (auto simp: leaves_def stores_def split: if_splits)

lemma leaves_nothing: "lview d k = None \<Longrightarrow> evolves e {k} d d1 \<Longrightarrow> lview d1 = lview d \<Longrightarrow> leaves e ty k True P ex d d1"
  by (auto simp: leaves_def)

lemma int_reply_simps [simp]: "int_reply 0 = RESP_ZERO" "int_reply 1 = RESP_ONE"
  by (simp_all add: int_reply_def resp_consts FormatInt_def FormatNat.simps digit_char_def char_of_def bit_Suc_0_iff)

text \<open>The pairs of a finite map in some order, as a command that lists them replies.\<close>

definition enumerates :: "('k \<times> 'v) list \<Rightarrow> ('k \<rightharpoonup> 'v) \<Rightarrow> bool" where
  "enumerates ps m \<longleftrightarrow> distinct (map fst ps) \<and> map_of ps = m"

lemma typed_reader:
  assumes "db_ok e d"
    and miss: "Q VNil miss"
    and found: "\<And>a d1. wf_value (TypeEncoding (objs d1 a)) (Value (objs d1 a)) \<Longrightarrow>
      getType (TypeEncoding (objs d1 a)) = ty \<Longrightarrow>
      \<exists>r. f a d1 = Inr (r, d1) \<and> Q (Value (objs d1 a)) r \<or> f a d1 = Inr (r, ticked d1) \<and> Q (Value (objs d1 a)) r"
  shows "\<exists>r d1. typed_lookup ty k miss f d = Inr (r, d1) \<and> evolves e {} d d1 \<and> lview d1 = lview d \<and>
    (case slot ty (lview d k) of None \<Rightarrow> r = wrongtype_reply | Some (v0, ex) \<Rightarrow> Q v0 r)"
  using assms(1)
proof (cases rule: typed_lookup_cases [where ty = ty and k = k])
  case (missing d1)
  then show ?thesis using miss by (intro exI [of _ miss] exI [of _ d1]) simp
next
  case (wrong d1)
  then show ?thesis by (intro exI [of _ wrongtype_reply] exI [of _ d1]) simp
next
  case f: (found a d1)
  have t: "evolves e {} d (ticked d1)" "lview (ticked d1) = lview d"
    using evolves_trans [OF f(2) evolves_ticked [OF evolves_ok [OF f(2)]]] f(3) by simp_all
  from found [OF f(8,7)] obtain r where "f a d1 = Inr (r, d1) \<or> f a d1 = Inr (r, ticked d1)" "Q (Value (objs d1 a)) r" by blast
  then show ?thesis using f(1-3,6) t by auto
qed

lemma map_of_graph: "map_of (map (\<lambda>k. (k, g k)) ks) x = (if x \<in> set ks then Some (g x) else None)"
  by (induction ks) auto

lemma drop_evolves: "\<exists>r d1. A r d1 \<and> B r d1 \<and> C r d1 \<Longrightarrow> \<exists>r d1. A r d1 \<and> C r d1"
  by auto

lemma served_viewI:
  assumes "\<exists>r d1. c = Inr (r, d1) \<and> evolves e {} d d1 \<and> Q r d1"
  shows "served e ks d c"
  using assms evolves_mono [of e "{}" d _ ks] by auto

lemmas evolves_parts = evolves_in stores_evolves [THEN evolves_in] leaves_evolves [THEN evolves_in]

lemma length_1_conv: "length xs = 1 \<longleftrightarrow> (\<exists>x. xs = [x])"
  by (auto simp: length_Suc_conv)

lemma length_2_conv: "length xs = 2 \<longleftrightarrow> (\<exists>x y. xs = [x, y])"
  by (auto simp: length_Suc_conv eval_nat_numeral)

lemma init_db_lview [simp]: "lview (init_db t u) = Map.empty"
  by (simp add: lview_def init_db_def fun_eq_iff)

end
