(* ===== verification/EvalHash.thy ===== *)
theory EvalHash
  imports Command
begin

text \<open>
  The hash commands of \<open>core/eval_hash.go\<close>. A hash is a ziplist or, once promoted, a Go map;
  every command switches on the encoding nibble. Both representations keep the contract
  \<open>field_store\<close> of a finite map, in which the loops over the arguments are proved once;
  \<open>zf\<close> and \<open>hf\<close> are its interpretations on the two.
\<close>

section \<open>The two representations\<close>

definition ht_get :: "(string, string) gomap \<Rightarrow> string \<Rightarrow> string \<times> bool" where
  \<comment> \<open>\<open>val, ok := ht[field]\<close>\<close>
  "ht_get m f = (case map_of m f of None \<Rightarrow> ([], False) | Some v \<Rightarrow> (v, True))"

definition ht_set :: "(string, string) gomap \<Rightarrow> string \<Rightarrow> string \<Rightarrow> (string, string) gomap \<times> bool" where
  "ht_set m f v = (AList.update f v m, \<not> snd (ht_get m f))"

definition ht_del :: "(string, string) gomap \<Rightarrow> string \<Rightarrow> (string, string) gomap \<times> bool" where
  "ht_del m f = (if snd (ht_get m f) then (AList.delete f m, True) else (m, False))"

fun set_loop :: "('s \<Rightarrow> string \<Rightarrow> string \<Rightarrow> 's \<times> bool) \<Rightarrow> 's \<Rightarrow> string list \<Rightarrow> int \<Rightarrow> 's \<times> int" where
  \<comment> \<open>the loop of \<open>HSET\<close> over field and value\<close>
  "set_loop put st (f # v # rest) added =
     (let (st, new) = put st f v in set_loop put st rest (if new then added + 1 else added))"
| "set_loop put st _ added = (st, added)"

fun del_fields :: "('s \<Rightarrow> string \<Rightarrow> 's \<times> bool) \<Rightarrow> 's \<Rightarrow> string list \<Rightarrow> int \<Rightarrow> 's \<times> int" where
  \<comment> \<open>the loop of \<open>HDEL\<close> over the fields\<close>
  "del_fields del st [] deleted = (st, deleted)"
| "del_fields del st (f # fs) deleted =
     (let (st, found) = del st f in del_fields del st fs (if found then deleted + 1 else deleted))"

definition hash_switch ::
  "Obj \<Rightarrow> (ZipList \<Rightarrow> 'a outcome) \<Rightarrow> ((string, string) gomap \<Rightarrow> 'a outcome) \<Rightarrow> 'a \<Rightarrow> 'a outcome" where
  \<comment> \<open>\<open>switch getEncoding(obj.TypeEncoding)\<close> with the type assertion of each case\<close>
  "hash_switch obj f g dflt =
     (let enc = getEncoding (TypeEncoding obj) in
      if enc = OBJ_ENCODING_ZIPLIST then obind (as_zip (Value obj)) f
      else if enc = OBJ_ENCODING_HT then obind (as_hash (Value obj)) g
      else Inr dflt)"

section \<open>Creation, promotion\<close>

definition hashGetOrCreate :: "env \<Rightarrow> string \<Rightarrow> db \<Rightarrow> nat option \<times> db" where
  "hashGetOrCreate e ky d = type_get_or_create e OBJ_TYPE_HASH OBJ_ENCODING_ZIPLIST (VZip NewZipList) ky d"

definition hashPromoteToHashtable :: "nat \<Rightarrow> db \<Rightarrow> db outcome" where
  "hashPromoteToHashtable obj d =
     obind (as_zip (Value (objs d obj))) (\<lambda>z.
       Inr (set_value obj (or OBJ_TYPE_HASH OBJ_ENCODING_HT) (VHash (HashEntries z)) d))"

definition hashCheckPromote :: "env \<Rightarrow> nat \<Rightarrow> db \<Rightarrow> db outcome" where
  "hashCheckPromote e obj d =
     (if getEncoding (TypeEncoding (objs d obj)) \<noteq> OBJ_ENCODING_ZIPLIST then Inr d
      else obind (as_zip (Value (objs d obj))) (\<lambda>z.
        if HashMaxZiplistEntries (cfg e) < int (HashLen z) then hashPromoteToHashtable obj d
        else if list_ex (\<lambda>entry. HashMaxZiplistValue (cfg e) < int (length entry)) (HashGetAll z)
        then hashPromoteToHashtable obj d
        else Inr d))"

section \<open>The commands\<close>

definition evalHSET :: command where
  "evalHSET e args d =
     (if length args < 3 \<or> even (length args) then Inr (arity_reply ''hset'', d)
      else case hashGetOrCreate e (args ! 0) d of
        (None, d) \<Rightarrow> Inr (wrongtype_reply, d)
      | (Some obj, d) \<Rightarrow>
          obind (hash_switch (objs d obj)
            (\<lambda>z. let (z, added) = set_loop HashSet z (drop 1 args) 0 in Inr (VZip z, added))
            (\<lambda>m. let (m, added) = set_loop ht_set m (drop 1 args) 0 in Inr (VHash m, added))
            (Value (objs d obj), 0)) (\<lambda>(v, added).
          obind (hashCheckPromote e obj (set_val obj v d)) (\<lambda>d.
          Inr (int_reply added, d))))"

definition found_reply :: "string \<times> bool \<Rightarrow> string" where
  \<comment> \<open>\<open>val, ok\<close> of a look-up: the value as a bulk string, nil when it is missing\<close>
  "found_reply r = (if snd r then Encode (GoString (fst r)) False else RESP_NIL)"

definition evalHGET :: command where
  "evalHGET e args d =
     (if length args \<noteq> 2 then Inr (arity_reply ''hget'', d)
      else typed_lookup OBJ_TYPE_HASH (args ! 0) RESP_NIL (\<lambda>obj d.
        obind (hash_switch (objs d obj)
          (\<lambda>z. Inr (found_reply (HashGet z (args ! 1))))
          (\<lambda>m. Inr (found_reply (ht_get m (args ! 1)))) RESP_NIL) (\<lambda>reply. Inr (reply, d))) d)"

definition map_pairs :: "(string, string) gomap \<Rightarrow> string list \<Rightarrow> string list" where
  \<comment> \<open>\<open>result = append(result, k, v)\<close> in the order of the iteration\<close>
  "map_pairs m ks = concat (map (\<lambda>k. [k, fst (ht_get m k)]) ks)"

definition evalHGETALL :: command where
  "evalHGETALL e args d =
     (if length args \<noteq> 1 then Inr (arity_reply ''hgetall'', d)
      else typed_lookup OBJ_TYPE_HASH (args ! 0) (array_reply []) (\<lambda>obj d.
        obind (hash_switch (objs d obj)
          (\<lambda>z. Inr (HashGetAll z, d))
          (\<lambda>m. Inr (map_pairs m (iterate e d (map fst m)), ticked d)) ([], d)) (\<lambda>(result, d).
        Inr (array_reply result, d))) d)"

definition evalHDEL :: command where
  "evalHDEL e args d =
     (if length args < 2 then Inr (arity_reply ''hdel'', d)
      else typed_lookup OBJ_TYPE_HASH (args ! 0) RESP_ZERO (\<lambda>obj d.
        obind (hash_switch (objs d obj)
          (\<lambda>z. let (z, deleted) = del_fields HashDel z (drop 1 args) 0; d = set_val obj (VZip z) d
               in Inr (deleted, if HashLen z = 0 then fst (Del (args ! 0) d) else d))
          (\<lambda>m. let (m, deleted) = del_fields ht_del m (drop 1 args) 0; d = set_val obj (VHash m) d
               in Inr (deleted, if length m = 0 then fst (Del (args ! 0) d) else d)) (0, d)) (\<lambda>(deleted, d).
        Inr (int_reply deleted, d))) d)"

definition evalHLEN :: command where
  "evalHLEN e args d =
     (if length args \<noteq> 1 then Inr (arity_reply ''hlen'', d)
      else typed_lookup OBJ_TYPE_HASH (args ! 0) RESP_ZERO (\<lambda>obj d.
        obind (hash_switch (objs d obj)
          (\<lambda>z. Inr (int_reply (int (HashLen z)))) (\<lambda>m. Inr (int_reply (int (length m)))) RESP_ZERO)
        (\<lambda>reply. Inr (reply, d))) d)"

definition evalHEXISTS :: command where
  "evalHEXISTS e args d =
     (if length args \<noteq> 2 then Inr (arity_reply ''hexists'', d)
      else typed_lookup OBJ_TYPE_HASH (args ! 0) RESP_ZERO (\<lambda>obj d.
        obind (hash_switch (objs d obj)
          (\<lambda>z. Inr (HashExists z (args ! 1))) (\<lambda>m. Inr (snd (ht_get m (args ! 1)))) False)
        (\<lambda>ex. Inr (if ex then RESP_ONE else RESP_ZERO, d))) d)"

definition evalHKEYS :: command where
  "evalHKEYS e args d =
     (if length args \<noteq> 1 then Inr (arity_reply ''hkeys'', d)
      else typed_lookup OBJ_TYPE_HASH (args ! 0) (array_reply []) (\<lambda>obj d.
        obind (hash_switch (objs d obj)
          (\<lambda>z. Inr (HashKeys z, d)) (\<lambda>m. Inr (iterate e d (map fst m), ticked d)) ([], d)) (\<lambda>(ks, d).
        Inr (array_reply ks, d))) d)"

definition evalHVALS :: command where
  "evalHVALS e args d =
     (if length args \<noteq> 1 then Inr (arity_reply ''hvals'', d)
      else typed_lookup OBJ_TYPE_HASH (args ! 0) (array_reply []) (\<lambda>obj d.
        obind (hash_switch (objs d obj)
          (\<lambda>z. Inr (HashValues z, d))
          (\<lambda>m. Inr (map (\<lambda>k. fst (ht_get m k)) (iterate e d (map fst m)), ticked d)) ([], d)) (\<lambda>(vs, d).
        Inr (array_reply vs, d))) d)"

definition incr_field ::
  "('s \<Rightarrow> string \<Rightarrow> string \<times> bool) \<Rightarrow> ('s \<Rightarrow> string \<Rightarrow> string \<Rightarrow> 's \<times> bool) \<Rightarrow> 's \<Rightarrow> string \<Rightarrow> int64 \<Rightarrow> (int64 \<times> 's) option" where
  \<comment> \<open>one case of \<open>HINCRBY\<close>: the new value and store, \<open>None\<close> when the old value is no integer\<close>
  "incr_field get put st f incr =
     (case get st f of
        (valStr, True) \<Rightarrow>
          (case ParseInt valStr of
             (cur, Some err) \<Rightarrow> None
           | (cur, None) \<Rightarrow> Some (cur + incr, fst (put st f (FormatInt (cur + incr)))))
      | (valStr, False) \<Rightarrow> Some (0 + incr, fst (put st f (FormatInt (0 + incr)))))"

definition evalHINCRBY :: command where
  "evalHINCRBY e args d =
     (if length args \<noteq> 3 then Inr (arity_reply ''hincrby'', d)
      else case ParseInt (args ! 2) of
        (incr, Some err) \<Rightarrow> Inr (not_integer_reply, d)
      | (incr, None) \<Rightarrow>
          (case hashGetOrCreate e (args ! 0) d of
             (None, d) \<Rightarrow> Inr (wrongtype_reply, d)
           | (Some obj, d) \<Rightarrow>
               obind (hash_switch (objs d obj)
                 (\<lambda>z. Inr (map_option (\<lambda>(i, z). (i, VZip z)) (incr_field HashGet HashSet z (args ! 1) incr)))
                 (\<lambda>m. Inr (map_option (\<lambda>(i, m). (i, VHash m)) (incr_field ht_get ht_set m (args ! 1) incr)))
                 (Some (0, Value (objs d obj)))) (\<lambda>r.
               case r of
                 None \<Rightarrow> Inr (error_reply ''ERR hash value is not an integer'', d)
               | Some (i, v) \<Rightarrow>
                   obind (hashCheckPromote e obj (set_val obj v d)) (\<lambda>d. Inr (Encode (GoInt64 i) False, d)))))"

definition evalHSETNX :: command where
  "evalHSETNX e args d =
     (if length args \<noteq> 3 then Inr (arity_reply ''hsetnx'', d)
      else case hashGetOrCreate e (args ! 0) d of
        (None, d) \<Rightarrow> Inr (wrongtype_reply, d)
      | (Some obj, d) \<Rightarrow>
          obind (hash_switch (objs d obj)
            (\<lambda>z. Inr (if HashExists z (args ! 1) then None else Some (VZip (fst (HashSet z (args ! 1) (args ! 2))))))
            (\<lambda>m. Inr (if snd (ht_get m (args ! 1)) then None else Some (VHash (fst (ht_set m (args ! 1) (args ! 2))))))
            (Some (Value (objs d obj)))) (\<lambda>r.
          case r of
            None \<Rightarrow> Inr (RESP_ZERO, d)
          | Some v \<Rightarrow> obind (hashCheckPromote e obj (set_val obj v d)) (\<lambda>d. Inr (RESP_ONE, d))))"

section \<open>The contract of the two representations\<close>

locale field_store =
  fixes get :: "'s \<Rightarrow> string \<Rightarrow> string \<times> bool"
    and put :: "'s \<Rightarrow> string \<Rightarrow> string \<Rightarrow> 's \<times> bool"
    and del :: "'s \<Rightarrow> string \<Rightarrow> 's \<times> bool"
    and size_of :: "'s \<Rightarrow> nat"
    and inv :: "'s \<Rightarrow> bool"
    and abs :: "'s \<Rightarrow> string \<rightharpoonup> string"
  assumes get_abs: "inv st \<Longrightarrow> get st f = (case abs st f of None \<Rightarrow> ([], False) | Some v \<Rightarrow> (v, True))"
    and put_abs: "inv st \<Longrightarrow> inv (fst (put st f v)) \<and> abs (fst (put st f v)) = (abs st)(f \<mapsto> v) \<and>
      (snd (put st f v) \<longleftrightarrow> abs st f = None)"
    and del_abs: "inv st \<Longrightarrow> inv (fst (del st f)) \<and> abs (fst (del st f)) = (abs st)(f := None) \<and>
      (snd (del st f) \<longleftrightarrow> abs st f \<noteq> None)"
    and size_abs: "inv st \<Longrightarrow> finite (dom (abs st)) \<and> size_of st = card (dom (abs st))"
begin

lemma set_loop_abs:
  "inv st \<Longrightarrow> inv (fst (set_loop put st fvs n)) \<and>
   abs (fst (set_loop put st fvs n)) = abs st ++ map_of (rev (pairs fvs)) \<and>
   snd (set_loop put st fvs n) = n + int (size_of (fst (set_loop put st fvs n))) - int (size_of st)"
proof (induction fvs arbitrary: st n rule: pairs.induct)
  case (1 f v rest)
  obtain st1 new where p: "put st f v = (st1, new)" by force
  have a: "inv st1" "abs st1 = (abs st)(f \<mapsto> v)" "new \<longleftrightarrow> abs st f = None"
    using put_abs [OF 1(2), of f v] p by simp_all
  have "int (size_of st1) = int (size_of st) + (if new then 1 else 0)"
    using size_abs [OF 1(2)] size_abs [OF a(1)] a(2,3) by (auto simp: domIff insert_absorb)
  moreover have "abs st ++ map_of (rev (pairs (f # v # rest))) = abs st1 ++ map_of (rev (pairs rest))"
    by (simp add: a(2))
  ultimately show ?case using 1(1) [OF a(1)] a(3) p by (simp add: Let_def del: pairs.simps)
qed simp_all

lemma del_fields_abs:
  "inv st \<Longrightarrow> inv (fst (del_fields del st fs n)) \<and>
   abs (fst (del_fields del st fs n)) = abs st |` (- set fs) \<and>
   snd (del_fields del st fs n) = n + int (size_of st) - int (size_of (fst (del_fields del st fs n)))"
proof (induction fs arbitrary: st n)
  case (Cons f fs)
  obtain st1 found where p: "del st f = (st1, found)" by force
  have a: "inv st1" "abs st1 = (abs st)(f := None)" "found \<longleftrightarrow> abs st f \<noteq> None"
    using del_abs [OF Cons(2), of f] p by simp_all
  have "card (dom (abs st)) > 0" if "abs st f \<noteq> None"
    using that size_abs [OF Cons(2)] by (auto simp: card_gt_0_iff)
  then have "int (size_of st1) = int (size_of st) - (if found then 1 else 0)"
    using size_abs [OF Cons(2)] size_abs [OF a(1)] a(2,3) by (auto simp: domIff of_nat_diff)
  moreover have "(abs st)(f := None) |` (- set fs) = abs st |` (- set (f # fs))"
    by (auto simp: restrict_map_def)
  ultimately show ?case using Cons(1) [OF a(1), unfolded a(2)] a(3) p by (simp add: fun_upd_def)
qed (simp add: restrict_map_def)

lemma incr_field_abs:
  assumes "inv st"
  shows "incr_field get put st f i =
    (if abs st f \<noteq> None \<and> \<not> is_int (the (abs st f)) then None
     else Some ((if abs st f = None then 0 else int_value (the (abs st f))) + i,
            fst (put st f (FormatInt ((if abs st f = None then 0 else int_value (the (abs st f))) + i)))))"
  by (cases "abs st f"; cases "ParseInt (the (abs st f))")
    (auto simp: incr_field_def get_abs [OF assms] is_int_def int_value_def split: option.splits)

lemma size_zero_iff: "inv st \<Longrightarrow> size_of st = 0 \<longleftrightarrow> abs st = Map.empty"
  using size_abs by auto

lemma del_fields_result:
  assumes "inv st"
  obtains st' n where "del_fields del st fs 0 = (st', n)" "inv st'" "abs st' = abs st |` (- set fs)"
    "n = int (card (dom (abs st))) - int (card (dom (abs st')))" "size_of st' = 0 \<longleftrightarrow> abs st' = Map.empty"
proof -
  obtain st' n where r: "del_fields del st fs 0 = (st', n)" by force
  then have a: "inv st'" "abs st' = abs st |` (- set fs)" "n = int (size_of st) - int (size_of st')"
    using del_fields_abs [OF assms, of fs 0] by simp_all
  then show thesis
    using that [OF r a(1,2)] size_abs [OF assms] size_abs [OF a(1)] size_zero_iff [OF a(1)] by simp
qed

end

text \<open>The ziplist keeps the contract, and so does the Go map.\<close>

interpretation zf: field_store HashGet HashSet HashDel HashLen zl_hash_inv hash_of
  by unfold_locales
    (auto simp: HashGet_spec HashSet_inv HashSet_map HashSet_added HashDel_inv HashDel_map HashDel_found HashLen_card)

interpretation hf: field_store ht_get ht_set ht_del length wf_gomap map_of
  by unfold_locales
    (auto simp: ht_get_def ht_set_def ht_del_def wf_gomap_update wf_gomap_delete card_dom_gomap split: option.splits)

section \<open>A hash as a map\<close>

definition hash_view :: "gvalue \<Rightarrow> string \<rightharpoonup> string" where
  "hash_view v = (case v of VZip z \<Rightarrow> hash_of z | VHash m \<Rightarrow> map_of m | _ \<Rightarrow> Map.empty)"

definition hash_small :: "config \<Rightarrow> gvalue \<Rightarrow> bool" where
  \<comment> \<open>a value that is still a ziplist is within both thresholds of the promotion\<close>
  "hash_small c v =
     (case v of
        VZip z \<Rightarrow> int (HashLen z) \<le> HashMaxZiplistEntries c \<and> (\<forall>s \<in> set (entries z). int (length s) \<le> HashMaxZiplistValue c)
      | _ \<Rightarrow> True)"

lemma hash_switch_simps [simp]:
  "TypeEncoding obj = or OBJ_TYPE_HASH OBJ_ENCODING_ZIPLIST \<Longrightarrow> Value obj = VZip z \<Longrightarrow> hash_switch obj f g dflt = f z"
  "TypeEncoding obj = or OBJ_TYPE_HASH OBJ_ENCODING_HT \<Longrightarrow> Value obj = VHash m \<Longrightarrow> hash_switch obj f g dflt = g m"
  by (simp_all add: hash_switch_def type_consts)

lemma hash_cases:
  assumes "wf_value (TypeEncoding obj) (Value obj)" "getType (TypeEncoding obj) = OBJ_TYPE_HASH"
  obtains (zip) z where "Value obj = VZip z" "TypeEncoding obj = or OBJ_TYPE_HASH OBJ_ENCODING_ZIPLIST" "zl_hash_inv z"
  | (ht) m where "Value obj = VHash m" "TypeEncoding obj = or OBJ_TYPE_HASH OBJ_ENCODING_HT" "wf_gomap m"
  using wf_hash [OF assms] by auto

lemma wf_hash_values [simp]:
  "wf_value (or OBJ_TYPE_HASH OBJ_ENCODING_ZIPLIST) (VZip z) = zl_hash_inv z"
  "wf_value (or OBJ_TYPE_HASH OBJ_ENCODING_HT) (VHash m) = wf_gomap m"
  by simp_all

lemma hash_view_simps [simp]:
  "hash_view (VZip z) = hash_of z" "hash_view (VHash m) = map_of m" "hash_view VNil = Map.empty"
  by (simp_all add: hash_view_def)

lemma finite_hash_view [simp]: "finite (dom (hash_view v))"
  by (cases v) (simp_all add: hash_view_def finite_dom_map_of)

lemma hashCheckPromote_stores:
  assumes "evolves e {k} d d1" "held_at d1 k a" "lview d k \<noteq> None \<longrightarrow> lview d1 = lview d"
    "wf_value te v" "getType te = OBJ_TYPE_HASH"
  shows "\<exists>d2. hashCheckPromote e a (set_value a te v d1) = Inr d2 \<and>
    stores e OBJ_TYPE_HASH k (\<lambda>w. hash_view w = hash_view v \<and> hash_small (cfg e) w) (map_of (expires d1) a) d d2"
  using wf_hash [OF assms(4,5)]
proof (elim disjE exE conjE)
  fix z assume z: "v = VZip z" "te = or OBJ_TYPE_HASH OBJ_ENCODING_ZIPLIST" "zl_hash_inv z"
  show ?thesis
  proof (cases "hash_small (cfg e) v")
    case True
    then have "hashCheckPromote e a (set_value a te v d1) = Inr (set_value a te v d1)"
      using z by (auto simp: hashCheckPromote_def hash_small_def HashGetAll_def list_ex_iff)
    then show ?thesis using True assms by (auto intro: stores_update)
  next
    case False
    then have "hashCheckPromote e a (set_value a te v d1) =
        Inr (set_value a (or OBJ_TYPE_HASH OBJ_ENCODING_HT) (VHash (HashEntries z)) d1)"
      using z by (auto simp: hashCheckPromote_def hashPromoteToHashtable_def hash_small_def HashGetAll_def list_ex_iff type_consts)
    then show ?thesis using assms(1-3) z
      by (auto simp: type_consts HashEntries_wf HashEntries_map hash_small_def intro!: stores_update)
  qed
next
  fix m assume m: "v = VHash m" "te = or OBJ_TYPE_HASH OBJ_ENCODING_HT" "wf_gomap m"
  then have "hashCheckPromote e a (set_value a te v d1) = Inr (set_value a te v d1)"
    by (simp add: hashCheckPromote_def type_consts)
  then show ?thesis using assms m by (auto simp: hash_small_def intro: stores_update)
qed

lemma hashGetOrCreate_cases:
  assumes "db_ok e d" "config_ok (cfg e)"
  obtains (wrong) d1 where "hashGetOrCreate e k d = (None, d1)" "evolves e {k} d d1" "lview d1 = lview d"
      "slot OBJ_TYPE_HASH (lview d k) = None"
  | (obj) a d1 v0 where "hashGetOrCreate e k d = (Some a, d1)" "evolves e {k} d d1" "held_at d1 k a"
      "slot OBJ_TYPE_HASH (lview d k) = Some (v0, map_of (expires d1) a)" "hash_view (Value (objs d1 a)) = hash_view v0"
      "getType (TypeEncoding (objs d1 a)) = OBJ_TYPE_HASH" "wf_value (TypeEncoding (objs d1 a)) (Value (objs d1 a))"
      "lview d k \<noteq> None \<longrightarrow> lview d1 = lview d"
proof (cases rule: get_or_create_slot [OF assms, where ty = OBJ_TYPE_HASH and enc = OBJ_ENCODING_ZIPLIST
      and v = "VZip NewZipList" and view = hash_view and k = k])
qed (auto simp: hashGetOrCreate_def type_consts intro: wrong obj)

end
