(* ===== verification/EvalString.thy ===== *)
theory EvalString
  imports Command
begin

text \<open>
  The string, key and diagnostic commands of \<open>core/eval.go\<close>, one definition per \<open>eval\<close>
  function: the arity and option checks in the order of the code, every error reply, and
  the whole effect on the database. A loop over the arguments is a recursive function.

  For each command that changes the database the lemmas give its effect on the abstract
  database; the last section shows that all of them are \<open>served\<close>.
\<close>

section \<open>PING and the counters\<close>

definition evalPING :: command where
  "evalPING e args d =
     Inr (if 2 \<le> length args then arity_reply ''ping''
          else if length args = 0 then Encode (GoString ''PONG'') True
          else Encode (GoString (args ! 0)) False, d)"

definition counter_update :: "env \<Rightarrow> string \<Rightarrow> (int64 \<Rightarrow> int64) \<Rightarrow> db \<Rightarrow> (string \<times> db) outcome" where
  \<comment> \<open>what the four counters do after their arguments are checked\<close>
  "counter_update e ky f d =
     (let (obj, d) = (case Get ky d of
            (Some obj, d) \<Rightarrow> (obj, d)
          | (None, d) \<Rightarrow> create e OBJ_TYPE_STRING OBJ_ENCODING_INT (VStr ''0'') ky d) in
      case assertType (TypeEncoding (objs d obj)) OBJ_TYPE_STRING of
        Some err \<Rightarrow> Inr (error_reply err, d)
      | None \<Rightarrow>
          (case assertEncoding (TypeEncoding (objs d obj)) OBJ_ENCODING_INT of
             Some err \<Rightarrow> Inr (error_reply err, d)
           | None \<Rightarrow>
               obind (as_str (Value (objs d obj))) (\<lambda>s.
                 let i = f (fst (ParseInt s)) in
                 Inr (Encode (GoInt64 i) False, set_value obj (TypeEncoding (objs d obj)) (VStr (FormatInt i)) d))))"

definition evalINCR :: command where
  "evalINCR e args d =
     (if length args \<noteq> 1 then Inr (arity_reply ''incr'', d)
      else counter_update e (args ! 0) (\<lambda>i. i + 1) d)"

definition evalDECR :: command where
  "evalDECR e args d =
     (if length args \<noteq> 1 then Inr (arity_reply ''decr'', d)
      else counter_update e (args ! 0) (\<lambda>i. i - 1) d)"

definition evalINCRBY :: command where
  "evalINCRBY e args d =
     (if length args \<noteq> 2 then Inr (arity_reply ''incrby'', d)
      else case ParseInt (args ! 1) of
        (incr, Some err) \<Rightarrow> Inr (not_integer_reply, d)
      | (incr, None) \<Rightarrow> counter_update e (args ! 0) (\<lambda>i. i + incr) d)"

definition evalDECRBY :: command where
  "evalDECRBY e args d =
     (if length args \<noteq> 2 then Inr (arity_reply ''decrby'', d)
      else case ParseInt (args ! 1) of
        (decr, Some err) \<Rightarrow> Inr (not_integer_reply, d)
      | (decr, None) \<Rightarrow> counter_update e (args ! 0) (\<lambda>i. i - decr) d)"

section \<open>SET, GET and their plural forms\<close>

fun set_options :: "string list \<Rightarrow> int64 \<Rightarrow> string + int64" where
  \<comment> \<open>the loop over the arguments of \<open>SET\<close> after key and value: an error reply or \<open>exDurationMs\<close>\<close>
  "set_options [] exDurationMs = Inr exDurationMs"
| "set_options (opt # rest) exDurationMs =
     (if opt = ''EX'' \<or> opt = ''ex'' then
        (case rest of
           [] \<Rightarrow> Inl (error_reply ''(error) ERR syntax error'')
         | s # rest \<Rightarrow>
             (case ParseInt s of
                (sec, Some err) \<Rightarrow> Inl (error_reply ''(error) ERR valye is not an integerr or out of range '')
              | (sec, None) \<Rightarrow> set_options rest (sec * 1000)))
      else Inl (error_reply ''(error) ERR syntax error''))"

definition store_string :: "env \<Rightarrow> string \<Rightarrow> string \<Rightarrow> int64 \<Rightarrow> db \<Rightarrow> db" where
  \<comment> \<open>\<open>Put(key, NewObj(value, ms, deduceTypeEncoding(value)))\<close>\<close>
  "store_string e ky v ms d =
     (let (otype, oEnc) = deduceTypeEncoding v;
          (obj, d) = NewObj e (VStr v) ms otype oEnc d
      in Put e ky obj d)"

definition evalSET :: command where
  "evalSET e args d =
     (if length args \<le> 1 then
        Inr (error_reply (''(error) ERR wrong number of arguments for '' @ [CHR 0x27] @ ''set'' @ [CHR 0x27] @ '' commands''), d)
      else
        case set_options (drop 2 args) (- 1) of
          Inl err \<Rightarrow> Inr (err, d)
        | Inr ms \<Rightarrow> Inr (RESP_OK, store_string e (args ! 0) (args ! 1) ms d))"

definition value_reply :: "gvalue \<Rightarrow> string" where
  \<comment> \<open>\<open>Encode(obj.Value, false)\<close>\<close>
  "value_reply v = Encode (case v of VStr s \<Rightarrow> GoString s | _ \<Rightarrow> GoOther) False"

definition evalGET :: command where
  "evalGET e args d =
     (if length args \<noteq> 1 then Inr (error_reply ''(error) ERR wrong number of argments is passed bro'', d)
      else case Get (args ! 0) d of
        (None, d) \<Rightarrow> Inr (RESP_NIL, d)
      | (Some obj, d) \<Rightarrow> Inr (if hasExpired d obj then RESP_NIL else value_reply (Value (objs d obj)), d))"

fun mset_loop :: "env \<Rightarrow> string list \<Rightarrow> db \<Rightarrow> db" where
  "mset_loop e (ky # v # rest) d = mset_loop e rest (store_string e ky v (- 1) d)"
| "mset_loop e _ d = d"

definition evalMSET :: command where
  "evalMSET e args d =
     (if length args < 2 \<or> odd (length args) then Inr (arity_reply ''mset'', d)
      else Inr (RESP_OK, mset_loop e args d))"

definition value_text :: "env \<Rightarrow> gvalue \<Rightarrow> string" where
  \<comment> \<open>\<open>fmt.Sprintf("%v", obj.Value)\<close>\<close>
  "value_text e v = (case v of VStr s \<Rightarrow> s | _ \<Rightarrow> sprint e v)"

fun mget_loop :: "env \<Rightarrow> string list \<Rightarrow> db \<Rightarrow> string list \<times> db" where
  "mget_loop e [] d = ([], d)"
| "mget_loop e (ky # ks) d =
     (let (r, d) = Get ky d;
          s = (case r of None \<Rightarrow> ''(nil)'' | Some obj \<Rightarrow> if hasExpired d obj then ''(nil)'' else value_text e (Value (objs d obj)));
          (ss, d) = mget_loop e ks d
      in (s # ss, d))"

definition evalMGET :: command where
  "evalMGET e args d =
     (if length args < 1 then Inr (arity_reply ''mget'', d)
      else let (results, d) = mget_loop e args d in Inr (array_reply results, d))"

section \<open>Keys and expiry\<close>

fun exists_loop :: "string list \<Rightarrow> int \<Rightarrow> db \<Rightarrow> int \<times> db" where
  "exists_loop [] cnt d = (cnt, d)"
| "exists_loop (ky # ks) cnt d =
     (let (r, d) = Get ky d in exists_loop ks (if r \<noteq> None then cnt + 1 else cnt) d)"

definition evalEXISTS :: command where
  "evalEXISTS e args d =
     (if length args < 1 then Inr (arity_reply ''exists'', d)
      else let (cnt, d) = exists_loop args 0 d in Inr (int_reply cnt, d))"

definition evalKEYS :: command where
  "evalKEYS e args d =
     (if length args \<noteq> 1 then Inr (arity_reply ''keys'', d)
      else Inr (array_reply (filter (path_match e (args ! 0)) (iterate e d (store_keys d))), ticked d))"

definition evalDBSIZE :: command where
  "evalDBSIZE e args d = Inr (int_reply (StoreLen d), d)"

definition evalFLUSHDB :: command where
  "evalFLUSHDB e args d =
     Inr (RESP_OK, d\<lparr>store := [], expires := [],
            KeyspaceStat := (KeyspaceStat d)[0 := AList.update ''keys'' 0 (KeyspaceStat d ! 0)]\<rparr>)"

definition evalTYPE :: command where
  "evalTYPE e args d =
     (if length args \<noteq> 1 then Inr (arity_reply ''type'', d)
      else case Get (args ! 0) d of
        (None, d) \<Rightarrow> Inr (Encode (GoString ''none'') True, d)
      | (Some obj, d) \<Rightarrow> Inr (Encode (GoString (TypeName (TypeEncoding (objs d obj)))) True, d))"

definition div1000 :: "int64 \<Rightarrow> int64" where
  \<comment> \<open>\<open>/ 1000\<close> of the language truncates towards zero\<close>
  "div1000 x = (let i = sint x in word_of_int (if i < 0 then - (- i div 1000) else i div 1000))"

definition evalTTL :: command where
  "evalTTL e args d =
     (if length args \<noteq> 1 then
        Inr (error_reply (''(error) ERR wrong number of argumenst for '' @ [CHR 0x27] @ ''get'' @ [CHR 0x27] @ '' command''), d)
      else case Get (args ! 0) d of
        (None, d) \<Rightarrow> Inr (RESP_MINUS_2, d)
      | (Some obj, d) \<Rightarrow>
          (case getExpiry d obj of
             (ex, False) \<Rightarrow> Inr (RESP_MINUS_1, d)
           | (ex, True) \<Rightarrow>
               if ex < GlobalCachedTime d then Inr (RESP_MINUS_2, d)
               else Inr (Encode (GoInt64 (div1000 (ex - GlobalCachedTime d))) False, d)))"

fun del_loop :: "string list \<Rightarrow> int \<Rightarrow> db \<Rightarrow> int \<times> db" where
  "del_loop [] cnt d = (cnt, d)"
| "del_loop (ky # ks) cnt d =
     (let (d, ok) = Del ky d in del_loop ks (if ok then cnt + 1 else cnt) d)"

definition evalDEL :: command where
  "evalDEL e args d =
     (let (countDeleted, d) = del_loop args 0 d in Inr (Encode (GoInt (of_int countDeleted)) False, d))"

definition evalEXPIRE :: command where
  "evalEXPIRE e args d =
     (if length args \<le> 1 then
        Inr (error_reply (''(error) ERR wrong number of arguments for '' @ [CHR 0x27] @ ''expire'' @ [CHR 0x27] @ '' command''), d)
      else case ParseInt (args ! 1) of
        (sec, Some err) \<Rightarrow> Inr (error_reply ''(error) ERR value is nt an integer or out of range'', d)
      | (sec, None) \<Rightarrow>
          (case Get (args ! 0) d of
             (None, d) \<Rightarrow> Inr (RESP_ZERO, d)
           | (Some obj, d) \<Rightarrow> Inr (RESP_ONE, setExpiry obj (sec * 1000) d)))"

section \<open>Diagnostics\<close>

definition line :: "string \<Rightarrow> string" where
  "line s = s @ CRLF"

definition int_text :: "int \<Rightarrow> string" where
  \<comment> \<open>\<open>%d\<close>\<close>
  "int_text n = FormatInt (of_int n)"

definition evalCLIENT :: command where
  "evalCLIENT e args d =
     Inr (if length args = 0 then Encode (GoString ''CLIENT subcommands: LIST, SETNAME, GETNAME'') True
          else let sub = ToUpper (upper_uni e) (args ! 0) in
            if sub = ''LIST'' then
              Encode (GoString ''id=1 addr=127.0.0.1:12345 fd=5 name=velox-cli age=0 idle=0 flags=N db=0 sub=0 psub=0 multi=-1 qbuf=0 qbuf-free=0 obl=0 oll=0 omem=0 events=r cmd=ping'') False
            else if sub = ''SETNAME'' then
              (if length args < 2
               then error_reply (''ERR wrong number of arguments for '' @ [CHR 0x27] @ ''CLIENT SETNAME'' @ [CHR 0x27])
               else RESP_OK)
            else if sub = ''GETNAME'' then Encode (GoString ''velox-client'') False
            else error_reply ''ERR unknown subcommand for CLIENT'', d)"

definition evalLATENCY :: command where
  "evalLATENCY e args d =
     Inr (if length args = 0 then Encode (GoString ''LATENCY subcommands: LATEST, RESET'') True
          else let sub = ToUpper (upper_uni e) (args ! 0) in
            if sub = ''LATEST'' then array_reply [''[0, 0, 0, 0, 0]'']
            else if sub = ''RESET'' then RESP_OK
            else error_reply ''ERR unknown subcommand for LATENCY'', d)"

definition sleep_seconds :: "int64 \<Rightarrow> int64" where
  \<comment> \<open>what \<open>time.Sleep(time.Duration(n) * time.Second)\<close> waits: a wrapped product of nanoseconds,
    none when it is not positive\<close>
  "sleep_seconds n = (let ns = n * 1000000000 in if 0 < sint ns then word_of_int (sint ns div 1000000000) else 0)"

definition evalSLEEP :: command where
  "evalSLEEP e args d =
     (if length args \<noteq> 1 then Inr (arity_reply ''SLEEP'', d)
      else case ParseInt (args ! 0) of
        (sec, Some err) \<Rightarrow> Inr (not_integer_reply, d)
      | (sec, None) \<Rightarrow> Inr (RESP_OK, d\<lparr>unixNow := unixNow d + sleep_seconds sec\<rparr>))"

definition evalMULTI :: command where
  "evalMULTI e args d = Inr (RESP_OK, d)"

definition evalLRU :: command where
  "evalLRU e args d =
     (let (poolSize, topIdle) = PoolStats (unixNow d) (ePool d) in
      Inr (Encode (GoString (
        line ''# Approximated LRU Stats'' @
        line (''eviction_strategy:'' @ EvictionStrategy (cfg e)) @
        line (''lru_sample_size:'' @ int_text (LRUSampleSize (cfg e))) @
        line (''eviction_pool_size:'' @ int_text (int poolSize) @ ''/'' @ int_text 16) @
        line (''pool_top_idle_seconds:'' @ FormatNat (unat topIdle)) @
        line (''keys_count:'' @ int_text (StoreLen d)) @
        line (''keys_limit:'' @ int_text (KeysLimit (cfg e))) @
        line (''eviction_ratio:'' @ ratio_text e))) False, d))"

definition evalOBJECT :: command where
  "evalOBJECT e args d =
     (if length args = 0 then Inr (arity_reply ''OBJECT'', d)
      else let sub = ToUpper (upper_uni e) (args ! 0) in
        if sub = ''IDLETIME'' then
          (if length args < 2
           then Inr (error_reply (''ERR wrong number of arguments for '' @ [CHR 0x27] @ ''OBJECT IDLETIME'' @ [CHR 0x27]), d)
           else case GetKeyIdleTime d (args ! 1) of
             (idleTime, False) \<Rightarrow> Inr (RESP_NIL, d)
           | (idleTime, True) \<Rightarrow> Inr (Encode (GoInt64 (ucast idleTime)) False, d))
        else if sub = ''ENCODING'' then
          (if length args < 2
           then Inr (error_reply (''ERR wrong number of arguments for '' @ [CHR 0x27] @ ''OBJECT ENCODING'' @ [CHR 0x27]), d)
           else case Get (args ! 1) d of
             (None, d) \<Rightarrow> Inr (RESP_NIL, d)
           | (Some obj, d) \<Rightarrow> Inr (Encode (GoString (EncodingName (TypeEncoding (objs d obj)))) False, d))
        else if sub = ''HELP'' then
          Inr (Encode (GoString ''OBJECT subcommands: IDLETIME <key>, ENCODING <key>, HELP'') False, d)
        else Inr (error_reply ''ERR unknown subcommand for OBJECT'', d))"

section \<open>Every command is served\<close>

lemma deduce_wf [simp]: "deduceTypeEncoding v = (ty, enc) \<Longrightarrow> wf_value (or ty enc) (VStr v)"
  by (auto simp: deduceTypeEncoding_def Let_def type_consts is_int_def split: if_splits)

lemma evolves_store_string:
  assumes "db_ok e d" "config_ok (cfg e)" "k \<in> ks"
  shows "evolves e ks d (store_string e k v ms d)"
proof -
  obtain ty enc where de: "deduceTypeEncoding v = (ty, enc)" by force
  show ?thesis
    using evolves_NewObj_Put [OF assms(1,2) deduce_wf [OF de] assms(3), of ms]
    by (simp add: store_string_def de case_prod_beta)
qed

lemma ParseInt_zero [simp]: "ParseInt ''0'' = (0, None)"
  by (simp add: ParseInt_def parse_signed_def ParseUint_def digit_of_def)

lemma arg0_mem: "1 < length args \<Longrightarrow> args ! 0 \<in> set args"
  by (cases args) auto

lemma counter_update_served:
  assumes "db_ok e d" "config_ok (cfg e)" "k \<in> ks"
  shows "served e ks d (counter_update e k f d)"
proof -
  have main: "served e ks d (case assertType (TypeEncoding (objs d1 a)) OBJ_TYPE_STRING of
        Some err \<Rightarrow> Inr (error_reply err, d1)
      | None \<Rightarrow>
          (case assertEncoding (TypeEncoding (objs d1 a)) OBJ_ENCODING_INT of
             Some err \<Rightarrow> Inr (error_reply err, d1)
           | None \<Rightarrow>
               obind (as_str (Value (objs d1 a))) (\<lambda>s.
                 let i = f (fst (ParseInt s)) in
                 Inr (Encode (GoInt64 i) False, set_value a (TypeEncoding (objs d1 a)) (VStr (FormatInt i)) d1))))"
    if ev: "evolves e ks d d1" and h: "held_at d1 k a" and wf: "wf_value (TypeEncoding (objs d1 a)) (Value (objs d1 a))" for a d1
  proof (cases "assertType (TypeEncoding (objs d1 a)) OBJ_TYPE_STRING = None \<and> assertEncoding (TypeEncoding (objs d1 a)) OBJ_ENCODING_INT = None")
    case True
    then have ty: "getType (TypeEncoding (objs d1 a)) = OBJ_TYPE_STRING" "getEncoding (TypeEncoding (objs d1 a)) = OBJ_ENCODING_INT"
      by (simp_all add: assertType_def assertEncoding_def split: if_splits)
    obtain s where s: "Value (objs d1 a) = VStr s" using wf_string [OF wf ty(1)] by blast
    have "evolves e ks d1 (set_value a (TypeEncoding (objs d1 a)) (VStr (FormatInt i)) d1)" for i
      by (rule evolves_update [OF evolves_ok [OF ev] h _ assms(3)]) (simp add: ty)
    then show ?thesis using True s evolves_trans [OF ev] by (auto simp: Let_def)
  next
    case False
    then show ?thesis using ev by (auto split: option.splits)
  qed
  show ?thesis
    using assms(1)
  proof (cases rule: Get_cases [where k = k and ks = ks])
    case (missing d1)
    have wf: "wf_value (or OBJ_TYPE_STRING OBJ_ENCODING_INT) (VStr ''0'')"
      by (simp add: type_consts is_int_def)
    obtain a d2 where c: "create e OBJ_TYPE_STRING OBJ_ENCODING_INT (VStr ''0'') k d1 = (a, d2)" "evolves e {k} d1 d2" "held_at d2 k a"
      "obj_entry d2 a = (or OBJ_TYPE_STRING OBJ_ENCODING_INT, VStr ''0'', None)"
      by (rule create_spec [OF evolves_ok [OF missing(2)] assms(2) wf])
    have "evolves e ks d d2" by (rule evolves_trans [OF missing(2) evolves_mono [OF c(2)]]) (simp add: assms(3))
    moreover have "wf_value (TypeEncoding (objs d2 a)) (Value (objs d2 a))" using c(4) wf by (simp add: obj_entry_def)
    ultimately show ?thesis using main [of d2 a] c(3) missing(1) c(1) by (simp add: counter_update_def)
  next
    case (found a d1)
    then show ?thesis using main [of d1 a] by (simp add: counter_update_def held_at_def)
  qed
qed

lemma counters_served:
  assumes "db_ok e d" "config_ok (cfg e)"
  shows "served e (set args) d (evalINCR e args d)" "served e (set args) d (evalDECR e args d)"
    "served e (set args) d (evalINCRBY e args d)" "served e (set args) d (evalDECRBY e args d)"
  using assms counter_update_served [OF assms, of "args ! 0" "set args"]
  by (auto simp: evalINCR_def evalDECR_def evalINCRBY_def evalDECRBY_def split: prod.splits option.splits)

lemma evalSET_served:
  assumes "db_ok e d" "config_ok (cfg e)"
  shows "served e (set args) d (evalSET e args d)"
  using assms evolves_store_string [OF assms, of "args ! 0" "set args"] arg0_mem [of args]
  by (auto simp: evalSET_def split: sum.splits)

lemma evolves_mset_loop:
  "db_ok e d \<Longrightarrow> config_ok (cfg e) \<Longrightarrow> set args \<subseteq> ks \<Longrightarrow> evolves e ks d (mset_loop e args d)"
proof (induction e args d rule: mset_loop.induct)
  case (1 e k v rest d)
  have ev: "evolves e ks d (store_string e k v (- 1) d)" using 1(2-4) by (intro evolves_store_string) simp_all
  show ?case using evolves_trans [OF ev 1(1) [OF evolves_ok [OF ev] 1(3)]] 1(4) by simp
qed auto

lemma Get_evolves: "db_ok e d \<Longrightarrow> Get k d = (r, d1) \<Longrightarrow> evolves e ks d d1"
  using evolves_Get [of e d ks k] by simp

lemma evolves_mget_loop: "db_ok e d \<Longrightarrow> evolves e ks d (snd (mget_loop e args d))"
proof (induction e args d rule: mget_loop.induct)
  case (2 e k args d)
  obtain r d1 where g: "Get k d = (r, d1)" by force
  have ev: "evolves e ks d d1" by (rule Get_evolves [OF 2(2) g])
  show ?case
    using evolves_trans [OF ev] 2(1) [OF g [symmetric] refl refl evolves_ok [OF ev]] g
    by (auto simp: Let_def split: prod.splits)
qed auto

lemma evolves_exists_loop: "db_ok e d \<Longrightarrow> evolves e ks d (snd (exists_loop args n d))"
proof (induction args n d rule: exists_loop.induct)
  case (2 k args n d)
  obtain r d1 where g: "Get k d = (r, d1)" by force
  have ev: "evolves e ks d d1" by (rule Get_evolves [OF 2(2) g])
  show ?case
    using evolves_trans [OF ev] 2(1) [OF g [symmetric] refl evolves_ok [OF ev]] g by simp
qed auto

lemma evolves_del_loop: "db_ok e d \<Longrightarrow> set args \<subseteq> ks \<Longrightarrow> evolves e ks d (snd (del_loop args n d))"
proof (induction args n d rule: del_loop.induct)
  case (2 k args n d)
  obtain d1 b where g: "Del k d = (d1, b)" by force
  have ev: "evolves e ks d d1" using evolves_Del [OF 2(2), of k ks] 2(3) g by simp
  show ?case
    using evolves_trans [OF ev] 2(1) [OF g [symmetric] refl evolves_ok [OF ev]] g 2(3) by simp
qed auto

lemma plural_served:
  assumes "db_ok e d" "config_ok (cfg e)"
  shows "served e (set args) d (evalMSET e args d)" "served e (set args) d (evalMGET e args d)"
    "served e (set args) d (evalEXISTS e args d)" "served e (set args) d (evalDEL e args d)"
  using assms evolves_mset_loop [OF assms, of args "set args"] evolves_mget_loop [OF assms(1), of "set args" args]
    evolves_exists_loop [OF assms(1), of "set args" args 0] evolves_del_loop [OF assms(1), of args "set args" 0]
  by (auto simp: evalMSET_def evalMGET_def evalEXISTS_def evalDEL_def split: prod.splits)

lemma served_Get:
  assumes "db_ok e d" "\<And>obj d1. Get k d = (Some obj, d1) \<Longrightarrow> evolves e ks d d1 \<Longrightarrow> held_at d1 k obj \<Longrightarrow>
      wf_value (TypeEncoding (objs d1 obj)) (Value (objs d1 obj)) \<Longrightarrow> served e ks d (f obj d1)"
  shows "served e ks d (case Get k d of (None, d) \<Rightarrow> Inr (g d, d) | (Some obj, d) \<Rightarrow> f obj d)"
  using assms(1)
proof (cases rule: Get_cases [where k = k and ks = ks])
  case (missing d1)
  then show ?thesis by simp
next
  case (found a d1)
  then show ?thesis using assms(2) [OF found(1,2)] by (simp add: held_at_def)
qed

lemma readers_served:
  assumes "db_ok e d"
  shows "served e (set args) d (evalGET e args d)" "served e (set args) d (evalTYPE e args d)"
    "served e (set args) d (evalTTL e args d)"
proof -
  show "served e (set args) d (evalGET e args d)" using assms by (auto simp: evalGET_def intro!: served_Get)
  show "served e (set args) d (evalTYPE e args d)" using assms by (auto simp: evalTYPE_def intro!: served_Get)
  show "served e (set args) d (evalTTL e args d)"
    using assms by (auto simp: evalTTL_def getExpiry_def intro!: served_Get split: option.splits)
qed

lemma setExpiry_other [simp]:
  "store (setExpiry a ms d) = store d" "objs (setExpiry a ms d) = objs d" "objPool (setExpiry a ms d) = objPool d"
  "objNext (setExpiry a ms d) = objNext d" "ePool (setExpiry a ms d) = ePool d" "KeyspaceStat (setExpiry a ms d) = KeyspaceStat d"
  "GlobalCachedTime (setExpiry a ms d) = GlobalCachedTime d" "stored (setExpiry a ms d) = stored d"
  "expires (setExpiry a ms d) = AList.update a (GlobalCachedTime d + ms) (expires d)"
  by (simp_all add: setExpiry_def stored_def)

lemma setExpiry_inv:
  assumes "db_inv d" "a \<in> stored d"
  shows "db_inv (setExpiry a ms d)"
proof -
  have "expiring (setExpiry a ms d) = insert a (expiring d)" by (simp add: expiring_def)
  then show ?thesis
    using db_invD [OF assms(1)] assms(2)
    unfolding db_inv_def one_key_def by (auto simp: wf_gomap_update)
qed

lemma lview_setExpiry:
  assumes "db_inv d" "map_of (store d) k = Some a"
  shows "lview (setExpiry a ms d) =
    (lview d)(k := live_entry (GlobalCachedTime d) (TypeEncoding (objs d a), Value (objs d a), Some (GlobalCachedTime d + ms)))"
proof
  fix k'
  have "b \<noteq> a" if "map_of (store d) k' = Some b" "k' \<noteq> k" for b
    using db_inv_inj [OF assms, of k'] that by auto
  then show "lview (setExpiry a ms d) k' = ((lview d)(k := live_entry (GlobalCachedTime d) (TypeEncoding (objs d a), Value (objs d a), Some (GlobalCachedTime d + ms)))) k'"
    using assms(2) by (auto simp: lview_live obj_entry_def split: option.splits)
qed

lemma evolves_setExpiry:
  assumes "db_ok e d" "held_at d k a" "k \<in> ks"
  shows "evolves e ks d (setExpiry a ms d)"
  using assms setExpiry_inv [of d a ms] lview_setExpiry [of d k a ms] map_of_stored [of d k a]
  by (auto simp: evolves_def db_ok_def StoreLen_def held_at_def)

lemma evalEXPIRE_served:
  assumes "db_ok e d"
  shows "served e (set args) d (evalEXPIRE e args d)"
proof (cases "1 < length args \<and> snd (ParseInt (args ! 1)) = None")
  case False
  then show ?thesis using assms by (auto simp: evalEXPIRE_def split: prod.splits option.splits)
next
  case True
  then obtain sec where "ParseInt (args ! 1) = (sec, None)" by (cases "ParseInt (args ! 1)") auto
  moreover have "served e (set args) d (case Get (args ! 0) d of (None, d) \<Rightarrow> Inr (RESP_ZERO, d)
      | (Some obj, d) \<Rightarrow> Inr (RESP_ONE, setExpiry obj (sec * 1000) d))"
  proof (rule served_Get [OF assms])
    fix obj d1 assume ev: "evolves e (set args) d d1" and h: "held_at d1 (args ! 0) obj"
    show "served e (set args) d (Inr (RESP_ONE, setExpiry obj (sec * 1000) d1))"
      using evolves_trans [OF ev evolves_setExpiry [OF evolves_ok [OF ev] h]] True arg0_mem [of args] by simp
  qed
  ultimately show ?thesis using True by (simp add: evalEXPIRE_def)
qed

lemma db_inv_flush:
  "db_inv d \<Longrightarrow> db_inv (d\<lparr>store := [], expires := [], KeyspaceStat := (KeyspaceStat d)[0 := m]\<rparr>)"
  by (simp add: db_inv_def one_key_def stored_def expiring_def)

lemma lview_flush: "lview (d\<lparr>store := [], expires := [], KeyspaceStat := s\<rparr>) = Map.empty"
  by (simp add: lview_def fun_eq_iff)

lemma server_state_served:
  assumes "db_ok e d" "config_ok (cfg e)"
  shows "served e (set args) d (evalFLUSHDB e args d)" "served e (set args) d (evalKEYS e args d)"
    "served e (set args) d (evalDBSIZE e args d)"
  using assms db_inv_flush [of d] evolves_ticked [OF assms(1)]
  by (auto simp: evalFLUSHDB_def evalKEYS_def evalDBSIZE_def evolves_def db_ok_def StoreLen_def lview_flush config_ok_def)

lemma db_ok_unixNow: "db_ok e (d\<lparr>unixNow := t\<rparr>) = db_ok e d"
  by (simp add: db_ok_def db_inv_def one_key_def stored_def expiring_def StoreLen_def)

lemma lview_unixNow: "lview (d\<lparr>unixNow := t\<rparr>) = lview d"
  by (rule lview_cong) simp_all

lemma diagnostics_served:
  assumes "db_ok e d"
  shows "served e (set args) d (evalPING e args d)" "served e (set args) d (evalCLIENT e args d)"
    "served e (set args) d (evalLATENCY e args d)" "served e (set args) d (evalSLEEP e args d)"
    "served e (set args) d (evalMULTI e args d)" "served e (set args) d (evalLRU e args d)"
  using assms
  by (auto simp: evalPING_def evalCLIENT_def evalLATENCY_def evalSLEEP_def evalMULTI_def evalLRU_def
      evolves_def db_ok_unixNow lview_unixNow Let_def split: prod.splits option.splits)

lemma evalOBJECT_served:
  assumes "db_ok e d"
  shows "served e (set args) d (evalOBJECT e args d)"
  using assms
  by (auto simp: evalOBJECT_def GetKeyIdleTime_def Let_def intro!: served_Get split: option.splits)

end
