(* ===== verification/StringSpec.thy ===== *)
theory StringSpec
  imports EvalString
begin

text \<open>
  What the string and key commands do to the abstract database, and what they reply: each
  command on each branch, by the visible entry of its key.
\<close>

section \<open>Readers\<close>

lemma evalGET_view:
  assumes "db_ok e d"
  shows "\<exists>d1. evalGET e [k] d = Inr (case lview d k of None \<Rightarrow> RESP_NIL | Some (te, v, ex) \<Rightarrow> value_reply v, d1) \<and>
    evolves e {} d d1 \<and> lview d1 = lview d"
  using assms
proof (cases rule: Get_cases [where k = k and ks = "{}"])
  case (missing d1)
  then show ?thesis by (simp add: evalGET_def)
next
  case (found a d1)
  then show ?thesis by (simp add: evalGET_def obj_entry_def)
qed

lemma evalTYPE_view:
  assumes "db_ok e d"
  shows "\<exists>d1. evalTYPE e [k] d =
      Inr (Encode (GoString (case lview d k of None \<Rightarrow> ''none'' | Some (te, v, ex) \<Rightarrow> TypeName te)) True, d1) \<and>
    lview d1 = lview d"
  using assms
proof (cases rule: Get_cases [where k = k and ks = "{}"])
  case (missing d1)
  then show ?thesis by (simp add: evalTYPE_def)
next
  case (found a d1)
  then show ?thesis by (simp add: evalTYPE_def obj_entry_def)
qed

definition ttl_reply :: "int64 \<Rightarrow> lentry option \<Rightarrow> string" where
  \<comment> \<open>whole seconds left, -1 without an expiry, -2 without a key\<close>
  "ttl_reply now en =
     (case en of
        None \<Rightarrow> RESP_MINUS_2
      | Some (te, v, None) \<Rightarrow> RESP_MINUS_1
      | Some (te, v, Some ex) \<Rightarrow> Encode (GoInt64 (div1000 (ex - now))) False)"

lemma evalTTL_view:
  assumes "db_ok e d"
  shows "\<exists>d1. evalTTL e [k] d = Inr (ttl_reply (GlobalCachedTime d) (lview d k), d1) \<and> lview d1 = lview d"
  using assms
proof (cases rule: Get_cases [where k = k and ks = "{}"])
  case (missing d1)
  then show ?thesis by (simp add: evalTTL_def ttl_reply_def)
next
  case (found a d1)
  have "GlobalCachedTime d1 = GlobalCachedTime d" using found(2) by (simp add: evolves_def)
  moreover have "\<not> ex < GlobalCachedTime d1" if "map_of (expires d1) a = Some ex" for ex
    using found(5) that by (auto simp: hasExpired_def)
  ultimately show ?thesis
    using found by (auto simp: evalTTL_def ttl_reply_def obj_entry_def getExpiry_def split: option.splits)
qed

definition mget_text :: "env \<Rightarrow> lentry option \<Rightarrow> string" where
  "mget_text e en = (case en of None \<Rightarrow> ''(nil)'' | Some (te, v, ex) \<Rightarrow> value_text e v)"

lemma mget_loop_view:
  "db_ok e d \<Longrightarrow> fst (mget_loop e ks d) = map (\<lambda>k. mget_text e (lview d k)) ks \<and> lview (snd (mget_loop e ks d)) = lview d"
proof (induction ks arbitrary: d)
  case (Cons k ks)
  from Cons(2) show ?case
  proof (cases rule: Get_cases [where k = k and ks = "{}"])
    case (missing d1)
    then show ?thesis using Cons(1) [OF evolves_ok [OF missing(2)]] by (auto simp: mget_text_def split: prod.splits)
  next
    case (found a d1)
    then show ?thesis using Cons(1) [OF evolves_ok [OF found(2)]]
      by (auto simp: mget_text_def obj_entry_def split: prod.splits)
  qed
qed simp

lemma exists_loop_view:
  "db_ok e d \<Longrightarrow> fst (exists_loop ks n d) = n + int (length (filter (\<lambda>k. lview d k \<noteq> None) ks)) \<and>
   lview (snd (exists_loop ks n d)) = lview d"
proof (induction ks arbitrary: n d)
  case (Cons k ks)
  from Cons(2) show ?case
  proof (cases rule: Get_cases [where k = k and ks = "{}"])
    case (missing d1)
    then show ?thesis using Cons(1) [OF evolves_ok [OF missing(2)]] by simp
  next
    case (found a d1)
    then show ?thesis using Cons(1) [OF evolves_ok [OF found(2)]] by (simp add: obj_entry_def)
  qed
qed simp

section \<open>Writers\<close>

definition string_entry :: "string \<Rightarrow> uint64 option \<Rightarrow> lentry" where
  "string_entry v ex = (or (fst (deduceTypeEncoding v)) (snd (deduceTypeEncoding v)), VStr v, ex)"

definition expiry_of :: "int64 \<Rightarrow> int64 \<Rightarrow> uint64 option" where
  "expiry_of now ms = (if 0 < sint ms then Some (now + ms) else None)"

lemma store_string_view:
  fixes e k v ms
  assumes "db_ok e d" "config_ok (cfg e)"
  defines "d1 \<equiv> store_string e k v ms d" and "en \<equiv> string_entry v (expiry_of (GlobalCachedTime d) ms)"
  shows "evolves e {k} d d1 \<and> lview d1 k = live_entry (GlobalCachedTime d) en \<and>
    (StoreLen d < KeysLimit (cfg e) \<longrightarrow> lview d1 = (lview d)(k := live_entry (GlobalCachedTime d) en))"
proof -
  obtain ty enc where de: "deduceTypeEncoding v = (ty, enc)" by force
  note r = NewObj_Put_view [OF db_ok_inv [OF assms(1)] deduce_wf [OF de], where k = k and e = e and ms = ms]
  have "d1 = Put e k (fst (NewObj e (VStr v) ms ty enc d)) (snd (NewObj e (VStr v) ms ty enc d))"
    by (simp add: d1_def store_string_def de split: prod.splits)
  moreover have "evolves e {k} d d1" unfolding d1_def by (rule evolves_store_string [OF assms(1,2)]) simp
  ultimately show ?thesis using r by (simp add: en_def string_entry_def expiry_of_def de)
qed

lemma counter_update_view:
  assumes "db_ok e d" "config_ok (cfg e)"
  shows "\<exists>d1. (case lview d k of
      None \<Rightarrow> counter_update e k f d = Inr (Encode (GoInt64 (f 0)) False, d1) \<and>
        lview d1 k = Some (or OBJ_TYPE_STRING OBJ_ENCODING_INT, VStr (FormatInt (f 0)), None)
    | Some (te, v, ex) \<Rightarrow>
        if getType te = OBJ_TYPE_STRING \<and> getEncoding te = OBJ_ENCODING_INT
        then (\<exists>s. v = VStr s \<and> is_int s \<and>
          counter_update e k f d = Inr (Encode (GoInt64 (f (int_value s))) False, d1) \<and>
          lview d1 = (lview d)(k \<mapsto> (te, VStr (FormatInt (f (int_value s))), ex)))
        else (\<exists>msg. counter_update e k f d = Inr (error_reply msg, d1) \<and> lview d1 = lview d)) \<and>
    evolves e {k} d d1"
  using assms(1)
proof (cases rule: Get_cases [where k = k and ks = "{k}"])
  case (missing d1)
  have wf: "wf_value (or OBJ_TYPE_STRING OBJ_ENCODING_INT) (VStr ''0'')"
    by (simp add: type_consts is_int_def)
  obtain a d2 where c: "create e OBJ_TYPE_STRING OBJ_ENCODING_INT (VStr ''0'') k d1 = (a, d2)" "evolves e {k} d1 d2" "held_at d2 k a"
    "obj_entry d2 a = (or OBJ_TYPE_STRING OBJ_ENCODING_INT, VStr ''0'', None)"
    by (rule create_spec [OF evolves_ok [OF missing(2)] assms(2) wf])
  let ?d3 = "set_value a (or OBJ_TYPE_STRING OBJ_ENCODING_INT) (VStr (FormatInt (f 0))) d2"
  have oe: "TypeEncoding (objs d2 a) = or OBJ_TYPE_STRING OBJ_ENCODING_INT" "Value (objs d2 a) = VStr ''0''" "map_of (expires d2) a = None"
    using c(4) by (simp_all add: obj_entry_def)
  have "evolves e {k} d2 ?d3" by (rule evolves_update [OF evolves_ok [OF c(2)] c(3)]) (simp_all add: type_consts)
  then have "evolves e {k} d ?d3" by (rule evolves_trans [OF missing(2) evolves_trans [OF c(2)]])
  moreover have "lview ?d3 = (lview d2)(k \<mapsto> (or OBJ_TYPE_STRING OBJ_ENCODING_INT, VStr (FormatInt (f 0)), None))"
    using lview_update [OF evolves_inv [OF c(2)] c(3)] oe by simp
  moreover have "counter_update e k f d = Inr (Encode (GoInt64 (f 0)) False, ?d3)"
    using missing(1) c(1) oe by (simp add: counter_update_def assertType_def assertEncoding_def type_consts Let_def)
  ultimately show ?thesis using missing(3) by (intro exI [of _ ?d3]) simp
next
  case (found a d1)
  have h: "held_at d1 k a" using found by (simp add: held_at_def)
  show ?thesis
  proof (cases "getType (TypeEncoding (objs d1 a)) = OBJ_TYPE_STRING \<and> getEncoding (TypeEncoding (objs d1 a)) = OBJ_ENCODING_INT")
    case True
    obtain s where s: "Value (objs d1 a) = VStr s" using wf_string [OF found(7)] True by blast
    then have i: "is_int s" using found(7) True by simp
    let ?d2 = "set_value a (TypeEncoding (objs d1 a)) (VStr (FormatInt (f (int_value s)))) d1"
    have "evolves e {k} d1 ?d2" by (rule evolves_update [OF evolves_ok [OF found(2)] h]) (simp_all add: True)
    then have ev: "evolves e {k} d ?d2" by (rule evolves_trans [OF found(2)])
    have "counter_update e k f d = Inr (Encode (GoInt64 (f (int_value s))) False, ?d2)"
      using found(1) True s by (simp add: counter_update_def assertType_def assertEncoding_def Let_def int_value_def)
    then show ?thesis
      using found(3,6) True s i ev lview_update [OF evolves_inv [OF found(2)] h]
      by (intro exI [of _ ?d2]) (simp add: obj_entry_def)
  next
    case False
    then have "\<exists>msg. counter_update e k f d = Inr (error_reply msg, d1)"
      using found(1) by (auto simp: counter_update_def assertType_def assertEncoding_def)
    then show ?thesis using found(2,3,6) False by (intro exI [of _ d1]) (auto simp: obj_entry_def)
  qed
qed

lemma del_loop_view:
  "db_inv d \<Longrightarrow> lview (snd (del_loop ks n d)) = lview d |` (- set ks) \<and>
   fst (del_loop ks n d) = n + int (card (set ks \<inter> dom (map_of (store d))))"
proof (induction ks arbitrary: n d)
  case (Cons k ks)
  obtain d1 b where g: "Del k d = (d1, b)" by force
  have inv: "db_inv d1" using Del_inv [OF Cons(2), of k] g by simp
  have v: "lview d1 = (lview d)(k := None)" using lview_Del [OF Cons(2), of k] g by simp
  have s: "dom (map_of (store d1)) = dom (map_of (store d)) - {k}"
    using g store_delLocked [of k d] by (simp add: Del_def)
  have b: "b \<longleftrightarrow> k \<in> dom (map_of (store d))" using g snd_delLocked [of k d] by (auto simp: Del_def)
  have "card (set (k # ks) \<inter> dom (map_of (store d))) =
    (if b then 1 else 0) + card (set ks \<inter> dom (map_of (store d1)))"
  proof -
    have "set (k # ks) \<inter> dom (map_of (store d)) =
      (if b then insert k (set ks \<inter> dom (map_of (store d1))) else set ks \<inter> dom (map_of (store d1)))"
      using b s by auto
    then show ?thesis using s by simp
  qed
  then show ?case using Cons(1) [OF inv] g v by (auto simp: fun_eq_iff restrict_map_def)
qed (simp add: restrict_map_def)

lemma StoreLen_store_string:
  assumes "db_ok e d" "StoreLen d < KeysLimit (cfg e)"
  shows "StoreLen (store_string e k v ms d) \<le> StoreLen d + 1"
proof -
  obtain ty enc where de: "deduceTypeEncoding v = (ty, enc)" by force
  obtain a d1 where n: "NewObj e (VStr v) ms ty enc d = (a, d1)" by force
  have "StoreLen d1 = StoreLen d"
    using NewObj_spec [OF db_ok_inv [OF assms(1)], of e "VStr v" ms ty enc] n by (simp add: StoreLen_def)
  then have "make_room e d1 = d1" using assms(2) by (simp add: make_room_def)
  then show ?thesis
    using length_store_Put [of e k a d1] \<open>StoreLen d1 = StoreLen d\<close> n by (simp add: store_string_def de StoreLen_def)
qed

definition last_written :: "string list \<Rightarrow> string \<Rightarrow> lentry option" where
  \<comment> \<open>the entries that the pairs of \<open>MSET\<close> leave, a later pair over an earlier one\<close>
  "last_written args = map_of (map (\<lambda>(k, v). (k, string_entry v None)) (rev (pairs args)))"

lemma mset_loop_view:
  "db_ok e d \<Longrightarrow> config_ok (cfg e) \<Longrightarrow> StoreLen d + int (length args div 2) \<le> KeysLimit (cfg e) \<Longrightarrow>
   lview (mset_loop e args d) = lview d ++ last_written args"
proof (induction e args d rule: mset_loop.induct)
  case (1 e k v rest d)
  let ?d = "store_string e k v (- 1) d"
  have room: "StoreLen d < KeysLimit (cfg e)" using 1(4) by simp
  note st = store_string_view [OF 1(2,3), of k v "- 1"]
  have "lview ?d = (lview d)(k \<mapsto> string_entry v None)"
    using st room by (simp add: expiry_of_def live_entry_def string_entry_def)
  moreover have "lview (mset_loop e rest ?d) = lview ?d ++ last_written rest"
    by (rule 1(1)) (use st 1(3,4) evolves_ok StoreLen_store_string [OF 1(2) room, of k v "- 1"] in \<open>auto\<close>)
  moreover have "last_written (k # v # rest) = [k \<mapsto> string_entry v None] ++ last_written rest"
    by (simp add: last_written_def)
  ultimately show ?case by simp
qed (auto simp: last_written_def)

lemma sint_mult_1000:
  assumes "0 \<le> sint n" "sint n < 9223372036854775"
  shows "sint (n * 1000 :: int64) = sint n * 1000"
proof -
  have "sint (n * 1000) = signed_take_bit 63 (sint n * sint (1000 :: int64))"
    by (simp add: sint_word_ariths)
  also have "\<dots> = sint n * 1000" using assms by (simp add: signed_take_bit_int_eq_self)
  finally show ?thesis .
qed

lemma div1000_mult: "0 \<le> sint n \<Longrightarrow> sint n < 9223372036854775 \<Longrightarrow> div1000 (n * 1000) = n"
  by (simp add: div1000_def sint_mult_1000 Let_def)

lemma uint_nonneg: "0 \<le> sint w \<Longrightarrow> uint w = sint (w :: int64)"
  using sint64_range [of w] by (simp add: uint_sint take_bit_int_eq_self)

lemma evalEXPIRE_view:
  assumes "db_ok e d" "lview d k = Some (te, v, ex)"
  shows "\<exists>d1. evalEXPIRE e [k, FormatInt n] d = Inr (RESP_ONE, d1) \<and> evolves e {k} d d1 \<and>
    lview d1 = (lview d)(k := live_entry (GlobalCachedTime d) (te, v, Some (GlobalCachedTime d + n * 1000)))"
  using assms(1)
proof (cases rule: Get_cases [where k = k and ks = "{k}"])
  case (missing d1)
  then show ?thesis using assms(2) by simp
next
  case (found a d1)
  have h: "held_at d1 k a" using found by (simp add: held_at_def)
  have "evolves e {k} d (setExpiry a (n * 1000) d1)"
    by (rule evolves_trans [OF found(2) evolves_setExpiry [OF evolves_ok [OF found(2)] h]]) simp
  moreover have "GlobalCachedTime d1 = GlobalCachedTime d" using found(2) by (simp add: evolves_def)
  ultimately show ?thesis
    using found(1,3,6) assms(2) lview_setExpiry [OF evolves_inv [OF found(2)] found(4), of "n * 1000"]
    by (intro exI [of _ "setExpiry a (n * 1000) d1"]) (simp add: evalEXPIRE_def obj_entry_def)
qed

section \<open>The properties\<close>

text \<open>C33: \<open>SET\<close> then \<open>GET\<close> is a round trip for every key and every byte string: \<open>SET\<close> replies
  \<open>OK\<close>, \<open>GET\<close> replies the value as a bulk string, the type byte says how the value is encoded,
  and the other keys are untouched, or evicted when the store was full.\<close>

theorem SET_GET_roundtrip:
  assumes "db_ok e d" "config_ok (cfg e)"
  shows "\<exists>d1 d2. evalSET e [k, v] d = Inr (RESP_OK, d1) \<and> evalGET e [k] d1 = Inr (bulk v, d2) \<and>
    lview d2 = lview d1 \<and> lview d1 k = Some (string_entry v None) \<and>
    (\<forall>k'. k' \<noteq> k \<longrightarrow> lview d1 k' = lview d k' \<or> lview d1 k' = None) \<and>
    (StoreLen d < KeysLimit (cfg e) \<longrightarrow> lview d1 = (lview d)(k \<mapsto> string_entry v None)) \<and> db_ok e d2"
proof -
  let ?d = "store_string e k v (- 1) d"
  note st = store_string_view [OF assms, of k v "- 1"]
  have v1: "lview ?d k = Some (string_entry v None)"
    using st by (simp add: expiry_of_def live_entry_def string_entry_def)
  have ok: "db_ok e ?d" using st by (simp add: evolves_def)
  obtain d2 where d2: "evalGET e [k] ?d = Inr (case lview ?d k of None \<Rightarrow> RESP_NIL | Some (te, v, ex) \<Rightarrow> value_reply v, d2)"
    "evolves e {} ?d d2" "lview d2 = lview ?d"
    using evalGET_view [OF ok, of k] by (elim exE conjE) (rule that)
  have "evalSET e [k, v] d = Inr (RESP_OK, ?d)" by (simp add: evalSET_def)
  moreover have "evalGET e [k] ?d = Inr (bulk v, d2)" using d2(1) v1 by (simp add: string_entry_def value_reply_def)
  moreover have "\<forall>k'. k' \<noteq> k \<longrightarrow> lview ?d k' = lview d k' \<or> lview ?d k' = None" using st by (simp add: evolves_def)
  moreover have "StoreLen d < KeysLimit (cfg e) \<longrightarrow> lview ?d = (lview d)(k \<mapsto> string_entry v None)"
    using st by (simp add: expiry_of_def live_entry_def string_entry_def)
  moreover have "db_ok e d2" by (rule evolves_ok [OF d2(2)])
  ultimately show ?thesis
    using d2(3) v1 by (intro exI [of _ ?d] exI [of _ d2] conjI)
qed

lemma init_db_ok: "config_ok (cfg e) \<Longrightarrow> db_ok e (init_db t u)"
  by (simp add: db_ok_def config_ok_def StoreLen_def) (simp add: init_db_def)

lemma default_env_ok [simp]: "config_ok (cfg default_env)"
  by (simp add: default_env_def)

lemma SET_GET_roundtrip_witness:
  "\<exists>d1 d2. evalSET default_env [''k'', ''v''] (init_db 5 5) = Inr (RESP_OK, d1) \<and>
     evalGET default_env [''k''] d1 = Inr (bulk ''v'', d2)"
  using SET_GET_roundtrip [OF init_db_ok [OF default_env_ok] default_env_ok, of "''k''" "''v''" 5 5] by blast

text \<open>C34: \<open>SET\<close> with \<open>EX n\<close> and \<open>EXPIRE\<close> with \<open>n\<close> give a key the remaining life of \<open>n\<close> seconds that
  \<open>TTL\<close> then reports, as long as \<open>n\<close> is positive and neither the milliseconds nor the absolute
  time overflow 63 bits.\<close>

theorem EX_TTL_roundtrip:
  assumes "db_ok e d" "config_ok (cfg e)" "0 < sint n" "sint n < 9223372036854775"
    "0 \<le> sint (GlobalCachedTime d)" "sint (GlobalCachedTime d) + sint n * 1000 < 2 ^ 63"
  shows "(\<exists>d1 d2. evalSET e [k, v, ''EX'', FormatInt n] d = Inr (RESP_OK, d1) \<and>
      evalTTL e [k] d1 = Inr (Encode (GoInt64 n) False, d2)) \<and>
    (lview d k \<noteq> None \<longrightarrow> (\<exists>d1 d2. evalEXPIRE e [k, FormatInt n] d = Inr (RESP_ONE, d1) \<and>
      evalTTL e [k] d1 = Inr (Encode (GoInt64 n) False, d2)))"
proof -
  let ?now = "GlobalCachedTime d"
  have m: "sint (n * 1000) = sint n * 1000" using assms(3,4) by (intro sint_mult_1000) simp_all
  have s: "sint (?now + n * 1000) = sint ?now + sint n * 1000"
  proof -
    have "sint (?now + n * 1000) = signed_take_bit 63 (sint ?now + sint (n * 1000))"
      by (simp add: sint_word_ariths)
    also have "\<dots> = sint ?now + sint n * 1000" unfolding m using assms(3,5,6) by (simp add: signed_take_bit_int_eq_self)
    finally show ?thesis .
  qed
  have later: "\<not> ?now + n * 1000 \<le> ?now"
  proof -
    have "uint (?now + n * 1000) = sint (?now + n * 1000)" "uint ?now = sint ?now"
      using s assms(3,5) by (simp_all add: uint_nonneg)
    then show ?thesis using s assms(3) by (simp add: word_le_def)
  qed
  have t: "ttl_reply ?now (Some (te, w, Some (?now + n * 1000))) = Encode (GoInt64 n) False" for te w
    using div1000_mult [of n] assms(3,4) by (simp add: ttl_reply_def)
  have ttl: "\<exists>d2. evalTTL e [k] d1 = Inr (Encode (GoInt64 n) False, d2)"
    if "db_ok e d1" "GlobalCachedTime d1 = ?now" "lview d1 k = Some (te, w, Some (?now + n * 1000))" for d1 te w
    using evalTTL_view [OF that(1), of k] that(2,3) t by auto
  let ?d1 = "store_string e k v (n * 1000) d"
  note st = store_string_view [OF assms(1,2), of k v "n * 1000"]
  have "evalSET e [k, v, ''EX'', FormatInt n] d = Inr (RESP_OK, ?d1)" by (simp add: evalSET_def)
  moreover have "\<exists>d2. evalTTL e [k] ?d1 = Inr (Encode (GoInt64 n) False, d2)"
    by (rule ttl) (use st assms(3) later m in \<open>auto simp: evolves_def expiry_of_def live_entry_def string_entry_def\<close>)
  moreover have "\<exists>d1 d2. evalEXPIRE e [k, FormatInt n] d = Inr (RESP_ONE, d1) \<and> evalTTL e [k] d1 = Inr (Encode (GoInt64 n) False, d2)"
    if ne: "lview d k \<noteq> None"
  proof -
    obtain te w ex where en: "lview d k = Some (te, w, ex)" using ne by auto
    then obtain d2 where d2: "evalEXPIRE e [k, FormatInt n] d = Inr (RESP_ONE, d2)" "evolves e {k} d d2"
      "lview d2 = (lview d)(k := live_entry ?now (te, w, Some (?now + n * 1000)))"
      using evalEXPIRE_view [OF assms(1) en, of n] by blast
    have "\<exists>d3. evalTTL e [k] d2 = Inr (Encode (GoInt64 n) False, d3)"
      by (rule ttl) (use d2(2,3) later in \<open>auto simp: evolves_def live_entry_def\<close>)
    then show ?thesis using d2(1) by blast
  qed
  ultimately show ?thesis by blast
qed

lemma EX_TTL_roundtrip_witness:
  "\<exists>d1 d2. evalSET default_env [''k'', ''v'', ''EX'', FormatInt 60] (init_db 5 5) = Inr (RESP_OK, d1) \<and>
     evalTTL default_env [''k''] d1 = Inr (Encode (GoInt64 60) False, d2)"
  using EX_TTL_roundtrip [OF init_db_ok [OF default_env_ok] default_env_ok, of 60 5 5 "''k''" "''v''"]
  by (simp add: init_db_def)

text \<open>A time to live that is not positive is treated in two ways: \<open>SET\<close> with \<open>EX\<close> ignores it and
  stores a key that never expires, \<open>EXPIRE\<close> makes the key invisible at once (unless the
  absolute time it computes wraps around below zero).\<close>

theorem nonpositive_EX_is_forever:
  assumes "db_ok e d" "config_ok (cfg e)" "sint (n * 1000) \<le> 0"
  shows "(\<exists>d1. evalSET e [k, v, ''EX'', FormatInt n] d = Inr (RESP_OK, d1) \<and> lview d1 k = Some (string_entry v None)) \<and>
    (lview d k \<noteq> None \<longrightarrow> GlobalCachedTime d + n * 1000 \<le> GlobalCachedTime d \<longrightarrow>
       (\<exists>d1. evalEXPIRE e [k, FormatInt n] d = Inr (RESP_ONE, d1) \<and> lview d1 = (lview d)(k := None)))"
proof -
  have "\<exists>d1. evalSET e [k, v, ''EX'', FormatInt n] d = Inr (RESP_OK, d1) \<and> lview d1 k = Some (string_entry v None)"
    using store_string_view [OF assms(1,2), of k v "n * 1000"] assms(3)
    by (simp add: evalSET_def expiry_of_def live_entry_def string_entry_def)
  moreover have "\<exists>d1. evalEXPIRE e [k, FormatInt n] d = Inr (RESP_ONE, d1) \<and> lview d1 = (lview d)(k := None)"
    if "lview d k = Some (te, w, ex)" "GlobalCachedTime d + n * 1000 \<le> GlobalCachedTime d" for te w ex
    using evalEXPIRE_view [OF assms(1) that(1), of n] that(2) by (auto simp: live_entry_def)
  ultimately show ?thesis by auto
qed

lemma nonpositive_EX_is_forever_witness:
  "\<exists>d1. evalSET default_env [''k'', ''v'', ''EX'', FormatInt (- 1)] (init_db 5 5) = Inr (RESP_OK, d1) \<and>
     lview d1 ''k'' = Some (string_entry ''v'' None)"
  using nonpositive_EX_is_forever [OF init_db_ok [OF default_env_ok] default_env_ok, of "- 1" "''k''" "''v''" 5 5] by simp

text \<open>C35: the counters: \<open>INCRBY\<close> of a missing key creates it with the increment; of a string that
  is encoded as an integer it adds in 64-bit wrap-around arithmetic, replies the sum, stores
  its decimal form and keeps type byte and expiry; of anything else it replies an error and
  changes nothing visible. \<open>INCR\<close>, \<open>DECR\<close> and \<open>DECRBY\<close> are \<open>INCRBY\<close> by \<open>1\<close>, \<open>-1\<close> and \<open>-n\<close>.\<close>

theorem INCRBY_adds:
  assumes "db_ok e d" "config_ok (cfg e)"
  shows "(\<exists>d1. (case lview d k of
        None \<Rightarrow> evalINCRBY e [k, FormatInt n] d = Inr (Encode (GoInt64 n) False, d1) \<and>
          lview d1 k = Some (or OBJ_TYPE_STRING OBJ_ENCODING_INT, VStr (FormatInt n), None)
      | Some (te, v, ex) \<Rightarrow>
          if getType te = OBJ_TYPE_STRING \<and> getEncoding te = OBJ_ENCODING_INT
          then (\<exists>s. v = VStr s \<and> is_int s \<and>
            evalINCRBY e [k, FormatInt n] d = Inr (Encode (GoInt64 (int_value s + n)) False, d1) \<and>
            lview d1 = (lview d)(k \<mapsto> (te, VStr (FormatInt (int_value s + n)), ex)))
          else (\<exists>msg. evalINCRBY e [k, FormatInt n] d = Inr (error_reply msg, d1) \<and> lview d1 = lview d)) \<and>
      evolves e {k} d d1) \<and>
    evalINCR e [k] d = evalINCRBY e [k, FormatInt 1] d \<and> evalDECR e [k] d = evalINCRBY e [k, FormatInt (- 1)] d \<and>
    evalDECRBY e [k, FormatInt n] d = evalINCRBY e [k, FormatInt (- n)] d"
proof -
  have incrby: "evalINCRBY e [k, FormatInt i] d = counter_update e k (\<lambda>j. j + i) d" for i by (simp add: evalINCRBY_def)
  show ?thesis
    unfolding incrby using counter_update_view [OF assms, of k "\<lambda>i. i + n", unfolded add_0]
    by (simp only: evalINCR_def evalDECR_def evalDECRBY_def ParseInt_FormatInt) simp
qed

lemma INCRBY_adds_witness:
  "\<exists>d1. evalINCRBY default_env [''n'', FormatInt 7] (init_db 5 5) = Inr (Encode (GoInt64 7) False, d1)"
  using INCRBY_adds [OF init_db_ok [OF default_env_ok] default_env_ok, where k = "''n''" and n = 7]
  by (auto simp: lview_def init_db_def)

text \<open>The readers agree with the abstract database and leave it as it is: \<open>GET\<close>, \<open>TYPE\<close> and
  \<open>TTL\<close> reply from the visible entry of the key, \<open>MGET\<close> for each of its keys (a missing one
  as the text \<open>(nil)\<close>), and \<open>EXISTS\<close> counts its visible keys, repeated ones again.\<close>

theorem readers_observe_view:
  assumes "db_ok e d"
  shows "(\<exists>d1. evalGET e [k] d = Inr (case lview d k of None \<Rightarrow> RESP_NIL | Some (te, v, ex) \<Rightarrow> value_reply v, d1) \<and> lview d1 = lview d) \<and>
    (\<exists>d1. evalTYPE e [k] d =
        Inr (Encode (GoString (case lview d k of None \<Rightarrow> ''none'' | Some (te, v, ex) \<Rightarrow> TypeName te)) True, d1) \<and> lview d1 = lview d) \<and>
    (\<exists>d1. evalTTL e [k] d = Inr (ttl_reply (GlobalCachedTime d) (lview d k), d1) \<and> lview d1 = lview d) \<and>
    (\<exists>d1. evalMGET e (k # ks) d = Inr (array_reply (map (\<lambda>k. mget_text e (lview d k)) (k # ks)), d1) \<and> lview d1 = lview d) \<and>
    (\<exists>d1. evalEXISTS e (k # ks) d = Inr (int_reply (int (length (filter (\<lambda>k. lview d k \<noteq> None) (k # ks)))), d1) \<and>
        lview d1 = lview d)"
proof -
  have "\<exists>d1. evalMGET e (k # ks) d = Inr (array_reply (map (\<lambda>k. mget_text e (lview d k)) (k # ks)), d1) \<and> lview d1 = lview d"
    using mget_loop_view [OF assms, of "k # ks"] by (cases "mget_loop e (k # ks) d") (simp add: evalMGET_def)
  moreover have "\<exists>d1. evalEXISTS e (k # ks) d = Inr (int_reply (int (length (filter (\<lambda>k. lview d k \<noteq> None) (k # ks)))), d1) \<and> lview d1 = lview d"
    using exists_loop_view [OF assms, of "k # ks" 0] by (cases "exists_loop (k # ks) 0 d") (simp add: evalEXISTS_def)
  ultimately show ?thesis
    using evalGET_view [OF assms, of k] evalTYPE_view [OF assms, of k] evalTTL_view [OF assms, of k] by blast
qed

lemma readers_observe_view_witness: "\<exists>d1. evalGET default_env [''k''] (init_db 5 5) = Inr (RESP_NIL, d1)"
  using readers_observe_view [OF init_db_ok [OF default_env_ok], where k = "''k''" and ks = "[]"] by (auto simp: lview_def init_db_def)

text \<open>\<open>MSET\<close> writes all its pairs, a later pair over an earlier one of the same key, when the
  new keys fit; \<open>DEL\<close> removes exactly its keys and replies how many different ones were stored.\<close>

theorem MSET_DEL_update_many:
  assumes "db_ok e d" "config_ok (cfg e)" "even (length args)" "args \<noteq> []" "StoreLen d + int (length args div 2) \<le> KeysLimit (cfg e)"
  shows "(\<exists>d1. evalMSET e args d = Inr (RESP_OK, d1) \<and> lview d1 = lview d ++ last_written args) \<and>
    (\<exists>d1. evalDEL e ks d = Inr (Encode (GoInt (of_int (int (card (set ks \<inter> dom (map_of (store d))))))) False, d1) \<and>
       lview d1 = lview d |` (- set ks))"
proof -
  have "\<not> length args < 2" using assms(3,4) by (cases args; cases "tl args") auto
  then have "evalMSET e args d = Inr (RESP_OK, mset_loop e args d)" using assms(3) by (simp add: evalMSET_def)
  moreover have "lview (mset_loop e args d) = lview d ++ last_written args"
    by (rule mset_loop_view [OF assms(1,2,5)])
  moreover have "\<exists>d1. evalDEL e ks d = Inr (Encode (GoInt (of_int (int (card (set ks \<inter> dom (map_of (store d))))))) False, d1) \<and>
      lview d1 = lview d |` (- set ks)"
    using del_loop_view [OF db_ok_inv [OF assms(1)], of ks 0] by (cases "del_loop ks 0 d") (simp add: evalDEL_def)
  ultimately show ?thesis by blast
qed

lemma MSET_DEL_update_many_witness:
  "\<exists>d1. evalMSET default_env [''a'', ''1'', ''b'', ''2''] (init_db 5 5) = Inr (RESP_OK, d1)"
  using MSET_DEL_update_many [OF init_db_ok [OF default_env_ok] default_env_ok, of "[''a'', ''1'', ''b'', ''2'']" 5 5 "[]"]
  by (auto simp: init_db_def StoreLen_def default_env_def default_config_def)

end
