(* ===== verification/HashSpec.thy ===== *)
theory HashSpec
  imports EvalHash StringSpec
begin

text \<open>
  What the hash commands do to the abstract database. Each command is described once for both
  representations: its reply and the map it leaves, on every branch. The contract of the store
  reaches the commands through \<open>zf\<close> and \<open>hf\<close>.
\<close>

section \<open>Writers\<close>

lemma evalHSET_view:
  assumes "db_ok e d" "config_ok (cfg e)" "fvs \<noteq> []" "even (length fvs)"
  shows "\<exists>d1. case slot OBJ_TYPE_HASH (lview d k) of
      None \<Rightarrow> evalHSET e (k # fvs) d = Inr (wrongtype_reply, d1) \<and> evolves e {k} d d1 \<and> lview d1 = lview d
    | Some (v0, ex) \<Rightarrow>
        evalHSET e (k # fvs) d = Inr (int_reply (int (card (dom (hash_view v0 ++ map_of (rev (pairs fvs))))) -
            int (card (dom (hash_view v0)))), d1) \<and>
        stores e OBJ_TYPE_HASH k (\<lambda>w. hash_view w = hash_view v0 ++ map_of (rev (pairs fvs)) \<and> hash_small (cfg e) w) ex d d1"
proof -
  have len: "\<not> (length (k # fvs) < 3 \<or> even (length (k # fvs)))"
    using assms(3,4) by (cases fvs; cases "tl fvs") auto
  from assms(1,2) show ?thesis
  proof (cases rule: hashGetOrCreate_cases [where k = k])
    case (wrong d1)
    then show ?thesis using len by (intro exI [of _ d1]) (simp add: evalHSET_def del: length_Cons)
  next
    case (obj a d1 v0)
    from obj(7,6) obtain v n where v: "wf_value (TypeEncoding (objs d1 a)) v"
        "hash_view v = hash_view (Value (objs d1 a)) ++ map_of (rev (pairs fvs))"
        "n = int (card (dom (hash_view v))) - int (card (dom (hash_view (Value (objs d1 a)))))"
        "evalHSET e (k # fvs) d = obind (hashCheckPromote e a (set_val a v d1)) (\<lambda>d. Inr (int_reply n, d))"
    proof (cases rule: hash_cases)
      case (zip z)
      obtain z' n where r: "set_loop HashSet z fvs 0 = (z', n)" by force
      show thesis
        by (rule that [of "VZip z'" n])
          (use zip r zf.set_loop_abs [OF zip(3), of fvs 0] zf.size_abs len obj(1) in
            \<open>simp_all add: evalHSET_def del: length_Cons\<close>)
    next
      case (ht m)
      obtain m' n where r: "set_loop ht_set m fvs 0 = (m', n)" by force
      show thesis
        by (rule that [of "VHash m'" n])
          (use ht r hf.set_loop_abs [OF ht(3), of fvs 0] hf.size_abs len obj(1) in
            \<open>simp_all add: evalHSET_def del: length_Cons\<close>)
    qed
    obtain d2 where "hashCheckPromote e a (set_val a v d1) = Inr d2"
      "stores e OBJ_TYPE_HASH k (\<lambda>w. hash_view w = hash_view v \<and> hash_small (cfg e) w) (map_of (expires d1) a) d d2"
      using hashCheckPromote_stores [OF obj(2,3,8) v(1) obj(6)] by (auto simp: set_val_def)
    then show ?thesis using obj(4,5) v(2-4) by (intro exI [of _ d2]) simp
  qed
qed

lemma evalHINCRBY_view:
  assumes "db_ok e d" "config_ok (cfg e)"
  shows "\<exists>d1. case slot OBJ_TYPE_HASH (lview d k) of
      None \<Rightarrow> evalHINCRBY e [k, f, FormatInt n] d = Inr (wrongtype_reply, d1) \<and> evolves e {k} d d1 \<and> lview d1 = lview d
    | Some (v0, ex) \<Rightarrow>
        (let old = hash_view v0 f; i = (if old = None then 0 else int_value (the old)) + n in
         if old \<noteq> None \<and> \<not> is_int (the old)
         then evalHINCRBY e [k, f, FormatInt n] d = Inr (error_reply ''ERR hash value is not an integer'', d1) \<and>
           evolves e {k} d d1 \<and> lview d1 = lview d
         else evalHINCRBY e [k, f, FormatInt n] d = Inr (Encode (GoInt64 i) False, d1) \<and>
           stores e OBJ_TYPE_HASH k (\<lambda>w. hash_view w = (hash_view v0)(f \<mapsto> FormatInt i) \<and> hash_small (cfg e) w) ex d d1)"
  using assms
proof (cases rule: hashGetOrCreate_cases [where k = k])
  case (wrong d1)
  then show ?thesis by (intro exI [of _ d1]) (simp add: evalHINCRBY_def)
next
  case (obj a d1 v0)
  let ?m = "hash_view (Value (objs d1 a))"
  let ?i = "(if ?m f = None then 0 else int_value (the (?m f))) + n"
  show ?thesis
  proof (cases "?m f \<noteq> None \<and> \<not> is_int (the (?m f))")
    case True
    then have "v0 \<noteq> VNil" using obj(5) by auto
    then have vis: "lview d1 = lview d" using obj(8) slot_present [OF obj(4)] by simp
    from obj(7,6) have "evalHINCRBY e [k, f, FormatInt n] d = Inr (error_reply ''ERR hash value is not an integer'', d1)"
      by (cases rule: hash_cases)
        (use True obj(1) zf.incr_field_abs hf.incr_field_abs in \<open>simp_all add: evalHINCRBY_def split: option.splits\<close>)
    then show ?thesis using True vis obj(2,4,5) by (intro exI [of _ d1]) (auto simp: Let_def)
  next
    case False
    from obj(7,6) obtain v where v: "wf_value (TypeEncoding (objs d1 a)) v" "hash_view v = ?m(f \<mapsto> FormatInt ?i)"
        "evalHINCRBY e [k, f, FormatInt n] d = obind (hashCheckPromote e a (set_val a v d1)) (\<lambda>d. Inr (Encode (GoInt64 ?i) False, d))"
    proof (cases rule: hash_cases)
      case (zip z)
      show thesis
        by (rule that [of "VZip (fst (HashSet z f (FormatInt ?i)))"])
          (use zip False zf.incr_field_abs [OF zip(3)] zf.put_abs [OF zip(3)] obj(1) in \<open>auto simp: evalHINCRBY_def\<close>)
    next
      case (ht m)
      show thesis
        by (rule that [of "VHash (fst (ht_set m f (FormatInt ?i)))"])
          (use ht False hf.incr_field_abs [OF ht(3)] hf.put_abs [OF ht(3)] obj(1) in \<open>auto simp: evalHINCRBY_def\<close>)
    qed
    obtain d2 where "hashCheckPromote e a (set_val a v d1) = Inr d2"
      "stores e OBJ_TYPE_HASH k (\<lambda>w. hash_view w = hash_view v \<and> hash_small (cfg e) w) (map_of (expires d1) a) d d2"
      using hashCheckPromote_stores [OF obj(2,3,8) v(1) obj(6)] by (auto simp: set_val_def)
    then show ?thesis using obj(4,5) v(2,3) False by (intro exI [of _ d2]) (auto simp: Let_def)
  qed
qed

lemma evalHSETNX_view:
  assumes "db_ok e d" "config_ok (cfg e)"
  shows "\<exists>d1. case slot OBJ_TYPE_HASH (lview d k) of
      None \<Rightarrow> evalHSETNX e [k, f, x] d = Inr (wrongtype_reply, d1) \<and> evolves e {k} d d1 \<and> lview d1 = lview d
    | Some (v0, ex) \<Rightarrow>
        if f \<in> dom (hash_view v0)
        then evalHSETNX e [k, f, x] d = Inr (RESP_ZERO, d1) \<and> evolves e {k} d d1 \<and> lview d1 = lview d
        else evalHSETNX e [k, f, x] d = Inr (RESP_ONE, d1) \<and>
          stores e OBJ_TYPE_HASH k (\<lambda>w. hash_view w = (hash_view v0)(f \<mapsto> x) \<and> hash_small (cfg e) w) ex d d1"
  using assms
proof (cases rule: hashGetOrCreate_cases [where k = k])
  case (wrong d1)
  then show ?thesis by (intro exI [of _ d1]) (simp add: evalHSETNX_def)
next
  case (obj a d1 v0)
  let ?m = "hash_view (Value (objs d1 a))"
  show ?thesis
  proof (cases "f \<in> dom ?m")
    case True
    then have "v0 \<noteq> VNil" using obj(5) by auto
    then have vis: "lview d1 = lview d" using obj(8) slot_present [OF obj(4)] by simp
    from obj(7,6) have "evalHSETNX e [k, f, x] d = Inr (RESP_ZERO, d1)"
      by (cases rule: hash_cases) (use True obj(1) in \<open>auto simp: evalHSETNX_def ht_get_def\<close>)
    then show ?thesis using True vis obj(2,4,5) by (intro exI [of _ d1]) simp
  next
    case False
    from obj(7,6) obtain v where v: "wf_value (TypeEncoding (objs d1 a)) v" "hash_view v = ?m(f \<mapsto> x)"
        "evalHSETNX e [k, f, x] d = obind (hashCheckPromote e a (set_val a v d1)) (\<lambda>d. Inr (RESP_ONE, d))"
    proof (cases rule: hash_cases)
      case (zip z)
      show thesis
        by (rule that [of "VZip (fst (HashSet z f x))"])
          (use zip False zf.put_abs [OF zip(3)] obj(1) in \<open>auto simp: evalHSETNX_def domIff\<close>)
    next
      case (ht m)
      show thesis
        by (rule that [of "VHash (fst (ht_set m f x))"])
          (use ht False hf.put_abs [OF ht(3)] obj(1) in \<open>auto simp: evalHSETNX_def domIff ht_get_def\<close>)
    qed
    obtain d2 where "hashCheckPromote e a (set_val a v d1) = Inr d2"
      "stores e OBJ_TYPE_HASH k (\<lambda>w. hash_view w = hash_view v \<and> hash_small (cfg e) w) (map_of (expires d1) a) d d2"
      using hashCheckPromote_stores [OF obj(2,3,8) v(1) obj(6)] by (auto simp: set_val_def)
    then show ?thesis using obj(4,5) v(2,3) False by (intro exI [of _ d2]) simp
  qed
qed

lemma evalHDEL_view:
  assumes "db_ok e d" "fs \<noteq> []"
  shows "\<exists>d1. case slot OBJ_TYPE_HASH (lview d k) of
      None \<Rightarrow> evalHDEL e (k # fs) d = Inr (wrongtype_reply, d1) \<and> evolves e {k} d d1 \<and> lview d1 = lview d
    | Some (v0, ex) \<Rightarrow>
        (let m = hash_view v0 |` (- set fs) in
         evalHDEL e (k # fs) d = Inr (int_reply (int (card (dom (hash_view v0))) - int (card (dom m))), d1) \<and>
         leaves e OBJ_TYPE_HASH k (m = Map.empty) (\<lambda>w. hash_view w = m) ex d d1)"
proof -
  have len: "\<not> length (k # fs) < 2" using assms(2) by (cases fs) auto
  note D = evalHDEL_def [of e "k # fs" d, unfolded if_not_P [OF len]]
  show ?thesis
    using assms(1)
  proof (cases rule: typed_lookup_cases [where ty = OBJ_TYPE_HASH and k = k])
    case (missing d1)
    then show ?thesis using evolves_mono [OF missing(2), of "{k}"]
      by (intro exI [of _ d1]) (simp add: D leaves_nothing Let_def)
  next
    case (wrong d1)
    then show ?thesis using evolves_mono [OF wrong(2), of "{k}"] by (intro exI [of _ d1]) (simp add: D)
  next
    case (found a d1)
    let ?m = "hash_view (Value (objs d1 a))"
    have ev: "evolves e {k} d d1" by (rule evolves_mono [OF found(2)]) simp
    from found(8,7) obtain v n where v: "wf_value (TypeEncoding (objs d1 a)) v" "hash_view v = ?m |` (- set fs)"
        "n = int (card (dom ?m)) - int (card (dom (hash_view v)))"
        "evalHDEL e (k # fs) d = Inr (int_reply n, if hash_view v = Map.empty then fst (Del k (set_val a v d1)) else set_val a v d1)"
    proof (cases rule: hash_cases)
      case (zip z)
      obtain z' n where r: "del_fields HashDel z fs 0 = (z', n)" "zl_hash_inv z'" "hash_of z' = hash_of z |` (- set fs)"
        "n = int (card (dom (hash_of z))) - int (card (dom (hash_of z')))" "HashLen z' = 0 \<longleftrightarrow> hash_of z' = Map.empty"
        by (rule zf.del_fields_result [OF zip(3)])
      show thesis
        by (rule that [of "VZip z'" n]) (use zip r found(1) in \<open>simp_all add: D Let_def\<close>)
    next
      case (ht m)
      obtain m' n where r: "del_fields ht_del m fs 0 = (m', n)" "wf_gomap m'" "map_of m' = map_of m |` (- set fs)"
        "n = int (card (dom (map_of m))) - int (card (dom (map_of m')))" "length m' = 0 \<longleftrightarrow> map_of m' = Map.empty"
        by (rule hf.del_fields_result [OF ht(3)])
      show thesis
        by (rule that [of "VHash m'" n]) (use ht r found(1) in \<open>simp_all add: D Let_def\<close>)
    qed
    define d2 where "d2 = (if hash_view v = Map.empty then fst (Del k (set_val a v d1)) else set_val a v d1)"
    have "leaves e OBJ_TYPE_HASH k (hash_view v = Map.empty) (\<lambda>w. hash_view w = hash_view v) (map_of (expires d1) a) d d2"
      unfolding d2_def set_val_def by (rule leaves_update [OF ev found(4,3) v(1) found(7)]) simp
    then show ?thesis
      using v(2-4) found(6) unfolding d2_def [symmetric] by (intro exI [of _ d2]) (simp add: Let_def)
  qed
qed

section \<open>Readers\<close>

lemma enumerates_pairs: "zl_hash_inv z \<Longrightarrow> enumerates (pairs (entries z)) (hash_of z)"
  by (simp add: enumerates_def hash_of_def zl_hash_inv_def)

lemma enumerates_iterate:
  assumes "wf_gomap m"
  shows "enumerates (map (\<lambda>k. (k, fst (ht_get m k))) (iterate e d (map fst m))) (map_of m)"
proof -
  have "map_of (map (\<lambda>k. (k, fst (ht_get m k))) (iterate e d (map fst m))) x = map_of m x" for x
    unfolding map_of_graph using map_of_None_notin [of m x] by (auto simp: ht_get_def split: option.splits)
  then show ?thesis using assms by (simp add: enumerates_def wf_gomap_def comp_def fun_eq_iff)
qed

lemma flat_pairs: "even (length es) \<Longrightarrow> concat (map (\<lambda>(f, x). [f, x]) (pairs es)) = es"
  by (induction es rule: pairs.induct) (simp_all split: if_splits)

lemma evalHGET_view:
  assumes "db_ok e d"
  shows "\<exists>r d1. evalHGET e [k, f] d = Inr (r, d1) \<and> evolves e {} d d1 \<and> lview d1 = lview d \<and>
    (case slot OBJ_TYPE_HASH (lview d k) of
       None \<Rightarrow> r = wrongtype_reply
     | Some (v0, ex) \<Rightarrow> r = (case hash_view v0 f of None \<Rightarrow> RESP_NIL | Some x \<Rightarrow> bulk x))"
  unfolding evalHGET_def
  by (simp, rule typed_reader [OF assms], simp, erule hash_cases, assumption)
    (auto simp: found_reply_def zf.get_abs hf.get_abs split: option.splits)

lemma evalHLEN_view:
  assumes "db_ok e d"
  shows "\<exists>r d1. evalHLEN e [k] d = Inr (r, d1) \<and> evolves e {} d d1 \<and> lview d1 = lview d \<and>
    (case slot OBJ_TYPE_HASH (lview d k) of
       None \<Rightarrow> r = wrongtype_reply
     | Some (v0, ex) \<Rightarrow> r = int_reply (int (card (dom (hash_view v0)))))"
  unfolding evalHLEN_def
  by (simp, rule typed_reader [OF assms], simp, erule hash_cases, assumption)
    (auto simp: zf.size_abs hf.size_abs)

lemma evalHEXISTS_view:
  assumes "db_ok e d"
  shows "\<exists>r d1. evalHEXISTS e [k, f] d = Inr (r, d1) \<and> evolves e {} d d1 \<and> lview d1 = lview d \<and>
    (case slot OBJ_TYPE_HASH (lview d k) of
       None \<Rightarrow> r = wrongtype_reply
     | Some (v0, ex) \<Rightarrow> r = (if f \<in> dom (hash_view v0) then RESP_ONE else RESP_ZERO))"
  unfolding evalHEXISTS_def
  by (simp, rule typed_reader [OF assms], simp, erule hash_cases, assumption)
    (auto simp: ht_get_def domIff split: option.splits)

lemma evalHGETALL_view:
  assumes "db_ok e d"
  shows "\<exists>r d1. evalHGETALL e [k] d = Inr (r, d1) \<and> evolves e {} d d1 \<and> lview d1 = lview d \<and>
    (case slot OBJ_TYPE_HASH (lview d k) of
       None \<Rightarrow> r = wrongtype_reply
     | Some (v0, ex) \<Rightarrow> \<exists>ps. enumerates ps (hash_view v0) \<and> r = array_reply (concat (map (\<lambda>(f, x). [f, x]) ps)))"
  unfolding evalHGETALL_def
proof (simp, rule typed_reader [OF assms], goal_cases)
  case 1
  show ?case by (rule exI [of _ "[]"]) (simp add: enumerates_def)
next
  case (2 a d1)
  then show ?case
  proof (cases rule: hash_cases)
    case (zip z)
    then show ?thesis
      using enumerates_pairs [OF zip(3)] flat_pairs [of "entries z"] zip(3)
      by (intro exI [of _ "array_reply (entries z)"]) (auto simp: HashGetAll_def zl_hash_inv_def)
  next
    case (ht m)
    let ?ks = "iterate e d1 (map fst m)"
    have "map_pairs m ?ks = concat (map (\<lambda>(f, x). [f, x]) (map (\<lambda>k. (k, fst (ht_get m k))) ?ks))"
      by (simp add: map_pairs_def comp_def)
    then show ?thesis using ht enumerates_iterate [OF ht(3), of e d1]
      by (intro exI [of _ "array_reply (map_pairs m ?ks)"]) auto
  qed
qed

lemma evalHKEYS_view:
  assumes "db_ok e d"
  shows "\<exists>r d1. evalHKEYS e [k] d = Inr (r, d1) \<and> evolves e {} d d1 \<and> lview d1 = lview d \<and>
    (case slot OBJ_TYPE_HASH (lview d k) of
       None \<Rightarrow> r = wrongtype_reply
     | Some (v0, ex) \<Rightarrow> \<exists>ps. enumerates ps (hash_view v0) \<and> r = array_reply (map fst ps))"
  unfolding evalHKEYS_def
proof (simp, rule typed_reader [OF assms], goal_cases)
  case 1
  show ?case by (rule exI [of _ "[]"]) (simp add: enumerates_def)
next
  case (2 a d1)
  then show ?case
  proof (cases rule: hash_cases)
    case (zip z)
    then show ?thesis using enumerates_pairs [OF zip(3)]
      by (intro exI [of _ "array_reply (HashKeys z)"]) (auto simp: HashKeys_def HashKeys_scan_pairs)
  next
    case (ht m)
    then show ?thesis using enumerates_iterate [OF ht(3), of e d1]
      by (intro exI [of _ "array_reply (iterate e d1 (map fst m))"]) (force simp: comp_def)
  qed
qed

lemma evalHVALS_view:
  assumes "db_ok e d"
  shows "\<exists>r d1. evalHVALS e [k] d = Inr (r, d1) \<and> evolves e {} d d1 \<and> lview d1 = lview d \<and>
    (case slot OBJ_TYPE_HASH (lview d k) of
       None \<Rightarrow> r = wrongtype_reply
     | Some (v0, ex) \<Rightarrow> \<exists>ps. enumerates ps (hash_view v0) \<and> r = array_reply (map snd ps))"
  unfolding evalHVALS_def
proof (simp, rule typed_reader [OF assms], goal_cases)
  case 1
  show ?case by (rule exI [of _ "[]"]) (simp add: enumerates_def)
next
  case (2 a d1)
  then show ?case
  proof (cases rule: hash_cases)
    case (zip z)
    then show ?thesis using enumerates_pairs [OF zip(3)]
      by (intro exI [of _ "array_reply (HashValues z)"]) (auto simp: HashValues_def HashValues_scan_pairs)
  next
    case (ht m)
    let ?ks = "iterate e d1 (map fst m)"
    show ?thesis using ht enumerates_iterate [OF ht(3), of e d1]
      by (intro exI [of _ "array_reply (map (\<lambda>k. fst (ht_get m k)) ?ks)"]) (force simp: comp_def)
  qed
qed

section \<open>Every hash command is served\<close>

lemma hash_writers_served:
  assumes "db_ok e d" "config_ok (cfg e)"
  shows "served e (set args) d (evalHSET e args d)" "served e (set args) d (evalHDEL e args d)"
    "served e (set args) d (evalHINCRBY e args d)" "served e (set args) d (evalHSETNX e args d)"
proof -
  note ev = evolves_parts
  show "served e (set args) d (evalHSET e args d)"
  proof (cases "length args < 3 \<or> even (length args)")
    case True
    then show ?thesis using assms(1) by (simp add: evalHSET_def)
  next
    case False
    then obtain k fvs where a: "args = k # fvs" by (cases args) auto
    with False have "fvs \<noteq> []" "even (length fvs)" by auto
    note a = a this
    show ?thesis using evalHSET_view [OF assms a(2,3), of k] unfolding a(1)
      by (auto split: option.splits intro: ev)
  qed
  show "served e (set args) d (evalHDEL e args d)"
  proof (cases "length args < 2")
    case True
    then show ?thesis using assms(1) by (simp add: evalHDEL_def)
  next
    case False
    then obtain k fs where a: "args = k # fs" by (cases args) auto
    with False have "fs \<noteq> []" by auto
    note a = a this
    show ?thesis using evalHDEL_view [OF assms(1) a(2), of k] unfolding a(1)
      by (auto simp: Let_def split: option.splits intro: ev)
  qed
  show "served e (set args) d (evalHINCRBY e args d)"
  proof (cases "length args = 3 \<and> snd (ParseInt (args ! 2)) = None")
    case True
    then obtain k f s where args: "args = [k, f, s]" by (auto simp: length_Suc_conv eval_nat_numeral)
    then obtain n where "ParseInt s = (n, None)" using True by (cases "ParseInt s") auto
    note a = args this
    have "evalHINCRBY e args d = evalHINCRBY e [k, f, FormatInt n] d" 
      by (simp add: evalHINCRBY_def a cong: option.case_cong prod.case_cong)
    moreover have "served e (set args) d (evalHINCRBY e [k, f, FormatInt n] d)"
    proof (cases "slot OBJ_TYPE_HASH (lview d k)")
      case None
      then show ?thesis using evalHINCRBY_view [OF assms, of k f n] a(1) by (auto intro: ev)
    next
      case (Some p)
      obtain v0 ex where "p = (v0, ex)" by force
      then show ?thesis using Some evalHINCRBY_view [OF assms, of k f n] a(1)
        by (cases "hash_view v0 f \<noteq> None \<and> \<not> is_int (the (hash_view v0 f))") (auto simp: Let_def intro: ev)
    qed
    ultimately show ?thesis by simp
  next
    case False
    then show ?thesis using assms(1) by (auto simp: evalHINCRBY_def split: prod.splits option.splits)
  qed
  show "served e (set args) d (evalHSETNX e args d)"
  proof (cases "length args = 3")
    case True
    then obtain k f x where a: "args = [k, f, x]" by (auto simp: length_Suc_conv eval_nat_numeral)
    show ?thesis
    proof (cases "slot OBJ_TYPE_HASH (lview d k)")
      case None
      then show ?thesis using evalHSETNX_view [OF assms, of k f x] a by (auto intro: ev)
    next
      case (Some p)
      obtain v0 ex where "p = (v0, ex)" by force
      then show ?thesis using Some evalHSETNX_view [OF assms, of k f x] a
        by (cases "f \<in> dom (hash_view v0)") (auto intro: ev)
    qed
  qed (simp add: evalHSETNX_def assms(1))
qed

lemma hash_readers_served:
  assumes "db_ok e d"
  shows "served e (set args) d (evalHGET e args d)" "served e (set args) d (evalHGETALL e args d)"
    "served e (set args) d (evalHLEN e args d)" "served e (set args) d (evalHEXISTS e args d)"
    "served e (set args) d (evalHKEYS e args d)" "served e (set args) d (evalHVALS e args d)"
proof -
  show "served e (set args) d (evalHGET e args d)"
    by (cases "length args = 2")
      (use served_viewI [OF evalHGET_view [OF assms]] in \<open>auto simp: length_2_conv evalHGET_def assms\<close>)
  show "served e (set args) d (evalHEXISTS e args d)"
    by (cases "length args = 2")
      (use served_viewI [OF evalHEXISTS_view [OF assms]] in \<open>auto simp: length_2_conv evalHEXISTS_def assms\<close>)
  show "served e (set args) d (evalHGETALL e args d)"
    by (cases "length args = 1")
      (use served_viewI [OF evalHGETALL_view [OF assms]] in \<open>auto simp: length_1_conv evalHGETALL_def assms\<close>)
  show "served e (set args) d (evalHLEN e args d)"
    by (cases "length args = 1")
      (use served_viewI [OF evalHLEN_view [OF assms]] in \<open>auto simp: length_1_conv evalHLEN_def assms\<close>)
  show "served e (set args) d (evalHKEYS e args d)"
    by (cases "length args = 1")
      (use served_viewI [OF evalHKEYS_view [OF assms]] in \<open>auto simp: length_1_conv evalHKEYS_def assms\<close>)
  show "served e (set args) d (evalHVALS e args d)"
    by (cases "length args = 1")
      (use served_viewI [OF evalHVALS_view [OF assms]] in \<open>auto simp: length_1_conv evalHVALS_def assms\<close>)
qed

section \<open>The properties\<close>

text \<open>C36: \<open>HSET\<close> and \<open>HDEL\<close> update a hash as a finite map, whichever representation it has:
  \<open>HSET\<close> adds all its pairs (a later one over an earlier one), replies the number of new
  fields, keeps the expiry and leaves a ziplist only within both thresholds, so the promotion
  is not visible in the content; \<open>HDEL\<close> removes its fields, replies how many there were, and
  removes the key with the last field. A key of another type is refused and not changed.\<close>

theorem HSET_HDEL_update_map:
  assumes "db_ok e d" "config_ok (cfg e)" "fvs \<noteq> []" "even (length fvs)" "fs \<noteq> []"
  shows "(\<exists>d1. case slot OBJ_TYPE_HASH (lview d k) of
      None \<Rightarrow> evalHSET e (k # fvs) d = Inr (wrongtype_reply, d1) \<and> evolves e {k} d d1 \<and> lview d1 = lview d
    | Some (v0, ex) \<Rightarrow>
        evalHSET e (k # fvs) d = Inr (int_reply (int (card (dom (hash_view v0 ++ map_of (rev (pairs fvs))))) -
            int (card (dom (hash_view v0)))), d1) \<and>
        stores e OBJ_TYPE_HASH k (\<lambda>w. hash_view w = hash_view v0 ++ map_of (rev (pairs fvs)) \<and> hash_small (cfg e) w) ex d d1) \<and>
   (\<exists>d1. case slot OBJ_TYPE_HASH (lview d k) of
      None \<Rightarrow> evalHDEL e (k # fs) d = Inr (wrongtype_reply, d1) \<and> evolves e {k} d d1 \<and> lview d1 = lview d
    | Some (v0, ex) \<Rightarrow>
        (let m = hash_view v0 |` (- set fs) in
         evalHDEL e (k # fs) d = Inr (int_reply (int (card (dom (hash_view v0))) - int (card (dom m))), d1) \<and>
         leaves e OBJ_TYPE_HASH k (m = Map.empty) (\<lambda>w. hash_view w = m) ex d d1))"
  using evalHSET_view [OF assms(1-4), of k] evalHDEL_view [OF assms(1,5), of k] by (rule conjI)

lemma HSET_HDEL_update_map_witness:
  "\<exists>d1. evalHSET default_env [''h'', ''f'', ''1'', ''f'', ''2''] (init_db 5 5) = Inr (RESP_ONE, d1)"
  using HSET_HDEL_update_map [OF init_db_ok [OF default_env_ok] default_env_ok, where fvs = "[''f'', ''1'', ''f'', ''2'']" and fs = "[''f'']" and k = "''h''"]
  by (auto simp: slot_def)

text \<open>\<open>HINCRBY\<close> adds to the integer in a field in 64-bit wrap-around arithmetic (a missing field
  counts as 0), refuses a field that is no integer, and \<open>HSETNX\<close> writes a field only if it is
  missing; both keep the other fields, the expiry and the thresholds.\<close>

theorem HINCRBY_HSETNX_update_field:
  assumes "db_ok e d" "config_ok (cfg e)"
  shows "(\<exists>d1. case slot OBJ_TYPE_HASH (lview d k) of
      None \<Rightarrow> evalHINCRBY e [k, f, FormatInt n] d = Inr (wrongtype_reply, d1) \<and> evolves e {k} d d1 \<and> lview d1 = lview d
    | Some (v0, ex) \<Rightarrow>
        (let old = hash_view v0 f; i = (if old = None then 0 else int_value (the old)) + n in
         if old \<noteq> None \<and> \<not> is_int (the old)
         then evalHINCRBY e [k, f, FormatInt n] d = Inr (error_reply ''ERR hash value is not an integer'', d1) \<and>
           evolves e {k} d d1 \<and> lview d1 = lview d
         else evalHINCRBY e [k, f, FormatInt n] d = Inr (Encode (GoInt64 i) False, d1) \<and>
           stores e OBJ_TYPE_HASH k (\<lambda>w. hash_view w = (hash_view v0)(f \<mapsto> FormatInt i) \<and> hash_small (cfg e) w) ex d d1)) \<and>
   (\<exists>d1. case slot OBJ_TYPE_HASH (lview d k) of
      None \<Rightarrow> evalHSETNX e [k, f, x] d = Inr (wrongtype_reply, d1) \<and> evolves e {k} d d1 \<and> lview d1 = lview d
    | Some (v0, ex) \<Rightarrow>
        if f \<in> dom (hash_view v0)
        then evalHSETNX e [k, f, x] d = Inr (RESP_ZERO, d1) \<and> evolves e {k} d d1 \<and> lview d1 = lview d
        else evalHSETNX e [k, f, x] d = Inr (RESP_ONE, d1) \<and>
          stores e OBJ_TYPE_HASH k (\<lambda>w. hash_view w = (hash_view v0)(f \<mapsto> x) \<and> hash_small (cfg e) w) ex d d1)"
  using evalHINCRBY_view [OF assms, of k f n] evalHSETNX_view [OF assms, of k f x] by (rule conjI)

lemma HINCRBY_HSETNX_update_field_witness:
  "\<exists>d1. evalHINCRBY default_env [''h'', ''f'', FormatInt 7] (init_db 5 5) = Inr (Encode (GoInt64 7) False, d1)"
  using HINCRBY_HSETNX_update_field [OF init_db_ok [OF default_env_ok] default_env_ok, where k = "''h''" and f = "''f''" and n = 7 and x = "[]"]
  by (auto simp: slot_def Let_def)

text \<open>The hash readers reply from the map and do not change the database: \<open>HGET\<close> the value of a
  field or nil, \<open>HEXISTS\<close> whether it is there, \<open>HLEN\<close> their number, and \<open>HGETALL\<close> every pair once,
  in an order that the representation decides.\<close>

theorem hash_readers_observe_map:
  assumes "db_ok e d"
  shows "(\<exists>r d1. evalHGET e [k, f] d = Inr (r, d1) \<and> lview d1 = lview d \<and>
    (case slot OBJ_TYPE_HASH (lview d k) of
       None \<Rightarrow> r = wrongtype_reply
     | Some (v0, ex) \<Rightarrow> r = (case hash_view v0 f of None \<Rightarrow> RESP_NIL | Some x \<Rightarrow> bulk x))) \<and>
   (\<exists>r d1. evalHEXISTS e [k, f] d = Inr (r, d1) \<and> lview d1 = lview d \<and>
    (case slot OBJ_TYPE_HASH (lview d k) of
       None \<Rightarrow> r = wrongtype_reply
     | Some (v0, ex) \<Rightarrow> r = (if f \<in> dom (hash_view v0) then RESP_ONE else RESP_ZERO))) \<and>
   (\<exists>r d1. evalHLEN e [k] d = Inr (r, d1) \<and> lview d1 = lview d \<and>
    (case slot OBJ_TYPE_HASH (lview d k) of
       None \<Rightarrow> r = wrongtype_reply
     | Some (v0, ex) \<Rightarrow> r = int_reply (int (card (dom (hash_view v0)))))) \<and>
   (\<exists>r d1. evalHGETALL e [k] d = Inr (r, d1) \<and> lview d1 = lview d \<and>
    (case slot OBJ_TYPE_HASH (lview d k) of
       None \<Rightarrow> r = wrongtype_reply
     | Some (v0, ex) \<Rightarrow> \<exists>ps. enumerates ps (hash_view v0) \<and> r = array_reply (concat (map (\<lambda>(f, x). [f, x]) ps))))"
  using evalHGET_view [OF assms, of k f] evalHEXISTS_view [OF assms, of k f] evalHLEN_view [OF assms, of k]
    evalHGETALL_view [OF assms, of k] by meson

lemma hash_readers_observe_map_witness:
  "\<exists>d1. evalHLEN default_env [''h''] (init_db 5 5) = Inr (RESP_ZERO, d1)"
  using hash_readers_observe_map [OF init_db_ok [OF default_env_ok], where k = "''h''" and f = "''f''"]
  by (auto simp: slot_def)

end
