(* ===== verification/EvalSet.thy ===== *)
theory EvalSet
  imports StringSpec
begin

text \<open>
  The set commands of \<open>core/eval_set.go\<close>. A set is an intset while all its members are integers
  and it is small, a Go map otherwise; \<open>setAdd\<close> converts it in between. The look-up and the
  removal loops use the contract \<open>member_store\<close>, whose parameter \<open>norm\<close> is the spelling a
  representation keeps of a memb: an intset keeps the value of a number, a map the bytes.
\<close>

section \<open>The commands\<close>

definition setGetOrCreate :: "env \<Rightarrow> string \<Rightarrow> string \<Rightarrow> db \<Rightarrow> nat option \<times> db" where
  "setGetOrCreate e ky firstMember d =
     (if snd (ParseInt firstMember) = None
      then type_get_or_create e OBJ_TYPE_SET OBJ_ENCODING_INTSET (VIntSet NewIntSet) ky d
      else type_get_or_create e OBJ_TYPE_SET OBJ_ENCODING_HT (VSet []) ky d)"

definition member_of :: "(string, unit) gomap \<Rightarrow> string \<Rightarrow> bool" where
  \<comment> \<open>\<open>_, exists := ht[member]\<close>\<close>
  "member_of m x \<longleftrightarrow> map_of m x \<noteq> None"

definition set_of_strings :: "string list \<Rightarrow> (string, unit) gomap \<Rightarrow> (string, unit) gomap" where
  \<comment> \<open>\<open>result[k] = struct{}{}\<close> for every \<open>k\<close>\<close>
  "set_of_strings ks m = foldl (\<lambda>m k. AList.update k () m) m ks"

definition setPromoteToHashtable :: "nat \<Rightarrow> db \<Rightarrow> db outcome" where
  "setPromoteToHashtable obj d =
     obind (as_intset (Value (objs d obj))) (\<lambda>is.
       Inr (set_value obj (or OBJ_TYPE_SET OBJ_ENCODING_HT) (VSet (set_of_strings (map FormatInt (IntSet_Members is)) [])) d))"

definition ht_add :: "nat \<Rightarrow> string \<Rightarrow> db \<Rightarrow> (bool \<times> db) outcome" where
  \<comment> \<open>the hashtable part of \<open>setAdd\<close>\<close>
  "ht_add obj memb d =
     obind (as_set (Value (objs d obj))) (\<lambda>ht.
       if member_of ht memb then Inr (False, d)
       else Inr (True, set_val obj (VSet (AList.update memb () ht)) d))"

definition setAdd :: "env \<Rightarrow> nat \<Rightarrow> string \<Rightarrow> db \<Rightarrow> (bool \<times> db) outcome" where
  "setAdd e obj memb d =
     (if getEncoding (TypeEncoding (objs d obj)) = OBJ_ENCODING_INTSET then
        obind (as_intset (Value (objs d obj))) (\<lambda>is.
          case ParseInt memb of
            (val, Some err) \<Rightarrow> obind (setPromoteToHashtable obj d) (ht_add obj memb)
          | (val, None) \<Rightarrow>
              let (is, added) = IntSet_Add is val; d = set_val obj (VIntSet is) d in
              obind (if SetMaxIntsetEntries (cfg e) < int (IntSet_Len is) then setPromoteToHashtable obj d else Inr d)
                (\<lambda>d. Inr (added, d)))
      else ht_add obj memb d)"

fun sadd_loop :: "env \<Rightarrow> nat \<Rightarrow> string list \<Rightarrow> int \<Rightarrow> db \<Rightarrow> (int \<times> db) outcome" where
  "sadd_loop e obj [] added d = Inr (added, d)"
| "sadd_loop e obj (memb # ms) added d =
     obind (setAdd e obj memb d) (\<lambda>(new, d). sadd_loop e obj ms (if new then added + 1 else added) d)"

definition evalSADD :: command where
  "evalSADD e args d =
     (if length args < 2 then Inr (arity_reply ''sadd'', d)
      else case setGetOrCreate e (args ! 0) (args ! 1) d of
        (None, d) \<Rightarrow> Inr (wrongtype_reply, d)
      | (Some obj, d) \<Rightarrow> obind (sadd_loop e obj (drop 1 args) 0 d) (\<lambda>(added, d). Inr (int_reply added, d)))"

definition set_switch ::
  "Obj \<Rightarrow> (IntSet \<Rightarrow> 'a outcome) \<Rightarrow> ((string, unit) gomap \<Rightarrow> 'a outcome) \<Rightarrow> 'a \<Rightarrow> 'a outcome" where
  \<comment> \<open>\<open>switch getEncoding(obj.TypeEncoding)\<close> with the type assertion of each case\<close>
  "set_switch obj f g dflt =
     (let enc = getEncoding (TypeEncoding obj) in
      if enc = OBJ_ENCODING_INTSET then obind (as_intset (Value obj)) f
      else if enc = OBJ_ENCODING_HT then obind (as_set (Value obj)) g
      else Inr dflt)"

definition is_rem :: "IntSet \<Rightarrow> string \<Rightarrow> IntSet \<times> bool" where
  "is_rem is memb = (case ParseInt memb of (val, None) \<Rightarrow> IntSet_Remove is val | (val, Some err) \<Rightarrow> (is, False))"

definition set_rem :: "(string, unit) gomap \<Rightarrow> string \<Rightarrow> (string, unit) gomap \<times> bool" where
  "set_rem ht memb = (if member_of ht memb then (AList.delete memb ht, True) else (ht, False))"

fun rem_loop :: "('s \<Rightarrow> string \<Rightarrow> 's \<times> bool) \<Rightarrow> 's \<Rightarrow> string list \<Rightarrow> int \<Rightarrow> 's \<times> int" where
  \<comment> \<open>the loop of \<open>SREM\<close> over the members\<close>
  "rem_loop rem st [] removed = (st, removed)"
| "rem_loop rem st (m # ms) removed =
     (let (st, found) = rem st m in rem_loop rem st ms (if found then removed + 1 else removed))"

definition evalSREM :: command where
  "evalSREM e args d =
     (if length args < 2 then Inr (arity_reply ''srem'', d)
      else typed_lookup OBJ_TYPE_SET (args ! 0) RESP_ZERO (\<lambda>obj d.
        obind (set_switch (objs d obj)
          (\<lambda>is. let (is, removed) = rem_loop is_rem is (drop 1 args) 0; d = set_val obj (VIntSet is) d
                in Inr (removed, if IntSet_Len is = 0 then fst (Del (args ! 0) d) else d))
          (\<lambda>ht. let (ht, removed) = rem_loop set_rem ht (drop 1 args) 0; d = set_val obj (VSet ht) d
                in Inr (removed, if length ht = 0 then fst (Del (args ! 0) d) else d)) (0, d)) (\<lambda>(removed, d).
        Inr (int_reply removed, d))) d)"

definition evalSMEMBERS :: command where
  "evalSMEMBERS e args d =
     (if length args \<noteq> 1 then Inr (arity_reply ''smembers'', d)
      else typed_lookup OBJ_TYPE_SET (args ! 0) (array_reply []) (\<lambda>obj d.
        obind (set_switch (objs d obj)
          (\<lambda>is. Inr (map FormatInt (IntSet_Members is), d))
          (\<lambda>ht. Inr (iterate e d (map fst ht), ticked d)) ([], d)) (\<lambda>(members, d).
        Inr (array_reply members, d))) d)"

definition is_mem :: "IntSet \<Rightarrow> string \<Rightarrow> bool" where
  "is_mem is memb = (case ParseInt memb of (val, None) \<Rightarrow> IntSet_Contains is val | (val, Some err) \<Rightarrow> False)"

definition evalSISMEMBER :: command where
  "evalSISMEMBER e args d =
     (if length args \<noteq> 2 then Inr (arity_reply ''sismember'', d)
      else typed_lookup OBJ_TYPE_SET (args ! 0) RESP_ZERO (\<lambda>obj d.
        obind (set_switch (objs d obj) (\<lambda>is. Inr (is_mem is (args ! 1))) (\<lambda>ht. Inr (member_of ht (args ! 1))) False)
          (\<lambda>ex. Inr (if ex then RESP_ONE else RESP_ZERO, d))) d)"

definition evalSCARD :: command where
  "evalSCARD e args d =
     (if length args \<noteq> 1 then Inr (arity_reply ''scard'', d)
      else typed_lookup OBJ_TYPE_SET (args ! 0) RESP_ZERO (\<lambda>obj d.
        obind (set_switch (objs d obj)
          (\<lambda>is. Inr (int_reply (int (IntSet_Len is)))) (\<lambda>ht. Inr (int_reply (int (length ht)))) RESP_ZERO)
        (\<lambda>reply. Inr (reply, d))) d)"

definition getSetMembers :: "env \<Rightarrow> nat \<Rightarrow> db \<Rightarrow> ((string, unit) gomap \<times> db) outcome" where
  "getSetMembers e obj d =
     set_switch (objs d obj)
       (\<lambda>is. Inr (set_of_strings (map FormatInt (IntSet_Members is)) [], d))
       (\<lambda>ht. Inr (set_of_strings (iterate e d (map fst ht)) [], ticked d)) ([], d)"

definition keep_common :: "(string, unit) gomap \<Rightarrow> string list \<Rightarrow> (string, unit) gomap \<Rightarrow> (string, unit) gomap" where
  \<comment> \<open>\<open>for k := range result { if _, exists := other[k]; !exists { delete(result, k) } }\<close>\<close>
  "keep_common other ks result = foldl (\<lambda>res k. if member_of other k then res else AList.delete k res) result ks"

fun sinter_loop :: "env \<Rightarrow> string list \<Rightarrow> (string, unit) gomap \<Rightarrow> db \<Rightarrow> (string \<times> db) outcome" where
  \<comment> \<open>the loop of \<open>SINTER\<close> over the remaining keys and the reply after it\<close>
  "sinter_loop e [] result d = Inr (array_reply (iterate e d (map fst result)), ticked d)"
| "sinter_loop e (ky # ks) result d =
     typed_lookup OBJ_TYPE_SET ky (array_reply []) (\<lambda>obj2 d.
       obind (getSetMembers e obj2 d) (\<lambda>(other, d).
       sinter_loop e ks (keep_common other (iterate e d (map fst result)) result) (ticked d))) d"

definition evalSINTER :: command where
  "evalSINTER e args d =
     (if length args < 1 then Inr (arity_reply ''sinter'', d)
      else typed_lookup OBJ_TYPE_SET (args ! 0) (array_reply []) (\<lambda>obj d.
        obind (getSetMembers e obj d) (\<lambda>(result, d). sinter_loop e (drop 1 args) result d)) d)"

fun sunion_loop :: "env \<Rightarrow> string list \<Rightarrow> (string, unit) gomap \<Rightarrow> db \<Rightarrow> (string \<times> db) outcome" where
  "sunion_loop e [] result d = Inr (array_reply (iterate e d (map fst result)), ticked d)"
| "sunion_loop e (ky # ks) result d =
     (case Get ky d of
        (None, d) \<Rightarrow> sunion_loop e ks result d
      | (Some obj, d) \<Rightarrow>
          if assertType (TypeEncoding (objs d obj)) OBJ_TYPE_SET \<noteq> None then Inr (wrongtype_reply, d)
          else obind (getSetMembers e obj d) (\<lambda>(members, d).
            sunion_loop e ks (set_of_strings (iterate e d (map fst members)) result) (ticked d)))"

definition evalSUNION :: command where
  "evalSUNION e args d =
     (if length args < 1 then Inr (arity_reply ''sunion'', d) else sunion_loop e args [] d)"

section \<open>The contract of the two representations\<close>

locale member_store =
  fixes rem :: "'s \<Rightarrow> string \<Rightarrow> 's \<times> bool"
    and mem :: "'s \<Rightarrow> string \<Rightarrow> bool"
    and size_of :: "'s \<Rightarrow> nat"
    and inv :: "'s \<Rightarrow> bool"
    and abs :: "'s \<Rightarrow> string set"
    and norm :: "string \<Rightarrow> string"
  assumes rem_abs: "inv st \<Longrightarrow> inv (fst (rem st x)) \<and> abs (fst (rem st x)) = abs st - {norm x} \<and>
      (snd (rem st x) \<longleftrightarrow> norm x \<in> abs st)"
    and mem_abs: "inv st \<Longrightarrow> mem st x \<longleftrightarrow> norm x \<in> abs st"
    and size_abs: "inv st \<Longrightarrow> finite (abs st) \<and> size_of st = card (abs st)"
begin

lemma rem_loop_abs:
  "inv st \<Longrightarrow> inv (fst (rem_loop rem st xs n)) \<and> abs (fst (rem_loop rem st xs n)) = abs st - norm ` set xs \<and>
   snd (rem_loop rem st xs n) = n + int (card (abs st)) - int (card (abs (fst (rem_loop rem st xs n))))"
proof (induction xs arbitrary: st n)
  case (Cons x xs)
  obtain st1 found where p: "rem st x = (st1, found)" by force
  have a: "inv st1" "abs st1 = abs st - {norm x}" "found \<longleftrightarrow> norm x \<in> abs st"
    using rem_abs [OF Cons(2), of x] p by simp_all
  have c: "int (card (abs st1)) = int (card (abs st)) - (if found then 1 else 0)"
  proof (cases found)
    case True
    then have "Suc (card (abs st1)) = card (abs st)"
      unfolding a(2) by (intro card_Suc_Diff1) (use size_abs [OF Cons(2)] a(3) in auto)
    then show ?thesis using True by simp
  next
    case False
    then have "abs st1 = abs st" using a(2,3) by simp
    then show ?thesis using False by simp
  qed
  have "abs st - norm ` set (x # xs) = abs st1 - norm ` set xs" unfolding a(2) by auto
  with Cons(1) [OF a(1), of "if found then n + 1 else n"] c p show ?case by simp
qed simp

lemma rem_loop_result:
  assumes "inv st"
  obtains st' n where "rem_loop rem st xs 0 = (st', n)" "inv st'" "abs st' = abs st - norm ` set xs"
    "n = int (card (abs st)) - int (card (abs st'))" "size_of st' = 0 \<longleftrightarrow> abs st' = {}"
proof -
  obtain st' n where r: "rem_loop rem st xs 0 = (st', n)" by force
  then have a: "inv st'" "abs st' = abs st - norm ` set xs" "n = int (card (abs st)) - int (card (abs st'))"
    using rem_loop_abs [OF assms, of xs 0] by simp_all
  then show thesis using that [OF r] size_abs [OF a(1)] by auto
qed

end

definition canon :: "string \<Rightarrow> string" where
  \<comment> \<open>the decimal form of a number, any other string as it is\<close>
  "canon x = (if is_int x then FormatInt (int_value x) else x)"

lemma canon_FormatInt_iff: "canon x = FormatInt i \<longleftrightarrow> is_int x \<and> int_value x = i"
  by (auto simp: canon_def)

lemma is_int_cases: obtains "is_int x" "ParseInt x = (int_value x, None)" | i err where "\<not> is_int x" "ParseInt x = (i, Some err)"
  by (cases "ParseInt x"; cases "snd (ParseInt x)") (auto simp: is_int_def int_value_def)

lemma canon_in_ints: "canon x \<in> FormatInt ` A \<longleftrightarrow> is_int x \<and> int_value x \<in> A"
  by (auto simp: canon_def)

interpretation ims: member_store is_rem is_mem IntSet_Len intset_inv "\<lambda>is. FormatInt ` set (contents is)" canon
proof (unfold_locales, goal_cases)
  case (1 s x)
  then show ?case
    by (cases x rule: is_int_cases) (auto simp: is_rem_def canon_in_ints canon_def IntSet_Remove_inv)
next
  case (2 s x)
  then show ?case by (cases x rule: is_int_cases) (auto simp: is_mem_def canon_in_ints)
next
  case (3 s)
  then show ?case by (simp add: IntSet_Len_card card_image inj_on_def)
qed

interpretation hms: member_store set_rem member_of length wf_gomap "\<lambda>m. dom (map_of m)" "\<lambda>x. x"
  by unfold_locales (auto simp: set_rem_def member_of_def wf_gomap_delete card_dom_gomap)

section \<open>A set of strings\<close>

definition set_view :: "gvalue \<Rightarrow> string set" where
  "set_view v = (case v of VIntSet is \<Rightarrow> FormatInt ` set (contents is) | VSet m \<Rightarrow> dom (map_of m) | _ \<Rightarrow> {})"

lemma contents_NewIntSet [simp]: "contents NewIntSet = []"
  by (simp add: NewIntSet_def)

lemma set_view_simps [simp]: "set_view (VIntSet is) = FormatInt ` set (contents is)" "set_view (VSet m) = dom (map_of m)" "set_view VNil = {}" "set_view (VIntSet NewIntSet) = {}"
  by (simp_all add: set_view_def NewIntSet_def)

definition set_small :: "config \<Rightarrow> gvalue \<Rightarrow> bool" where
  \<comment> \<open>a value that is still an intset is within the threshold\<close>
  "set_small c v = (case v of VIntSet is \<Rightarrow> int (IntSet_Len is) \<le> SetMaxIntsetEntries c | _ \<Rightarrow> True)"

lemma set_of_strings_spec:
  "wf_gomap m \<Longrightarrow> wf_gomap (set_of_strings ks m) \<and> dom (map_of (set_of_strings ks m)) = dom (map_of m) \<union> set ks"
  unfolding set_of_strings_def by (induction ks arbitrary: m) (auto simp: wf_gomap_update)

lemma keep_common_spec:
  "wf_gomap m \<Longrightarrow> wf_gomap (keep_common other ks m) \<and>
   dom (map_of (keep_common other ks m)) = dom (map_of m) - (set ks - dom (map_of other))"
  unfolding keep_common_def by (induction ks arbitrary: m) (auto simp: wf_gomap_delete member_of_def)

lemma set_switch_simps [simp]:
  "TypeEncoding obj = or OBJ_TYPE_SET OBJ_ENCODING_INTSET \<Longrightarrow> Value obj = VIntSet is \<Longrightarrow> set_switch obj f g dflt = f is"
  "TypeEncoding obj = or OBJ_TYPE_SET OBJ_ENCODING_HT \<Longrightarrow> Value obj = VSet m \<Longrightarrow> set_switch obj f g dflt = g m"
  by (simp_all add: set_switch_def type_consts)

lemma set_cases:
  assumes "wf_value (TypeEncoding obj) (Value obj)" "getType (TypeEncoding obj) = OBJ_TYPE_SET"
  obtains (ints) "is" where "Value obj = VIntSet is" "TypeEncoding obj = or OBJ_TYPE_SET OBJ_ENCODING_INTSET" "intset_inv is"
  | (ht) m where "Value obj = VSet m" "TypeEncoding obj = or OBJ_TYPE_SET OBJ_ENCODING_HT" "wf_gomap m"
  using wf_set [OF assms] by auto

lemma setGetOrCreate_cases:
  assumes "db_ok e d" "config_ok (cfg e)"
  obtains (wrong) d1 where "setGetOrCreate e k x d = (None, d1)" "evolves e {k} d d1" "lview d1 = lview d"
      "slot OBJ_TYPE_SET (lview d k) = None"
  | (obj) a d1 v0 where "setGetOrCreate e k x d = (Some a, d1)" "evolves e {k} d d1" "held_at d1 k a"
      "slot OBJ_TYPE_SET (lview d k) = Some (v0, map_of (expires d1) a)" "set_view (Value (objs d1 a)) = set_view v0"
      "getType (TypeEncoding (objs d1 a)) = OBJ_TYPE_SET" "wf_value (TypeEncoding (objs d1 a)) (Value (objs d1 a))"
      "lview d k \<noteq> None \<longrightarrow> lview d1 = lview d"
proof (cases "snd (ParseInt x) = None")
  case True
  show thesis
    by (cases rule: get_or_create_slot [OF assms, where ty = OBJ_TYPE_SET and enc = OBJ_ENCODING_INTSET
        and v = "VIntSet NewIntSet" and view = set_view and k = k])
      (use True in \<open>auto simp: setGetOrCreate_def type_consts intro: wrong obj\<close>)
next
  case False
  show thesis
    by (cases rule: get_or_create_slot [OF assms, where ty = OBJ_TYPE_SET and enc = OBJ_ENCODING_HT
        and v = "VSet []" and view = set_view and k = k])
      (use False in \<open>auto simp: setGetOrCreate_def type_consts intro: wrong obj\<close>)
qed

section \<open>What the commands do\<close>

lemma finite_set_view [simp]: "finite (set_view v)"
  by (cases v) (simp_all add: set_view_def)

lemma ht_add_spec:
  assumes "TypeEncoding (objs d a) = or OBJ_TYPE_SET OBJ_ENCODING_HT" "Value (objs d a) = VSet m" "wf_gomap m"
  shows "\<exists>m'. ht_add a x d = Inr (x \<notin> dom (map_of m), set_value a (or OBJ_TYPE_SET OBJ_ENCODING_HT) (VSet m') d) \<and>
    wf_gomap m' \<and> dom (map_of m') = insert x (dom (map_of m))"
proof (cases "member_of m x")
  case True
  then show ?thesis using assms
    by (intro exI [of _ m]) (auto simp: ht_add_def member_of_def set_value_same)
next
  case False
  then show ?thesis using assms
    by (intro exI [of _ "AList.update x () m"]) (auto simp: ht_add_def member_of_def set_val_def wf_gomap_update)
qed

lemma setPromote_spec:
  assumes "Value (objs d a) = VIntSet s"
  shows "\<exists>m. setPromoteToHashtable a d = Inr (set_value a (or OBJ_TYPE_SET OBJ_ENCODING_HT) (VSet m) d) \<and>
    wf_gomap m \<and> dom (map_of m) = FormatInt ` set (contents s)"
  using set_of_strings_spec [of "[]" "map FormatInt (IntSet_Members s)"] assms
  by (auto simp: setPromoteToHashtable_def IntSet_Members_def)

definition spelled :: "string \<Rightarrow> string \<Rightarrow> bool" where
  \<comment> \<open>how a member may be kept: as it is, or as the decimal form of its value\<close>
  "spelled x y \<longleftrightarrow> y = x \<or> y = canon x"

lemma spelled_all_canon: "list_all2 spelled xs ys \<Longrightarrow> \<forall>x \<in> set xs. canon x = x \<Longrightarrow> ys = xs"
  by (induction rule: list_all2_induct) (auto simp: spelled_def)

lemma setAdd_spec:
  assumes "wf_value (TypeEncoding (objs d a)) (Value (objs d a))" "getType (TypeEncoding (objs d a)) = OBJ_TYPE_SET"
  shows "\<exists>te v y. spelled x y \<and> setAdd e a x d = Inr (y \<notin> set_view (Value (objs d a)), set_value a te v d) \<and>
    wf_value te v \<and> getType te = OBJ_TYPE_SET \<and> set_view v = insert y (set_view (Value (objs d a))) \<and> set_small (cfg e) v"
  using assms
proof (cases rule: set_cases)
  case (ht m)
  obtain m' where "ht_add a x d = Inr (x \<notin> dom (map_of m), set_value a (or OBJ_TYPE_SET OBJ_ENCODING_HT) (VSet m') d)"
    "wf_gomap m'" "dom (map_of m') = insert x (dom (map_of m))"
    using ht_add_spec [OF ht(2,1,3), of x] by blast
  then show ?thesis using ht
    by (intro exI [of _ "or OBJ_TYPE_SET OBJ_ENCODING_HT"] exI [of _ "VSet m'"] exI [of _ x])
      (simp add: setAdd_def type_consts set_small_def spelled_def)
next
  case (ints s)
  note enc = ints(2) [THEN arg_cong [where f = getEncoding], unfolded type_consts]
  show ?thesis
  proof (cases x rule: is_int_cases)
    case 1
    obtain s' added where add: "IntSet_Add s (int_value x) = (s', added)" by force
    then have s': "intset_inv s'" "set (contents s') = insert (int_value x) (set (contents s))"
        "added \<longleftrightarrow> int_value x \<notin> set (contents s)"
      using IntSet_Add_inv [OF ints(3), of "int_value x"] IntSet_Add_set [OF ints(3), of "int_value x"]
        IntSet_Add_result [OF ints(3), of "int_value x"] by simp_all
    have x: "FormatInt (int_value x) = canon x" using 1 by (simp add: canon_def)
    then have v: "FormatInt ` set (contents s') = insert (canon x) (FormatInt ` set (contents s))"
      "added \<longleftrightarrow> canon x \<notin> FormatInt ` set (contents s)" using s'(2,3) 1(1) by (auto simp: canon_in_ints)
    let ?d = "set_val a (VIntSet s') d"
    have c: "setAdd e a x d = obind (if SetMaxIntsetEntries (cfg e) < int (IntSet_Len s') then setPromoteToHashtable a ?d else Inr ?d)
        (\<lambda>d. Inr (added, d))"
      using enc ints(1) 1 add by (simp add: setAdd_def Let_def)
    show ?thesis
    proof (cases "SetMaxIntsetEntries (cfg e) < int (IntSet_Len s')")
      case True
      obtain m where m: "setPromoteToHashtable a ?d = Inr (set_value a (or OBJ_TYPE_SET OBJ_ENCODING_HT) (VSet m) ?d)"
        "wf_gomap m" "dom (map_of m) = FormatInt ` set (contents s')"
        using setPromote_spec [of ?d a s'] by (auto simp: set_val_def)
      then show ?thesis using c True v ints(1)
        by (intro exI [of _ "or OBJ_TYPE_SET OBJ_ENCODING_HT"] exI [of _ "VSet m"] exI [of _ "canon x"])
          (simp add: set_val_def type_consts set_small_def spelled_def)
    next
      case False
      then show ?thesis using c v ints s'(1)
        by (intro exI [of _ "or OBJ_TYPE_SET OBJ_ENCODING_INTSET"] exI [of _ "VIntSet s'"] exI [of _ "canon x"])
          (simp add: set_val_def type_consts set_small_def spelled_def)
    qed
  next
    case (2 i err)
    obtain m where m: "setPromoteToHashtable a d = Inr (set_value a (or OBJ_TYPE_SET OBJ_ENCODING_HT) (VSet m) d)"
      "wf_gomap m" "dom (map_of m) = FormatInt ` set (contents s)"
      using setPromote_spec [OF ints(1)] by blast
    let ?d = "set_value a (or OBJ_TYPE_SET OBJ_ENCODING_HT) (VSet m) d"
    obtain m' where m': "ht_add a x ?d = Inr (x \<notin> dom (map_of m), set_value a (or OBJ_TYPE_SET OBJ_ENCODING_HT) (VSet m') ?d)"
      "wf_gomap m'" "dom (map_of m') = insert x (dom (map_of m))"
      using ht_add_spec [of ?d a m x] m(2) by auto
    then show ?thesis using enc ints(1) 2 m
      by (intro exI [of _ "or OBJ_TYPE_SET OBJ_ENCODING_HT"] exI [of _ "VSet m'"] exI [of _ x])
        (simp add: setAdd_def type_consts set_small_def spelled_def)
  qed
qed

lemma sadd_loop_spec:
  assumes "wf_value (TypeEncoding (objs d a)) (Value (objs d a))" "getType (TypeEncoding (objs d a)) = OBJ_TYPE_SET"
  shows "\<exists>te v ys. list_all2 spelled xs ys \<and>
    sadd_loop e a xs n d = Inr (n + int (card (set_view v)) - int (card (set_view (Value (objs d a)))), set_value a te v d) \<and>
    wf_value te v \<and> getType te = OBJ_TYPE_SET \<and> set_view v = set_view (Value (objs d a)) \<union> set ys \<and>
    (xs \<noteq> [] \<or> set_small (cfg e) (Value (objs d a)) \<longrightarrow> set_small (cfg e) v)"
  using assms
proof (induction xs arbitrary: n d)
  case Nil
  then show ?case
    by (intro exI [of _ "TypeEncoding (objs d a)"] exI [of _ "Value (objs d a)"] exI [of _ "[]"]) (simp add: set_value_same)
next
  case (Cons x xs)
  let ?v = "set_view (Value (objs d a))"
  obtain te v y where 1: "spelled x y" "setAdd e a x d = Inr (y \<notin> ?v, set_value a te v d)" "wf_value te v"
    "getType te = OBJ_TYPE_SET" "set_view v = insert y ?v" "set_small (cfg e) v"
    using setAdd_spec [OF Cons(2,3), of x e] by (elim exE conjE) (rule that)
  let ?d = "set_value a te v d" and ?n = "if y \<notin> ?v then n + 1 else n"
  have "\<exists>te' v' ys. list_all2 spelled xs ys \<and>
      sadd_loop e a xs ?n ?d = Inr (?n + int (card (set_view v')) - int (card (set_view v)), set_value a te' v' ?d) \<and>
    wf_value te' v' \<and> getType te' = OBJ_TYPE_SET \<and> set_view v' = set_view v \<union> set ys \<and> set_small (cfg e) v'"
    using Cons(1) [of ?d ?n] 1(3,4,6) by simp
  then obtain te' v' ys where 2: "list_all2 spelled xs ys"
    "sadd_loop e a xs ?n ?d = Inr (?n + int (card (set_view v')) - int (card (set_view v)), set_value a te' v' ?d)"
    "wf_value te' v'" "getType te' = OBJ_TYPE_SET" "set_view v' = set_view v \<union> set ys" "set_small (cfg e) v'"
    by (elim exE conjE) (rule that)
  have "int (card (set_view v)) = int (card ?v) + (if y \<notin> ?v then 1 else 0)" by (simp add: 1(5) card_insert_if)
  then have "sadd_loop e a (x # xs) n d =
      Inr (n + int (card (set_view v')) - int (card ?v), set_value a te' v' d)" using 1(2) 2(2) by simp
  then show ?case using 1(1,5) 2 by (intro exI [of _ te'] exI [of _ v'] exI [of _ "y # ys"]) simp
qed

lemma evalSADD_view:
  assumes "db_ok e d" "config_ok (cfg e)" "xs \<noteq> []"
  shows "\<exists>d1 ys. list_all2 spelled xs ys \<and> (case slot OBJ_TYPE_SET (lview d k) of
      None \<Rightarrow> evalSADD e (k # xs) d = Inr (wrongtype_reply, d1) \<and> evolves e {k} d d1 \<and> lview d1 = lview d
    | Some (v0, ex) \<Rightarrow>
        evalSADD e (k # xs) d = Inr (int_reply (int (card (set_view v0 \<union> set ys)) - int (card (set_view v0))), d1) \<and>
        stores e OBJ_TYPE_SET k (\<lambda>w. set_view w = set_view v0 \<union> set ys \<and> set_small (cfg e) w) ex d d1)"
proof -
  have len: "\<not> length (k # xs) < 2" using assms(3) by (cases xs) auto
  have D: "evalSADD e (k # xs) d = (case setGetOrCreate e k (xs ! 0) d of
        (None, d) \<Rightarrow> Inr (wrongtype_reply, d)
      | (Some obj, d) \<Rightarrow> obind (sadd_loop e obj xs 0 d) (\<lambda>(added, d). Inr (int_reply added, d)))"
    unfolding evalSADD_def if_not_P [OF len] by (simp cong: option.case_cong prod.case_cong)
  show ?thesis
    using assms(1,2)
  proof (cases rule: setGetOrCreate_cases [where k = k and x = "xs ! 0"])
    case (wrong d1)
    then show ?thesis by (intro exI [of _ d1] exI [of _ xs]) (simp add: D spelled_def list.rel_refl)
  next
    case (obj a d1 v0)
    obtain te v ys where v: "list_all2 spelled xs ys"
      "sadd_loop e a xs 0 d1 = Inr (0 + int (card (set_view v)) - int (card (set_view (Value (objs d1 a)))), set_value a te v d1)"
      "wf_value te v" "getType te = OBJ_TYPE_SET" "set_view v = set_view (Value (objs d1 a)) \<union> set ys"
      "xs \<noteq> [] \<or> set_small (cfg e) (Value (objs d1 a)) \<longrightarrow> set_small (cfg e) v"
      using sadd_loop_spec [OF obj(7,6), of xs e 0] by (elim exE conjE) (rule that)
    have "stores e OBJ_TYPE_SET k (\<lambda>w. set_view w = set_view v0 \<union> set ys \<and> set_small (cfg e) w) (map_of (expires d1) a) d (set_value a te v d1)"
      by (rule stores_update [OF obj(2,3,8) v(3,4)]) (use v obj(5) assms(3) in simp)
    then show ?thesis using obj(1,4,5) v
      by (intro exI [of _ "set_value a te v d1"] exI [of _ ys]) (simp add: D)
  qed
qed

lemma evalSREM_view:
  assumes "db_ok e d" "xs \<noteq> []"
  shows "\<exists>d1 norm. (norm = canon \<or> norm = (\<lambda>x. x)) \<and> (case slot OBJ_TYPE_SET (lview d k) of
      None \<Rightarrow> evalSREM e (k # xs) d = Inr (wrongtype_reply, d1) \<and> evolves e {k} d d1 \<and> lview d1 = lview d
    | Some (v0, ex) \<Rightarrow>
        (let x = set_view v0 - norm ` set xs in
         evalSREM e (k # xs) d = Inr (int_reply (int (card (set_view v0)) - int (card x)), d1) \<and>
         leaves e OBJ_TYPE_SET k (x = {}) (\<lambda>w. set_view w = x) ex d d1))"
proof -
  have len: "\<not> length (k # xs) < 2" using assms(2) by (cases xs) auto
  note D = evalSREM_def [of e "k # xs" d, unfolded if_not_P [OF len]]
  show ?thesis
    using assms(1)
  proof (cases rule: typed_lookup_cases [where ty = OBJ_TYPE_SET and k = k])
    case (missing d1)
    then show ?thesis using evolves_mono [OF missing(2), of "{k}"]
      by (intro exI [of _ d1] exI [of _ canon]) (simp add: D leaves_nothing Let_def)
  next
    case (wrong d1)
    then show ?thesis using evolves_mono [OF wrong(2), of "{k}"]
      by (intro exI [of _ d1] exI [of _ canon]) (simp add: D)
  next
    case (found a d1)
    let ?s = "set_view (Value (objs d1 a))"
    have ev: "evolves e {k} d d1" by (rule evolves_mono [OF found(2)]) simp
    from found(8,7) obtain v n norm where v: "norm = canon \<or> norm = (\<lambda>x. x)" "wf_value (TypeEncoding (objs d1 a)) v"
        "set_view v = ?s - norm ` set xs" "n = int (card ?s) - int (card (set_view v))"
        "evalSREM e (k # xs) d = Inr (int_reply n, if set_view v = {} then fst (Del k (set_val a v d1)) else set_val a v d1)"
    proof (cases rule: set_cases)
      case (ints s)
      obtain s' n where r: "rem_loop is_rem s xs 0 = (s', n)" "intset_inv s'"
        "FormatInt ` set (contents s') = FormatInt ` set (contents s) - canon ` set xs"
        "n = int (card (FormatInt ` set (contents s))) - int (card (FormatInt ` set (contents s')))"
        "IntSet_Len s' = 0 \<longleftrightarrow> FormatInt ` set (contents s') = {}"
        by (rule ims.rem_loop_result [OF ints(3)])
      show thesis
        by (rule that [of canon "VIntSet s'" n]) (use ints r found(1) in \<open>simp_all add: D Let_def\<close>)
    next
      case (ht m)
      obtain m' n where r: "rem_loop set_rem m xs 0 = (m', n)" "wf_gomap m'" "dom (map_of m') = dom (map_of m) - (\<lambda>x. x) ` set xs"
        "n = int (card (dom (map_of m))) - int (card (dom (map_of m')))" "length m' = 0 \<longleftrightarrow> dom (map_of m') = {}"
        by (rule hms.rem_loop_result [OF ht(3)])
      show thesis
        by (rule that [of "\<lambda>x. x" "VSet m'" n]) (use ht r found(1) in \<open>simp_all add: D Let_def\<close>)
    qed
    define d2 where "d2 = (if set_view v = {} then fst (Del k (set_val a v d1)) else set_val a v d1)"
    have "leaves e OBJ_TYPE_SET k (set_view v = {}) (\<lambda>w. set_view w = set_view v) (map_of (expires d1) a) d d2"
      unfolding d2_def set_val_def by (rule leaves_update [OF ev found(4,3) v(2) found(7)]) simp
    then show ?thesis
      using v found(6) unfolding d2_def [symmetric] by (intro exI [of _ d2] exI [of _ norm]) (simp add: Let_def)
  qed
qed

section \<open>Readers\<close>

definition listing :: "string list \<Rightarrow> string set \<Rightarrow> bool" where
  \<comment> \<open>every member once, in some order\<close>
  "listing xs A \<longleftrightarrow> distinct xs \<and> set xs = A"

lemma listing_iterate: "wf_gomap m \<Longrightarrow> listing (iterate e d (map fst m)) (dom (map_of m))"
  by (simp add: listing_def wf_gomap_def dom_map_of_conv_image_fst)

lemma listing_members: "intset_inv s \<Longrightarrow> listing (map FormatInt (IntSet_Members s)) (FormatInt ` set (contents s))"
  by (simp add: listing_def IntSet_Members_def distinct_map inj_on_def intset_inv_def ascending_distinct)

lemma evalSMEMBERS_view:
  assumes "db_ok e d"
  shows "\<exists>r d1. evalSMEMBERS e [k] d = Inr (r, d1) \<and> evolves e {} d d1 \<and> lview d1 = lview d \<and>
    (case slot OBJ_TYPE_SET (lview d k) of
       None \<Rightarrow> r = wrongtype_reply
     | Some (v0, ex) \<Rightarrow> \<exists>xs. listing xs (set_view v0) \<and> r = array_reply xs)"
  unfolding evalSMEMBERS_def
proof (simp, rule typed_reader [OF assms], goal_cases)
  case 1
  show ?case by (rule exI [of _ "[]"]) (simp add: listing_def)
next
  case (2 a d1)
  then show ?case
    by (cases rule: set_cases) (auto intro!: exI listing_members listing_iterate)
qed

lemma evalSISMEMBER_view:
  assumes "db_ok e d"
  shows "\<exists>r d1. evalSISMEMBER e [k, x] d = Inr (r, d1) \<and> evolves e {} d d1 \<and> lview d1 = lview d \<and>
    (case slot OBJ_TYPE_SET (lview d k) of
       None \<Rightarrow> r = wrongtype_reply
     | Some (v0, ex) \<Rightarrow> \<exists>y. spelled x y \<and> r = (if y \<in> set_view v0 then RESP_ONE else RESP_ZERO))"
  unfolding evalSISMEMBER_def
proof (simp, rule typed_reader [OF assms], goal_cases)
  case 1
  show ?case by (rule exI [of _ x]) (simp add: spelled_def)
next
  case (2 a d1)
  then show ?case
  proof (cases rule: set_cases)
    case (ints s)
    then show ?thesis using ims.mem_abs [OF ints(3), of x] by (auto simp: spelled_def)
  next
    case (ht m)
    then show ?thesis using hms.mem_abs [OF ht(3), of x] by (auto simp: spelled_def)
  qed
qed

lemma evalSCARD_view:
  assumes "db_ok e d"
  shows "\<exists>r d1. evalSCARD e [k] d = Inr (r, d1) \<and> evolves e {} d d1 \<and> lview d1 = lview d \<and>
    (case slot OBJ_TYPE_SET (lview d k) of
       None \<Rightarrow> r = wrongtype_reply
     | Some (v0, ex) \<Rightarrow> r = int_reply (int (card (set_view v0))))"
  unfolding evalSCARD_def
  by (simp, rule typed_reader [OF assms], simp, erule set_cases, assumption)
    (auto simp: ims.size_abs hms.size_abs)

lemma getSetMembers_spec:
  assumes "evolves e {} d0 d" "lview d = lview d0" "wf_value (TypeEncoding (objs d a)) (Value (objs d a))"
    "getType (TypeEncoding (objs d a)) = OBJ_TYPE_SET"
  shows "\<exists>m d1. getSetMembers e a d = Inr (m, d1) \<and> wf_gomap m \<and> dom (map_of m) = set_view (Value (objs d a)) \<and>
    evolves e {} d0 d1 \<and> lview d1 = lview d0"
proof -
  have t: "evolves e {} d0 (ticked d)" "lview (ticked d) = lview d0"
    using evolves_trans [OF assms(1) evolves_ticked [OF evolves_ok [OF assms(1)]]] assms(2) by simp_all
  from assms(3,4) show ?thesis
  proof (cases rule: set_cases)
    case (ints s)
    then show ?thesis using set_of_strings_spec [of "[]" "map FormatInt (IntSet_Members s)"] assms(1,2)
      by (simp add: getSetMembers_def IntSet_Members_def)
  next
    case (ht m)
    then show ?thesis using set_of_strings_spec [of "[]" "iterate e d (map fst m)"] t
      by (simp add: getSetMembers_def dom_map_of_conv_image_fst)
  qed
qed

definition typed_content :: "lentry option \<Rightarrow> string set option" where
  "typed_content en = map_option (set_view \<circ> fst) (slot OBJ_TYPE_SET en)"

lemma ticked_view: "evolves e {} d0 d \<Longrightarrow> lview d = lview d0 \<Longrightarrow> evolves e {} d0 (ticked d) \<and> lview (ticked d) = lview d0"
  using evolves_trans [OF _ evolves_ticked [OF evolves_ok]] by auto

lemma sinter_loop_view:
  assumes "evolves e {} d0 d" "lview d = lview d0" "wf_gomap result"
  shows "\<exists>r d1. sinter_loop e ks result d = Inr (r, d1) \<and> evolves e {} d0 d1 \<and> lview d1 = lview d0 \<and>
    ((\<forall>k \<in> set ks. slot OBJ_TYPE_SET (lview d0 k) \<noteq> None) \<longrightarrow>
      (\<exists>xs. listing xs (dom (map_of result) \<inter> (\<Inter>k \<in> set ks. the (typed_content (lview d0 k)))) \<and> r = array_reply xs))"
  using assms
proof (induction ks arbitrary: result d)
  case Nil
  then show ?case
    using ticked_view [OF Nil(1,2)] listing_iterate [OF Nil(3), of e d] by auto
next
  case (Cons k ks)
  from evolves_ok [OF Cons(2)] show ?case
  proof (cases rule: typed_lookup_cases [where ty = OBJ_TYPE_SET and k = k])
    case (missing d1)
    then show ?thesis using evolves_trans [OF Cons(2) missing(2)] Cons(3)
      by (auto simp: listing_def typed_content_def slot_def)
  next
    case (wrong d1)
    then show ?thesis using evolves_trans [OF Cons(2) wrong(2)] Cons(3) by auto
  next
    case (found a d1)
    obtain m d2 where m: "getSetMembers e a d1 = Inr (m, d2)" "wf_gomap m" "dom (map_of m) = set_view (Value (objs d1 a))"
      "evolves e {} d0 d2" "lview d2 = lview d0"
      using getSetMembers_spec [OF evolves_trans [OF Cons(2) found(2)] _ found(8,7)] found(3) Cons(3) by auto
    let ?res = "keep_common m (iterate e d2 (map fst result)) result"
    have res: "wf_gomap ?res" "dom (map_of ?res) = dom (map_of result) \<inter> dom (map_of m)"
      using keep_common_spec [OF Cons(4), of m "iterate e d2 (map fst result)"] by (auto simp: dom_map_of_conv_image_fst)
    have t: "evolves e {} d0 (ticked d2)" "lview (ticked d2) = lview d0" using ticked_view [OF m(4,5)] by simp_all
    have "the (typed_content (lview d0 k)) = dom (map_of m)" using found(6) m(3) Cons(3) by (simp add: typed_content_def)
    then show ?thesis using Cons(1) [OF t res(1)] found(1,6) m(1) res(2) Cons(3) by (simp add: Int_assoc)
  qed
qed

lemma evalSINTER_view:
  assumes "db_ok e d"
  shows "\<exists>r d1. evalSINTER e (k # ks) d = Inr (r, d1) \<and> evolves e {} d d1 \<and> lview d1 = lview d \<and>
    ((\<forall>k \<in> set (k # ks). slot OBJ_TYPE_SET (lview d k) \<noteq> None) \<longrightarrow>
      (\<exists>xs. listing xs (\<Inter>k \<in> set (k # ks). the (typed_content (lview d k))) \<and> r = array_reply xs))"
  using assms
proof (cases rule: typed_lookup_cases [where ty = OBJ_TYPE_SET and k = k])
  case (missing d1)
  then show ?thesis by (auto simp: evalSINTER_def listing_def typed_content_def slot_def)
next
  case (wrong d1)
  then show ?thesis by (auto simp: evalSINTER_def)
next
  case (found a d1)
  obtain m d2 where m: "getSetMembers e a d1 = Inr (m, d2)" "wf_gomap m" "dom (map_of m) = set_view (Value (objs d1 a))"
    "evolves e {} d d2" "lview d2 = lview d"
    using getSetMembers_spec [OF found(2,3,8,7)] by blast
  have "the (typed_content (lview d k)) = dom (map_of m)" using found(6) m(3) by (simp add: typed_content_def)
  then show ?thesis using sinter_loop_view [OF m(4,5,2), of ks] found(1,6) m(1) by (simp add: evalSINTER_def)
qed

lemma sunion_loop_view:
  assumes "evolves e {} d0 d" "lview d = lview d0" "wf_gomap result"
  shows "\<exists>r d1. sunion_loop e ks result d = Inr (r, d1) \<and> evolves e {} d0 d1 \<and> lview d1 = lview d0 \<and>
    ((\<exists>k \<in> set ks. slot OBJ_TYPE_SET (lview d0 k) = None) \<longrightarrow> r = wrongtype_reply) \<and>
    ((\<forall>k \<in> set ks. slot OBJ_TYPE_SET (lview d0 k) \<noteq> None) \<longrightarrow>
      (\<exists>xs. listing xs (dom (map_of result) \<union> (\<Union>k \<in> set ks. the (typed_content (lview d0 k)))) \<and> r = array_reply xs))"
  using assms
proof (induction ks arbitrary: result d)
  case Nil
  then show ?case
    using ticked_view [OF Nil(1,2)] listing_iterate [OF Nil(3), of e d] by auto
next
  case (Cons k ks)
  from evolves_ok [OF Cons(2)] show ?case
  proof (cases rule: Get_cases [where k = k and ks = "{}"])
    case (missing d1)
    have "evolves e {} d0 d1" "lview d1 = lview d0" using evolves_trans [OF Cons(2) missing(2)] missing(4) Cons(3) by simp_all
    moreover have "slot OBJ_TYPE_SET (lview d0 k) = Some (VNil, None)" "the (typed_content (lview d0 k)) = {}"
      using missing(3) Cons(3) by (simp_all add: typed_content_def slot_def)
    ultimately show ?thesis using Cons(1) [OF _ _ Cons(4), of d1] missing(1) by simp
  next
    case (found a d1)
    have e1: "evolves e {} d0 d1" "lview d1 = lview d0" using evolves_trans [OF Cons(2) found(2)] found(3) Cons(3) by simp_all
    show ?thesis
    proof (cases "getType (TypeEncoding (objs d1 a)) = OBJ_TYPE_SET")
      case False
      then have "slot OBJ_TYPE_SET (lview d0 k) = None" using found(6) Cons(3) by (simp add: slot_def obj_entry_def)
      then show ?thesis using False found(1) e1 by (auto simp: assertType_def)
    next
      case True
      obtain m d2 where m: "getSetMembers e a d1 = Inr (m, d2)" "wf_gomap m" "dom (map_of m) = set_view (Value (objs d1 a))"
        "evolves e {} d0 d2" "lview d2 = lview d0"
        using getSetMembers_spec [OF e1 found(7) True] by blast
      let ?res = "set_of_strings (iterate e d2 (map fst m)) result"
      have res: "wf_gomap ?res" "dom (map_of ?res) = dom (map_of result) \<union> dom (map_of m)"
        using set_of_strings_spec [OF Cons(4), of "iterate e d2 (map fst m)"] by (auto simp: dom_map_of_conv_image_fst)
      have t: "evolves e {} d0 (ticked d2)" "lview (ticked d2) = lview d0" using ticked_view [OF m(4,5)] by simp_all
      have "slot OBJ_TYPE_SET (lview d0 k) = Some (Value (objs d1 a), map_of (expires d1) a)" "the (typed_content (lview d0 k)) = dom (map_of m)"
        using found(6) m(3) Cons(3) True by (simp_all add: typed_content_def slot_def obj_entry_def)
      then show ?thesis using Cons(1) [OF t res(1)] found(1) m(1) res(2) True by (simp add: assertType_def Un_assoc)
    qed
  qed
qed

lemma evalSUNION_view:
  assumes "db_ok e d" "ks \<noteq> []"
  shows "\<exists>r d1. evalSUNION e ks d = Inr (r, d1) \<and> evolves e {} d d1 \<and> lview d1 = lview d \<and>
    ((\<exists>k \<in> set ks. slot OBJ_TYPE_SET (lview d k) = None) \<longrightarrow> r = wrongtype_reply) \<and>
    ((\<forall>k \<in> set ks. slot OBJ_TYPE_SET (lview d k) \<noteq> None) \<longrightarrow>
      (\<exists>xs. listing xs (\<Union>k \<in> set ks. the (typed_content (lview d k))) \<and> r = array_reply xs))"
proof -
  have "\<not> length ks < 1" using assms(2) by (cases ks) auto
  then show ?thesis
    using sunion_loop_view [OF evolves_refl [OF assms(1)] refl, of "[]" ks] by (simp add: evalSUNION_def)
qed

section \<open>Every set command is served\<close>

lemma set_writers_served:
  assumes "db_ok e d" "config_ok (cfg e)"
  shows "served e (set args) d (evalSADD e args d)" "served e (set args) d (evalSREM e args d)"
proof -
  show "served e (set args) d (evalSADD e args d)"
  proof (cases "length args < 2")
    case True
    then show ?thesis using assms(1) by (simp add: evalSADD_def)
  next
    case False
    then obtain k xs where a: "args = k # xs" by (cases args) auto
    with False have "xs \<noteq> []" by auto
    from evalSADD_view [OF assms this, of k] show ?thesis
      unfolding a by (cases rule: slot_cases [where ty = OBJ_TYPE_SET and en = "lview d k"]) (auto intro: evolves_parts)
  qed
  show "served e (set args) d (evalSREM e args d)"
  proof (cases "length args < 2")
    case True
    then show ?thesis using assms(1) by (simp add: evalSREM_def)
  next
    case False
    then obtain k xs where a: "args = k # xs" by (cases args) auto
    with False have "xs \<noteq> []" by auto
    from evalSREM_view [OF assms(1) this, of k] show ?thesis
      unfolding a by (cases rule: slot_cases [where ty = OBJ_TYPE_SET and en = "lview d k"]) (auto simp: Let_def intro: evolves_parts)
  qed
qed

lemma set_readers_served:
  assumes "db_ok e d"
  shows "served e (set args) d (evalSMEMBERS e args d)" "served e (set args) d (evalSISMEMBER e args d)"
    "served e (set args) d (evalSCARD e args d)" "served e (set args) d (evalSINTER e args d)" "served e (set args) d (evalSUNION e args d)"
proof -
  show "served e (set args) d (evalSMEMBERS e args d)"
    by (cases "length args = 1")
      (use served_viewI [OF evalSMEMBERS_view [OF assms]] in \<open>auto simp: length_1_conv evalSMEMBERS_def assms\<close>)
  show "served e (set args) d (evalSISMEMBER e args d)"
    by (cases "length args = 2")
      (use served_viewI [OF evalSISMEMBER_view [OF assms]] in \<open>auto simp: length_2_conv evalSISMEMBER_def assms\<close>)
  show "served e (set args) d (evalSCARD e args d)"
    by (cases "length args = 1")
      (use served_viewI [OF evalSCARD_view [OF assms]] in \<open>auto simp: length_1_conv evalSCARD_def assms\<close>)
  show "served e (set args) d (evalSINTER e args d)"
    by (cases args) (use served_viewI [OF evalSINTER_view [OF assms]] in \<open>auto simp: evalSINTER_def assms\<close>)
  show "served e (set args) d (evalSUNION e args d)"
    by (cases "args = []") (use served_viewI [OF evalSUNION_view [OF assms]] in \<open>auto simp: evalSUNION_def assms\<close>)
qed

section \<open>The properties\<close>



text \<open>The spelling of a number is lost in an intset and kept in a map: \<open>SADD s 07\<close> on a missing
  key stores the member \<open>7\<close>, so that \<open>SMEMBERS\<close> lists a string the client never added, while
  \<open>SADD s x 07\<close> stores \<open>07\<close>.\<close>

theorem SADD_keeps_no_spelling:
  "(\<exists>d1 d2. evalSADD default_env [''s'', ''07''] (init_db 0 0) = Inr (RESP_ONE, d1) \<and>
     evalSMEMBERS default_env [''s''] d1 = Inr (array_reply [''7''], d2)) \<and>
   (\<exists>d1 d2. evalSADD default_env [''s'', ''x'', ''07''] (init_db 0 0) = Inr (int_reply 2, d1) \<and>
     evalSMEMBERS default_env [''s''] d1 = Inr (array_reply [''x'', ''07''], d2))"
  by (simp add: evalSADD_def setGetOrCreate_def type_get_or_create_def Get_def create_def NewObj_def Put_def
      init_db_def default_env_def default_config_def pool_choice_def StoreLen_def ticked_def touch_def bump_keys_def
      evalSMEMBERS_def typed_lookup_def setAdd_def ht_add_def set_val_def set_value_def hasExpired_def iterate_def
      ParseInt_def parse_signed_def ParseUint_def digit_of_def type_consts assertType_def set_switch_def
      IntSet_Add_def NewIntSet_def IntSet_search_def IntSet_Members_def member_of_def FormatInt_def FormatNat.simps
      digit_char_def char_of_def bit_Suc_0_iff stat_value_def Let_def sort_Search_def sort_Search_loop.simps go_copy_def IntSet_Len_def setPromoteToHashtable_def set_of_strings_def)

text \<open>The set readers reply from the sets of strings and do not change the database:
  \<open>SMEMBERS\<close> lists every member once, \<open>SCARD\<close> counts them, \<open>SINTER\<close> lists the intersection and
  \<open>SUNION\<close> the union of the sets at its keys (a missing key is empty; \<open>SUNION\<close> refuses any key of
  another type).\<close>

theorem set_readers_observe_sets:
  assumes "db_ok e d"
  shows "(\<exists>r d1. evalSMEMBERS e [k] d = Inr (r, d1) \<and> lview d1 = lview d \<and>
    (case slot OBJ_TYPE_SET (lview d k) of
       None \<Rightarrow> r = wrongtype_reply
     | Some (v0, ex) \<Rightarrow> \<exists>xs. listing xs (set_view v0) \<and> r = array_reply xs)) \<and>
   (\<exists>r d1. evalSCARD e [k] d = Inr (r, d1) \<and> lview d1 = lview d \<and>
    (case slot OBJ_TYPE_SET (lview d k) of
       None \<Rightarrow> r = wrongtype_reply
     | Some (v0, ex) \<Rightarrow> r = int_reply (int (card (set_view v0))))) \<and>
   (\<exists>r d1. evalSINTER e (k # ks) d = Inr (r, d1) \<and> lview d1 = lview d \<and>
    ((\<forall>k \<in> set (k # ks). slot OBJ_TYPE_SET (lview d k) \<noteq> None) \<longrightarrow>
      (\<exists>xs. listing xs (\<Inter>k \<in> set (k # ks). the (typed_content (lview d k))) \<and> r = array_reply xs))) \<and>
   (\<exists>r d1. evalSUNION e (k # ks) d = Inr (r, d1) \<and> lview d1 = lview d \<and>
    ((\<exists>k \<in> set (k # ks). slot OBJ_TYPE_SET (lview d k) = None) \<longrightarrow> r = wrongtype_reply) \<and>
    ((\<forall>k \<in> set (k # ks). slot OBJ_TYPE_SET (lview d k) \<noteq> None) \<longrightarrow>
      (\<exists>xs. listing xs (\<Union>k \<in> set (k # ks). the (typed_content (lview d k))) \<and> r = array_reply xs)))"
  by (intro conjI drop_evolves [OF evalSMEMBERS_view [OF assms]] drop_evolves [OF evalSCARD_view [OF assms]]
      drop_evolves [OF evalSINTER_view [OF assms]] drop_evolves [OF evalSUNION_view [OF assms]]) simp

lemma set_readers_observe_sets_witness:
  "\<exists>d1. evalSCARD default_env [''s''] (init_db 5 5) = Inr (RESP_ZERO, d1)"
  using set_readers_observe_sets [OF init_db_ok [OF default_env_ok], where k = "''s''" and ks = "[]"]
  by (auto simp: slot_def)

end
