(* ===== verification/EvalList.thy ===== *)
theory EvalList
  imports StringSpec
begin

text \<open>
  The list commands of \<open>core/eval_list.go\<close> on a quicklist. The commands see it through the
  contract \<open>deque\<close> of a double-ended queue that its element operations keep; \<open>qd\<close> is the
  interpretation on the quicklist, for every configuration with a positive node size.
\<close>

section \<open>The commands\<close>

definition listGetOrCreate :: "env \<Rightarrow> string \<Rightarrow> db \<Rightarrow> nat option \<times> db" where
  "listGetOrCreate e ky d = type_get_or_create e OBJ_TYPE_LIST OBJ_ENCODING_QUICKLIST (VQuick NewQuickList) ky d"

fun push_loop :: "('s \<Rightarrow> string \<Rightarrow> 's outcome) \<Rightarrow> 's \<Rightarrow> string list \<Rightarrow> 's outcome" where
  \<comment> \<open>\<open>for _, val := range args[1:] { ql.LPush(val) }\<close>\<close>
  "push_loop push st [] = Inr st"
| "push_loop push st (v # vs) = obind (push st v) (\<lambda>st. push_loop push st vs)"

definition evalLPUSH :: command where
  "evalLPUSH e args d =
     (if length args < 2 then Inr (arity_reply ''lpush'', d)
      else case listGetOrCreate e (args ! 0) d of
        (None, d) \<Rightarrow> Inr (wrongtype_reply, d)
      | (Some obj, d) \<Rightarrow>
          obind (as_quick (Value (objs d obj))) (\<lambda>ql.
          obind (push_loop (\<lambda>ql val. QuickList_LPush (cfg e) ql [val]) ql (drop 1 args)) (\<lambda>ql.
          Inr (int_reply (QuickList_Len ql), set_val obj (VQuick ql) d))))"

definition evalRPUSH :: command where
  "evalRPUSH e args d =
     (if length args < 2 then Inr (arity_reply ''rpush'', d)
      else case listGetOrCreate e (args ! 0) d of
        (None, d) \<Rightarrow> Inr (wrongtype_reply, d)
      | (Some obj, d) \<Rightarrow>
          obind (as_quick (Value (objs d obj))) (\<lambda>ql.
          obind (push_loop (\<lambda>ql val. QuickList_RPush (cfg e) ql [val]) ql (drop 1 args)) (\<lambda>ql.
          Inr (int_reply (QuickList_Len ql), set_val obj (VQuick ql) d))))"

definition evalLPOP :: command where
  "evalLPOP e args d =
     (if length args \<noteq> 1 then Inr (arity_reply ''lpop'', d)
      else typed_lookup OBJ_TYPE_LIST (args ! 0) RESP_NIL (\<lambda>obj d.
        obind (as_quick (Value (objs d obj))) (\<lambda>ql.
          let (ql, val, ok) = QuickList_LPop ql; d = set_val obj (VQuick ql) d in
          if \<not> ok then Inr (RESP_NIL, d)
          else Inr (Encode (GoString val) False, if QuickList_Len ql = 0 then fst (Del (args ! 0) d) else d))) d)"

definition evalRPOP :: command where
  "evalRPOP e args d =
     (if length args \<noteq> 1 then Inr (arity_reply ''rpop'', d)
      else typed_lookup OBJ_TYPE_LIST (args ! 0) RESP_NIL (\<lambda>obj d.
        obind (as_quick (Value (objs d obj))) (\<lambda>ql.
          let (ql, val, ok) = QuickList_RPop ql; d = set_val obj (VQuick ql) d in
          if \<not> ok then Inr (RESP_NIL, d)
          else Inr (Encode (GoString val) False, if QuickList_Len ql = 0 then fst (Del (args ! 0) d) else d))) d)"

definition Atoi :: "string \<Rightarrow> int \<times> num_error option" where
  \<comment> \<open>\<open>strconv.Atoi\<close>: \<open>int\<close> has 64 bits\<close>
  "Atoi s = (let (i, err) = ParseInt s in (sint i, err))"

definition evalLRANGE :: command where
  "evalLRANGE e args d =
     (if length args \<noteq> 3 then Inr (arity_reply ''lrange'', d)
      else case Atoi (args ! 1) of
        (start, Some err) \<Rightarrow> Inr (not_integer_reply, d)
      | (start, None) \<Rightarrow>
          (case Atoi (args ! 2) of
             (stop, Some err) \<Rightarrow> Inr (not_integer_reply, d)
           | (stop, None) \<Rightarrow>
               typed_lookup OBJ_TYPE_LIST (args ! 0) (array_reply []) (\<lambda>obj d.
                 obind (as_quick (Value (objs d obj))) (\<lambda>ql.
                 obind (of_walk (QuickList_Range ql start stop)) (\<lambda>result.
                 Inr (array_reply result, d)))) d))"

definition evalLLEN :: command where
  "evalLLEN e args d =
     (if length args \<noteq> 1 then Inr (arity_reply ''llen'', d)
      else typed_lookup OBJ_TYPE_LIST (args ! 0) RESP_ZERO (\<lambda>obj d.
        obind (as_quick (Value (objs d obj))) (\<lambda>ql. Inr (int_reply (QuickList_Len ql), d))) d)"

definition evalLINDEX :: command where
  "evalLINDEX e args d =
     (if length args \<noteq> 2 then Inr (arity_reply ''lindex'', d)
      else case Atoi (args ! 1) of
        (idx, Some err) \<Rightarrow> Inr (not_integer_reply, d)
      | (idx, None) \<Rightarrow>
          typed_lookup OBJ_TYPE_LIST (args ! 0) RESP_NIL (\<lambda>obj d.
            obind (as_quick (Value (objs d obj))) (\<lambda>ql.
            obind (of_walk (QuickList_Index ql idx)) (\<lambda>(val, ok).
            Inr (if \<not> ok then RESP_NIL else Encode (GoString val) False, d)))) d)"

section \<open>The contract of a double-ended queue\<close>

locale deque =
  fixes lpush :: "'s \<Rightarrow> string \<Rightarrow> 's outcome"
    and rpush :: "'s \<Rightarrow> string \<Rightarrow> 's outcome"
    and lpop :: "'s \<Rightarrow> 's \<times> string \<times> bool"
    and rpop :: "'s \<Rightarrow> 's \<times> string \<times> bool"
    and inv :: "'s \<Rightarrow> bool"
    and abs :: "'s \<Rightarrow> string list"
  assumes lpush_abs: "inv q \<Longrightarrow> \<exists>q'. lpush q v = Inr q' \<and> inv q' \<and> abs q' = v # abs q"
    and rpush_abs: "inv q \<Longrightarrow> \<exists>q'. rpush q v = Inr q' \<and> inv q' \<and> abs q' = abs q @ [v]"
    and lpop_abs: "inv q \<Longrightarrow> abs q = x # xs \<Longrightarrow> \<exists>q'. lpop q = (q', x, True) \<and> inv q' \<and> abs q' = xs"
    and rpop_abs: "inv q \<Longrightarrow> abs q = xs @ [x] \<Longrightarrow> \<exists>q'. rpop q = (q', x, True) \<and> inv q' \<and> abs q' = xs"
    and pop_empty: "inv q \<Longrightarrow> abs q = [] \<Longrightarrow> lpop q = (q, [], False) \<and> rpop q = (q, [], False)"
begin

lemma lpush_loop_abs:
  "inv q \<Longrightarrow> \<exists>q'. push_loop lpush q vs = Inr q' \<and> inv q' \<and> abs q' = rev vs @ abs q"
proof (induction vs arbitrary: q)
  case (Cons v vs)
  obtain q1 where "lpush q v = Inr q1" "inv q1" "abs q1 = v # abs q" using lpush_abs [OF Cons(2)] by blast
  then show ?case using Cons(1) [of q1] by auto
qed simp

lemma rpush_loop_abs:
  "inv q \<Longrightarrow> \<exists>q'. push_loop rpush q vs = Inr q' \<and> inv q' \<and> abs q' = abs q @ vs"
proof (induction vs arbitrary: q)
  case (Cons v vs)
  obtain q1 where "rpush q v = Inr q1" "inv q1" "abs q1 = abs q @ [v]" using rpush_abs [OF Cons(2)] by blast
  then show ?case using Cons(1) [of q1] by auto
qed simp

lemma rpop_abs_last:
  "inv q \<Longrightarrow> abs q \<noteq> [] \<Longrightarrow> \<exists>q'. rpop q = (q', last (abs q), True) \<and> inv q' \<and> abs q' = butlast (abs q)"
  using rpop_abs [of q "butlast (abs q)" "last (abs q)"] by simp

lemma lpop_abs_hd:
  "inv q \<Longrightarrow> abs q \<noteq> [] \<Longrightarrow> \<exists>q'. lpop q = (q', hd (abs q), True) \<and> inv q' \<and> abs q' = tl (abs q)"
  using lpop_abs [of q "hd (abs q)" "tl (abs q)"] by simp

end

interpretation qd: deque "\<lambda>q v. QuickList_LPush c q [v]" "\<lambda>q v. QuickList_RPush c q [v]" QuickList_LPop QuickList_RPop
  "\<lambda>q. ql_inv q \<and> 1 \<le> ListMaxZiplistSize c" ql_list for c
proof (unfold_locales, goal_cases)
  case (1 q v)
  then show ?case using QuickList_LPush_spec [of q c "[v]"] by auto
next
  case (2 q v)
  then show ?case using QuickList_RPush_spec [of q c "[v]"] by auto
next
  case (3 q x xs)
  then show ?case using QuickList_LPop_spec [of q x xs] by auto
next
  case (4 q xs x)
  then show ?case using QuickList_RPop_spec [of q xs x] by auto
next
  case (5 q)
  then show ?case using QuickList_pop_empty [of q] by auto
qed

section \<open>What the commands do\<close>

definition list_view :: "gvalue \<Rightarrow> string list" where
  "list_view v = (case v of VQuick q \<Rightarrow> ql_list q | _ \<Rightarrow> [])"

lemma list_view_simps [simp]: "list_view (VQuick q) = ql_list q" "list_view VNil = []"
  by (simp_all add: list_view_def)

lemma list_cases:
  assumes "wf_value (TypeEncoding obj) (Value obj)" "getType (TypeEncoding obj) = OBJ_TYPE_LIST"
  obtains q where "Value obj = VQuick q" "TypeEncoding obj = or OBJ_TYPE_LIST OBJ_ENCODING_QUICKLIST" "ql_inv q"
  using wf_list [OF assms] by auto

lemma listGetOrCreate_cases:
  assumes "db_ok e d" "config_ok (cfg e)"
  obtains (wrong) d1 where "listGetOrCreate e k d = (None, d1)" "evolves e {k} d d1" "lview d1 = lview d"
      "slot OBJ_TYPE_LIST (lview d k) = None"
  | (obj) a d1 v0 where "listGetOrCreate e k d = (Some a, d1)" "evolves e {k} d d1" "held_at d1 k a"
      "slot OBJ_TYPE_LIST (lview d k) = Some (v0, map_of (expires d1) a)" "list_view (Value (objs d1 a)) = list_view v0"
      "getType (TypeEncoding (objs d1 a)) = OBJ_TYPE_LIST" "wf_value (TypeEncoding (objs d1 a)) (Value (objs d1 a))"
      "lview d k \<noteq> None \<longrightarrow> lview d1 = lview d"
proof (cases rule: get_or_create_slot [OF assms, where ty = OBJ_TYPE_LIST and enc = OBJ_ENCODING_QUICKLIST
      and v = "VQuick NewQuickList" and view = list_view and k = k])
qed (auto simp: listGetOrCreate_def type_consts intro: wrong obj)

lemma push_view:
  assumes "db_ok e d" "config_ok (cfg e)"
    and push: "\<And>q. ql_inv q \<Longrightarrow> \<exists>q'. push_loop push q vs = Inr q' \<and> ql_inv q' \<and> ql_list q' = pushed (ql_list q)"
    and c: "c = (case listGetOrCreate e k d of
        (None, d) \<Rightarrow> Inr (wrongtype_reply, d)
      | (Some obj, d) \<Rightarrow>
          obind (as_quick (Value (objs d obj))) (\<lambda>ql. obind (push_loop push ql vs) (\<lambda>ql.
          Inr (int_reply (QuickList_Len ql), set_val obj (VQuick ql) d))))"
  shows "\<exists>d1. case slot OBJ_TYPE_LIST (lview d k) of
      None \<Rightarrow> c = Inr (wrongtype_reply, d1) \<and> evolves e {k} d d1 \<and> lview d1 = lview d
    | Some (v0, ex) \<Rightarrow> c = Inr (int_reply (int (length (pushed (list_view v0)))), d1) \<and>
        stores e OBJ_TYPE_LIST k (\<lambda>w. list_view w = pushed (list_view v0)) ex d d1"
  using assms(1,2)
proof (cases rule: listGetOrCreate_cases [where k = k])
  case (wrong d1)
  then show ?thesis by (intro exI [of _ d1]) (simp add: c)
next
  case (obj a d1 v0)
  from obj(7,6) obtain q where q: "Value (objs d1 a) = VQuick q" "TypeEncoding (objs d1 a) = or OBJ_TYPE_LIST OBJ_ENCODING_QUICKLIST" "ql_inv q"
    by (rule list_cases)
  obtain q' where q': "push_loop push q vs = Inr q'" "ql_inv q'" "ql_list q' = pushed (ql_list q)"
    using push [OF q(3)] by blast
  have "stores e OBJ_TYPE_LIST k (\<lambda>w. list_view w = pushed (list_view v0)) (map_of (expires d1) a) d (set_val a (VQuick q') d1)"
    unfolding set_val_def by (rule stores_update [OF obj(2,3,8)]) (use q q' obj(5,6) in simp_all)
  then show ?thesis using q q' obj(1,4,5)
    by (intro exI [of _ "set_val a (VQuick q') d1"]) (simp add: c QuickList_Len_def ql_list_count)
qed

lemma evalLPUSH_view:
  assumes "db_ok e d" "config_ok (cfg e)" "vs \<noteq> []"
  shows "\<exists>d1. case slot OBJ_TYPE_LIST (lview d k) of
      None \<Rightarrow> evalLPUSH e (k # vs) d = Inr (wrongtype_reply, d1) \<and> evolves e {k} d d1 \<and> lview d1 = lview d
    | Some (v0, ex) \<Rightarrow> evalLPUSH e (k # vs) d = Inr (int_reply (int (length (rev vs @ list_view v0))), d1) \<and>
        stores e OBJ_TYPE_LIST k (\<lambda>w. list_view w = rev vs @ list_view v0) ex d d1"
proof -
  have "\<not> length (k # vs) < 2" using assms(3) by (cases vs) auto
  then show ?thesis
    by (intro push_view [where push = "\<lambda>q v. QuickList_LPush (cfg e) q [v]" and pushed = "\<lambda>xs. rev vs @ xs", OF assms(1,2)])
      (use qd.lpush_loop_abs [of _ "cfg e" vs] assms(2) in
        \<open>auto simp: evalLPUSH_def config_ok_def cong: option.case_cong prod.case_cong\<close>)
qed

lemma evalRPUSH_view:
  assumes "db_ok e d" "config_ok (cfg e)" "vs \<noteq> []"
  shows "\<exists>d1. case slot OBJ_TYPE_LIST (lview d k) of
      None \<Rightarrow> evalRPUSH e (k # vs) d = Inr (wrongtype_reply, d1) \<and> evolves e {k} d d1 \<and> lview d1 = lview d
    | Some (v0, ex) \<Rightarrow> evalRPUSH e (k # vs) d = Inr (int_reply (int (length (list_view v0 @ vs))), d1) \<and>
        stores e OBJ_TYPE_LIST k (\<lambda>w. list_view w = list_view v0 @ vs) ex d d1"
proof -
  have "\<not> length (k # vs) < 2" using assms(3) by (cases vs) auto
  then show ?thesis
    by (intro push_view [where push = "\<lambda>q v. QuickList_RPush (cfg e) q [v]" and pushed = "\<lambda>xs. xs @ vs", OF assms(1,2)])
      (use qd.rpush_loop_abs [of _ "cfg e" vs] assms(2) in
        \<open>auto simp: evalRPUSH_def config_ok_def cong: option.case_cong prod.case_cong\<close>)
qed

lemma pop_view:
  assumes "db_ok e d"
    and empty: "\<And>q. ql_inv q \<Longrightarrow> ql_list q = [] \<Longrightarrow> pop q = (q, [], False)"
    and pop: "\<And>q. ql_inv q \<Longrightarrow> ql_list q \<noteq> [] \<Longrightarrow> \<exists>q'. pop q = (q', el (ql_list q), True) \<and> ql_inv q' \<and> ql_list q' = rest (ql_list q)"
    and c: "c = typed_lookup OBJ_TYPE_LIST k RESP_NIL (\<lambda>obj d.
        obind (as_quick (Value (objs d obj))) (\<lambda>ql.
          let (ql, val, ok) = pop ql; d = set_val obj (VQuick ql) d in
          if \<not> ok then Inr (RESP_NIL, d)
          else Inr (Encode (GoString val) False, if QuickList_Len ql = 0 then fst (Del k d) else d))) d"
  shows "\<exists>d1. case slot OBJ_TYPE_LIST (lview d k) of
      None \<Rightarrow> c = Inr (wrongtype_reply, d1) \<and> evolves e {k} d d1 \<and> lview d1 = lview d
    | Some (v0, ex) \<Rightarrow>
        (let xs = list_view v0 in
         if xs = [] then c = Inr (RESP_NIL, d1) \<and> evolves e {k} d d1 \<and> lview d1 = lview d
         else c = Inr (bulk (el xs), d1) \<and> leaves e OBJ_TYPE_LIST k (rest xs = []) (\<lambda>w. list_view w = rest xs) ex d d1)"
  using assms(1)
proof (cases rule: typed_lookup_cases [where ty = OBJ_TYPE_LIST and k = k])
  case (missing d1)
  then show ?thesis using evolves_mono [OF missing(2), of "{k}"] by (intro exI [of _ d1]) (simp add: c)
next
  case (wrong d1)
  then show ?thesis using evolves_mono [OF wrong(2), of "{k}"] by (intro exI [of _ d1]) (simp add: c)
next
  case (found a d1)
  have ev: "evolves e {k} d d1" by (rule evolves_mono [OF found(2)]) simp
  from found(8,7) obtain q where q: "Value (objs d1 a) = VQuick q" "TypeEncoding (objs d1 a) = or OBJ_TYPE_LIST OBJ_ENCODING_QUICKLIST" "ql_inv q"
    by (rule list_cases)
  show ?thesis
  proof (cases "ql_list q = []")
    case True
    let ?d2 = "set_val a (VQuick q) d1"
    have "evolves e {k} d ?d2"
      unfolding set_val_def
      by (rule evolves_trans [OF ev evolves_update [OF evolves_ok [OF ev] found(4)]]) (use q in simp_all)
    moreover have "lview ?d2 = lview d"
      using lview_update [OF evolves_inv [OF ev] found(4)] q(1) found(3,5)
      by (simp add: set_val_def obj_entry_def fun_upd_idem)
    moreover have "c = Inr (RESP_NIL, ?d2)" using found(1) q True empty [OF q(3)] by (simp add: c)
    ultimately show ?thesis using q True found(6) by (intro exI [of _ ?d2]) simp
  next
    case False
    obtain q' where q': "pop q = (q', el (ql_list q), True)" "ql_inv q'" "ql_list q' = rest (ql_list q)"
      using pop [OF q(3) False] by blast
    define d2 where "d2 = (if rest (ql_list q) = [] then fst (Del k (set_val a (VQuick q') d1)) else set_val a (VQuick q') d1)"
    have "leaves e OBJ_TYPE_LIST k (rest (ql_list q) = []) (\<lambda>w. list_view w = rest (ql_list q)) (map_of (expires d1) a) d d2"
      unfolding d2_def set_val_def by (rule leaves_update [OF ev found(4,3)]) (use found(7) q q' in simp_all)
    moreover have "c = Inr (bulk (el (ql_list q)), d2)"
      using found(1) q q' by (simp add: c d2_def QuickList_Len_def ql_list_count)
    ultimately show ?thesis using found(6) q(1) False by (intro exI [of _ d2]) (simp add: Let_def)
  qed
qed

lemma evalLPOP_view:
  assumes "db_ok e d"
  shows "\<exists>d1. case slot OBJ_TYPE_LIST (lview d k) of
      None \<Rightarrow> evalLPOP e [k] d = Inr (wrongtype_reply, d1) \<and> evolves e {k} d d1 \<and> lview d1 = lview d
    | Some (v0, ex) \<Rightarrow>
        (let xs = list_view v0 in
         if xs = [] then evalLPOP e [k] d = Inr (RESP_NIL, d1) \<and> evolves e {k} d d1 \<and> lview d1 = lview d
         else evalLPOP e [k] d = Inr (bulk (hd xs), d1) \<and> leaves e OBJ_TYPE_LIST k (tl xs = []) (\<lambda>w. list_view w = tl xs) ex d d1)"
  by (rule pop_view [where pop = QuickList_LPop, OF assms])
    (use qd.lpop_abs_hd [where c = default_config] qd.pop_empty [where c = default_config]
      in \<open>simp_all add: evalLPOP_def default_config_def cong: prod.case_cong if_cong\<close>)

lemma evalRPOP_view:
  assumes "db_ok e d"
  shows "\<exists>d1. case slot OBJ_TYPE_LIST (lview d k) of
      None \<Rightarrow> evalRPOP e [k] d = Inr (wrongtype_reply, d1) \<and> evolves e {k} d d1 \<and> lview d1 = lview d
    | Some (v0, ex) \<Rightarrow>
        (let xs = list_view v0 in
         if xs = [] then evalRPOP e [k] d = Inr (RESP_NIL, d1) \<and> evolves e {k} d d1 \<and> lview d1 = lview d
         else evalRPOP e [k] d = Inr (bulk (last xs), d1) \<and> leaves e OBJ_TYPE_LIST k (butlast xs = []) (\<lambda>w. list_view w = butlast xs) ex d d1)"
  by (rule pop_view [where pop = QuickList_RPop, OF assms])
    (use qd.rpop_abs_last [where c = default_config] qd.pop_empty [where c = default_config]
      in \<open>simp_all add: evalRPOP_def default_config_def cong: prod.case_cong if_cong\<close>)

lemma evalLRANGE_view:
  assumes "db_ok e d"
  shows "\<exists>r d1. evalLRANGE e [k, FormatInt i, FormatInt j] d = Inr (r, d1) \<and> evolves e {} d d1 \<and> lview d1 = lview d \<and>
    (case slot OBJ_TYPE_LIST (lview d k) of
       None \<Rightarrow> r = wrongtype_reply
     | Some (v0, ex) \<Rightarrow> r = array_reply (redis_range (list_view v0) (sint i) (sint j)))"
  unfolding evalLRANGE_def
  by (simp add: Atoi_def, rule typed_reader [OF assms], simp add: redis_range_def, erule list_cases, assumption)
    (auto simp: QuickList_Range_spec)

lemma evalLLEN_view:
  assumes "db_ok e d"
  shows "\<exists>r d1. evalLLEN e [k] d = Inr (r, d1) \<and> evolves e {} d d1 \<and> lview d1 = lview d \<and>
    (case slot OBJ_TYPE_LIST (lview d k) of
       None \<Rightarrow> r = wrongtype_reply
     | Some (v0, ex) \<Rightarrow> r = int_reply (int (length (list_view v0))))"
  unfolding evalLLEN_def
  by (simp, rule typed_reader [OF assms], simp, erule list_cases, assumption)
    (auto simp: QuickList_Len_def ql_list_count)

lemma evalLINDEX_view:
  assumes "db_ok e d"
  shows "\<exists>r d1. evalLINDEX e [k, FormatInt i] d = Inr (r, d1) \<and> evolves e {} d d1 \<and> lview d1 = lview d \<and>
    (case slot OBJ_TYPE_LIST (lview d k) of
       None \<Rightarrow> r = wrongtype_reply
     | Some (v0, ex) \<Rightarrow> r = (case seq_index (list_view v0) (sint i) of None \<Rightarrow> RESP_NIL | Some x \<Rightarrow> bulk x))"
  unfolding evalLINDEX_def
  by (simp add: Atoi_def, rule typed_reader [OF assms], simp add: seq_index_def, erule list_cases, assumption)
    (auto simp: QuickList_Index_spec split: option.splits)

section \<open>Every list command is served\<close>

lemma list_writers_served:
  assumes "db_ok e d" "config_ok (cfg e)"
  shows "served e (set args) d (evalLPUSH e args d)" "served e (set args) d (evalRPUSH e args d)"
    "served e (set args) d (evalLPOP e args d)" "served e (set args) d (evalRPOP e args d)"
proof -
  have push: "served e (set args) d (evalLPUSH e args d) \<and> served e (set args) d (evalRPUSH e args d)"
  proof (cases "length args < 2")
    case True
    then show ?thesis using assms(1) by (simp add: evalLPUSH_def evalRPUSH_def)
  next
    case False
    then obtain k vs where a: "args = k # vs" by (cases args) auto
    with False have "vs \<noteq> []" by auto
    from evalLPUSH_view [OF assms this, of k] evalRPUSH_view [OF assms this, of k] show ?thesis
      unfolding a by (cases rule: slot_cases [where ty = OBJ_TYPE_LIST and en = "lview d k"]) (auto intro: evolves_parts)
  qed
  then show "served e (set args) d (evalLPUSH e args d)" "served e (set args) d (evalRPUSH e args d)" by simp_all
  have pop: "served e (set args) d (evalLPOP e args d) \<and> served e (set args) d (evalRPOP e args d)"
  proof (cases "length args = 1")
    case False
    then show ?thesis using assms(1) by (simp add: evalLPOP_def evalRPOP_def)
  next
    case True
    then obtain k where a: "args = [k]" unfolding length_1_conv by blast
    show ?thesis
    proof (cases rule: slot_cases [where ty = OBJ_TYPE_LIST and en = "lview d k"])
      case 1
      then show ?thesis using evalLPOP_view [OF assms(1), of k] evalRPOP_view [OF assms(1), of k] a
        by (auto intro: evolves_parts)
    next
      case (2 v0 ex)
      then show ?thesis using evalLPOP_view [OF assms(1), of k] evalRPOP_view [OF assms(1), of k] a
        by (cases "list_view v0 = []") (auto simp: Let_def intro: evolves_parts)
    qed
  qed
  then show "served e (set args) d (evalLPOP e args d)" "served e (set args) d (evalRPOP e args d)" by simp_all
qed

lemma Atoi_FormatInt: "snd (ParseInt s) = None \<Longrightarrow> Atoi s = Atoi (FormatInt (int_value s))"
  by (cases "ParseInt s") (simp add: Atoi_def int_value_def)

lemma list_readers_served:
  assumes "db_ok e d"
  shows "served e (set args) d (evalLRANGE e args d)" "served e (set args) d (evalLLEN e args d)"
    "served e (set args) d (evalLINDEX e args d)"
proof -
  show "served e (set args) d (evalLLEN e args d)"
    by (cases "length args = 1")
      (use served_viewI [OF evalLLEN_view [OF assms]] in \<open>auto simp: length_1_conv evalLLEN_def assms\<close>)
  show "served e (set args) d (evalLINDEX e args d)"
  proof (cases "length args = 2 \<and> snd (ParseInt (args ! 1)) = None")
    case True
    then obtain k i where a: "args = [k, i]" by (auto simp: length_2_conv)
    have "evalLINDEX e args d = evalLINDEX e [k, FormatInt (int_value i)] d"
      using True a Atoi_FormatInt [of i] by (simp add: evalLINDEX_def)
    then show ?thesis using served_viewI [OF evalLINDEX_view [OF assms]] by simp
  next
    case False
    then show ?thesis using assms by (auto simp: evalLINDEX_def Atoi_def split: prod.splits option.splits)
  qed
  show "served e (set args) d (evalLRANGE e args d)"
  proof (cases "length args = 3 \<and> snd (ParseInt (args ! 1)) = None \<and> snd (ParseInt (args ! 2)) = None")
    case True
    then obtain k i j where a: "args = [k, i, j]" by (auto simp: length_Suc_conv eval_nat_numeral)
    have "evalLRANGE e args d = evalLRANGE e [k, FormatInt (int_value i), FormatInt (int_value j)] d"
      using True a Atoi_FormatInt [of i] Atoi_FormatInt [of j] by (simp add: evalLRANGE_def)
    then show ?thesis using served_viewI [OF evalLRANGE_view [OF assms]] by simp
  next
    case False
    then show ?thesis using assms by (auto simp: evalLRANGE_def Atoi_def split: prod.splits option.splits)
  qed
qed

section \<open>The properties\<close>

text \<open>C37: the list commands work on a sequence: \<open>LPUSH\<close> puts its values in front, one after the
  other, and \<open>RPUSH\<close> at the end, both reply the new length and keep the expiry; \<open>LPOP\<close> and \<open>RPOP\<close>
  reply the first or last element and leave the rest, the key going with the last element. A
  missing key is an empty sequence, a key of another type is refused and not changed.\<close>

theorem list_commands_update_sequence:
  assumes "db_ok e d" "config_ok (cfg e)" "vs \<noteq> []"
  shows "(\<exists>d1. case slot OBJ_TYPE_LIST (lview d k) of
      None \<Rightarrow> evalLPUSH e (k # vs) d = Inr (wrongtype_reply, d1) \<and> evolves e {k} d d1 \<and> lview d1 = lview d
    | Some (v0, ex) \<Rightarrow> evalLPUSH e (k # vs) d = Inr (int_reply (int (length (rev vs @ list_view v0))), d1) \<and>
        stores e OBJ_TYPE_LIST k (\<lambda>w. list_view w = rev vs @ list_view v0) ex d d1) \<and>
   (\<exists>d1. case slot OBJ_TYPE_LIST (lview d k) of
      None \<Rightarrow> evalRPUSH e (k # vs) d = Inr (wrongtype_reply, d1) \<and> evolves e {k} d d1 \<and> lview d1 = lview d
    | Some (v0, ex) \<Rightarrow> evalRPUSH e (k # vs) d = Inr (int_reply (int (length (list_view v0 @ vs))), d1) \<and>
        stores e OBJ_TYPE_LIST k (\<lambda>w. list_view w = list_view v0 @ vs) ex d d1) \<and>
   (\<exists>d1. case slot OBJ_TYPE_LIST (lview d k) of
      None \<Rightarrow> evalLPOP e [k] d = Inr (wrongtype_reply, d1) \<and> evolves e {k} d d1 \<and> lview d1 = lview d
    | Some (v0, ex) \<Rightarrow>
        (let xs = list_view v0 in
         if xs = [] then evalLPOP e [k] d = Inr (RESP_NIL, d1) \<and> evolves e {k} d d1 \<and> lview d1 = lview d
         else evalLPOP e [k] d = Inr (bulk (hd xs), d1) \<and> leaves e OBJ_TYPE_LIST k (tl xs = []) (\<lambda>w. list_view w = tl xs) ex d d1)) \<and>
   (\<exists>d1. case slot OBJ_TYPE_LIST (lview d k) of
      None \<Rightarrow> evalRPOP e [k] d = Inr (wrongtype_reply, d1) \<and> evolves e {k} d d1 \<and> lview d1 = lview d
    | Some (v0, ex) \<Rightarrow>
        (let xs = list_view v0 in
         if xs = [] then evalRPOP e [k] d = Inr (RESP_NIL, d1) \<and> evolves e {k} d d1 \<and> lview d1 = lview d
         else evalRPOP e [k] d = Inr (bulk (last xs), d1) \<and> leaves e OBJ_TYPE_LIST k (butlast xs = []) (\<lambda>w. list_view w = butlast xs) ex d d1))"
  by (intro conjI evalLPUSH_view evalRPUSH_view evalLPOP_view evalRPOP_view assms)

lemma list_commands_update_sequence_witness:
  "\<exists>d1. evalLPUSH default_env [''l'', ''a'', ''b''] (init_db 5 5) = Inr (int_reply 2, d1)"
  using list_commands_update_sequence [OF init_db_ok [OF default_env_ok] default_env_ok, where vs = "[''a'', ''b'']" and k = "''l''"]
  by (auto simp: slot_def)

text \<open>\<open>LRANGE\<close>, \<open>LINDEX\<close> and \<open>LLEN\<close> read the sequence: the inclusive range, the element at an
  index (nil outside), with negative indices counted from the end, and the length; they end on
  every list and do not change the database.\<close>

theorem list_readers_observe_sequence:
  assumes "db_ok e d"
  shows "(\<exists>r d1. evalLRANGE e [k, FormatInt i, FormatInt j] d = Inr (r, d1) \<and> lview d1 = lview d \<and>
    (case slot OBJ_TYPE_LIST (lview d k) of
       None \<Rightarrow> r = wrongtype_reply
     | Some (v0, ex) \<Rightarrow> r = array_reply (redis_range (list_view v0) (sint i) (sint j)))) \<and>
   (\<exists>r d1. evalLINDEX e [k, FormatInt i] d = Inr (r, d1) \<and> lview d1 = lview d \<and>
    (case slot OBJ_TYPE_LIST (lview d k) of
       None \<Rightarrow> r = wrongtype_reply
     | Some (v0, ex) \<Rightarrow> r = (case seq_index (list_view v0) (sint i) of None \<Rightarrow> RESP_NIL | Some x \<Rightarrow> bulk x))) \<and>
   (\<exists>r d1. evalLLEN e [k] d = Inr (r, d1) \<and> lview d1 = lview d \<and>
    (case slot OBJ_TYPE_LIST (lview d k) of
       None \<Rightarrow> r = wrongtype_reply
     | Some (v0, ex) \<Rightarrow> r = int_reply (int (length (list_view v0)))))"
  using evalLRANGE_view [OF assms, of k i j] evalLINDEX_view [OF assms, of k i] evalLLEN_view [OF assms, of k] by meson

lemma list_readers_observe_sequence_witness:
  "\<exists>d1. evalLLEN default_env [''l''] (init_db 5 5) = Inr (RESP_ZERO, d1)"
  using list_readers_observe_sequence [OF init_db_ok [OF default_env_ok], where k = "''l''" and i = 0 and j = 0]
  by (auto simp: slot_def)

end
