(* ===== verification/EvalZSet.thy ===== *)
theory EvalZSet
  imports EvalList
begin

text \<open>
  The sorted-set commands of \<open>core/eval_zset.go\<close> over the composite \<open>ZSet\<close>. The levels of new
  nodes come from \<open>rand_draws\<close>, a new sequence of draws for each pair. \<open>ZADD\<close> applies its pairs
  one after the other and stops at a score that is no number, keeping what it has done.
\<close>

section \<open>The commands\<close>

definition zsetGetOrCreate :: "env \<Rightarrow> string \<Rightarrow> db \<Rightarrow> nat option \<times> db" where
  "zsetGetOrCreate e ky d = type_get_or_create e OBJ_TYPE_ZSET OBJ_ENCODING_SKIPLIST (VZSet newZSet) ky d"

fun zadd_loop :: "env \<Rightarrow> string list \<Rightarrow> ZSet \<Rightarrow> int \<Rightarrow> db \<Rightarrow> (ZSet \<times> int option \<times> db) option" where
  \<comment> \<open>the loop of \<open>ZADD\<close>: the set as it is in the end and the count, \<open>None\<close> at an invalid score\<close>
  "zadd_loop e (scoreStr # memb # rest) zs added d =
     (case parse_float e scoreStr of
        None \<Rightarrow> Some (zs, None, d)
      | Some sc \<Rightarrow>
          (case zset_add (rand_draws e (tick d)) zs sc memb of
             None \<Rightarrow> None
           | Some (zs, new) \<Rightarrow> zadd_loop e rest zs (if new then added + 1 else added) (ticked d)))"
| "zadd_loop e _ zs added d = Some (zs, Some added, d)"

definition evalZADD :: command where
  "evalZADD e args d =
     (if length args < 3 \<or> even (length args) then Inr (arity_reply ''zadd'', d)
      else case zsetGetOrCreate e (args ! 0) d of
        (None, d) \<Rightarrow> Inr (wrongtype_reply, d)
      | (Some obj, d) \<Rightarrow>
          obind (as_zset (Value (objs d obj))) (\<lambda>zs.
          obind (of_walk (zadd_loop e (drop 1 args) zs 0 d)) (\<lambda>(zs, added, d).
          Inr (case added of None \<Rightarrow> error_reply ''ERR value is not a valid float'' | Some n \<Rightarrow> int_reply n,
            set_val obj (VZSet zs) d))))"

definition evalZSCORE :: command where
  "evalZSCORE e args d =
     (if length args \<noteq> 2 then Inr (arity_reply ''zscore'', d)
      else typed_lookup OBJ_TYPE_ZSET (args ! 0) RESP_NIL (\<lambda>obj d.
        obind (as_zset (Value (objs d obj))) (\<lambda>zs.
          Inr (case map_of (dict zs) (args ! 1) of
                 Some sc \<Rightarrow> Encode (GoString (format_float e sc)) False
               | None \<Rightarrow> RESP_NIL, d))) d)"

definition evalZRANK :: command where
  "evalZRANK e args d =
     (if length args \<noteq> 2 then Inr (arity_reply ''zrank'', d)
      else typed_lookup OBJ_TYPE_ZSET (args ! 0) RESP_NIL (\<lambda>obj d.
        obind (as_zset (Value (objs d obj))) (\<lambda>zs.
          case map_of (dict zs) (args ! 1) of
            None \<Rightarrow> Inr (RESP_NIL, d)
          | Some sc \<Rightarrow>
              obind (of_walk (GetRank (sl zs) sc (args ! 1))) (\<lambda>rank.
              Inr (if rank = 0 then RESP_NIL else int_reply (rank - 1), d)))) d)"

definition evalZRANGE :: command where
  "evalZRANGE e args d =
     (if length args \<noteq> 3 then Inr (arity_reply ''zrange'', d)
      else let (start, err1) = Atoi (args ! 1); (stop, err2) = Atoi (args ! 2) in
        if err1 \<noteq> None \<or> err2 \<noteq> None then Inr (not_integer_reply, d)
        else typed_lookup OBJ_TYPE_ZSET (args ! 0) (array_reply []) (\<lambda>obj d.
          obind (as_zset (Value (objs d obj))) (\<lambda>zs.
          obind (of_walk (SkipList_Range (sl zs) start stop)) (\<lambda>members. Inr (array_reply members, d)))) d)"

definition evalZCARD :: command where
  "evalZCARD e args d =
     (if length args \<noteq> 1 then Inr (arity_reply ''zcard'', d)
      else typed_lookup OBJ_TYPE_ZSET (args ! 0) RESP_ZERO (\<lambda>obj d.
        obind (as_zset (Value (objs d obj))) (\<lambda>zs. Inr (int_reply (int (length (dict zs))), d))) d)"

fun zrem_loop :: "string list \<Rightarrow> ZSet \<Rightarrow> int \<Rightarrow> (ZSet \<times> int) option" where
  "zrem_loop [] zs removed = Some (zs, removed)"
| "zrem_loop (memb # ms) zs removed =
     (case zset_rem zs memb of
        None \<Rightarrow> None
      | Some (zs, found) \<Rightarrow> zrem_loop ms zs (if found then removed + 1 else removed))"

definition evalZREM :: command where
  "evalZREM e args d =
     (if length args < 2 then Inr (arity_reply ''zrem'', d)
      else typed_lookup OBJ_TYPE_ZSET (args ! 0) RESP_ZERO (\<lambda>obj d.
        obind (as_zset (Value (objs d obj))) (\<lambda>zs.
        obind (of_walk (zrem_loop (drop 1 args) zs 0)) (\<lambda>(zs, removed).
          let d = set_val obj (VZSet zs) d
          in Inr (int_reply removed, if length (dict zs) = 0 then fst (Del (args ! 0) d) else d)))) d)"

section \<open>Every sorted-set command is served\<close>

lemma zset_cases:
  assumes "wf_value (TypeEncoding obj) (Value obj)" "getType (TypeEncoding obj) = OBJ_TYPE_ZSET"
  obtains z where "Value obj = VZSet z" "TypeEncoding obj = or OBJ_TYPE_ZSET OBJ_ENCODING_SKIPLIST" "zset_ok z"
  using wf_zset [OF assms] by auto

lemma same_tick: "\<exists>t. d = d\<lparr>tick := t\<rparr>"
  by (rule exI [of _ "tick d"]) simp

lemma zadd_loop_ok:
  "zset_ok z \<Longrightarrow> \<exists>z' n t. zadd_loop e xs z i d = Some (z', n, d\<lparr>tick := t\<rparr>) \<and> zset_ok z'"
proof (induction e xs z i d rule: zadd_loop.induct)
  case (1 e sc m rest z i d)
  show ?case
  proof (cases "parse_float e sc")
    case None
    then show ?thesis using 1(2) by (auto intro: same_tick)
  next
    case (Some s)
    obtain z1 b where z1: "zset_add (rand_draws e (tick d)) z s m = Some (z1, b)" "zset_ok z1"
      using zset_add_ok [OF 1(2)] by blast
    show ?thesis
      using 1(1) [OF Some z1(1) refl z1(2)] Some z1(1) by (auto simp: ticked_def)
  qed
qed (auto intro: same_tick)

lemma zrem_loop_ok: "zset_ok z \<Longrightarrow> \<exists>z' n. zrem_loop ms z i = Some (z', n) \<and> zset_ok z'"
proof (induction ms arbitrary: z i)
  case (Cons m ms)
  obtain z1 b where "zset_rem z m = Some (z1, b)" "zset_ok z1" using zset_rem_ok [OF Cons(2)] by blast
  then show ?case using Cons(1) by auto
qed simp

lemma GetRank_levels_total:
  assumes rep: "sl_rep l xs"
  shows "i \<le> sl_level l \<Longrightarrow> p \<le> length xs \<Longrightarrow> i \<le> height (node_of l xs p) \<Longrightarrow>
    \<exists>r. GetRank_levels s m (sl_nodes l) i (node_at l xs p) (int p) = Some r"
proof (induction i arbitrary: p)
  case (Suc i)
  obtain p' where "walk (goes_upto s m) (sl_nodes l) i (node_at l xs p) (int p) = Some (node_at l xs p', int p')"
    "p' \<le> length xs" "i < height (node_of l xs p')"
    using walk_rep [OF rep, of i p "goes_upto s m"] Suc.prems by auto
  then show ?case using Suc.IH [of p'] Suc.prems(1) by auto
qed simp

lemma GetRank_total: "zset_ok z \<Longrightarrow> \<exists>r. GetRank (sl z) s m = Some r"
proof -
  assume "zset_ok z"
  then obtain xs where "sl_rep (sl z) xs" by (auto simp: zset_ok_def)
  then show ?thesis
    using GetRank_levels_total [of "sl z" xs "sl_level (sl z)" 0 s m] by (simp add: GetRank_def sl_rep_def)
qed

lemma SkipList_Range_total: "zset_ok z \<Longrightarrow> \<exists>r. SkipList_Range (sl z) i j = Some r"
  by (auto simp: zset_ok_def dest: SkipList_Range_rep)

lemma zsetGetOrCreate_cases:
  assumes "db_ok e d" "config_ok (cfg e)"
  obtains (wrong) d1 where "zsetGetOrCreate e k d = (None, d1)" "evolves e {k} d d1" "lview d1 = lview d"
      "slot OBJ_TYPE_ZSET (lview d k) = None"
  | (obj) a d1 v0 where "zsetGetOrCreate e k d = (Some a, d1)" "evolves e {k} d d1" "held_at d1 k a"
      "slot OBJ_TYPE_ZSET (lview d k) = Some (v0, map_of (expires d1) a)"
      "v0 = Value (objs d1 a) \<or> v0 = VNil \<and> Value (objs d1 a) = VZSet newZSet"
      "getType (TypeEncoding (objs d1 a)) = OBJ_TYPE_ZSET" "wf_value (TypeEncoding (objs d1 a)) (Value (objs d1 a))"
      "lview d k \<noteq> None \<longrightarrow> lview d1 = lview d"
proof (cases rule: get_or_create_slot [OF assms, where ty = OBJ_TYPE_ZSET and enc = OBJ_ENCODING_SKIPLIST
      and v = "VZSet newZSet" and view = "\<lambda>v. if v = VNil then VZSet newZSet else v" and k = k])
qed (auto simp: zsetGetOrCreate_def type_consts split: if_splits intro: wrong obj)

lemma evolves_tick:
  assumes "evolves e ks d0 d"
  shows "evolves e ks d0 (d\<lparr>tick := t\<rparr>) \<and> lview (d\<lparr>tick := t\<rparr>) = lview d \<and> (held_at (d\<lparr>tick := t\<rparr>) k a \<longleftrightarrow> held_at d k a)"
proof -
  have "lview (d\<lparr>tick := t\<rparr>) = lview d" by (rule lview_cong) simp_all
  moreover have "db_inv (d\<lparr>tick := t\<rparr>) = db_inv d" by (simp add: db_inv_def one_key_def stored_def expiring_def)
  ultimately show ?thesis using assms by (simp add: evolves_def db_ok_def StoreLen_def held_at_def hasExpired_def cong: option.case_cong)
qed

lemma zset_writers_served:
  assumes "db_ok e d" "config_ok (cfg e)"
  shows "served e (set args) d (evalZADD e args d)" "served e (set args) d (evalZREM e args d)"
proof -
  show "served e (set args) d (evalZADD e args d)"
  proof (cases "length args < 3 \<or> even (length args)")
    case True
    then show ?thesis using assms(1) by (simp add: evalZADD_def)
  next
    case False
    then have k: "args ! 0 \<in> set args" by (cases args) auto
    note D = evalZADD_def [of e args d, unfolded if_not_P [OF False]]
    from assms show ?thesis
    proof (cases rule: zsetGetOrCreate_cases [where k = "args ! 0"])
      case (wrong d1)
      then show ?thesis using k by (simp add: D evolves_in)
    next
      case (obj a d1 v0)
      from obj(7,6) obtain z where z: "Value (objs d1 a) = VZSet z" "TypeEncoding (objs d1 a) = or OBJ_TYPE_ZSET OBJ_ENCODING_SKIPLIST" "zset_ok z"
        by (rule zset_cases)
      obtain z' n t where l: "zadd_loop e (drop 1 args) z 0 d1 = Some (z', n, d1\<lparr>tick := t\<rparr>)" "zset_ok z'"
        using zadd_loop_ok [OF z(3)] by blast
      have ev: "evolves e {args ! 0} d (d1\<lparr>tick := t\<rparr>)" "held_at (d1\<lparr>tick := t\<rparr>) (args ! 0) a"
        using evolves_tick [OF obj(2)] obj(3) by simp_all
      have "evolves e {args ! 0} d (set_val a (VZSet z') (d1\<lparr>tick := t\<rparr>))"
        unfolding set_val_def
        by (rule evolves_trans [OF ev(1) evolves_update [OF evolves_ok [OF ev(1)] ev(2)]]) (use z l in simp_all)
      then show ?thesis using obj(1) z l k by (simp add: D evolves_in split: option.splits)
    qed
  qed
  show "served e (set args) d (evalZREM e args d)"
  proof (cases "length args < 2")
    case True
    then show ?thesis using assms(1) by (simp add: evalZREM_def)
  next
    case False
    then have k: "args ! 0 \<in> set args" by (cases args) auto
    show ?thesis
      unfolding evalZREM_def if_not_P [OF False]
    proof (rule served_typed_lookup [OF assms(1)])
      fix a d1
      assume d1: "evolves e (set args) d d1" "held_at d1 (args ! 0) a" "getType (TypeEncoding (objs d1 a)) = OBJ_TYPE_ZSET"
        "wf_value (TypeEncoding (objs d1 a)) (Value (objs d1 a))"
      from d1(4,3) obtain z where z: "Value (objs d1 a) = VZSet z" "TypeEncoding (objs d1 a) = or OBJ_TYPE_ZSET OBJ_ENCODING_SKIPLIST" "zset_ok z"
        by (rule zset_cases)
      obtain z' n where l: "zrem_loop (drop 1 args) z 0 = Some (z', n)" "zset_ok z'" using zrem_loop_ok [OF z(3)] by blast
      have "evolves e (set args) d1 (set_val a (VZSet z') d1)"
        unfolding set_val_def by (rule evolves_update [OF evolves_ok [OF d1(1)] d1(2)]) (use z l k in simp_all)
      then have ev: "evolves e (set args) d (set_val a (VZSet z') d1)" by (rule evolves_trans [OF d1(1)])
      moreover have "evolves e (set args) d (fst (Del (args ! 0) (set_val a (VZSet z') d1)))"
        by (rule evolves_trans [OF ev evolves_Del [OF evolves_ok [OF ev] k]])
      ultimately show "served e (set args) d (obind (as_zset (Value (objs d1 a))) (\<lambda>zs.
        obind (of_walk (zrem_loop (drop 1 args) zs 0)) (\<lambda>(zs, removed).
          let d = set_val a (VZSet zs) d1
          in Inr (int_reply removed, if length (dict zs) = 0 then fst (Del (args ! 0) d) else d))))"
        using z l by (simp add: Let_def)
    qed
  qed
qed

lemma zset_readers_served:
  assumes "db_ok e d"
  shows "served e (set args) d (evalZSCORE e args d)" "served e (set args) d (evalZRANK e args d)"
    "served e (set args) d (evalZRANGE e args d)" "served e (set args) d (evalZCARD e args d)"
proof -
  show "served e (set args) d (evalZSCORE e args d)"
    unfolding evalZSCORE_def
    by (simp add: assms, intro impI served_typed_lookup [OF assms], erule zset_cases, assumption) simp
  show "served e (set args) d (evalZCARD e args d)"
    unfolding evalZCARD_def
    by (simp add: assms, intro impI served_typed_lookup [OF assms], erule zset_cases, assumption) simp
  show "served e (set args) d (evalZRANK e args d)"
    unfolding evalZRANK_def
  proof (simp add: assms, intro impI served_typed_lookup [OF assms], erule zset_cases, assumption, goal_cases)
    case (1 a d1 z)
    then show ?case
    proof (cases "map_of (dict z) (args ! 1)")
      case (Some sc)
      then show ?thesis using 1 GetRank_total [OF 1(7), of sc "args ! 1"] by auto
    qed simp
  qed
  show "served e (set args) d (evalZRANGE e args d)"
  proof -
    have "served e (set args) d (typed_lookup OBJ_TYPE_ZSET (args ! 0) (array_reply []) (\<lambda>obj d.
          obind (as_zset (Value (objs d obj))) (\<lambda>zs.
          obind (of_walk (SkipList_Range (sl zs) start stop)) (\<lambda>members. Inr (array_reply members, d)))) d)" for start stop
    proof (intro served_typed_lookup [OF assms], erule zset_cases, assumption, goal_cases)
      case (1 a d1 z)
      then show ?case using SkipList_Range_total [of z start stop] by auto
    qed
    then show ?thesis using assms by (auto simp: evalZRANGE_def Let_def split: prod.splits)
  qed
qed

section \<open>A map from members to scores\<close>

definition zset_view :: "gvalue \<Rightarrow> string \<rightharpoonup> float64" where
  "zset_view v = (case v of VZSet z \<Rightarrow> map_of (dict z) | _ \<Rightarrow> Map.empty)"

definition zset_synced :: "gvalue \<Rightarrow> bool" where
  \<comment> \<open>list and dictionary agree; so it is as long as no score is NaN\<close>
  "zset_synced v = (case v of VZSet z \<Rightarrow> zset_sync z | _ \<Rightarrow> True)"

lemma zset_view_simps [simp]:
  "zset_view (VZSet z) = map_of (dict z)" "zset_view VNil = Map.empty" "zset_synced (VZSet z) = zset_sync z" "zset_synced VNil"
  by (simp_all add: zset_view_def zset_synced_def)

fun scored :: "env \<Rightarrow> string list \<Rightarrow> (string \<rightharpoonup> float64) \<Rightarrow> (string \<rightharpoonup> float64)" where
  \<comment> \<open>the scores after the pairs of \<open>ZADD\<close>; an equal score is not written again\<close>
  "scored e (sc # m # rest) f =
     scored e rest (let s = the (parse_float e sc) in
       case f m of Some old \<Rightarrow> if feq old s then f else f(m \<mapsto> s) | None \<Rightarrow> f(m \<mapsto> s))"
| "scored e _ f = f"

lemma card_dom_update: "finite (dom f) \<Longrightarrow> int (card (dom (f(m \<mapsto> s)))) = int (card (dom f)) + (if f m = None then 1 else 0)"
  by (auto simp: card_insert_if domIff insert_absorb)

lemma zadd_loop_sync:
  "zset_sync z \<Longrightarrow> \<forall>(sc, m) \<in> set (pairs xs). \<exists>s. parse_float e sc = Some s \<and> \<not> f_nan s \<Longrightarrow>
   \<exists>z' t. zadd_loop e xs z i d = Some (z', Some (i + int (card (dom (map_of (dict z')))) - int (card (dom (map_of (dict z))))), d\<lparr>tick := t\<rparr>) \<and>
     zset_sync z' \<and> map_of (dict z') = scored e xs (map_of (dict z))"
proof (induction e xs z i d rule: zadd_loop.induct)
  case (1 e sc m rest z i d)
  obtain s where s: "parse_float e sc = Some s" "\<not> f_nan s" using 1(3) by auto
  obtain z1 where z1: "zset_add (rand_draws e (tick d)) z s m = Some (z1, map_of (dict z) m = None)" "zset_sync z1"
    "map_of (dict z1) = (case map_of (dict z) m of
         Some old \<Rightarrow> if feq old s then map_of (dict z) else (map_of (dict z))(m \<mapsto> s)
       | None \<Rightarrow> (map_of (dict z))(m \<mapsto> s))"
    using zset_add_sync [OF 1(2) s(2)] by blast
  have c: "int (card (dom (map_of (dict z1)))) = int (card (dom (map_of (dict z)))) + (if map_of (dict z) m = None then 1 else 0)"
    using card_dom_update [OF finite_dom_gomap, of "dict z" m s] z1(3) by (auto split: option.splits)
  have sc: "scored e (sc # m # rest) (map_of (dict z)) = scored e rest (map_of (dict z1))"
    using z1(3) s(1) by (simp add: Let_def)
  have rest: "\<forall>(sc, m) \<in> set (pairs rest). \<exists>s. parse_float e sc = Some s \<and> \<not> f_nan s" using 1(3) by simp
  define n where "n = (if map_of (dict z) m = None then i + 1 else i)"
  obtain z' t where r: "zadd_loop e rest z1 n (ticked d) =
      Some (z', Some (n + int (card (dom (map_of (dict z')))) - int (card (dom (map_of (dict z1))))), (ticked d)\<lparr>tick := t\<rparr>)"
    "zset_sync z'" "map_of (dict z') = scored e rest (map_of (dict z1))"
    using 1(1) [OF s(1) z1(1) refl z1(2) rest, folded n_def] by (elim exE conjE) (rule that)
  have "zadd_loop e (sc # m # rest) z i d = zadd_loop e rest z1 n (ticked d)"
    using s(1) z1(1) by (simp add: n_def)
  moreover have "n - int (card (dom (map_of (dict z1)))) = i - int (card (dom (map_of (dict z))))"
    using c by (simp add: n_def split: if_splits)
  ultimately show ?case using r sc by (intro exI [of _ z'] exI [of _ t]) (simp add: ticked_def)
qed (auto intro: same_tick)

lemma zrem_loop_sync:
  "zset_sync z \<Longrightarrow> \<exists>z'. zrem_loop ms z i = Some (z', i + int (card (dom (map_of (dict z)))) - int (card (dom (map_of (dict z'))))) \<and>
     zset_sync z' \<and> map_of (dict z') = map_of (dict z) |` (- set ms)"
proof (induction ms arbitrary: z i)
  case (Cons m ms)
  obtain z1 where z1: "zset_rem z m = Some (z1, map_of (dict z) m \<noteq> None)" "zset_sync z1" "map_of (dict z1) = (map_of (dict z))(m := None)"
    using zset_rem_sync [OF Cons(2)] by blast
  have c: "int (card (dom (map_of (dict z1)))) = int (card (dom (map_of (dict z)))) - (if map_of (dict z) m \<noteq> None then 1 else 0)"
  proof (cases "map_of (dict z) m")
    case None
    then have "map_of (dict z1) = map_of (dict z)" using z1(3) by auto
    then show ?thesis using None by simp
  next
    case (Some s)
    then have "Suc (card (dom (map_of (dict z1)))) = card (dom (map_of (dict z)))"
      using z1(3) card_Suc_Diff1 [OF finite_dom_gomap, of m "dict z"] by (simp add: domI del: card_Diff_insert)
    then show ?thesis using Some by simp
  qed
  have r: "map_of (dict z1) |` (- set ms) = map_of (dict z) |` (- set (m # ms))"
    unfolding z1(3) by (auto simp: restrict_map_def)
  obtain z' where "zrem_loop ms z1 (if map_of (dict z) m \<noteq> None then i + 1 else i) =
      Some (z', (if map_of (dict z) m \<noteq> None then i + 1 else i) + int (card (dom (map_of (dict z1)))) - int (card (dom (map_of (dict z')))))"
    "zset_sync z'" "map_of (dict z') = map_of (dict z1) |` (- set ms)"
    using Cons(1) [OF z1(2), of "if map_of (dict z) m \<noteq> None then i + 1 else i"] by (elim exE conjE) (rule that)
  then show ?case using z1(1) c r by (intro exI [of _ z']) simp
qed (simp add: restrict_map_def)

lemma evalZADD_view:
  assumes "db_ok e d" "config_ok (cfg e)" "xs \<noteq> []" "even (length xs)"
    "\<forall>(sc, m) \<in> set (pairs xs). \<exists>s. parse_float e sc = Some s \<and> \<not> f_nan s"
    "\<forall>v ex. slot OBJ_TYPE_ZSET (lview d k) = Some (v, ex) \<longrightarrow> zset_synced v"
  shows "\<exists>d1. case slot OBJ_TYPE_ZSET (lview d k) of
      None \<Rightarrow> evalZADD e (k # xs) d = Inr (wrongtype_reply, d1) \<and> evolves e {k} d d1 \<and> lview d1 = lview d
    | Some (v0, ex) \<Rightarrow>
        evalZADD e (k # xs) d = Inr (int_reply (int (card (dom (scored e xs (zset_view v0)))) - int (card (dom (zset_view v0)))), d1) \<and>
        stores e OBJ_TYPE_ZSET k (\<lambda>w. zset_view w = scored e xs (zset_view v0) \<and> zset_synced w) ex d d1"
proof -
  have len: "\<not> (length (k # xs) < 3 \<or> even (length (k # xs)))"
    using assms(3,4) by (cases xs; cases "tl xs") auto
  note D = evalZADD_def [of e "k # xs" d, unfolded if_not_P [OF len]]
  from assms(1,2) show ?thesis
  proof (cases rule: zsetGetOrCreate_cases [where k = k])
    case (wrong d1)
    then show ?thesis by (intro exI [of _ d1]) (simp add: D)
  next
    case (obj a d1 v0)
    from obj(7,6) obtain z where z: "Value (objs d1 a) = VZSet z" "TypeEncoding (objs d1 a) = or OBJ_TYPE_ZSET OBJ_ENCODING_SKIPLIST" "zset_ok z"
      by (rule zset_cases)
    have sy: "zset_sync z" "zset_view v0 = map_of (dict z)"
      using obj(4,5) z(1) assms(6) newZSet_sync by (auto simp: newZSet_def)
    obtain z' t where l: "zadd_loop e xs z 0 d1 =
        Some (z', Some (0 + int (card (dom (map_of (dict z')))) - int (card (dom (map_of (dict z))))), d1\<lparr>tick := t\<rparr>)"
      "zset_sync z'" "map_of (dict z') = scored e xs (map_of (dict z))"
      using zadd_loop_sync [OF sy(1) assms(5)] by blast
    let ?d1 = "d1\<lparr>tick := t\<rparr>"
    have ev: "evolves e {k} d ?d1" "held_at ?d1 k a" "lview ?d1 = lview d1"
      using evolves_tick [OF obj(2)] obj(3) by simp_all
    have "stores e OBJ_TYPE_ZSET k (\<lambda>w. zset_view w = scored e xs (zset_view v0) \<and> zset_synced w) (map_of (expires ?d1) a) d
        (set_val a (VZSet z') ?d1)"
      unfolding set_val_def
      by (rule stores_update [OF ev(1,2)]) (use ev(3) obj(6,8) z l sy zset_sync_ok in simp_all)
    then show ?thesis using obj(1,4) z(1) l sy(2)
      by (intro exI [of _ "set_val a (VZSet z') ?d1"]) (simp add: D)
  qed
qed

lemma evalZREM_view:
  assumes "db_ok e d" "ms \<noteq> []" "\<forall>v ex. slot OBJ_TYPE_ZSET (lview d k) = Some (v, ex) \<longrightarrow> zset_synced v"
  shows "\<exists>d1. case slot OBJ_TYPE_ZSET (lview d k) of
      None \<Rightarrow> evalZREM e (k # ms) d = Inr (wrongtype_reply, d1) \<and> evolves e {k} d d1 \<and> lview d1 = lview d
    | Some (v0, ex) \<Rightarrow>
        (let f = zset_view v0 |` (- set ms) in
         evalZREM e (k # ms) d = Inr (int_reply (int (card (dom (zset_view v0))) - int (card (dom f))), d1) \<and>
         leaves e OBJ_TYPE_ZSET k (f = Map.empty) (\<lambda>w. zset_view w = f \<and> zset_synced w) ex d d1)"
proof -
  have len: "\<not> length (k # ms) < 2" using assms(2) by (cases ms) auto
  note D = evalZREM_def [of e "k # ms" d, unfolded if_not_P [OF len]]
  from assms(1) show ?thesis
  proof (cases rule: typed_lookup_cases [where ty = OBJ_TYPE_ZSET and k = k])
    case (missing d1)
    then show ?thesis using evolves_mono [OF missing(2), of "{k}"]
      by (intro exI [of _ d1]) (simp add: D leaves_nothing Let_def)
  next
    case (wrong d1)
    then show ?thesis using evolves_mono [OF wrong(2), of "{k}"] by (intro exI [of _ d1]) (simp add: D)
  next
    case (found a d1)
    have ev: "evolves e {k} d d1" by (rule evolves_mono [OF found(2)]) simp
    from found(8,7) obtain z where z: "Value (objs d1 a) = VZSet z" "TypeEncoding (objs d1 a) = or OBJ_TYPE_ZSET OBJ_ENCODING_SKIPLIST" "zset_ok z"
      by (rule zset_cases)
    have sy: "zset_sync z" using assms(3) found(6) z(1) by simp
    obtain z' where l: "zrem_loop ms z 0 = Some (z', 0 + int (card (dom (map_of (dict z)))) - int (card (dom (map_of (dict z')))))"
      "zset_sync z'" "map_of (dict z') = map_of (dict z) |` (- set ms)"
      using zrem_loop_sync [OF sy] by blast
    have emp: "length (dict z') = 0 \<longleftrightarrow> map_of (dict z') = Map.empty" by (cases "dict z'") auto
    define d2 where "d2 = (if map_of (dict z') = Map.empty then fst (Del k (set_val a (VZSet z') d1)) else set_val a (VZSet z') d1)"
    have "leaves e OBJ_TYPE_ZSET k (map_of (dict z') = Map.empty) (\<lambda>w. zset_view w = map_of (dict z') \<and> zset_synced w) (map_of (expires d1) a) d d2"
      unfolding d2_def set_val_def by (rule leaves_update [OF ev found(4,3)]) (use found(7) z l zset_sync_ok in simp_all)
    moreover have "evalZREM e (k # ms) d = Inr (int_reply (int (card (dom (map_of (dict z)))) - int (card (dom (map_of (dict z'))))), d2)"
      using found(1) z(1) l(1) emp by (simp add: D d2_def Let_def)
    ultimately show ?thesis using found(6) z(1) l(3) by (intro exI [of _ d2]) (simp add: Let_def)
  qed
qed

lemma zset_sequence:
  assumes "zset_sync z"
  obtains its where "sorted_items its" "\<And>s m. (s, m) \<in> set its \<longleftrightarrow> map_of (dict z) m = Some s"
    "\<And>i j. SkipList_Range (sl z) i j = Some (redis_range (map snd its) i j)"
    "\<And>s m. m \<noteq> [] \<Longrightarrow> map_of (dict z) m = Some s \<Longrightarrow> \<exists>r < length its. its ! r = (s, m) \<and> GetRank (sl z) s m = Some (int r + 1)"
proof -
  obtain xs where r: "zset_rep z xs" using assms by (auto simp: zset_sync_def)
  show thesis
  proof (rule that [of "items (sl z) xs"])
    show "sorted_items (items (sl z) xs)" using r by (simp add: zset_rep_def)
    show "(s, m) \<in> set (items (sl z) xs) \<longleftrightarrow> map_of (dict z) m = Some s" for s m using r by (simp add: zset_rep_def)
    show "SkipList_Range (sl z) i j = Some (redis_range (map snd (items (sl z) xs)) i j)" for i j
      by (rule SkipList_items_range [OF r])
    show "\<exists>k < length (items (sl z) xs). items (sl z) xs ! k = (s, m) \<and> GetRank (sl z) s m = Some (int k + 1)"
      if "m \<noteq> []" "map_of (dict z) m = Some s" for s m
      using zset_rank_sync [OF r that(2,1)] by simp
  qed
qed

lemma evalZCARD_view:
  assumes "db_ok e d"
  shows "\<exists>r d1. evalZCARD e [k] d = Inr (r, d1) \<and> evolves e {} d d1 \<and> lview d1 = lview d \<and>
    (case slot OBJ_TYPE_ZSET (lview d k) of
       None \<Rightarrow> r = wrongtype_reply | Some (v0, ex) \<Rightarrow> r = int_reply (int (card (dom (zset_view v0)))))"
  unfolding evalZCARD_def
  by (simp, rule typed_reader [OF assms], simp, erule zset_cases, assumption) (auto simp: zset_ok_def card_dom_gomap)

lemma evalZSCORE_view:
  assumes "db_ok e d"
  shows "\<exists>r d1. evalZSCORE e [k, m] d = Inr (r, d1) \<and> evolves e {} d d1 \<and> lview d1 = lview d \<and>
    (case slot OBJ_TYPE_ZSET (lview d k) of
       None \<Rightarrow> r = wrongtype_reply
     | Some (v0, ex) \<Rightarrow> r = (case zset_view v0 m of None \<Rightarrow> RESP_NIL | Some s \<Rightarrow> bulk (format_float e s)))"
  unfolding evalZSCORE_def
  by (simp, rule typed_reader [OF assms], simp, erule zset_cases, assumption) (auto split: option.splits)

definition ranked :: "(string \<rightharpoonup> float64) \<Rightarrow> (float64 \<times> string) list \<Rightarrow> bool" where
  \<comment> \<open>the pairs of the map, sorted by score, then by member\<close>
  "ranked f its \<longleftrightarrow> sorted_items its \<and> (\<forall>s m. (s, m) \<in> set its \<longleftrightarrow> f m = Some s)"

lemma evalZRANGE_view:
  assumes "db_ok e d"
  shows "\<exists>r d1. evalZRANGE e [k, FormatInt i, FormatInt j] d = Inr (r, d1) \<and> evolves e {} d d1 \<and> lview d1 = lview d \<and>
    (case slot OBJ_TYPE_ZSET (lview d k) of
       None \<Rightarrow> r = wrongtype_reply
     | Some (v0, ex) \<Rightarrow> zset_synced v0 \<longrightarrow>
         (\<exists>its. ranked (zset_view v0) its \<and> r = array_reply (redis_range (map snd its) (sint i) (sint j))))"
  unfolding evalZRANGE_def
proof (simp add: Atoi_def, rule typed_reader [OF assms], goal_cases)
  case 1
  show ?case by (simp add: ranked_def sorted_items_def redis_range_def exI [of _ "[]"])
next
  case (2 a d1)
  then obtain z where z: "Value (objs d1 a) = VZSet z" "zset_ok z" by (auto elim: zset_cases)
  then obtain r where r: "SkipList_Range (sl z) (sint i) (sint j) = Some r" using SkipList_Range_total by blast
  have "\<exists>its. ranked (zset_view (VZSet z)) its \<and> r = redis_range (map snd its) (sint i) (sint j)" if "zset_sync z"
    by (rule zset_sequence [OF that]) (use r in \<open>auto simp: ranked_def\<close>)
  then show ?case using z r by (intro exI [of _ "array_reply r"]) auto
qed

lemma evalZRANK_view:
  assumes "db_ok e d" "m \<noteq> []"
  shows "\<exists>r d1. evalZRANK e [k, m] d = Inr (r, d1) \<and> evolves e {} d d1 \<and> lview d1 = lview d \<and>
    (case slot OBJ_TYPE_ZSET (lview d k) of
       None \<Rightarrow> r = wrongtype_reply
     | Some (v0, ex) \<Rightarrow> zset_synced v0 \<longrightarrow>
         (\<exists>its. ranked (zset_view v0) its \<and>
            (case zset_view v0 m of None \<Rightarrow> r = RESP_NIL
             | Some s \<Rightarrow> \<exists>n < length its. its ! n = (s, m) \<and> r = int_reply (int n))))"
  unfolding evalZRANK_def
proof (simp, rule typed_reader [OF assms(1)], goal_cases)
  case 1
  show ?case by (simp add: ranked_def sorted_items_def exI [of _ "[]"])
next
  case (2 a d1)
  then obtain z where z: "Value (objs d1 a) = VZSet z" "zset_ok z" by (auto elim: zset_cases)
  show ?case
  proof (cases "map_of (dict z) m")
    case None
    have "\<exists>its. ranked (zset_view (VZSet z)) its" if "zset_sync z"
      by (rule zset_sequence [OF that]) (auto simp: ranked_def)
    then show ?thesis using z None by auto
  next
    case (Some s)
    obtain r where r: "GetRank (sl z) s m = Some r" using GetRank_total [OF z(2)] by blast
    let ?r = "if r = 0 then RESP_NIL else int_reply (r - 1)"
    have "\<exists>its. ranked (map_of (dict z)) its \<and> (\<exists>n < length its. its ! n = (s, m) \<and> ?r = int_reply (int n))" if "zset_sync z"
    proof (rule zset_sequence [OF that])
      fix its
      assume its: "sorted_items its" "\<And>s m. (s, m) \<in> set its \<longleftrightarrow> map_of (dict z) m = Some s"
        "\<And>s m. m \<noteq> [] \<Longrightarrow> map_of (dict z) m = Some s \<Longrightarrow> \<exists>r < length its. its ! r = (s, m) \<and> GetRank (sl z) s m = Some (int r + 1)"
      obtain n where "n < length its" "its ! n = (s, m)" "r = int n + 1" using its(3) [OF assms(2) Some] r by auto
      moreover have "ranked (map_of (dict z)) its" using its(1,2) by (simp add: ranked_def)
      ultimately show ?thesis by (intro exI [of _ its] conjI exI [of _ n]) simp_all
    qed
    then show ?thesis using z r Some by (intro exI [of _ ?r]) simp
  qed
qed

section \<open>The properties\<close>

text \<open>C39: \<open>ZADD\<close> and \<open>ZREM\<close> update a sorted set as a map from members to scores, as long as no
  score is NaN, neither among the arguments nor in the set, whose list and dictionary are in step:
  \<open>ZADD\<close> writes its pairs in order and replies how many members are new, \<open>ZREM\<close>
  removes its members, replies how many there were and deletes the key with the last; both
  keep the expiry, and skip list and dictionary in step. With a score of NaN they are put out of
  step (\<open>ZADD_NaN_lists_member_twice\<close>).\<close>

theorem ZADD_ZREM_update_scores:
  assumes "db_ok e d" "config_ok (cfg e)" "xs \<noteq> []" "even (length xs)" "ms \<noteq> []"
    "\<forall>(sc, m) \<in> set (pairs xs). \<exists>s. parse_float e sc = Some s \<and> \<not> f_nan s"
    "\<forall>v ex. slot OBJ_TYPE_ZSET (lview d k) = Some (v, ex) \<longrightarrow> zset_synced v"
  shows "(\<exists>d1. case slot OBJ_TYPE_ZSET (lview d k) of
      None \<Rightarrow> evalZADD e (k # xs) d = Inr (wrongtype_reply, d1) \<and> evolves e {k} d d1 \<and> lview d1 = lview d
    | Some (v0, ex) \<Rightarrow>
        evalZADD e (k # xs) d = Inr (int_reply (int (card (dom (scored e xs (zset_view v0)))) - int (card (dom (zset_view v0)))), d1) \<and>
        stores e OBJ_TYPE_ZSET k (\<lambda>w. zset_view w = scored e xs (zset_view v0) \<and> zset_synced w) ex d d1) \<and>
   (\<exists>d1. case slot OBJ_TYPE_ZSET (lview d k) of
      None \<Rightarrow> evalZREM e (k # ms) d = Inr (wrongtype_reply, d1) \<and> evolves e {k} d d1 \<and> lview d1 = lview d
    | Some (v0, ex) \<Rightarrow>
        (let f = zset_view v0 |` (- set ms) in
         evalZREM e (k # ms) d = Inr (int_reply (int (card (dom (zset_view v0))) - int (card (dom f))), d1) \<and>
         leaves e OBJ_TYPE_ZSET k (f = Map.empty) (\<lambda>w. zset_view w = f \<and> zset_synced w) ex d d1))"
  using evalZADD_view [OF assms(1-4,6,7)] evalZREM_view [OF assms(1,5,7)] by (rule conjI)

lemma ZADD_ZREM_update_scores_witness:
  "\<exists>d1. evalZADD (default_env\<lparr>parse_float := (\<lambda>s. Some 0x3FF0000000000000)\<rparr>) [''z'', ''1'', ''a''] (init_db 5 5) = Inr (RESP_ONE, d1)"
proof -
  let ?e = "default_env\<lparr>parse_float := (\<lambda>s. Some 0x3FF0000000000000)\<rparr>"
  have c: "config_ok (cfg ?e)" by (simp add: default_env_def)
  show ?thesis
    using ZADD_ZREM_update_scores [OF init_db_ok [OF c] c, where xs = "[''1'', ''a'']" and ms = "[''a'']" and k = "''z''"]
    by (auto simp: slot_def f_nan_def f_magnitude_def)
qed

text \<open>The sorted-set readers: there is one sequence of the pairs, sorted by score and then by
  member, of which \<open>ZRANGE\<close> lists the members of a slice and \<open>ZRANK\<close> replies the zero-based
  position of a member that is not the empty string; \<open>ZCARD\<close> counts the members and \<open>ZSCORE\<close>
  replies the score. None changes the database, and none loops whatever the scores are.\<close>

theorem zset_readers_observe_scores:
  assumes "db_ok e d" "m \<noteq> []"
  shows "(\<exists>r d1. evalZRANGE e [k, FormatInt i, FormatInt j] d = Inr (r, d1) \<and> lview d1 = lview d \<and>
    (case slot OBJ_TYPE_ZSET (lview d k) of
       None \<Rightarrow> r = wrongtype_reply
     | Some (v0, ex) \<Rightarrow> zset_synced v0 \<longrightarrow>
         (\<exists>its. ranked (zset_view v0) its \<and> r = array_reply (redis_range (map snd its) (sint i) (sint j))))) \<and>
   (\<exists>r d1. evalZRANK e [k, m] d = Inr (r, d1) \<and> lview d1 = lview d \<and>
    (case slot OBJ_TYPE_ZSET (lview d k) of
       None \<Rightarrow> r = wrongtype_reply
     | Some (v0, ex) \<Rightarrow> zset_synced v0 \<longrightarrow>
         (\<exists>its. ranked (zset_view v0) its \<and>
            (case zset_view v0 m of None \<Rightarrow> r = RESP_NIL
             | Some s \<Rightarrow> \<exists>n < length its. its ! n = (s, m) \<and> r = int_reply (int n))))) \<and>
   (\<exists>r d1. evalZCARD e [k] d = Inr (r, d1) \<and> lview d1 = lview d \<and>
    (case slot OBJ_TYPE_ZSET (lview d k) of
       None \<Rightarrow> r = wrongtype_reply | Some (v0, ex) \<Rightarrow> r = int_reply (int (card (dom (zset_view v0)))))) \<and>
   (\<exists>r d1. evalZSCORE e [k, m] d = Inr (r, d1) \<and> lview d1 = lview d \<and>
    (case slot OBJ_TYPE_ZSET (lview d k) of
       None \<Rightarrow> r = wrongtype_reply
     | Some (v0, ex) \<Rightarrow> r = (case zset_view v0 m of None \<Rightarrow> RESP_NIL | Some s \<Rightarrow> bulk (format_float e s))))"
  by (intro conjI drop_evolves [OF evalZRANGE_view [OF assms(1)]] drop_evolves [OF evalZRANK_view [OF assms]]
      drop_evolves [OF evalZCARD_view [OF assms(1)]] drop_evolves [OF evalZSCORE_view [OF assms(1)]])

lemma zset_readers_observe_scores_witness:
  "\<exists>d1. evalZCARD default_env [''z''] (init_db 5 5) = Inr (RESP_ZERO, d1)"
  using zset_readers_observe_scores [OF init_db_ok [OF default_env_ok, of 5 5], where k = "''z''" and m = "''a''" and i = 0 and j = 0]
  by (auto simp: slot_def)

text \<open>\<open>ZADD\<close> is not atomic: when a score is no number it replies an error, but the pairs before
  it stay written, and a key that did not exist is left behind, an empty sorted set if the
  first score is bad.\<close>

theorem ZADD_keeps_partial_effect:
  assumes "db_ok e d" "config_ok (cfg e)" "parse_float e sc = None" "lview d k = None"
  shows "\<exists>d1. evalZADD e [k, sc, m] d = Inr (error_reply ''ERR value is not a valid float'', d1) \<and>
    lview d1 k = Some (or OBJ_TYPE_ZSET OBJ_ENCODING_SKIPLIST, VZSet newZSet, None)"
  using assms(1,2)
proof (cases rule: zsetGetOrCreate_cases [where k = k])
  case (wrong d1)
  then show ?thesis using assms(4) by (simp add: slot_def)
next
  case (obj a d1 v0)
  then have v: "Value (objs d1 a) = VZSet newZSet" "map_of (expires d1) a = None"
    using assms(4) by (auto simp: slot_def)
  then have te: "TypeEncoding (objs d1 a) = or OBJ_TYPE_ZSET OBJ_ENCODING_SKIPLIST" using obj(7) by simp
  have "evalZADD e [k, sc, m] d = Inr (error_reply ''ERR value is not a valid float'', set_val a (VZSet newZSet) d1)"
    using obj(1) v(1) assms(3) by (simp add: evalZADD_def)
  moreover have "lview (set_val a (VZSet newZSet) d1) k = Some (or OBJ_TYPE_ZSET OBJ_ENCODING_SKIPLIST, VZSet newZSet, None)"
    using lview_update [OF evolves_inv [OF obj(2)] obj(3)] te v(2) by (simp add: set_val_def)
  ultimately show ?thesis by blast
qed

lemma ZADD_keeps_partial_effect_witness:
  "\<exists>d1. evalZADD default_env [''z'', ''x'', ''a''] (init_db 5 5) = Inr (error_reply ''ERR value is not a valid float'', d1)"
proof -
  have "parse_float default_env ''x'' = None" by (simp add: default_env_def)
  from ZADD_keeps_partial_effect [OF init_db_ok [OF default_env_ok, of 5 5] default_env_ok this, where k = "''z''" and m = "''a''"]
  show ?thesis by auto
qed

definition nan_env :: env where
  "nan_env = default_env\<lparr>parse_float := (\<lambda>s. Some (if s = ''nan'' then quiet_nan else 0x3FF0000000000000)), rand_draws := (\<lambda>_. [0xFFFF])\<rparr>"

lemma nan_draws: "parse_float nan_env s = Some (if s = ''nan'' then quiet_nan else 0x3FF0000000000000)" "rand_draws nan_env n = [0xFFFF]"
  by (simp_all add: nan_env_def)

text \<open>A score of NaN breaks a sorted set: after \<open>ZADD z nan a 1 a\<close> the set has one member, and \<open>ZRANGE\<close> lists
  it twice.\<close>

theorem ZADD_NaN_lists_member_twice:
  "\<exists>d1 d2 d3. evalZADD nan_env [''z'', ''nan'', ''a'', ''1'', ''a''] (init_db 0 0) = Inr (RESP_ONE, d1) \<and>
     evalZCARD nan_env [''z''] d1 = Inr (RESP_ONE, d2) \<and> evalZRANGE nan_env [''z'', ''0'', ''-1''] d1 = Inr (array_reply [''a'', ''a''], d3)"
proof -
  obtain z1 z2 where z: "zset_add [0xFFFF] newZSet quiet_nan ''a'' = Some (z1, True)"
    "zset_add [0xFFFF] z1 0x3FF0000000000000 ''a'' = Some (z2, False)" "dict z2 = [(''a'', 0x3FF0000000000000)]"
    "SkipList_Range (sl z2) 0 (- 1) = Some [''a'', ''a'']" by (rule NaN_score_duplicates_member)
  define d0 where "d0 = snd (zsetGetOrCreate nan_env ''z'' (init_db 0 0))"
  have g: "zsetGetOrCreate nan_env ''z'' (init_db 0 0) = (Some 0, d0)" "Value (objs d0 0) = VZSet newZSet" "TypeEncoding (objs d0 0) = OBJ_TYPE_ZSET OR OBJ_ENCODING_SKIPLIST"
    "map_of (store d0) ''z'' = Some 0" "expires d0 = []" "GlobalCachedTime d0 = 0"
    by (simp_all add: d0_def zsetGetOrCreate_def type_get_or_create_def Get_def create_def NewObj_def Put_def nan_env_def
      init_db_def default_env_def default_config_def pool_choice_def StoreLen_def ticked_def touch_def bump_keys_def Let_def)
  let ?d = "set_val 0 (VZSet z2) (ticked (ticked d0))"
  have "evalZADD nan_env [''z'', ''nan'', ''a'', ''1'', ''a''] (init_db 0 0) = Inr (RESP_ONE, ?d)"
    by (simp add: evalZADD_def g nan_draws z)
  moreover have "evalZCARD nan_env [''z''] ?d = Inr (RESP_ONE, touch 0 ?d)"
    using g by (simp add: evalZCARD_def typed_lookup_def Get_def hasExpired_def set_val_def set_value_def touch_def ticked_def assertType_def z)
  moreover have "evalZRANGE nan_env [''z'', ''0'', ''-1''] ?d = Inr (array_reply [''a'', ''a''], touch 0 ?d)"
    using g by (simp add: evalZRANGE_def typed_lookup_def Get_def hasExpired_def set_val_def set_value_def touch_def ticked_def assertType_def z
      Atoi_def ParseInt_def parse_signed_def ParseUint_def digit_of_def)
  ultimately show ?thesis by blast
qed

end
