(* ===== verification/Aof.thy ===== *)
theory Aof
  imports HashSpec EvalSet EvalZSet
begin

text \<open>
  \<open>core/aof.go\<close>, with \<open>InitStore\<close> and \<open>Shutdown\<close> of \<open>core/events.go\<close>: the dump of the
  database as a file of commands, and the replay of that file at start-up.

  The file system is the record \<open>disk\<close>. The code only writes its field \<open>aof_file\<close>, the
  content of \<open>config.AOFFile\<close>; the others say how the system calls turn out, and only the
  environment changes them. A dump ends in one flush of the buffered writer, whose error the
  code ignores: what reaches the file is cut at \<open>write_room\<close>. \<open>Read\<close> of the standard library
  transfers at most \<open>max_rw\<close> bytes in one call, and the code makes one call.
\<close>

section \<open>The file\<close>

record disk =
  aof_file :: "string option"
  may_create :: bool
  may_read :: bool
  write_room :: "nat option"
  verb_s :: "gvalue \<Rightarrow> string" \<comment> \<open>\<open>%s\<close> of \<open>fmt.Sprintf\<close> on a value that is not a string\<close>

definition max_rw :: nat where
  \<comment> \<open>\<open>maxRW\<close> of \<open>internal/poll\<close>\<close>
  "max_rw = 2 ^ 30"

section \<open>Dump\<close>

fun split_on :: "char \<Rightarrow> string \<Rightarrow> string list" where
  \<comment> \<open>\<open>strings.Split\<close> at one character\<close>
  "split_on c [] = [[]]"
| "split_on c (x # xs) =
     (if x = c then [] # split_on c xs
      else case split_on c xs of [] \<Rightarrow> [[x]] | w # ws \<Rightarrow> (x # w) # ws)"

definition print_s :: "disk \<Rightarrow> gvalue \<Rightarrow> string" where
  "print_s k v = (case v of VStr s \<Rightarrow> s | _ \<Rightarrow> verb_s k v)"

definition command_of :: "string \<Rightarrow> string \<Rightarrow> string list \<Rightarrow> string list" where
  \<comment> \<open>\<open>append([]string{name, key}, args...)\<close>, when there are any\<close>
  "command_of name ky args = (if args = [] then [] else name # ky # args)"

definition dump_tokens :: "env \<Rightarrow> disk \<Rightarrow> string \<Rightarrow> Obj \<Rightarrow> db \<Rightarrow> (string list \<times> db) outcome" where
  \<comment> \<open>the arguments of the command that \<open>dumpKey\<close> writes, empty when it writes none\<close>
  "dump_tokens e dk ky obj d =
     (let t = getType (TypeEncoding obj) in
      if t = OBJ_TYPE_STRING then
        Inr (split_on CHR '' '' (''SET '' @ ky @ '' '' @ print_s dk (Value obj)), d)
      else if t = OBJ_TYPE_HASH then
        obind (hash_switch obj
          (\<lambda>z. Inr (HashGetAll z, d))
          (\<lambda>m. Inr (map_pairs m (iterate e d (map fst m)), ticked d)) ([], d)) (\<lambda>(fields, d).
        Inr (command_of ''HSET'' ky fields, d))
      else if t = OBJ_TYPE_LIST then
        obind (as_quick (Value obj)) (\<lambda>q.
        obind (of_walk (AllElements q)) (\<lambda>elems. Inr (command_of ''RPUSH'' ky elems, d)))
      else if t = OBJ_TYPE_SET then
        obind (set_switch obj
          (\<lambda>is. Inr (map FormatInt (IntSet_Members is), d))
          (\<lambda>ht. Inr (iterate e d (map fst ht), ticked d)) ([], d)) (\<lambda>(members, d).
        Inr (command_of ''SADD'' ky members, d))
      else Inr ([], d))"

definition dumpKey :: "env \<Rightarrow> disk \<Rightarrow> string \<Rightarrow> Obj \<Rightarrow> db \<Rightarrow> (string \<times> db) outcome" where
  "dumpKey e dk ky obj d =
     obind (dump_tokens e dk ky obj d) (\<lambda>(tokens, d).
       Inr (if tokens = [] then [] else Encode (GoStrings tokens) False, d))"

fun dump_loop :: "env \<Rightarrow> disk \<Rightarrow> string list \<Rightarrow> db \<Rightarrow> (string \<times> db) outcome" where
  "dump_loop e dk [] d = Inr ([], d)"
| "dump_loop e dk (ky # ks) d =
     (case map_of (store d) ky of
        None \<Rightarrow> dump_loop e dk ks d
      | Some a \<Rightarrow>
          obind (dumpKey e dk ky (objs d a) d) (\<lambda>(b, d).
          obind (dump_loop e dk ks d) (\<lambda>(bs, d). Inr (b @ bs, d))))"

definition flushed :: "disk \<Rightarrow> string \<Rightarrow> string" where
  "flushed dk out = (case write_room dk of None \<Rightarrow> out | Some n \<Rightarrow> take n out)"

definition DumpAllAOF :: "env \<Rightarrow> db \<Rightarrow> disk \<Rightarrow> (db \<times> disk) outcome" where
  "DumpAllAOF e d dk =
     (if \<not> may_create dk then Inr (d, dk)
      else obind (dump_loop e dk (iterate e d (store_keys d)) (ticked d)) (\<lambda>(out, d).
        Inr (d, dk\<lparr>aof_file := Some (flushed dk out)\<rparr>)))"

definition evalBGREWRITEAOF :: "env \<Rightarrow> string list \<Rightarrow> db \<Rightarrow> disk \<Rightarrow> (string \<times> db \<times> disk) outcome" where
  "evalBGREWRITEAOF e args d dk = obind (DumpAllAOF e d dk) (\<lambda>(d, dk). Inr (RESP_OK, d, dk))"

definition Shutdown :: "env \<Rightarrow> db \<Rightarrow> disk \<Rightarrow> (db \<times> disk) outcome" where
  "Shutdown e d dk = obind (evalBGREWRITEAOF e [] d dk) (\<lambda>(_, d, dk). Inr (d, dk))"

section \<open>Replay\<close>

definition replay_command :: "env \<Rightarrow> parsed \<Rightarrow> db \<Rightarrow> db outcome" where
  \<comment> \<open>the pool of commands is empty at start-up: a name that was not parsed is the empty one\<close>
  "replay_command e c d =
     (let cmd = ToUpper (upper_uni e) (case fst c of None \<Rightarrow> [] | Some s \<Rightarrow> s); args = snd c;
          exec = (\<lambda>f. if 2 \<le> length args then obind (f e args d) (\<lambda>(_, d). Inr d) else Inr d) in
      if cmd = ''SET'' then exec evalSET
      else if cmd = ''HSET'' then exec evalHSET
      else if cmd = ''RPUSH'' then exec evalRPUSH
      else if cmd = ''SADD'' then exec evalSADD
      else Inr d)"

fun replay_loop :: "env \<Rightarrow> parsed list \<Rightarrow> db \<Rightarrow> db outcome" where
  "replay_loop e [] d = Inr d"
| "replay_loop e (c # cs) d = obind (replay_command e c d) (replay_loop e cs)"

definition ReplayAOF :: "env \<Rightarrow> disk \<Rightarrow> db \<Rightarrow> db outcome" where
  "ReplayAOF e dk d =
     (case (if may_read dk then aof_file dk else None) of
        None \<Rightarrow> Inr d
      | Some s \<Rightarrow>
          if length s = 0 then Inr d
          else
            let n = min (length s) max_rw; buf = take n s @ replicate (length s - n) (CHR 0x00) in
            obind (DecodeCommands (upper_uni e) (buf, n)) (\<lambda>(cmds, err).
              if err \<noteq> None then Inr d else replay_loop e cmds d))"

definition InitStore :: "env \<Rightarrow> disk \<Rightarrow> db \<Rightarrow> db outcome" where
  "InitStore e dk d = ReplayAOF e dk d"

section \<open>What a key is dumped as\<close>

definition dumped :: "disk \<Rightarrow> string \<Rightarrow> uint8 \<Rightarrow> gvalue \<Rightarrow> string list \<Rightarrow> bool" where
  \<comment> \<open>\<open>ts\<close> is a command that writes the content of the value, in some order\<close>
  "dumped dk ky te v ts \<longleftrightarrow>
     (let t = getType te in
      if t = OBJ_TYPE_STRING then ts = split_on CHR '' '' (''SET '' @ ky @ '' '' @ print_s dk v)
      else if t = OBJ_TYPE_HASH then
        \<exists>ps. enumerates ps (hash_view v) \<and> ts = command_of ''HSET'' ky (concat (map (\<lambda>(f, x). [f, x]) ps))
      else if t = OBJ_TYPE_LIST then ts = command_of ''RPUSH'' ky (list_view v)
      else if t = OBJ_TYPE_SET then \<exists>ms. listing ms (set_view v) \<and> ts = command_of ''SADD'' ky ms
      else ts = [])"

lemma dump_tokens_spec:
  assumes "wf_value (TypeEncoding obj) (Value obj)"
  shows "\<exists>ts n. dump_tokens e dk ky obj d = Inr (ts, d\<lparr>tick := n\<rparr>) \<and> dumped dk ky (TypeEncoding obj) (Value obj) ts"
proof -
  let ?t = "getType (TypeEncoding obj)"
  have same: "d = d\<lparr>tick := tick d\<rparr>" and tk: "ticked d = d\<lparr>tick := tick d + 1\<rparr>" by (simp_all add: ticked_def)
  consider "?t = OBJ_TYPE_STRING" | (hash) "?t = OBJ_TYPE_HASH" | (list) "?t = OBJ_TYPE_LIST" | (set) "?t = OBJ_TYPE_SET"
    | "?t \<notin> {OBJ_TYPE_STRING, OBJ_TYPE_HASH, OBJ_TYPE_LIST, OBJ_TYPE_SET}" by auto
  then show ?thesis
  proof cases
    case hash
    from assms hash show ?thesis
    proof (cases rule: hash_cases)
      case (zip z)
      show ?thesis
        using hash zip enumerates_pairs [OF zip(3)] flat_pairs [of "entries z"] same
        by (intro exI [of _ "command_of ''HSET'' ky (entries z)"] exI [of _ "tick d"])
          (auto simp: dump_tokens_def dumped_def Let_def HashGetAll_def zl_hash_inv_def
            intro!: exI [of _ "pairs (entries z)"])
    next
      case (ht m)
      let ?ps = "map (\<lambda>k. (k, fst (ht_get m k))) (iterate e d (map fst m))"
      have "map_pairs m (iterate e d (map fst m)) = concat (map (\<lambda>(f, x). [f, x]) ?ps)"
        by (simp add: map_pairs_def comp_def)
      then show ?thesis
        using hash ht enumerates_iterate [OF ht(3), of e d]
        by (intro exI [of _ "command_of ''HSET'' ky (map_pairs m (iterate e d (map fst m)))"] exI [of _ "tick d + 1"])
          (auto simp: dump_tokens_def dumped_def Let_def tk intro!: exI [of _ ?ps])
    qed
  next
    case list
    from wf_list [OF assms list] obtain q where "Value obj = VQuick q" "ql_inv q" by auto
    then show ?thesis using list same
      by (intro exI [of _ "command_of ''RPUSH'' ky (ql_list q)"] exI [of _ "tick d"])
        (simp add: dump_tokens_def dumped_def Let_def AllElements_total)
  next
    case set
    from assms set show ?thesis
    proof (cases rule: set_cases)
      case (ints s)
      then show ?thesis using set same listing_members [OF ints(3)]
        by (intro exI [of _ "command_of ''SADD'' ky (map FormatInt (IntSet_Members s))"] exI [of _ "tick d"])
          (auto simp: dump_tokens_def dumped_def Let_def)
    next
      case (ht m)
      then show ?thesis using set listing_iterate [OF ht(3), of e d]
        by (intro exI [of _ "command_of ''SADD'' ky (iterate e d (map fst m))"] exI [of _ "tick d + 1"])
          (auto simp: dump_tokens_def dumped_def Let_def tk)
    qed
  qed (auto simp: dump_tokens_def dumped_def Let_def intro!: exI [of _ "tick d"])
qed

definition written :: "string list list \<Rightarrow> string" where
  "written tss = concat (map encode_command (filter (\<lambda>ts. ts \<noteq> []) tss))"

lemma written_simps [simp]:
  "written [] = []" "written (ts # tss) = (if ts = [] then [] else encode_command ts) @ written tss"
  by (simp_all add: written_def)

definition dumps_key :: "disk \<Rightarrow> db \<Rightarrow> string \<Rightarrow> string list \<Rightarrow> bool" where
  "dumps_key dk d ky ts \<longleftrightarrow>
     (\<exists>a. map_of (store d) ky = Some a \<and> dumped dk ky (TypeEncoding (objs d a)) (Value (objs d a)) ts)"

lemma dumps_key_tick [simp]: "dumps_key dk (d\<lparr>tick := n\<rparr>) = dumps_key dk d"
  by (simp add: dumps_key_def fun_eq_iff)

lemma db_inv_tick [simp]: "db_inv (d\<lparr>tick := n\<rparr>) = db_inv d"
  by (simp add: db_inv_def one_key_def stored_def expiring_def)

lemma dump_loop_spec:
  assumes "db_inv d" "set ks \<subseteq> dom (map_of (store d))"
  shows "\<exists>tss n. dump_loop e dk ks d = Inr (written tss, d\<lparr>tick := n\<rparr>) \<and> list_all2 (dumps_key dk d) ks tss"
  using assms
proof (induction ks arbitrary: d)
  case Nil
  then show ?case by (intro exI [of _ "[]"] exI [of _ "tick d"]) simp
next
  case (Cons k ks)
  then obtain a where a: "map_of (store d) k = Some a" by auto
  then have "wf_value (TypeEncoding (objs d a)) (Value (objs d a))"
    using Cons(2) map_of_stored by (simp add: db_inv_def wf_obj_def)
  from dump_tokens_spec [OF this, of e dk k d] obtain ts n where
    ts: "dump_tokens e dk k (objs d a) d = Inr (ts, d\<lparr>tick := n\<rparr>)" "dumped dk k (TypeEncoding (objs d a)) (Value (objs d a)) ts"
    by blast
  have "db_inv (d\<lparr>tick := n\<rparr>)" "set ks \<subseteq> dom (map_of (store (d\<lparr>tick := n\<rparr>)))" using Cons(2,3) by simp_all
  from Cons(1) [OF this] obtain tss n' where
    tss: "dump_loop e dk ks (d\<lparr>tick := n\<rparr>) = Inr (written tss, d\<lparr>tick := n'\<rparr>)" "list_all2 (dumps_key dk d) ks tss" by auto
  have "dumps_key dk d k ts" using a ts(2) by (simp add: dumps_key_def)
  then show ?case using a ts(1) tss
    by (intro exI [of _ "ts # tss"] exI [of _ n']) (simp add: dumpKey_def encode_command_def)
qed

lemma DumpAllAOF_spec:
  assumes "db_inv d" "may_create dk"
  shows "\<exists>ks tss n. mset ks = mset (store_keys d) \<and> list_all2 (dumps_key dk d) ks tss \<and>
    DumpAllAOF e d dk = Inr (d\<lparr>tick := n\<rparr>, dk\<lparr>aof_file := Some (flushed dk (written tss))\<rparr>)"
proof -
  have "set (iterate e d (store_keys d)) \<subseteq> dom (map_of (store (ticked d)))"
    by (auto simp: store_keys_iff ticked_def)
  from dump_loop_spec [OF _ this, of e dk] assms obtain tss n where
    "dump_loop e dk (iterate e d (store_keys d)) (ticked d) = Inr (written tss, d\<lparr>tick := n\<rparr>)"
    "list_all2 (dumps_key dk d) (iterate e d (store_keys d)) tss" by (auto simp: ticked_def)
  then show ?thesis using assms(2)
    by (intro exI [of _ "iterate e d (store_keys d)"] exI [of _ tss] exI [of _ n]) (simp add: DumpAllAOF_def)
qed

lemma DumpAllAOF_total:
  assumes "db_inv d"
  shows "\<exists>n dk'. DumpAllAOF e d dk = Inr (d\<lparr>tick := n\<rparr>, dk')"
proof (cases "may_create dk")
  case True
  then show ?thesis using DumpAllAOF_spec [OF assms True, of e] by blast
next
  case False
  then show ?thesis by (intro exI [of _ "tick d"]) (simp add: DumpAllAOF_def)
qed

end
