(* ===== verification/AofSpec.thy ===== *)
theory AofSpec
  imports Aof
begin

text \<open>
  What the dump of \<open>core/aof.go\<close> is worth: replaying it restores every key but the sorted sets,
  as long as no string and no key of a string contains a space and no set member is a number
  in a spelling of its own. Each replayed command creates one key; since a dump is not larger
  than the database was, none of them evicts.
\<close>

section \<open>A command that creates one key\<close>

definition same_index :: "db \<Rightarrow> db \<Rightarrow> bool" where
  "same_index d d' \<longleftrightarrow> store d' = store d \<and> expires d' = expires d"

definition adds :: "string \<Rightarrow> db \<Rightarrow> db \<Rightarrow> bool" where
  "adds k d d' \<longleftrightarrow> (\<exists>a. store d' = AList.update k a (store d) \<and> expires d' = expires d)"

lemma adds_same_index: "adds k d d1 \<Longrightarrow> same_index d1 d2 \<Longrightarrow> adds k d d2"
  by (auto simp: adds_def same_index_def)

lemma same_index_refl [simp]: "same_index d d"
  by (simp add: same_index_def)

lemma same_index_trans: "same_index d d1 \<Longrightarrow> same_index d1 d2 \<Longrightarrow> same_index d d2"
  by (simp add: same_index_def)

lemma same_index_set_value [simp]: "same_index d (set_value a te v d)" "same_index d (set_val a v d)"
  by (simp_all add: same_index_def set_val_def set_value_def)

lemma NewObj_index: "same_index d (snd (NewObj e v (- 1) ty enc d))"
  by (simp add: NewObj_def same_index_def ticked_def Let_def split: option.splits)

lemma create_adds:
  assumes "StoreLen d < KeysLimit (cfg e)" "create e ty enc v k d = (a, d1)"
  shows "adds k d d1"
  using assms NewObj_index [of d e v ty enc]
  by (auto simp: create_def same_index_def adds_def Put_make_room make_room_def StoreLen_def touch_def bump_keys_def
      split: prod.splits)

lemma Get_absent: "map_of (store d) k = None \<Longrightarrow> Get k d = (None, d)"
  by (simp add: Get_def)

lemma get_or_create_adds:
  assumes "map_of (store d) k = None" "StoreLen d < KeysLimit (cfg e)" "type_get_or_create e ty enc v k d = (r, d1)"
  shows "r \<noteq> None \<and> adds k d d1"
  using assms create_adds [OF assms(2), of ty enc v k]
  by (auto simp: type_get_or_create_def Get_absent split: prod.splits)

section \<open>The four commands of a dump\<close>

lemma hashPromote_index: "hashPromoteToHashtable a d = Inr d' \<Longrightarrow> same_index d d'"
  by (auto simp: hashPromoteToHashtable_def obind_eq_Inr)

lemma hashCheckPromote_index: "hashCheckPromote e a d = Inr d' \<Longrightarrow> same_index d d'"
  unfolding hashCheckPromote_def by (auto simp: obind_eq_Inr dest: hashPromote_index split: if_splits)

lemma setPromote_index: "setPromoteToHashtable a d = Inr d' \<Longrightarrow> same_index d d'"
  by (auto simp: setPromoteToHashtable_def obind_eq_Inr)

lemma ht_add_index: "ht_add a x d = Inr (b, d') \<Longrightarrow> same_index d d'"
  by (auto simp: ht_add_def obind_eq_Inr split: if_splits)

lemma setAdd_index:
  assumes "setAdd e a x d = Inr (b, d')"
  shows "same_index d d'"
proof (cases "getEncoding (TypeEncoding (objs d a)) = OBJ_ENCODING_INTSET")
  case False
  then show ?thesis using assms ht_add_index by (simp add: setAdd_def)
next
  case True
  obtain v err where p: "ParseInt x = (v, err)" by force
  obtain s where s: "as_intset (Value (objs d a)) = Inr s" using assms True by (auto simp: setAdd_def obind_eq_Inr)
  obtain s' n where a: "IntSet_Add s v = (s', n)" by force
  show ?thesis
  proof (cases err)
    case None
    then have "obind (if SetMaxIntsetEntries (cfg e) < int (IntSet_Len s') then setPromoteToHashtable a (set_val a (VIntSet s') d)
        else Inr (set_val a (VIntSet s') d)) (\<lambda>d. Inr (n, d)) = Inr (b, d')"
      using assms True p s a by (simp add: setAdd_def Let_def)
    then have "same_index (set_val a (VIntSet s') d) d'" by (auto simp: obind_eq_Inr dest: setPromote_index split: if_splits)
    then show ?thesis by (rule same_index_trans [OF same_index_set_value(2)])
  next
    case (Some m)
    then have "obind (setPromoteToHashtable a d) (ht_add a x) = Inr (b, d')" using assms True p s by (simp add: setAdd_def)
    then show ?thesis by (auto simp: obind_eq_Inr intro: same_index_trans [OF setPromote_index ht_add_index])
  qed
qed

lemma sadd_loop_index: "sadd_loop e a xs n d = Inr (m, d') \<Longrightarrow> same_index d d'"
proof (induction xs arbitrary: n d)
  case (Cons x xs)
  then obtain b d1 where "setAdd e a x d = Inr (b, d1)" "sadd_loop e a xs (if b then n + 1 else n) d1 = Inr (m, d')"
    by (auto simp: obind_eq_Inr)
  then show ?case by (blast intro: same_index_trans [OF setAdd_index] Cons(1))
qed simp

lemma evalHSET_adds:
  assumes "map_of (store d) k = None" "StoreLen d < KeysLimit (cfg e)" "fvs \<noteq> []" "even (length fvs)"
    "evalHSET e (k # fvs) d = Inr (r, d2)"
  shows "adds k d d2"
proof -
  have len: "\<not> (length (k # fvs) < 3 \<or> even (length (k # fvs)))"
    using assms(3,4) by (cases fvs; cases "tl fvs") auto
  obtain o1 d1 where g: "hashGetOrCreate e k d = (o1, d1)" by force
  from get_or_create_adds [OF assms(1,2)] g have a: "o1 \<noteq> None" "adds k d d1"
    by (auto simp: hashGetOrCreate_def)
  have "same_index d1 d2"
    using assms(5) a(1) g unfolding evalHSET_def if_not_P [OF len]
    by (auto simp: obind_eq_Inr intro: same_index_trans [OF same_index_set_value(2) hashCheckPromote_index])
  with a(2) show ?thesis by (rule adds_same_index)
qed

lemma evalRPUSH_adds:
  assumes "map_of (store d) k = None" "StoreLen d < KeysLimit (cfg e)" "vs \<noteq> []" "evalRPUSH e (k # vs) d = Inr (r, d2)"
  shows "adds k d d2"
proof -
  have len: "\<not> length (k # vs) < 2" using assms(3) by (cases vs) auto
  obtain o1 d1 where g: "listGetOrCreate e k d = (o1, d1)" by force
  from get_or_create_adds [OF assms(1,2)] g have a: "o1 \<noteq> None" "adds k d d1"
    by (auto simp: listGetOrCreate_def)
  have "same_index d1 d2"
    using assms(4) a(1) g unfolding evalRPUSH_def if_not_P [OF len] by (auto simp: obind_eq_Inr Let_def)
  with a(2) show ?thesis by (rule adds_same_index)
qed

lemma evalSADD_adds:
  assumes "map_of (store d) k = None" "StoreLen d < KeysLimit (cfg e)" "xs \<noteq> []" "evalSADD e (k # xs) d = Inr (r, d2)"
  shows "adds k d d2"
proof -
  have len: "\<not> length (k # xs) < 2" using assms(3) by (cases xs) auto
  obtain o1 d1 where g: "setGetOrCreate e k (xs ! 0) d = (o1, d1)" by force
  from get_or_create_adds [OF assms(1,2)] g have a: "o1 \<noteq> None" "adds k d d1"
    by (auto simp: setGetOrCreate_def split: if_splits)
  have "same_index d1 d2"
    using assms(4) a(1) g unfolding evalSADD_def if_not_P [OF len] by (auto simp: obind_eq_Inr dest!: sadd_loop_index)
  with a(2) show ?thesis by (rule adds_same_index)
qed

lemma store_string_adds:
  assumes "StoreLen d < KeysLimit (cfg e)"
  shows "adds k d (store_string e k v (- 1) d)"
proof -
  have "store_string e k v (- 1) d =
      snd (create e (fst (deduceTypeEncoding v)) (snd (deduceTypeEncoding v)) (VStr v) k d)"
    by (simp add: store_string_def create_def case_prod_beta Let_def)
  then show ?thesis using create_adds [OF assms surjective_pairing] by simp
qed

section \<open>One key restored\<close>

definition restores :: "Obj option \<Rightarrow> lentry option \<Rightarrow> bool" where
  \<comment> \<open>what is visible after the replay of a dump, of an object that was stored\<close>
  "restores ob en \<longleftrightarrow>
     (case ob of
        None \<Rightarrow> en = None
      | Some obj \<Rightarrow>
          let t = getType (TypeEncoding obj); v = Value obj; is_key = (\<lambda>P. \<exists>te w. en = Some (te, w, None) \<and> getType te = t \<and> P w) in
          if t = OBJ_TYPE_STRING then is_key (\<lambda>w. w = v)
          else if t = OBJ_TYPE_HASH then (if hash_view v = Map.empty then en = None else is_key (\<lambda>w. hash_view w = hash_view v))
          else if t = OBJ_TYPE_LIST then (if list_view v = [] then en = None else is_key (\<lambda>w. list_view w = list_view v))
          else if t = OBJ_TYPE_SET then (if set_view v = {} then en = None else is_key (\<lambda>w. set_view w = set_view v))
          else en = None)"

definition dump_safe :: "string \<Rightarrow> Obj \<Rightarrow> bool" where
  "dump_safe k obj \<longleftrightarrow>
     (\<forall>s. Value obj = VStr s \<longrightarrow> CHR '' '' \<notin> set k \<and> CHR '' '' \<notin> set s) \<and> (\<forall>x \<in> set_view (Value obj). canon x = x)"

lemma split_on_sep: "c \<notin> set w \<Longrightarrow> split_on c (w @ c # r) = w # split_on c r"
  by (induction w) auto

lemma split_on_none: "c \<notin> set w \<Longrightarrow> split_on c w = [w]"
  by (induction w) auto

lemma pairs_flat: "pairs (concat (map (\<lambda>(f, x). [f, x]) ps)) = ps" "even (length (concat (map (\<lambda>(f, x). [f, x]) ps)))"
  by (induction ps) auto

lemma flat_nonempty: "ps \<noteq> [] \<Longrightarrow> concat (map (\<lambda>(f, x). [f, x]) ps) \<noteq> []"
  by (cases ps) auto

lemma map_of_rev_distinct: "distinct (map fst ps) \<Longrightarrow> map_of (rev ps) = map_of ps"
  by (intro map_of_inject_set [THEN iffD2]) (auto simp: rev_map [symmetric] simp del: set_map)

lemma ToUpper_dump [simp]:
  "ToUpper uni ''SET'' = ''SET''" "ToUpper uni ''HSET'' = ''HSET''"
  "ToUpper uni ''RPUSH'' = ''RPUSH''" "ToUpper uni ''SADD'' = ''SADD''"
  by (simp_all add: ToUpper_def is_ascii_def upper_byte_def char_of_def bit_Suc_0_iff Let_def)

lemma replay_simps [simp]:
  "replay_command e (parsed_of uni [''SET'', k, s]) d = obind (evalSET e [k, s] d) (\<lambda>(_, d). Inr d)"
  "xs \<noteq> [] \<Longrightarrow> replay_command e (parsed_of uni (''HSET'' # k # xs)) d = obind (evalHSET e (k # xs) d) (\<lambda>(_, d). Inr d)"
  "xs \<noteq> [] \<Longrightarrow> replay_command e (parsed_of uni (''RPUSH'' # k # xs)) d = obind (evalRPUSH e (k # xs) d) (\<lambda>(_, d). Inr d)"
  "xs \<noteq> [] \<Longrightarrow> replay_command e (parsed_of uni (''SADD'' # k # xs)) d = obind (evalSADD e (k # xs) d) (\<lambda>(_, d). Inr d)"
  by (cases xs; simp add: replay_command_def parsed_of_def Let_def)+

definition fresh_key :: "env \<Rightarrow> db \<Rightarrow> string \<Rightarrow> bool" where
  "fresh_key e d k \<longleftrightarrow> db_ok e d \<and> expires d = [] \<and> map_of (store d) k = None \<and> StoreLen d < KeysLimit (cfg e)"

lemma fresh_keyD: "fresh_key e d k \<Longrightarrow> db_ok e d \<and> map_of (store d) k = None \<and> StoreLen d < KeysLimit (cfg e) \<and> lview d k = None"
  by (simp add: fresh_key_def lview_def)

definition added :: "env \<Rightarrow> string \<Rightarrow> db \<Rightarrow> db \<Rightarrow> bool" where
  "added e k d d' \<longleftrightarrow> db_ok e d' \<and> expires d' = [] \<and> StoreLen d' = StoreLen d + 1 \<and>
     (\<forall>k'. k' \<noteq> k \<longrightarrow> lview d' k' = lview d k' \<and> (map_of (store d') k' = None \<longleftrightarrow> map_of (store d) k' = None))"

lemma added_evolves:
  assumes "fresh_key e d k" "evolves e {k} d d'" "adds k d d'"
  shows "added e k d d'"
proof -
  from assms(3) obtain a where a: "store d' = AList.update k a (store d)" "expires d' = expires d" by (auto simp: adds_def)
  have x: "expires d = []" "map_of (store d) k = None" using assms(1) by (simp_all add: fresh_key_def)
  have v: "lview d' k' = lview d k'" if "k' \<noteq> k" for k'
  proof -
    have "lview d' k' = lview d k' \<or> lview d' k' = None" using assms(2) that by (simp add: evolves_def)
    moreover have "lview d' k' = None \<longleftrightarrow> lview d k' = None"
      using a x that by (simp add: lview_def hasExpired_def update_conv' split: option.splits)
    ultimately show ?thesis by auto
  qed
  then show ?thesis
    using a x evolves_ok [OF assms(2)] by (simp add: added_def StoreLen_def length_update_gomap update_conv')
qed

lemma replay_step:
  assumes f: "fresh_key e d k" and c: "config_ok (cfg e)" and wf: "wf_value (TypeEncoding obj) (Value obj)"
    and du: "dumped dk k (TypeEncoding obj) (Value obj) ts" "ts \<noteq> []" and safe: "dump_safe k obj"
  shows "\<exists>d'. replay_command e (parsed_of uni ts) d = Inr d' \<and> added e k d d' \<and> restores (Some obj) (lview d' k)"
proof -
  let ?t = "getType (TypeEncoding obj)"
  note F = fresh_keyD [OF f]
  have slot: "slot ty (lview d k) = Some (VNil, None)" for ty using F by (simp add: slot_def)
  consider (str) "?t = OBJ_TYPE_STRING" | (hash) "?t = OBJ_TYPE_HASH" | (list) "?t = OBJ_TYPE_LIST" | (set) "?t = OBJ_TYPE_SET"
    using du by (auto simp: dumped_def Let_def split: if_splits)
  then show ?thesis
  proof cases
    case str
    from wf_string [OF wf str] obtain s where s: "Value obj = VStr s" by blast
    have ts: "ts = [''SET'', k, s]" using du(1) str s safe by (simp add: dumped_def dump_safe_def print_s_def split_on_sep split_on_none)
    let ?d = "store_string e k s (- 1) d"
    have "evolves e {k} d ?d" by (rule evolves_store_string) (use F c in simp_all)
    then have "added e k d ?d" using added_evolves [OF f] store_string_adds F by simp
    moreover have "lview ?d k = Some (string_entry s None)"
      using store_string_view [of e d k s "- 1"] F c by (simp add: expiry_of_def live_entry_def string_entry_def)
    moreover have "getType (fst (string_entry s None)) = OBJ_TYPE_STRING"
      by (simp add: string_entry_def deduceTypeEncoding_def Let_def type_consts)
    ultimately show ?thesis using str s ts
      by (auto simp: evalSET_def restores_def string_entry_def Let_def)
  next
    case hash
    from du(1) hash obtain ps where ps: "enumerates ps (hash_view (Value obj))"
      "ts = command_of ''HSET'' k (concat (map (\<lambda>(f, x). [f, x]) ps))"
      by (auto simp: dumped_def Let_def)
    with du(2) have ne: "ps \<noteq> []" by (auto simp: command_of_def)
    let ?fvs = "concat (map (\<lambda>(f, x). [f, x]) ps)"
    have n: "?fvs \<noteq> []" "even (length ?fvs)" "pairs ?fvs = ps" using flat_nonempty [OF ne] pairs_flat [of ps] by blast+
    from evalHSET_view [OF _ c n(1,2), of d k] slot [of OBJ_TYPE_HASH] F obtain r d' where
      r: "evalHSET e (k # ?fvs) d = Inr (r, d')"
      "stores e OBJ_TYPE_HASH k (\<lambda>w. hash_view w = map_of (rev ps) \<and> hash_small (cfg e) w) None d d'"
      by (auto simp: n(3))
    have "map_of (rev ps) = hash_view (Value obj)" using ps(1) by (simp add: enumerates_def map_of_rev_distinct)
    moreover have "hash_view (Value obj) \<noteq> Map.empty" using ps(1) ne by (auto simp: enumerates_def)
    moreover have "ts = ''HSET'' # k # ?fvs" using ps(2) n(1) by (simp add: command_of_def)
    ultimately show ?thesis using r hash n(1) added_evolves [OF f stores_evolves [OF r(2)] evalHSET_adds [OF _ _ n(1,2) r(1)]] F
      by (auto simp: restores_def stores_def Let_def simp del: concat_eq_Nil_conv)
  next
    case list
    let ?vs = "list_view (Value obj)"
    from du list have ts: "ts = ''RPUSH'' # k # ?vs" "?vs \<noteq> []" by (auto simp: dumped_def Let_def command_of_def split: if_splits)
    from evalRPUSH_view [OF _ c ts(2), of d k] slot [of OBJ_TYPE_LIST] F obtain r d' where
      r: "evalRPUSH e (k # ?vs) d = Inr (r, d')" "stores e OBJ_TYPE_LIST k (\<lambda>w. list_view w = ?vs) None d d'"
      by auto
    then show ?thesis using list ts added_evolves [OF f stores_evolves [OF r(2)] evalRPUSH_adds [OF _ _ ts(2) r(1)]] F
      by (auto simp: restores_def stores_def Let_def)
  next
    case set
    from du set obtain ms where ms: "listing ms (set_view (Value obj))" "ms \<noteq> []" "ts = ''SADD'' # k # ms"
      by (auto simp: dumped_def Let_def command_of_def split: if_splits)
    from evalSADD_view [OF _ c ms(2), of d k] slot [of OBJ_TYPE_SET] F obtain r d' ys where
      r: "list_all2 spelled ms ys" "evalSADD e (k # ms) d = Inr (r, d')"
      "stores e OBJ_TYPE_SET k (\<lambda>w. set_view w = set ys \<and> set_small (cfg e) w) None d d'"
      by auto
    have "ys = ms" by (rule spelled_all_canon [OF r(1)]) (use ms(1) safe in \<open>auto simp: listing_def dump_safe_def\<close>)
    then show ?thesis using set ms r added_evolves [OF f stores_evolves [OF r(3)] evalSADD_adds [OF _ _ ms(2) r(2)]] F
      by (auto simp: restores_def stores_def Let_def listing_def)
  qed
qed

text \<open>A string with a space in it is dumped as a command of more words: it is refused, and the key
  is lost.\<close>

lemma replay_spaced_string:
  assumes "CHR '' '' \<notin> set k" "CHR '' '' \<notin> set a" "CHR '' '' \<notin> set b"
  shows "replay_command e (parsed_of uni (split_on CHR '' '' (''SET '' @ k @ '' '' @ a @ '' '' @ b))) d = Inr d"
  using assms
  by (simp add: split_on_sep split_on_none replay_command_def parsed_of_def Let_def evalSET_def)

section \<open>The whole file replayed\<close>

lemma split_on_ne [simp]: "split_on c w \<noteq> []"
  by (induction w) (auto split: list.splits)

lemma dumped_nothing:
  assumes "dumped dk k (TypeEncoding obj) (Value obj) []"
  shows "restores (Some obj) None"
proof -
  have nil: "ps = []" if "command_of nm k (concat (map (\<lambda>(f, x). [f, x]) ps)) = []" for ps nm
    using that flat_nonempty [of ps] by (cases "ps = []") (simp_all add: command_of_def del: concat_eq_Nil_conv split: if_splits)
  have "hash_view (Value obj) = Map.empty"
    if "enumerates ps (hash_view (Value obj))" "command_of nm k (concat (map (\<lambda>(f, x). [f, x]) ps)) = []" for ps nm
    using nil [OF that(2)] that(1) unfolding enumerates_def by (simp add: eq_commute)
  then show ?thesis
    using assms
    by (auto simp: dumped_def restores_def Let_def listing_def simp del: concat_eq_Nil_conv split: if_splits)
      (simp_all add: command_of_def split: if_splits)
qed

lemma replay_loop_restores:
  assumes "list_all2 (dumps_key dk d) ks tss" "distinct ks" "db_inv d" "config_ok (cfg e)"
    "\<forall>k a. map_of (store d) k = Some a \<longrightarrow> dump_safe k (objs d a)"
    "db_ok e d1" "expires d1 = []" "\<forall>k \<in> set ks. map_of (store d1) k = None" "StoreLen d1 + int (length ks) \<le> KeysLimit (cfg e)"
  shows "\<exists>d2. replay_loop e (map (parsed_of uni) (filter (\<lambda>ts. ts \<noteq> []) tss)) d1 = Inr d2 \<and> db_ok e d2 \<and>
    (\<forall>k \<in> set ks. restores (map_option (objs d) (map_of (store d) k)) (lview d2 k)) \<and>
    (\<forall>k. k \<notin> set ks \<longrightarrow> lview d2 k = lview d1 k)"
  using assms
proof (induction ks tss arbitrary: d1 rule: list_all2_induct)
  case (Cons k ks ts tss)
  from Cons(1) obtain a where a: "map_of (store d) k = Some a" "dumped dk k (TypeEncoding (objs d a)) (Value (objs d a)) ts"
    by (auto simp: dumps_key_def)
  have wf: "wf_value (TypeEncoding (objs d a)) (Value (objs d a))"
    using Cons(5) map_of_stored [OF a(1)] by (simp add: db_inv_def wf_obj_def)
  have "\<exists>d1'. replay_loop e (map (parsed_of uni) (filter (\<lambda>ts. ts \<noteq> []) (ts # tss))) d1 =
        replay_loop e (map (parsed_of uni) (filter (\<lambda>ts. ts \<noteq> []) tss)) d1' \<and>
      db_ok e d1' \<and> expires d1' = [] \<and> StoreLen d1' + int (length ks) \<le> KeysLimit (cfg e) \<and>
      (\<forall>k' \<in> set ks. map_of (store d1') k' = None) \<and> restores (Some (objs d a)) (lview d1' k) \<and>
      (\<forall>k'. k' \<noteq> k \<longrightarrow> lview d1' k' = lview d1 k')"
  proof (cases "ts = []")
    case True
    moreover have "lview d1 k = None" using Cons(10) by (simp add: lview_def)
    ultimately show ?thesis using Cons(8-11) dumped_nothing a(2)
      by (intro exI [of _ d1]) simp
  next
    case False
    have "fresh_key e d1 k" using Cons(8-11) by (simp add: fresh_key_def)
    from replay_step [OF this Cons(6) wf a(2) False, where uni = uni] Cons(7) a(1) obtain d1' where
      d1': "replay_command e (parsed_of uni ts) d1 = Inr d1'" "added e k d1 d1'" "restores (Some (objs d a)) (lview d1' k)"
      by blast
    then show ?thesis using Cons(4,10,11) False
      by (intro exI [of _ d1']) (auto simp: added_def)
  qed
  then obtain d1' where d1': "replay_loop e (map (parsed_of uni) (filter (\<lambda>ts. ts \<noteq> []) (ts # tss))) d1 =
        replay_loop e (map (parsed_of uni) (filter (\<lambda>ts. ts \<noteq> []) tss)) d1'"
      "db_ok e d1'" "expires d1' = []" "StoreLen d1' + int (length ks) \<le> KeysLimit (cfg e)"
      "\<forall>k' \<in> set ks. map_of (store d1') k' = None" "restores (Some (objs d a)) (lview d1' k)"
      "\<forall>k'. k' \<noteq> k \<longrightarrow> lview d1' k' = lview d1 k'"
    by (elim exE conjE)
  have "distinct ks" "k \<notin> set ks" using Cons(4) by simp_all
  from Cons(3) [OF this(1) Cons(5-7) d1'(2,3,5,4)] obtain d2 where
    "replay_loop e (map (parsed_of uni) (filter (\<lambda>ts. ts \<noteq> []) tss)) d1' = Inr d2" "db_ok e d2"
    "\<forall>k \<in> set ks. restores (map_option (objs d) (map_of (store d) k)) (lview d2 k)"
    "\<forall>k. k \<notin> set ks \<longrightarrow> lview d2 k = lview d1' k" by blast
  then show ?case using d1' a \<open>k \<notin> set ks\<close>
    by (intro exI [of _ d2]) auto
qed (auto intro: exI [of _ d1])

lemma init_db_fields [simp]: "store (init_db t u) = []" "expires (init_db t u) = []"
  by (simp_all add: init_db_def)

text \<open>What a dump is worth. Replaying, at start-up, the file that \<open>BGREWRITEAOF\<close> or the shutdown
  wrote restores every string, hash, list and set with its content and nothing else, whatever
  the orders of iteration were and however full the database was, if the file was written in
  full and is within one read, if no string and no key of a string contains a space, and if no
  set keeps a number in a spelling that is not decimal. Lost are the sorted sets, all expiry
  times (a key that had expired comes back for good) and containers left empty.\<close>

theorem dump_replay_restores:
  assumes "db_ok e d" "config_ok (cfg e)" "may_create dk" "may_read dk" "write_room dk = None"
    "\<forall>k a. map_of (store d) k = Some a \<longrightarrow> dump_safe k (objs d a)"
    "DumpAllAOF e d dk = Inr (d1, dk1)" "length (the (aof_file dk1)) \<le> max_rw"
  shows "lview d1 = lview d \<and> (\<exists>d2. ReplayAOF e dk1 (init_db t u) = Inr d2 \<and> db_ok e d2 \<and>
    (\<forall>k. restores (map_option (objs d) (map_of (store d) k)) (lview d2 k)))"
proof -
  from DumpAllAOF_spec [OF db_ok_inv [OF assms(1)] assms(3), of e] assms(5,7) obtain ks tss n where
    ks: "mset ks = mset (store_keys d)" and tss: "list_all2 (dumps_key dk d) ks tss"
    and d1: "d1 = d\<lparr>tick := n\<rparr>" and dk1: "dk1 = dk\<lparr>aof_file := Some (written tss)\<rparr>"
    by (auto simp: flushed_def)
  let ?css = "filter (\<lambda>ts. ts \<noteq> []) tss" and ?uni = "upper_uni e"
  have dist: "distinct ks" and set: "set ks = set (store_keys d)" and len: "length ks = length (store_keys d)"
    using mset_eq_imp_distinct_iff [OF ks] mset_eq_setD [OF ks] mset_eq_length [OF ks] distinct_store_keys [OF db_ok_inv [OF assms(1)]]
    by simp_all
  have room: "StoreLen (init_db t u) + int (length ks) \<le> KeysLimit (cfg e)"
    using assms(1) len by (simp add: db_ok_def StoreLen_def init_db_def)
  from replay_loop_restores [OF tss dist db_ok_inv [OF assms(1)] assms(2,6) init_db_ok [OF assms(2)] _ _ room, of ?uni]
  obtain d2 where d2: "replay_loop e (map (parsed_of ?uni) ?css) (init_db t u) = Inr d2" "db_ok e d2"
    "\<forall>k \<in> set ks. restores (map_option (objs d) (map_of (store d) k)) (lview d2 k)"
    "\<forall>k. k \<notin> set ks \<longrightarrow> lview d2 k = None"
    by auto
  have "ReplayAOF e dk1 (init_db t u) = Inr d2"
  proof (cases "?css = []")
    case True
    then show ?thesis using d2(1) dk1 assms(4) by (simp add: ReplayAOF_def written_def)
  next
    case False
    have w: "written tss = concat (map encode_command ?css)" by (simp add: written_def)
    have "length (written tss) \<le> 2 ^ 30" using assms(8) dk1 by (simp add: max_rw_def)
    then have "length (written tss) < 2 ^ 61" by (rule le_less_trans) simp
    with decode_pipeline [OF _ False w, of ?uni "[]"]
    have "DecodeCommands ?uni (written tss, length (written tss)) = Inr (map (parsed_of ?uni) ?css, None)" by simp
    moreover have "written tss \<noteq> []" using False by (cases ?css) (auto simp: w encode_command_def)
    ultimately show ?thesis using d2(1) dk1 assms(4,8) by (simp add: ReplayAOF_def Let_def min_def)
  qed
  moreover have "restores (map_option (objs d) (map_of (store d) k)) (lview d2 k)" for k
  proof (cases "k \<in> set ks")
    case False
    then show ?thesis using d2(4) set store_keys_iff [of k d] by (simp add: restores_def)
  qed (use d2(3) in simp)
  moreover have "lview d1 = lview d" unfolding d1 by (rule lview_cong) simp_all
  ultimately show ?thesis using d2(2) by blast
qed

definition good_disk :: disk where
  "good_disk = \<lparr>aof_file = None, may_create = True, may_read = True, write_room = None, verb_s = (\<lambda>_. [])\<rparr>"

lemma dump_replay_restores_witness:
  "\<exists>d1 dk1 d2. DumpAllAOF default_env (store_string default_env ''k'' ''v'' (- 1) (init_db 0 0)) good_disk = Inr (d1, dk1) \<and>
     ReplayAOF default_env dk1 (init_db 9 9) = Inr d2 \<and>
     (\<exists>te. lview d2 ''k'' = Some (te, VStr ''v'', None))"
proof -
  let ?d = "store_string default_env ''k'' ''v'' (- 1) (init_db 0 0)"
  have s: "store ?d = [(''k'', 0)]" and o: "Value (objs ?d 0) = VStr ''v''" and t: "getType (TypeEncoding (objs ?d 0)) = OBJ_TYPE_STRING"
    by (simp_all add: store_string_def NewObj_def Put_def init_db_def default_env_def default_config_def pool_choice_def
        StoreLen_def ticked_def touch_def bump_keys_def deduceTypeEncoding_def ParseInt_def parse_signed_def ParseUint_def
        digit_of_def type_consts Let_def)
  have ok: "db_ok default_env ?d"
    by (rule evolves_ok [OF evolves_store_string [where ks = UNIV]]) (simp_all add: init_db_ok)
  have dl: "dump_loop default_env good_disk [''k''] (ticked ?d) =
      Inr (encode_command (split_on CHR '' '' ''SET k v''), ticked ?d)"
    using s o t by (simp add: dumpKey_def dump_tokens_def ticked_def print_s_def encode_command_def)
  then obtain dk1 where dk: "DumpAllAOF default_env ?d good_disk = Inr (ticked ?d, dk1)"
      "aof_file dk1 = Some (encode_command (split_on CHR '' '' ''SET k v''))"
    using s by (simp add: DumpAllAOF_def good_disk_def flushed_def iterate_def default_env_def store_keys_def)
  have "length (the (aof_file dk1)) \<le> max_rw"
    by (simp add: dk(2) max_rw_def encode_command_def bulk_def FormatInt_def FormatNat.simps CRLF_def)
  note len = this
  have safe: "\<forall>k a. map_of (store ?d) k = Some a \<longrightarrow> dump_safe k (objs ?d a)"
    by (auto simp: s o dump_safe_def set_view_def split: if_splits)
  have "may_create good_disk" "may_read good_disk" "write_room good_disk = None" by (simp_all add: good_disk_def)
  from dump_replay_restores [OF ok default_env_ok this safe dk(1) len, of 9 9] obtain d2 where
    d2: "ReplayAOF default_env dk1 (init_db 9 9) = Inr d2" "restores (map_option (objs ?d) (map_of (store ?d) ''k'')) (lview d2 ''k'')"
    by blast
  from d2(2) have "\<exists>te. lview d2 ''k'' = Some (te, VStr ''v'', None)" by (auto simp: s o t restores_def Let_def)
  with dk(1) d2(1) show ?thesis by blast
qed

end
