(* ===== verification/PubSub.thy ===== *)
theory PubSub
  imports AofSpec
begin

text \<open>
  The state that commands reach beyond the database: the clients and the commands they sent
  (\<open>core/comm.go\<close>, \<open>core/cmd.go\<close>), the counters of \<open>core/metrics.go\<close>, and the channels of
  \<open>core/pubsub.go\<close> with the operations on them.

  A \<open>*Client\<close> is an address of \<open>clients\<close>, a \<open>*RedisCmd\<close> an address of \<open>cmds\<close>: commands are
  pooled and queued by pointer, so that the same cell may be in a queue and in the pool.
  \<open>wire\<close> is the sequence of the calls of \<open>syscall.Write\<close>, file descriptor and bytes.
\<close>

section \<open>State\<close>

record RedisCmd =
  Cmd :: string
  Args :: "string list"

record Client =
  Fd :: int
  enqueue :: "nat list"
  isTxn :: bool

record server =
  data :: db
  files :: disk
  channels :: "(string, (nat, unit) gomap) gomap"
  clients :: "nat \<Rightarrow> Client"
  clientNext :: nat
  cmds :: "nat \<Rightarrow> RedisCmd"
  cmdPool :: "nat list"
  cmdNext :: nat
  CommandsProcessed :: uint64
  ConnectionsReceived :: uint64
  wire :: "(int \<times> string) list"
  turn :: nat

text \<open>What the run time and the kernel choose, beside what \<open>env\<close> has: whether the \<open>n\<close>-th write
  succeeds, the order of a \<open>range\<close> over a set of clients, the command that the pool hands out,
  and how many nested calls of \<open>executeCommand\<close> fit on the stack.\<close>

record world =
  env_of :: env
  write_ok :: "nat \<Rightarrow> bool"
  set_order :: "nat \<Rightarrow> nat list \<Rightarrow> nat list"
  cmd_get :: "nat \<Rightarrow> nat list \<Rightarrow> nat option"
  stack :: nat

definition init_server :: "db \<Rightarrow> disk \<Rightarrow> server" where
  \<comment> \<open>the package variables when the server starts\<close>
  "init_server d dk =
     \<lparr>data = d, files = dk, channels = [], clients = (\<lambda>_. \<lparr>Fd = 0, enqueue = [], isTxn = False\<rparr>), clientNext = 0,
      cmds = (\<lambda>_. \<lparr>Cmd = [], Args = []\<rparr>), cmdPool = [], cmdNext = 0,
      CommandsProcessed = 0, ConnectionsReceived = 0, wire = [], turn = 0\<rparr>"

definition advance :: "server \<Rightarrow> server" where
  "advance s = s\<lparr>turn := turn s + 1\<rparr>"

definition iterate_set :: "world \<Rightarrow> server \<Rightarrow> nat list \<Rightarrow> nat list" where
  "iterate_set w s cs = (let p = set_order w (turn s) cs in if mset p = mset cs then p else cs)"

definition iterate_channels :: "world \<Rightarrow> server \<Rightarrow> string list" where
  "iterate_channels w s = iterate (env_of w) (data s) (map fst (channels s))"

definition Client_Write :: "world \<Rightarrow> nat \<Rightarrow> string \<Rightarrow> server \<Rightarrow> bool \<times> server" where
  "Client_Write w c b s = (write_ok w (length (wire s)), s\<lparr>wire := wire s @ [(Fd (clients s c), b)]\<rparr>)"

section \<open>Publish and subscribe\<close>

definition push_message :: string where
  \<comment> \<open>\<open>Encode\<close> of a \<open>[]interface{}\<close>, whatever its elements\<close>
  "push_message = Encode GoOther False"

definition subscribers :: "server \<Rightarrow> string \<Rightarrow> (nat, unit) gomap" where
  "subscribers s ch = (case map_of (channels s) ch of None \<Rightarrow> [] | Some cs \<Rightarrow> cs)"

fun subscribe_loop :: "world \<Rightarrow> nat \<Rightarrow> string list \<Rightarrow> server \<Rightarrow> server" where
  "subscribe_loop w c [] s = s"
| "subscribe_loop w c (ch # chs) s =
     (let s = s\<lparr>channels := AList.update ch (AList.update c () (subscribers s ch)) (channels s)\<rparr>
      in subscribe_loop w c chs (snd (Client_Write w c push_message s)))"

definition pubsubSubscribe :: "world \<Rightarrow> nat \<Rightarrow> string list \<Rightarrow> server \<Rightarrow> string \<times> server" where
  "pubsubSubscribe w c args s =
     (if length args < 1 then (arity_reply ''subscribe'', s) else ([], subscribe_loop w c args s))"

definition leave :: "nat \<Rightarrow> string \<Rightarrow> server \<Rightarrow> server" where
  \<comment> \<open>\<open>delete(clients, c)\<close>, and the channel with its last subscriber\<close>
  "leave c ch s =
     (case map_of (channels s) ch of
        None \<Rightarrow> s
      | Some cs \<Rightarrow>
          let cs = AList.delete c cs in
          s\<lparr>channels := (if length cs = 0 then AList.delete ch (channels s) else AList.update ch cs (channels s))\<rparr>)"

definition subscribed :: "server \<Rightarrow> nat \<Rightarrow> string \<Rightarrow> bool" where
  "subscribed s c ch \<longleftrightarrow> map_of (subscribers s ch) c \<noteq> None"

fun unsubscribe_loop :: "world \<Rightarrow> nat \<Rightarrow> string list \<Rightarrow> server \<Rightarrow> server" where
  "unsubscribe_loop w c [] s = s"
| "unsubscribe_loop w c (ch # chs) s =
     unsubscribe_loop w c chs (snd (Client_Write w c push_message (leave c ch s)))"

definition pubsubUnsubscribe :: "world \<Rightarrow> nat \<Rightarrow> string list \<Rightarrow> server \<Rightarrow> string \<times> server" where
  "pubsubUnsubscribe w c args s =
     (let channelsToUnsub = (if length args = 0 then filter (subscribed s c) (iterate_channels w s) else args)
      in ([], unsubscribe_loop w c channelsToUnsub (advance s)))"

fun publish_loop :: "world \<Rightarrow> string \<Rightarrow> nat list \<Rightarrow> int \<Rightarrow> server \<Rightarrow> int \<times> server" where
  "publish_loop w payload [] receivers s = (receivers, s)"
| "publish_loop w payload (c # cs) receivers s =
     (let (ok, s) = Client_Write w c payload s
      in publish_loop w payload cs (if ok then receivers + 1 else receivers) s)"

definition pubsubPublish :: "world \<Rightarrow> string list \<Rightarrow> server \<Rightarrow> string \<times> server" where
  "pubsubPublish w args s =
     (if length args \<noteq> 2 then (arity_reply ''publish'', s)
      else case map_of (channels s) (args ! 0) of
        None \<Rightarrow> (int_reply 0, s)
      | Some cs \<Rightarrow>
          if length cs = 0 then (int_reply 0, s)
          else let (receivers, s) = publish_loop w push_message (iterate_set w s (map fst cs)) 0 (advance s)
            in (int_reply receivers, s))"

definition RemoveClientFromPubSub :: "world \<Rightarrow> nat \<Rightarrow> server \<Rightarrow> server" where
  "RemoveClientFromPubSub w c s =
     foldl (\<lambda>s ch. if subscribed s c ch then leave c ch s else s) (advance s) (iterate_channels w s)"

section \<open>Channels as sets of clients\<close>

definition subs :: "server \<Rightarrow> string \<Rightarrow> nat set" where
  "subs s ch = dom (map_of (subscribers s ch))"

definition wf_channels :: "server \<Rightarrow> bool" where
  \<comment> \<open>no channel without a subscriber is kept\<close>
  "wf_channels s \<longleftrightarrow> wf_gomap (channels s) \<and> (\<forall>ch cs. map_of (channels s) ch = Some cs \<longrightarrow> wf_gomap cs \<and> cs \<noteq> [])"

definition net_only :: "server \<Rightarrow> server \<Rightarrow> bool" where
  \<comment> \<open>a step that touches the channels and the wire only\<close>
  "net_only s s' \<longleftrightarrow> data s' = data s \<and> files s' = files s \<and> clients s' = clients s \<and> clientNext s' = clientNext s \<and>
     cmds s' = cmds s \<and> cmdPool s' = cmdPool s \<and> cmdNext s' = cmdNext s \<and>
     CommandsProcessed s' = CommandsProcessed s \<and> ConnectionsReceived s' = ConnectionsReceived s"

lemma net_only_refl [simp]: "net_only s s"
  by (simp add: net_only_def)

lemma net_only_trans: "net_only s s1 \<Longrightarrow> net_only s1 s2 \<Longrightarrow> net_only s s2"
  by (simp add: net_only_def)

lemma net_only_step [simp]:
  "net_only s (s\<lparr>channels := chs\<rparr>)" "net_only s (advance s)" "net_only s (snd (Client_Write w c b s))" "net_only s (leave c ch s)"
  by (simp_all add: net_only_def advance_def Client_Write_def leave_def Let_def split: option.splits)

lemma subscribed_subs: "subscribed s c ch \<longleftrightarrow> c \<in> subs s ch"
  by (simp add: subscribed_def subs_def domIff)

lemma channels_write [simp]:
  "channels (snd (Client_Write w c b s)) = channels s" "wire (snd (Client_Write w c b s)) = wire s @ [(Fd (clients s c), b)]"
  "channels (advance s) = channels s" "wire (advance s) = wire s" "clients (snd (Client_Write w c b s)) = clients s"
  "fst (Client_Write w c b s) = write_ok w (length (wire s))" "clients (advance s) = clients s"
  by (simp_all add: Client_Write_def advance_def)

lemma subs_cong [simp]: "subs (snd (Client_Write w c b s)) = subs s" "subs (advance s) = subs s"
  "wf_channels (snd (Client_Write w c b s)) = wf_channels s" "wf_channels (advance s) = wf_channels s"
  by (simp_all add: subs_def subscribers_def wf_channels_def fun_eq_iff)

lemma wf_subscribers: "wf_channels s \<Longrightarrow> wf_gomap (subscribers s ch)"
  by (auto simp: wf_channels_def subscribers_def wf_gomap_def split: option.splits)

lemma subscribe_step:
  fixes s ch c
  defines "s' \<equiv> s\<lparr>channels := AList.update ch (AList.update c () (subscribers s ch)) (channels s)\<rparr>"
  assumes "wf_channels s"
  shows "wf_channels s' \<and> subs s' = (subs s)(ch := insert c (subs s ch))"
  using assms(2) wf_subscribers [OF assms(2), of ch]
  by (auto simp: s'_def wf_channels_def subs_def subscribers_def fun_eq_iff update_conv' wf_gomap_update
      intro!: wf_gomap_update split: option.splits if_splits)

lemma leave_channels:
  assumes "wf_channels s"
  shows "wf_channels (leave c ch s) \<and> subs (leave c ch s) = (subs s)(ch := subs s ch - {c}) \<and> wire (leave c ch s) = wire s"
proof (cases "map_of (channels s) ch")
  case None
  then show ?thesis using assms by (auto simp: leave_def subs_def subscribers_def fun_eq_iff)
next
  case (Some cs)
  then have cs: "wf_gomap cs" using assms by (auto simp: wf_channels_def)
  then have "wf_gomap (AList.delete c cs)" "dom (map_of (AList.delete c cs)) = dom (map_of cs) - {c}"
    by (simp_all add: wf_gomap_delete delete_conv')
  moreover have "AList.delete c cs = [] \<Longrightarrow> dom (map_of cs) - {c} = {}" using calculation(2) by simp
  ultimately show ?thesis using assms Some
    by (auto simp: leave_def subs_def subscribers_def fun_eq_iff wf_channels_def update_conv' delete_conv' Let_def
        wf_gomap_update wf_gomap_delete)
qed

lemma subscribe_loop_spec:
  "wf_channels s \<Longrightarrow> net_only s (subscribe_loop w c chs s) \<and> wf_channels (subscribe_loop w c chs s) \<and>
     subs (subscribe_loop w c chs s) = (\<lambda>ch. if ch \<in> set chs then insert c (subs s ch) else subs s ch) \<and>
     wire (subscribe_loop w c chs s) = wire s @ replicate (length chs) (Fd (clients s c), push_message)"
proof (induction chs arbitrary: s)
  case (Cons ch chs)
  let ?s1 = "s\<lparr>channels := AList.update ch (AList.update c () (subscribers s ch)) (channels s)\<rparr>"
  let ?s2 = "snd (Client_Write w c push_message ?s1)"
  note st = subscribe_step [OF Cons(2), of ch c]
  have "wf_channels ?s2" "subs ?s2 = (subs s)(ch := insert c (subs s ch))" using st by simp_all
  moreover have "net_only s ?s2" by (rule net_only_trans [of _ ?s1]) simp_all
  ultimately show ?case using Cons(1) [of ?s2] by (auto simp: Let_def fun_eq_iff intro: net_only_trans)
qed simp

lemma unsubscribe_loop_spec:
  "wf_channels s \<Longrightarrow> net_only s (unsubscribe_loop w c chs s) \<and> wf_channels (unsubscribe_loop w c chs s) \<and>
     subs (unsubscribe_loop w c chs s) = (\<lambda>ch. if ch \<in> set chs then subs s ch - {c} else subs s ch) \<and>
     wire (unsubscribe_loop w c chs s) = wire s @ replicate (length chs) (Fd (clients s c), push_message)"
proof (induction chs arbitrary: s)
  case (Cons ch chs)
  let ?s2 = "snd (Client_Write w c push_message (leave c ch s))"
  note st = leave_channels [OF Cons(2), of c ch]
  have "wf_channels ?s2" "subs ?s2 = (subs s)(ch := subs s ch - {c})" using st by simp_all
  moreover have "net_only s ?s2" by (rule net_only_trans [of _ "leave c ch s"]) simp_all
  moreover have "clients (leave c ch s) = clients s" using net_only_step(4) [of s c ch] by (simp add: net_only_def)
  ultimately show ?case using Cons(1) [of ?s2] st by (auto simp: fun_eq_iff intro: net_only_trans)
qed simp

definition accepted :: "world \<Rightarrow> nat \<Rightarrow> nat \<Rightarrow> nat" where
  \<comment> \<open>how many of the \<open>k\<close> writes from the \<open>n\<close>-th on succeed\<close>
  "accepted w n k = card {i \<in> {n..<n + k}. write_ok w i}"

lemma accepted_simps [simp]:
  "accepted w n 0 = 0" "accepted w n (Suc k) = (if write_ok w n then 1 else 0) + accepted w (Suc n) k"
proof -
  have "{i \<in> {n..<n + Suc k}. write_ok w i} =
      (if write_ok w n then insert n {i \<in> {Suc n..<Suc n + k}. write_ok w i} else {i \<in> {Suc n..<Suc n + k}. write_ok w i})"
    by (auto simp: le_less Suc_le_eq)
  then show "accepted w n (Suc k) = (if write_ok w n then 1 else 0) + accepted w (Suc n) k"
    by (simp add: accepted_def)
qed (simp add: accepted_def)

lemma publish_loop_spec:
  "\<exists>s'. publish_loop w m cs n s = (n + int (accepted w (length (wire s)) (length cs)), s') \<and>
     net_only s s' \<and> channels s' = channels s \<and> wire s' = wire s @ map (\<lambda>c. (Fd (clients s c), m)) cs"
proof (induction cs arbitrary: n s)
  case (Cons c cs)
  let ?s1 = "snd (Client_Write w c m s)" and ?n1 = "if write_ok w (length (wire s)) then n + 1 else n"
  from Cons [of ?n1 ?s1] obtain s' where
    "publish_loop w m cs ?n1 ?s1 = (?n1 + int (accepted w (Suc (length (wire s))) (length cs)), s')"
    "net_only ?s1 s'" "channels s' = channels s" "wire s' = wire s @ (Fd (clients s c), m) # map (\<lambda>c. (Fd (clients s c), m)) cs"
    by auto
  then show ?case
    by (intro exI [of _ s']) (auto simp: case_prod_beta intro: net_only_trans [of s ?s1])
qed simp

lemma iterate_set_mset [simp]: "mset (iterate_set w s cs) = mset cs"
  by (simp add: iterate_set_def Let_def)

lemma foldl_leave:
  "wf_channels s \<Longrightarrow> (let s' = foldl (\<lambda>s ch. if subscribed s c ch then leave c ch s else s) s chs in
     net_only s s' \<and> wf_channels s' \<and> subs s' = (\<lambda>ch. if ch \<in> set chs then subs s ch - {c} else subs s ch) \<and> wire s' = wire s)"
proof (induction chs arbitrary: s)
  case (Cons ch chs)
  define s1 where "s1 = (if subscribed s c ch then leave c ch s else s)"
  have "net_only s s1" "wf_channels s1" "subs s1 = (subs s)(ch := subs s ch - {c})" "wire s1 = wire s"
    using leave_channels [OF Cons(2), of c ch] Cons(2) by (auto simp: subscribed_subs s1_def)
  then show ?case using Cons(1) [of s1] by (auto simp: Let_def fun_eq_iff s1_def [symmetric] intro: net_only_trans)
qed simp

lemma set_iterate_channels [simp]: "set (iterate_channels w s) = dom (map_of (channels s))"
  by (simp add: iterate_channels_def dom_map_of_conv_image_fst)

lemma subs_channel: "c \<in> subs s ch \<Longrightarrow> ch \<in> dom (map_of (channels s))"
  by (auto simp: subs_def subscribers_def split: option.splits)

lemma RemoveClient_spec:
  assumes "wf_channels s"
  shows "net_only s (RemoveClientFromPubSub w c s) \<and> wf_channels (RemoveClientFromPubSub w c s) \<and>
    subs (RemoveClientFromPubSub w c s) = (\<lambda>ch. subs s ch - {c}) \<and> wire (RemoveClientFromPubSub w c s) = wire s"
  using foldl_leave [of "advance s" c "iterate_channels w s"] assms subs_channel [of _ s]
  by (fastforce simp: RemoveClientFromPubSub_def Let_def fun_eq_iff intro: net_only_trans [OF net_only_step(2)])

lemma pubsubSubscribe_spec:
  assumes "wf_channels s"
  shows "let s' = snd (pubsubSubscribe w c args s) in net_only s s' \<and> wf_channels s' \<and>
    subs s' = (\<lambda>ch. if ch \<in> set args then insert c (subs s ch) else subs s ch)"
  using subscribe_loop_spec [OF assms, of w c args] by (auto simp: pubsubSubscribe_def Let_def)

lemma pubsubUnsubscribe_spec:
  assumes "wf_channels s"
  shows "let s' = snd (pubsubUnsubscribe w c args s) in net_only s s' \<and> wf_channels s' \<and>
    subs s' = (\<lambda>ch. if args = [] \<or> ch \<in> set args then subs s ch - {c} else subs s ch)"
proof -
  let ?chs = "if args = [] then filter (subscribed s c) (iterate_channels w s) else args"
  note u = unsubscribe_loop_spec [of "advance s" w c ?chs]
  have "subs s ch - {c} = subs s ch" if "ch \<notin> set (filter (subscribed s c) (iterate_channels w s))" for ch
    using that subs_channel [of c s ch] by (auto simp: subscribed_subs)
  then show ?thesis
    using u assms by (auto simp: pubsubUnsubscribe_def Let_def fun_eq_iff intro: net_only_trans [OF net_only_step(2)])
qed

lemma pubsubPublish_spec:
  assumes "wf_channels s"
  shows "\<exists>cs s'. distinct cs \<and> set cs = subs s ch \<and>
    pubsubPublish w [ch, m] s = (int_reply (int (accepted w (length (wire s)) (length cs))), s') \<and>
    net_only s s' \<and> channels s' = channels s \<and> wire s' = wire s @ map (\<lambda>c. (Fd (clients s c), push_message)) cs"
proof (cases "map_of (channels s) ch")
  case None
  then show ?thesis by (intro exI [of _ "[]"] exI [of _ s]) (simp add: pubsubPublish_def subs_def subscribers_def)
next
  case (Some cs)
  then have cs: "wf_gomap cs" "cs \<noteq> []" using assms by (auto simp: wf_channels_def)
  let ?cs = "iterate_set w s (map fst cs)"
  have "distinct ?cs" "set ?cs = subs s ch"
    using cs(1) mset_eq_imp_distinct_iff [OF iterate_set_mset, of w s "map fst cs"] mset_eq_setD [OF iterate_set_mset, of w s "map fst cs"] Some
    by (simp_all add: wf_gomap_def subs_def subscribers_def dom_map_of_conv_image_fst)
  moreover obtain s' where "publish_loop w push_message ?cs 0 (advance s) = (int (accepted w (length (wire s)) (length ?cs)), s')"
    "net_only (advance s) s'" "channels s' = channels s" "wire s' = wire s @ map (\<lambda>c. (Fd (clients s c), push_message)) ?cs"
    using publish_loop_spec [of w push_message ?cs 0 "advance s"] by auto
  ultimately show ?thesis using Some cs(2)
    by (intro exI [of _ ?cs] exI [of _ s']) (auto simp: pubsubPublish_def intro: net_only_trans [OF net_only_step(2)])
qed

text \<open>C19: publish and subscribe keep, for every channel, the set of its subscribers: \<open>SUBSCRIBE\<close> enters
  the client in its channels, \<open>UNSUBSCRIBE\<close> without arguments and the end of the connection take
  it out of all, no channel is kept without a subscriber, and \<open>PUBLISH\<close> writes once to every
  subscriber of its channel, to no other client, and replies how many writes succeeded. What
  it writes is the nil reply: the encoder does not know the \<open>[]interface{}\<close> of a message.\<close>

theorem pubsub_routes:
  assumes "wf_channels s" "args \<noteq> []"
  shows "(\<exists>s1. pubsubSubscribe w c args s = ([], s1) \<and> wf_channels s1 \<and>
      subs s1 = (\<lambda>ch. if ch \<in> set args then insert c (subs s ch) else subs s ch)) \<and>
    (\<exists>s1. pubsubUnsubscribe w c [] s = ([], s1) \<and> wf_channels s1 \<and> subs s1 = (\<lambda>ch. subs s ch - {c})) \<and>
    wf_channels (RemoveClientFromPubSub w c s) \<and> subs (RemoveClientFromPubSub w c s) = (\<lambda>ch. subs s ch - {c}) \<and>
    (\<exists>cs s1. distinct cs \<and> set cs = subs s ch \<and>
      pubsubPublish w [ch, m] s = (int_reply (int (accepted w (length (wire s)) (length cs))), s1) \<and>
      channels s1 = channels s \<and> wire s1 = wire s @ map (\<lambda>c'. (Fd (clients s c'), RESP_NIL)) cs)"
proof (intro conjI)
  show "\<exists>s1. pubsubSubscribe w c args s = ([], s1) \<and> wf_channels s1 \<and>
      subs s1 = (\<lambda>ch. if ch \<in> set args then insert c (subs s ch) else subs s ch)"
    using pubsubSubscribe_spec [OF assms(1), of w c args] assms(2)
    by (intro exI [of _ "snd (pubsubSubscribe w c args s)"]) (simp add: Let_def pubsubSubscribe_def Suc_le_eq)
  show "\<exists>s1. pubsubUnsubscribe w c [] s = ([], s1) \<and> wf_channels s1 \<and> subs s1 = (\<lambda>ch. subs s ch - {c})"
    using pubsubUnsubscribe_spec [OF assms(1), of w c "[]"]
    by (intro exI [of _ "snd (pubsubUnsubscribe w c [] s)"]) (simp add: Let_def pubsubUnsubscribe_def)
  show "\<exists>cs s1. distinct cs \<and> set cs = subs s ch \<and>
      pubsubPublish w [ch, m] s = (int_reply (int (accepted w (length (wire s)) (length cs))), s1) \<and>
      channels s1 = channels s \<and> wire s1 = wire s @ map (\<lambda>c'. (Fd (clients s c'), RESP_NIL)) cs"
    using pubsubPublish_spec [OF assms(1), of ch w m] by (auto simp: push_message_def)
qed (use RemoveClient_spec [OF assms(1), of w c] in simp_all)

definition calm_world :: world where
  "calm_world = \<lparr>env_of = default_env, write_ok = (\<lambda>_. True), set_order = (\<lambda>_ cs. cs), cmd_get = (\<lambda>_ cs. None), stack = 9\<rparr>"

lemma init_server_channels [simp]: "wf_channels (init_server d dk)" "subs (init_server d dk) ch = {}"
  by (simp_all add: wf_channels_def init_server_def subs_def subscribers_def)

lemma pubsub_routes_witness:
  "\<exists>s1. pubsubSubscribe calm_world 7 [''news''] (init_server (init_db 0 0) good_disk) = ([], s1) \<and> subs s1 ''news'' = {7}"
  using pubsub_routes [OF init_server_channels(1) [of "init_db 0 0" good_disk], where args = "[''news'']" and w = calm_world and c = 7,
      THEN conjunct1] by auto

end
