(* ===== verification/Dispatch.thy ===== *)
theory Dispatch
  imports PubSub
begin

text \<open>
  The dispatcher of \<open>core/eval.go\<close> with \<open>INFO\<close>, the transactions of \<open>core/comm.go\<close>, the command
  pool of \<open>core/resp.go\<close>, and the two ways a batch of commands is answered
  (\<open>EvalAndRespond\<close> for the event loop, \<open>respondSync\<close> for the blocking server).

  \<open>executeCommand\<close> calls itself through \<open>EXEC\<close> and \<open>TxnExec\<close>. The model counts the nested calls
  down from \<open>stack\<close> and ends in the panic \<open>StackOverflow\<close>; the lemmas show that two levels are
  enough unless a queued command is itself \<open>EXEC\<close>.
\<close>

section \<open>INFO\<close>

definition lower_byte :: "char \<Rightarrow> char" where
  "lower_byte c = (let n = of_char c in if 65 \<le> n \<and> n \<le> (90::nat) then char_of (n + 32) else c)"

definition ToLower :: "(string \<Rightarrow> string) \<Rightarrow> string \<Rightarrow> string" where
  \<comment> \<open>\<open>strings.ToLower\<close>; \<open>uni\<close> is its result on a string with a non-ASCII byte\<close>
  "ToLower uni s = (if \<forall>c \<in> set s. is_ascii c then map lower_byte s else uni s)"

definition addSection :: "string \<Rightarrow> string \<Rightarrow> string \<Rightarrow> string" where
  "addSection section name body =
     (if section = [] \<or> section = name \<or> section = ''all''
      then ''# '' @ map upper_byte (take 1 name) @ drop 1 name @ CRLF @ body @ CRLF else [])"

definition days :: "int64 \<Rightarrow> int64" where
  \<comment> \<open>\<open>/ 86400\<close>, truncated towards zero\<close>
  "days x = (let i = sint x in word_of_int (if i < 0 then - (- i div 86400) else i div 86400))"

definition keyspace_lines :: "db \<Rightarrow> string" where
  "keyspace_lines d =
     concat (map (\<lambda>i. if 0 < stat_value d i ''keys''
       then line (''db'' @ int_text (int i) @ '':keys='' @ int_text (stat_value d i ''keys'') @ '',expires=0,avg_ttl=0'') else [])
       [0..<length (KeyspaceStat d)])"

definition evalINFO :: "world \<Rightarrow> string list \<Rightarrow> server \<Rightarrow> string \<times> server" where
  "evalINFO w args s =
     (let e = env_of w; d = data s; n = turn s;
          section = (if 0 < length args then ToLower (lower_uni e) (args ! 0) else []);
          up = (if section = [] \<or> section = ''server'' \<or> section = ''all'' then 2 else 0) in
      (Encode (GoString (
         addSection section ''server'' (
           line ''velox_version:1.0.0'' @
           line (''uptime_in_seconds:'' @ FormatInt (uptime e n)) @
           line (''uptime_in_days:'' @ FormatInt (days (uptime e (n + 1)))) @
           line ''multiplexing_api:epoll'' @
           line ''atomic_var_api:atomic-builtin'') @
         addSection section ''clients'' (
           line (''connected_clients:'' @ FormatNat (unat (ConnectionsReceived s))) @
           line (''pubsub_channels:'' @ int_text (int (length (channels s))))) @
         addSection section ''memory'' (
           line (''used_memory_human:'' @ memory_text e (StoreLen d)) @
           line ''used_memory_dataset_perc:95.50%'') @
         addSection section ''stats'' (
           line (''total_connections_received:'' @ FormatNat (unat (ConnectionsReceived s))) @
           line (''total_commands_processed:'' @ FormatNat (unat (CommandsProcessed s))) @
           line (''instantaneous_ops_per_sec:'' @ ops_text e (n + up))) @
         addSection section ''keyspace'' (keyspace_lines d))) False, s\<lparr>turn := n + up + 1\<rparr>))"

section \<open>The client\<close>

definition update_client :: "nat \<Rightarrow> (Client \<Rightarrow> Client) \<Rightarrow> server \<Rightarrow> server" where
  "update_client c g s = s\<lparr>clients := (clients s)(c := g (clients s c))\<rparr>"

definition NewClient :: "int \<Rightarrow> server \<Rightarrow> nat \<times> server" where
  "NewClient fd s =
     (clientNext s, s\<lparr>clients := (clients s)(clientNext s := \<lparr>Fd = fd, enqueue = [], isTxn = False\<rparr>), clientNext := clientNext s + 1\<rparr>)"

definition TxnBegin :: "nat \<Rightarrow> server \<Rightarrow> server" where
  "TxnBegin c s = update_client c (\<lambda>cl. cl\<lparr>isTxn := True\<rparr>) s"

definition TxnDiscard :: "nat \<Rightarrow> server \<Rightarrow> server" where
  "TxnDiscard c s = update_client c (\<lambda>cl. cl\<lparr>enqueue := [], isTxn := False\<rparr>) s"

definition TxnQueue :: "nat \<Rightarrow> nat \<Rightarrow> server \<Rightarrow> server" where
  "TxnQueue p c s = update_client c (\<lambda>cl. cl\<lparr>enqueue := enqueue cl @ [p]\<rparr>) s"

type_synonym executor = "nat \<Rightarrow> nat \<Rightarrow> server \<Rightarrow> (string \<times> server) outcome"
  \<comment> \<open>of a command on behalf of a client\<close>

fun txn_loop :: "executor \<Rightarrow> nat \<Rightarrow> nat list \<Rightarrow> server \<Rightarrow> (string \<times> server) outcome" where
  "txn_loop exec c [] s = Inr ([], s)"
| "txn_loop exec c (p # ps) s =
     obind (exec p c s) (\<lambda>(r, s). obind (txn_loop exec c ps s) (\<lambda>(rs, s). Inr (r @ rs, s)))"

definition TxnExec :: "executor \<Rightarrow> nat \<Rightarrow> server \<Rightarrow> (string \<times> server) outcome" where
  "TxnExec exec c s =
     (let queue = enqueue (clients s c) in
      obind (txn_loop exec c queue s) (\<lambda>(rs, s).
        Inr (CHR ''*'' # FormatInt (of_nat (length queue)) @ CRLF @ rs, TxnDiscard c s)))"

section \<open>The dispatcher\<close>

definition eval_table :: "(string \<times> command) list" where
  \<comment> \<open>the cases of the switch that are a function of the database\<close>
  "eval_table =
     [(''PING'', evalPING), (''SET'', evalSET), (''GET'', evalGET), (''TTL'', evalTTL), (''DEL'', evalDEL),
      (''EXPIRE'', evalEXPIRE), (''INCR'', evalINCR), (''DECR'', evalDECR), (''INCRBY'', evalINCRBY),
      (''DECRBY'', evalDECRBY), (''MSET'', evalMSET), (''MGET'', evalMGET), (''CLIENT'', evalCLIENT),
      (''LATENCY'', evalLATENCY), (''LRU'', evalLRU), (''OBJECT'', evalOBJECT), (''SLEEP'', evalSLEEP),
      (''EXISTS'', evalEXISTS), (''KEYS'', evalKEYS), (''DBSIZE'', evalDBSIZE), (''FLUSHDB'', evalFLUSHDB),
      (''TYPE'', evalTYPE), (''HSET'', evalHSET), (''HGET'', evalHGET), (''HGETALL'', evalHGETALL),
      (''HDEL'', evalHDEL), (''HLEN'', evalHLEN), (''HEXISTS'', evalHEXISTS), (''HKEYS'', evalHKEYS),
      (''HVALS'', evalHVALS), (''HINCRBY'', evalHINCRBY), (''HSETNX'', evalHSETNX), (''LPUSH'', evalLPUSH),
      (''RPUSH'', evalRPUSH), (''LPOP'', evalLPOP), (''RPOP'', evalRPOP), (''LRANGE'', evalLRANGE),
      (''LLEN'', evalLLEN), (''LINDEX'', evalLINDEX), (''SADD'', evalSADD), (''SREM'', evalSREM),
      (''SMEMBERS'', evalSMEMBERS), (''SISMEMBER'', evalSISMEMBER), (''SCARD'', evalSCARD),
      (''SINTER'', evalSINTER), (''SUNION'', evalSUNION), (''ZADD'', evalZADD), (''ZSCORE'', evalZSCORE),
      (''ZRANK'', evalZRANK), (''ZRANGE'', evalZRANGE), (''ZCARD'', evalZCARD), (''ZREM'', evalZREM)]"

definition run_eval :: "command \<Rightarrow> world \<Rightarrow> string list \<Rightarrow> server \<Rightarrow> (string \<times> server) outcome" where
  "run_eval f w args s = obind (f (env_of w) args (data s)) (\<lambda>(r, d). Inr (r, s\<lparr>data := d\<rparr>))"

definition TrackCommand :: "server \<Rightarrow> server" where
  "TrackCommand s = s\<lparr>CommandsProcessed := CommandsProcessed s + 1\<rparr>"

definition TrackConnection :: "server \<Rightarrow> server" where
  "TrackConnection s = s\<lparr>ConnectionsReceived := ConnectionsReceived s + 1\<rparr>"

definition execute_switch :: "executor \<Rightarrow> world \<Rightarrow> string \<Rightarrow> string list \<Rightarrow> nat \<Rightarrow> server \<Rightarrow> (string \<times> server) outcome" where
  \<comment> \<open>\<open>switch cmd.Cmd\<close>; \<open>exec\<close> is the recursive call\<close>
  "execute_switch exec w name args c s =
     (case map_of eval_table name of
        Some f \<Rightarrow> run_eval f w args s
      | None \<Rightarrow>
          if name = ''BGREWRITEAOF'' then
            obind (evalBGREWRITEAOF (env_of w) args (data s) (files s)) (\<lambda>(r, d, dk). Inr (r, s\<lparr>data := d, files := dk\<rparr>))
          else if name = ''INFO'' then Inr (evalINFO w args s)
          else if name = ''MULTI'' then run_eval evalMULTI w args (TxnBegin c s)
          else if name = ''EXEC'' then
            (if \<not> isTxn (clients s c) then Inr (error_reply ''ERR EXEC without MULTI'', s) else TxnExec exec c s)
          else if name = ''DISCARD'' then
            (if \<not> isTxn (clients s c) then Inr (error_reply ''ERR DISCARD without MULTI'', s) else Inr (RESP_OK, TxnDiscard c s))
          else if name = ''COMMAND'' then Inr (Encode (GoString ''OK'') True, s)
          else if name = ''SUBSCRIBE'' then Inr (pubsubSubscribe w c args s)
          else if name = ''UNSUBSCRIBE'' then Inr (pubsubUnsubscribe w c args s)
          else if name = ''PUBLISH'' then Inr (pubsubPublish w args s)
          else Inr (error_reply (''ERR unknown command '' @ [CHR 0x27] @ name @ [CHR 0x27]), s))"

primrec execute_fuel :: "nat \<Rightarrow> world \<Rightarrow> executor" where
  "execute_fuel 0 w = (\<lambda>p c s. Inl StackOverflow)"
| "execute_fuel (Suc n) w =
     (\<lambda>p c s. execute_switch (execute_fuel n w) w (Cmd (cmds s p)) (Args (cmds s p)) c (TrackCommand s))"

definition executeCommand :: "world \<Rightarrow> executor" where
  "executeCommand w = execute_fuel (stack w) w"

section \<open>Answering a batch\<close>

definition txnCommands :: "string \<Rightarrow> bool" where
  "txnCommands name \<longleftrightarrow> name = ''EXEC'' \<or> name = ''DISCARD''"

definition respond_one :: "world \<Rightarrow> executor" where
  \<comment> \<open>the body of the loop: the reply to one command, which is queued or executed\<close>
  "respond_one w p c s =
     (if isTxn (clients s c) \<and> \<not> txnCommands (Cmd (cmds s p)) then Inr (RESP_QUEUED, TxnQueue p c s)
      else executeCommand w p c s)"

fun respond_loop :: "world \<Rightarrow> nat list \<Rightarrow> nat \<Rightarrow> string \<Rightarrow> server \<Rightarrow> (string \<times> server) outcome" where
  "respond_loop w [] c buf s = Inr (buf, s)"
| "respond_loop w (p # ps) c buf s = obind (respond_one w p c s) (\<lambda>(r, s). respond_loop w ps c (buf @ r) s)"

definition EvalAndRespond :: "world \<Rightarrow> nat list \<Rightarrow> nat \<Rightarrow> server \<Rightarrow> server outcome" where
  "EvalAndRespond w ps c s = obind (respond_loop w ps c [] s) (\<lambda>(buf, s). Inr (snd (Client_Write w c buf s)))"

section \<open>The command pool\<close>

definition cmd_choice :: "world \<Rightarrow> server \<Rightarrow> nat option" where
  "cmd_choice w s =
     (case cmd_get w (turn s) (cmdPool s) of
        None \<Rightarrow> None
      | Some p \<Rightarrow> if p \<in> set (cmdPool s) then Some p else None)"

definition get_cmd :: "world \<Rightarrow> server \<Rightarrow> nat \<times> server" where
  \<comment> \<open>\<open>cmdPool.Get()\<close>: a pooled command, or a new one without a name\<close>
  "get_cmd w s =
     (case cmd_choice w s of
        Some p \<Rightarrow> (p, (advance s)\<lparr>cmdPool := remove1 p (cmdPool s)\<rparr>)
      | None \<Rightarrow> (cmdNext s, (advance s)\<lparr>cmdNext := cmdNext s + 1, cmds := (cmds s)(cmdNext s := \<lparr>Cmd = [], Args = []\<rparr>)\<rparr>))"

definition fill_cmd :: "nat \<Rightarrow> parsed \<Rightarrow> server \<Rightarrow> server" where
  \<comment> \<open>a command without elements keeps the name that its cell had\<close>
  "fill_cmd p c s =
     s\<lparr>cmds := (cmds s)(p := \<lparr>Cmd = (case fst c of None \<Rightarrow> Cmd (cmds s p) | Some name \<Rightarrow> name), Args = snd c\<rparr>)\<rparr>"

fun load_cmds :: "world \<Rightarrow> parsed list \<Rightarrow> server \<Rightarrow> nat list \<times> server" where
  "load_cmds w [] s = ([], s)"
| "load_cmds w (c # cs) s =
     (let (p, s) = get_cmd w s; (ps, s) = load_cmds w cs (fill_cmd p c s) in (p # ps, s))"

definition FreeCmds :: "nat list \<Rightarrow> server \<Rightarrow> server" where
  "FreeCmds ps s = foldl (\<lambda>s p. s\<lparr>cmds := (cmds s)(p := (cmds s p)\<lparr>Args := []\<rparr>), cmdPool := p # cmdPool s\<rparr>) s ps"

definition handle_batch :: "world \<Rightarrow> nat \<Rightarrow> parsed list \<Rightarrow> server \<Rightarrow> server outcome" where
  \<comment> \<open>what the event loop does with the commands it decoded\<close>
  "handle_batch w c cs s =
     (let (ps, s) = load_cmds w cs s in obind (EvalAndRespond w ps c s) (\<lambda>s. Inr (FreeCmds ps s)))"

fun sync_loop :: "world \<Rightarrow> nat list \<Rightarrow> nat \<Rightarrow> string \<Rightarrow> server \<Rightarrow> (string \<times> server) outcome" where
  "sync_loop w [] c buf s = Inr (buf, s)"
| "sync_loop w (p # ps) c buf s = obind (executeCommand w p c s) (\<lambda>(r, s). sync_loop w ps c (buf @ r) s)"

definition respondSync :: "world \<Rightarrow> nat list \<Rightarrow> server \<Rightarrow> (string \<times> server) outcome" where
  \<comment> \<open>the bytes written to the connection, on behalf of a client made for this batch\<close>
  "respondSync w ps s = (let (c, s) = NewClient (- 1) s in sync_loop w ps c [] s)"

section \<open>Every command is served\<close>

lemma respond_loop_Cons [simp]:
  "respond_loop w (p # ps) c buf s =
     (if isTxn (clients s c) \<and> \<not> txnCommands (Cmd (cmds s p))
      then respond_loop w ps c (buf @ RESP_QUEUED) (TxnQueue p c s)
      else obind (executeCommand w p c s) (\<lambda>(r, s). respond_loop w ps c (buf @ r) s))"
  by (simp add: respond_one_def)

declare respond_loop.simps(2) [simp del]

lemma table_served:
  assumes "map_of eval_table name = Some f" "db_ok e d" "config_ok (cfg e)"
  shows "served e (set args) d (f e args d)"
proof -
  have "f \<in> set (map snd eval_table)" using map_of_SomeD [OF assms(1)] by force
  then show ?thesis
    unfolding eval_table_def
    by (simp, elim disjE)
      (simp_all add: assms counters_served evalSET_served plural_served readers_served evalEXPIRE_served server_state_served
        diagnostics_served evalOBJECT_served hash_writers_served hash_readers_served list_writers_served list_readers_served
        set_writers_served set_readers_served zset_writers_served zset_readers_served)
qed

text \<open>What a command may change of the server beside the database and its own client: the file,
  the channels, the counters, the wire. Commands and pool are left alone.\<close>

definition srv_ok :: "world \<Rightarrow> server \<Rightarrow> bool" where
  "srv_ok w s \<longleftrightarrow> db_ok (env_of w) (data s) \<and> wf_channels s"

definition cells_same :: "nat \<Rightarrow> server \<Rightarrow> server \<Rightarrow> bool" where
  \<comment> \<open>commands, pool and the other clients are as they were, and only \<open>c\<close> may have subscribed\<close>
  "cells_same c s s' \<longleftrightarrow> (\<forall>ch. subs s' ch \<subseteq> insert c (subs s ch)) \<and> cmds s' = cmds s \<and> cmdPool s' = cmdPool s \<and> cmdNext s' = cmdNext s \<and> clientNext s' = clientNext s \<and>
     (\<forall>c'. c' \<noteq> c \<longrightarrow> clients s' c' = clients s c') \<and> Fd (clients s' c) = Fd (clients s c)"

lemma cells_same_refl [simp]: "cells_same c s s"
  by (auto simp: cells_same_def)

lemma cells_same_trans: "cells_same c s s1 \<Longrightarrow> cells_same c s1 s2 \<Longrightarrow> cells_same c s s2"
  by (simp add: cells_same_def) blast

lemma subs_updates [simp]:
  "subs (s\<lparr>data := d\<rparr>) = subs s" "subs (s\<lparr>files := dk\<rparr>) = subs s" "subs (s\<lparr>clients := cl\<rparr>) = subs s"
  "subs (s\<lparr>wire := wr\<rparr>) = subs s" "subs (s\<lparr>turn := n\<rparr>) = subs s" "subs (s\<lparr>cmds := cm\<rparr>) = subs s"
  "subs (s\<lparr>cmdPool := pl\<rparr>) = subs s" "subs (s\<lparr>cmdNext := n\<rparr>) = subs s" "subs (s\<lparr>clientNext := n\<rparr>) = subs s"
  by (simp_all add: subs_def subscribers_def fun_eq_iff)

lemma subs_channels: "channels s' = channels s \<Longrightarrow> subs s' = subs s"
  by (simp add: subs_def subscribers_def fun_eq_iff)

definition executed :: "world \<Rightarrow> nat \<Rightarrow> server \<Rightarrow> (string \<times> server) outcome \<Rightarrow> bool" where
  "executed w c s r \<longleftrightarrow> (\<exists>reply s'. r = Inr (reply, s') \<and> srv_ok w s' \<and> cells_same c s s' \<and>
     set (enqueue (clients s' c)) \<subseteq> set (enqueue (clients s c)))"

lemma executedI [intro]:
  "srv_ok w s' \<Longrightarrow> cells_same c s s' \<Longrightarrow> set (enqueue (clients s' c)) \<subseteq> set (enqueue (clients s c)) \<Longrightarrow> executed w c s (Inr (reply, s'))"
  by (auto simp: executed_def)

lemma executed_if: "(P \<Longrightarrow> executed w c s a) \<Longrightarrow> (\<not> P \<Longrightarrow> executed w c s b) \<Longrightarrow> executed w c s (if P then a else b)"
  by simp

lemma executed_error [intro]: "srv_ok w s \<Longrightarrow> executed w c s (Inr (r, s))"
  by (rule executedI) simp_all

lemma executed_served:
  assumes "served (env_of w) ks (data s) (f (env_of w) args (data s))" "srv_ok w s"
  shows "executed w c s (run_eval f w args s)"
proof -
  from assms(1) obtain r d' where "f (env_of w) args (data s) = Inr (r, d')" "evolves (env_of w) ks (data s) d'"
    by (auto simp: served_def split: sum.splits)
  then show ?thesis using assms(2) evolves_ok
    by (auto simp: run_eval_def srv_ok_def cells_same_def wf_channels_def)
qed

lemma executed_net:
  "net_only s s' \<Longrightarrow> wf_channels s' \<Longrightarrow> srv_ok w s \<Longrightarrow> \<forall>ch. subs s' ch \<subseteq> insert c (subs s ch) \<Longrightarrow> executed w c s (Inr (r, s'))"
  by (auto simp: net_only_def srv_ok_def cells_same_def)

lemma srv_ok_client [simp]: "srv_ok w (update_client c g s) = srv_ok w s" "srv_ok w (TrackCommand s) = srv_ok w s"
  by (simp_all add: srv_ok_def update_client_def TrackCommand_def wf_channels_def)

lemma update_client_fields [simp]:
  "cmds (update_client c g s) = cmds s" "cmdPool (update_client c g s) = cmdPool s" "cmdNext (update_client c g s) = cmdNext s"
  "clientNext (update_client c g s) = clientNext s" "data (update_client c g s) = data s" "wire (update_client c g s) = wire s"
  "clients (update_client c g s) = (clients s)(c := g (clients s c))"
  "cmds (TrackCommand s) = cmds s" "clients (TrackCommand s) = clients s" "data (TrackCommand s) = data s" "wire (TrackCommand s) = wire s"
  "subs (update_client c g s) = subs s" "subs (TrackCommand s) = subs s"
  "cells_same c' (TrackCommand s) s' = cells_same c' s s'"
  by (simp_all add: update_client_def TrackCommand_def cells_same_def subs_def subscribers_def fun_eq_iff)

lemma execute_switch_executed:
  assumes "srv_ok w s" "config_ok (cfg (env_of w))"
    "name = ''EXEC'' \<Longrightarrow> isTxn (clients s c) \<Longrightarrow> executed w c s (TxnExec exec c s)"
  shows "executed w c s (execute_switch exec w name args c s)"
proof (cases "map_of eval_table name")
  case (Some f)
  then show ?thesis
    using executed_served [where ks = "set args" and f = f and args = args, OF table_served [OF Some _ assms(2)] assms(1)] assms(1)
    by (simp add: execute_switch_def srv_ok_def)
next
  case None
  have multi: "executed w c s (run_eval evalMULTI w args (TxnBegin c s))"
    using assms(1)
    by (auto simp: run_eval_def evalMULTI_def TxnBegin_def update_client_def cells_same_def srv_ok_def wf_channels_def intro!: executedI)
  have disc: "executed w c s (Inr (RESP_OK, TxnDiscard c s))"
    using assms(1) by (auto simp: TxnDiscard_def cells_same_def)
  have info: "executed w c s (Inr (evalINFO w args s))"
    using assms(1) by (auto simp: evalINFO_def Let_def srv_ok_def wf_channels_def cells_same_def)
  have wf: "wf_channels s" using assms(1) by (simp add: srv_ok_def)
  obtain n dk where "DumpAllAOF (env_of w) (data s) (files s) = Inr ((data s)\<lparr>tick := n\<rparr>, dk)"
    using DumpAllAOF_total [OF db_ok_inv] assms(1) unfolding srv_ok_def by blast
  then have bg: "executed w c s (obind (evalBGREWRITEAOF (env_of w) args (data s) (files s))
      (\<lambda>(r, d, dk). Inr (r, s\<lparr>data := d, files := dk\<rparr>)))"
    using assms(1)
    by (auto simp: evalBGREWRITEAOF_def srv_ok_def wf_channels_def cells_same_def db_ok_def StoreLen_def)
  have "executed w c s (Inr (fst r, snd r))"
    if "r = pubsubSubscribe w c args s \<or> r = pubsubUnsubscribe w c args s" for r
    by (rule executed_net)
      (use that assms(1) pubsubSubscribe_spec [OF wf, of w c args] pubsubUnsubscribe_spec [OF wf, of w c args] in
        \<open>auto simp: Let_def split: if_splits\<close>)
  then have ps: "executed w c s (Inr (pubsubSubscribe w c args s))" "executed w c s (Inr (pubsubUnsubscribe w c args s))"
    by simp_all
  have pub: "executed w c s (Inr (pubsubPublish w args s))"
  proof (cases "length args = 2")
    case True
    then obtain ch m where a: "args = [ch, m]" by (auto simp: length_2_conv)
    from pubsubPublish_spec [OF wf, of ch w m] obtain r s' where
      "pubsubPublish w args s = (r, s')" "net_only s s'" "channels s' = channels s" unfolding a by blast
    moreover from this have "wf_channels s'" "\<forall>ch. subs s' ch \<subseteq> insert c (subs s ch)"
      using wf subs_channels [of s' s] by (auto simp: wf_channels_def)
    ultimately show ?thesis using executed_net [OF _ _ assms(1)] by simp
  qed (use assms(1) in \<open>auto simp: pubsubPublish_def\<close>)
  show ?thesis
    unfolding execute_switch_def None option.case
    by (intro executed_if multi disc info bg ps pub executed_error assms(1)) (use assms(3) in simp_all)
qed

lemma txn_loop_executed:
  assumes "srv_ok w s"
    "\<And>p s'. p \<in> set ps \<Longrightarrow> cells_same c s s' \<Longrightarrow> srv_ok w s' \<Longrightarrow> executed w c s' (exec p c s')"
  shows "executed w c s (txn_loop exec c ps s)"
  using assms
proof (induction ps arbitrary: s)
  case (Cons p ps)
  from Cons(3) [of p s] Cons(2) obtain r s1 where
    s1: "exec p c s = Inr (r, s1)" "srv_ok w s1" "cells_same c s s1" "set (enqueue (clients s1 c)) \<subseteq> set (enqueue (clients s c))"
    by (auto simp: executed_def)
  have "executed w c s1 (txn_loop exec c ps s1)"
    by (rule Cons(1) [OF s1(2)]) (use Cons(3) s1(3) cells_same_trans in auto)
  then obtain rs s2 where "txn_loop exec c ps s1 = Inr (rs, s2)" "srv_ok w s2" "cells_same c s1 s2"
      "set (enqueue (clients s2 c)) \<subseteq> set (enqueue (clients s1 c))" by (auto simp: executed_def)
  then show ?case using s1(1,4) cells_same_trans [OF s1(3)] by (auto simp: executed_def)
qed auto

lemma execute_plain:
  assumes "srv_ok w s" "config_ok (cfg (env_of w))" "Cmd (cmds s p) \<noteq> ''EXEC''"
  shows "executed w c s (execute_fuel (Suc n) w p c s)"
  using execute_switch_executed [of w "TrackCommand s" "Cmd (cmds s p)" c "execute_fuel n w" "Args (cmds s p)"] assms
  by (auto simp: executed_def)

definition queue_ok :: "nat \<Rightarrow> server \<Rightarrow> bool" where
  \<comment> \<open>no command queued by the client is \<open>EXEC\<close>\<close>
  "queue_ok c s \<longleftrightarrow> (\<forall>p \<in> set (enqueue (clients s c)). Cmd (cmds s p) \<noteq> ''EXEC'')"

lemma execute_executed:
  assumes "srv_ok w s" "config_ok (cfg (env_of w))" "queue_ok c s"
  shows "executed w c s (execute_fuel (Suc (Suc n)) w p c s)"
proof -
  have t: "executed w c s' (txn_loop (execute_fuel (Suc n) w) c (enqueue (clients s c)) s')"
    if "s' = TrackCommand s" for s'
    by (rule txn_loop_executed)
      (use assms that in \<open>auto simp: queue_ok_def cells_same_def simp del: execute_fuel.simps intro!: execute_plain\<close>)
  have "executed w c (TrackCommand s) (TxnExec (execute_fuel (Suc n) w) c (TrackCommand s))"
    using t [OF refl]
    by (auto simp: TxnExec_def executed_def Let_def TxnDiscard_def cells_same_def simp del: execute_fuel.simps)
  then show ?thesis
    using execute_switch_executed [of w "TrackCommand s" "Cmd (cmds s p)" c "execute_fuel (Suc n) w" "Args (cmds s p)"] assms
    by (simp add: executed_def del: execute_fuel.simps(2) add: execute_fuel.simps(2) [of "Suc n"])
qed

lemma queue_ok_same:
  "cells_same c s s' \<Longrightarrow> set (enqueue (clients s' c)) \<subseteq> set (enqueue (clients s c)) \<Longrightarrow> queue_ok c s \<Longrightarrow> queue_ok c s'"
  by (auto simp: queue_ok_def cells_same_def)

lemma respond_loop_total:
  assumes "srv_ok w s" "config_ok (cfg (env_of w))" "2 \<le> stack w" "queue_ok c s"
  shows "\<exists>out s'. respond_loop w ps c buf s = Inr (out, s') \<and> srv_ok w s' \<and> cells_same c s s' \<and> queue_ok c s'"
  using assms(1,4)
proof (induction ps arbitrary: buf s)
  case (Cons p ps)
  show ?case
  proof (cases "isTxn (clients s c) \<and> \<not> txnCommands (Cmd (cmds s p))")
    case True
    have "cells_same c s (TxnQueue p c s)" by (auto simp: TxnQueue_def cells_same_def)
    moreover have "queue_ok c (TxnQueue p c s)" "srv_ok w (TxnQueue p c s)"
      using True Cons(2,3) by (auto simp: TxnQueue_def queue_ok_def txnCommands_def)
    ultimately show ?thesis using Cons(1) [of "TxnQueue p c s" "buf @ RESP_QUEUED"] True cells_same_trans by fastforce
  next
    case False
    obtain n where "stack w = Suc (Suc n)" using assms(3) by (auto simp: le_iff_add)
    then obtain r s1 where s1: "executeCommand w p c s = Inr (r, s1)" "srv_ok w s1" "cells_same c s s1"
        "set (enqueue (clients s1 c)) \<subseteq> set (enqueue (clients s c))"
      using execute_executed [OF Cons(2) assms(2) Cons(3), of n p]
      by (auto simp: executed_def executeCommand_def simp del: execute_fuel.simps)
    from Cons(1) [OF s1(2) queue_ok_same [OF s1(3,4) Cons(3)], of "buf @ r"] show ?thesis
      using False s1(1) cells_same_trans [OF s1(3)] by auto
  qed
qed auto

section \<open>Transactions\<close>

fun eval_seq :: "env \<Rightarrow> (string \<times> string list) list \<Rightarrow> db \<Rightarrow> (string \<times> db) outcome" where
  \<comment> \<open>commands of the table run one after the other on the database: their replies\<close>
  "eval_seq e [] d = Inr ([], d)"
| "eval_seq e ((name, args) # cs) d =
     (case map_of eval_table name of
        None \<Rightarrow> eval_seq e cs d
      | Some f \<Rightarrow> obind (f e args d) (\<lambda>(r, d). obind (eval_seq e cs d) (\<lambda>(rs, d). Inr (r @ rs, d))))"

definition cell :: "server \<Rightarrow> nat \<Rightarrow> string \<times> string list" where
  "cell s p = (Cmd (cmds s p), Args (cmds s p))"

definition data_command :: "server \<Rightarrow> nat \<Rightarrow> bool" where
  "data_command s p \<longleftrightarrow> map_of eval_table (Cmd (cmds s p)) \<noteq> None"

definition after_cmds :: "nat \<Rightarrow> db \<Rightarrow> server \<Rightarrow> server" where
  \<comment> \<open>the server after \<open>n\<close> commands that left \<open>d\<close> behind\<close>
  "after_cmds n d s = s\<lparr>data := d, CommandsProcessed := CommandsProcessed s + of_nat n\<rparr>"

lemma after_cmds_fields [simp]:
  "cmds (after_cmds n d s) = cmds s" "clients (after_cmds n d s) = clients s" "data (after_cmds n d s) = d" "wire (after_cmds n d s) = wire s"
  "after_cmds m d' (after_cmds n d s) = after_cmds (m + n) d' s" "cell (after_cmds n d s) = cell s" "data_command (after_cmds n d s) = data_command s"
  "after_cmds 0 (data s) s = s"
  by (simp_all add: after_cmds_def cell_def data_command_def fun_eq_iff)

lemma eval_seq_total:
  assumes "db_ok e d" "config_ok (cfg e)"
  shows "\<exists>rs d'. eval_seq e cs d = Inr (rs, d') \<and> db_ok e d'"
  using assms(1)
proof (induction cs arbitrary: d)
  case (Cons x cs)
  obtain name args where x: "x = (name, args)" by force
  show ?case
  proof (cases "map_of eval_table name")
    case None
    then show ?thesis using Cons x by simp
  next
    case (Some f)
    from table_served [OF Some Cons(2) assms(2), of args] obtain r d1 where
      f: "f e args d = Inr (r, d1)" "db_ok e d1"
      by (auto simp: served_def evolves_ok split: sum.splits)
    from Cons(1) [OF f(2)] f(1) Some x show ?thesis by auto
  qed
qed auto

lemma table_none [simp]: "map_of eval_table ''EXEC'' = None" "map_of eval_table ''MULTI'' = None" "map_of eval_table ''DISCARD'' = None"
  by (simp_all add: eval_table_def)

lemma data_command_plain: "data_command s p \<Longrightarrow> \<not> txnCommands (Cmd (cmds s p))"
  by (auto simp: data_command_def txnCommands_def)

lemma execute_data:
  assumes "data_command s p"
  shows "execute_fuel (Suc n) w p c s = obind (eval_seq (env_of w) [cell s p] (data s)) (\<lambda>(r, d). Inr (r, after_cmds 1 d s))"
proof -
  from assms obtain f where f: "map_of eval_table (Cmd (cmds s p)) = Some f" by (auto simp: data_command_def)
  show ?thesis
  proof (cases "f (env_of w) (Args (cmds s p)) (data s)")
    case (Inl x)
    then show ?thesis using f by (simp add: cell_def execute_switch_def run_eval_def)
  next
    case (Inr x)
    then show ?thesis using f by (cases x) (simp add: cell_def execute_switch_def run_eval_def after_cmds_def TrackCommand_def)
  qed
qed

lemma eval_seq_Cons: "eval_seq e (x # cs) d = obind (eval_seq e [x] d) (\<lambda>(r, d). obind (eval_seq e cs d) (\<lambda>(rs, d). Inr (r @ rs, d)))"
  by (cases x) (auto simp: obind_def split: option.splits sum.splits)

lemma txn_loop_data:
  "\<forall>p \<in> set ps. data_command s p \<Longrightarrow>
   txn_loop (execute_fuel (Suc n) w) c ps s =
     obind (eval_seq (env_of w) (map (cell s) ps) (data s)) (\<lambda>(rs, d). Inr (rs, after_cmds (length ps) d s))"
proof (induction ps arbitrary: s)
  case (Cons p ps)
  have "txn_loop (execute_fuel (Suc n) w) c ps (after_cmds 1 d s) =
      obind (eval_seq (env_of w) (map (cell s) ps) d) (\<lambda>(rs, d). Inr (rs, after_cmds (length (p # ps)) d s))" for d
    using Cons(1) [of "after_cmds 1 d s"] Cons(2) by simp
  then show ?case
    using Cons(2) execute_data [of s p n w c]
    by (simp add: eval_seq_Cons [of _ "cell s p" "map (cell s) ps"] obind_def del: execute_fuel.simps split: sum.splits)
qed simp

lemma respond_loop_data:
  "\<forall>p \<in> set ps. data_command s p \<Longrightarrow> \<not> isTxn (clients s c) \<Longrightarrow> 1 \<le> stack w \<Longrightarrow>
   respond_loop w ps c buf s =
     obind (eval_seq (env_of w) (map (cell s) ps) (data s)) (\<lambda>(rs, d). Inr (buf @ rs, after_cmds (length ps) d s))"
proof (induction ps arbitrary: buf s)
  case (Cons p ps)
  obtain n where n: "stack w = Suc n" using Cons(4) by (cases "stack w") auto
  have "respond_loop w ps c b (after_cmds 1 d s) =
      obind (eval_seq (env_of w) (map (cell s) ps) d) (\<lambda>(rs, d). Inr (b @ rs, after_cmds (length (p # ps)) d s))" for b d
    using Cons(1) [of "after_cmds 1 d s"] Cons(2-4) by simp
  then show ?case
    using Cons(2,3) execute_data [of s p n w c]
    by (simp add: eval_seq_Cons [of _ "cell s p" "map (cell s) ps"] obind_def executeCommand_def n del: execute_fuel.simps split: sum.splits)
qed simp

definition queued :: "nat \<Rightarrow> nat list \<Rightarrow> server \<Rightarrow> server" where
  "queued c ps s = update_client c (\<lambda>cl. cl\<lparr>enqueue := enqueue cl @ ps\<rparr>) s"

lemma respond_loop_queue:
  "isTxn (clients s c) \<Longrightarrow> \<forall>p \<in> set ps. \<not> txnCommands (Cmd (cmds s p)) \<Longrightarrow>
   respond_loop w (ps @ qs) c buf s = respond_loop w qs c (buf @ concat (replicate (length ps) RESP_QUEUED)) (queued c ps s)"
proof (induction ps arbitrary: buf s)
  case Nil
  then show ?case by (simp add: queued_def update_client_def)
next
  case (Cons p ps)
  have "queued c ps (TxnQueue p c s) = queued c (p # ps) s" by (simp add: queued_def TxnQueue_def update_client_def)
  then show ?case using Cons(1) [of "TxnQueue p c s" "buf @ RESP_QUEUED"] Cons(2,3) by (simp add: TxnQueue_def)
qed

lemma data_command_cong: "cmds s' = cmds s \<Longrightarrow> data_command s' = data_command s \<and> cell s' = cell s"
  by (simp add: data_command_def cell_def fun_eq_iff)

lemma run_MULTI [simp]: "run_eval evalMULTI w args s = Inr (RESP_OK, s)"
  by (simp add: run_eval_def evalMULTI_def)

lemma respond_multi:
  assumes "Cmd (cmds s m) = ''MULTI''" "\<not> isTxn (clients s c)" "1 \<le> stack w"
  shows "respond_loop w (m # qs) c buf s = respond_loop w qs c (buf @ RESP_OK) (TxnBegin c (TrackCommand s))"
proof -
  obtain n where "stack w = Suc n" using assms(3) by (cases "stack w") auto
  then show ?thesis using assms(1,2) by (simp add: executeCommand_def execute_switch_def)
qed

lemma respond_exec:
  assumes "Cmd (cmds s x) = ''EXEC''" "isTxn (clients s c)" "2 \<le> stack w" "\<forall>p \<in> set (enqueue (clients s c)). data_command s p"
    "eval_seq (env_of w) (map (cell s) (enqueue (clients s c))) (data s) = Inr (rs, d)"
  shows "respond_loop w [x] c buf s =
    Inr (buf @ CHR ''*'' # FormatInt (of_nat (length (enqueue (clients s c)))) @ CRLF @ rs,
      TxnDiscard c (after_cmds (length (enqueue (clients s c))) d (TrackCommand s)))"
proof -
  obtain n where n: "stack w = Suc (Suc n)" using assms(3) by (auto simp: le_iff_add)
  note c = data_command_cong [of "TrackCommand s" s, simplified]
  have "txn_loop (execute_fuel (Suc n) w) c (enqueue (clients s c)) (TrackCommand s) =
      Inr (rs, after_cmds (length (enqueue (clients s c))) d (TrackCommand s))"
    using txn_loop_data [of "enqueue (clients s c)" "TrackCommand s" n w c] assms(4,5) c by (simp del: execute_fuel.simps)
  then have "executeCommand w x c s = Inr (CHR ''*'' # FormatInt (of_nat (length (enqueue (clients s c)))) @ CRLF @ rs,
      TxnDiscard c (after_cmds (length (enqueue (clients s c))) d (TrackCommand s)))"
    using assms(1,2) n
    by (simp add: executeCommand_def execute_fuel.simps(2) [of "Suc n"] execute_switch_def TxnExec_def Let_def del: execute_fuel.simps)
  then show ?thesis using assms(1) by (simp add: txnCommands_def)
qed

section \<open>Properties\<close>

text \<open>C1: whatever commands a client pipelines, with whatever arguments, the server answers: no
  command panics or loops, the batch ends in one write to the client's connection, the
  database and the channels keep their invariants, and no other client, no command cell and
  no pool is touched. The only condition is that no command in the client's own queue has
  become \<open>EXEC\<close>, and two nested calls of the dispatcher are enough.\<close>

theorem EvalAndRespond_answers:
  assumes "db_ok (env_of w) (data s)" "wf_channels s" "config_ok (cfg (env_of w))" "2 \<le> stack w" "queue_ok c s"
  shows "\<exists>s' before reply. EvalAndRespond w ps c s = Inr s' \<and> wire s' = before @ [(Fd (clients s c), reply)] \<and>
    db_ok (env_of w) (data s') \<and> wf_channels s' \<and> cells_same c s s' \<and> queue_ok c s'"
proof -
  have "srv_ok w s" using assms(1,2) by (simp add: srv_ok_def)
  from respond_loop_total [OF this assms(3-5), of ps "[]"] obtain out s' where
    "respond_loop w ps c [] s = Inr (out, s')" "srv_ok w s'" "cells_same c s s'" "queue_ok c s'" by blast
  moreover define s2 where "s2 = snd (Client_Write w c out s')"
  moreover have "wire s2 = wire s' @ [(Fd (clients s' c), out)]" "Fd (clients s' c) = Fd (clients s c)"
    using \<open>cells_same c s s'\<close> by (simp_all add: s2_def cells_same_def)
  ultimately have "EvalAndRespond w ps c s = Inr s2 \<and> wire s2 = wire s' @ [(Fd (clients s c), out)] \<and> srv_ok w s2 \<and>
      cells_same c s s2 \<and> queue_ok c s2"
    by (simp add: EvalAndRespond_def srv_ok_def Client_Write_def wf_channels_def cells_same_def queue_ok_def)
  then show ?thesis by (auto simp: srv_ok_def)
qed

text \<open>C2: a transaction that arrives in one batch is the same as its commands without \<open>MULTI\<close> and
  \<open>EXEC\<close>: run from the same state it leaves the same database, and its reply consists of
  \<open>OK\<close>, one \<open>QUEUED\<close> per command, and an array of exactly the replies of the plain batch;
  the client's queue is empty afterwards. This is for commands that only use the database.\<close>

theorem transaction_is_pipeline:
  assumes "db_ok (env_of w) (data s)" "config_ok (cfg (env_of w))" "2 \<le> stack w"
    "\<not> isTxn (clients s c)" "enqueue (clients s c) = []"
    "Cmd (cmds s m) = ''MULTI''" "Cmd (cmds s x) = ''EXEC''" "\<forall>p \<in> set ps. data_command s p"
  shows "\<exists>rs t u. EvalAndRespond w ps c s = Inr t \<and> EvalAndRespond w (m # ps @ [x]) c s = Inr u \<and> data u = data t \<and>
    wire t = wire s @ [(Fd (clients s c), rs)] \<and>
    wire u = wire s @ [(Fd (clients s c), RESP_OK @ concat (replicate (length ps) RESP_QUEUED) @
      CHR ''*'' # FormatInt (of_nat (length ps)) @ CRLF @ rs)] \<and>
    \<not> isTxn (clients u c) \<and> enqueue (clients u c) = []"
proof -
  let ?s1 = "TxnBegin c (TrackCommand s)"
  let ?s2 = "queued c ps ?s1"
  have "cmds ?s2 = cmds s" by (simp add: queued_def TxnBegin_def)
  note c = data_command_cong [OF this]
  obtain rs d where rs: "eval_seq (env_of w) (map (cell s) ps) (data s) = Inr (rs, d)"
    using eval_seq_total [OF assms(1,2)] by blast
  have t: "respond_loop w ps c [] s = Inr (rs, after_cmds (length ps) d s)"
    using respond_loop_data [of ps s c w "[]"] assms(3,4,8) rs by simp
  have q: "isTxn (clients ?s2 c)" "enqueue (clients ?s2 c) = ps" "data ?s2 = data s" "Cmd (cmds ?s2 x) = ''EXEC''"
    using assms(5,7) by (simp_all add: queued_def TxnBegin_def)
  have e: "respond_loop w [x] c (RESP_OK @ concat (replicate (length ps) RESP_QUEUED)) ?s2 =
      Inr ((RESP_OK @ concat (replicate (length ps) RESP_QUEUED)) @ CHR ''*'' # FormatInt (of_nat (length ps)) @ CRLF @ rs,
        TxnDiscard c (after_cmds (length ps) d (TrackCommand ?s2)))"
    using respond_exec [OF q(4,1) assms(3), of rs d "RESP_OK @ concat (replicate (length ps) RESP_QUEUED)"] assms(8) rs
    by (simp only: c q)
  have "respond_loop w (m # ps @ [x]) c [] s = respond_loop w (ps @ [x]) c RESP_OK ?s1"
    using respond_multi [OF assms(6,4), of w "ps @ [x]" "[]"] assms(3) by simp
  also have "\<dots> = respond_loop w [x] c (RESP_OK @ concat (replicate (length ps) RESP_QUEUED)) ?s2"
    by (rule respond_loop_queue) (use assms(8) data_command_plain in \<open>auto simp: TxnBegin_def\<close>)
  finally have u: "respond_loop w (m # ps @ [x]) c [] s = Inr ((RESP_OK @ concat (replicate (length ps) RESP_QUEUED)) @
        CHR ''*'' # FormatInt (of_nat (length ps)) @ CRLF @ rs, TxnDiscard c (after_cmds (length ps) d (TrackCommand ?s2)))"
    unfolding e .
  show ?thesis
    unfolding EvalAndRespond_def t u
    by (intro exI [of _ rs]) (simp add: TxnDiscard_def queued_def TxnBegin_def Client_Write_def)
qed

definition batch_server :: "(string \<times> string list) list \<Rightarrow> server" where
  \<comment> \<open>a fresh server whose cells hold the given commands\<close>
  "batch_server cs = (init_server (init_db 5 5) good_disk)
     \<lparr>cmds := (\<lambda>p. if p < length cs then \<lparr>Cmd = fst (cs ! p), Args = snd (cs ! p)\<rparr> else \<lparr>Cmd = [], Args = []\<rparr>)\<rparr>"

lemma batch_server_ok [simp]:
  "db_ok default_env (data (batch_server cs))" "wf_channels (batch_server cs)" "\<not> isTxn (clients (batch_server cs) c)"
  "enqueue (clients (batch_server cs) c) = []"
  using init_server_channels(1) [of "init_db 5 5" good_disk]
  by (simp_all add: batch_server_def init_server_def init_db_ok wf_channels_def)

lemma calm_world_ok [simp]: "env_of calm_world = default_env" "stack calm_world = 9"
  by (simp_all add: calm_world_def)

lemma EvalAndRespond_answers_witness:
  "\<exists>s'. EvalAndRespond calm_world [0] 0 (batch_server [(''PING'', [])]) = Inr s' \<and> wf_channels s'"
proof -
  have "queue_ok 0 (batch_server [(''PING'', [])])" by (simp add: queue_ok_def)
  from EvalAndRespond_answers [OF _ _ _ _ this, of calm_world "[0]"] show ?thesis by auto
qed

lemma transaction_is_pipeline_witness:
  "\<exists>t u. EvalAndRespond calm_world [1] 0 (batch_server [(''MULTI'', []), (''SET'', [''k'', ''v'']), (''EXEC'', [])]) = Inr t \<and>
     EvalAndRespond calm_world [0, 1, 2] 0 (batch_server [(''MULTI'', []), (''SET'', [''k'', ''v'']), (''EXEC'', [])]) = Inr u \<and>
     data u = data t"
proof -
  let ?s = "batch_server [(''MULTI'', []), (''SET'', [''k'', ''v'']), (''EXEC'', [])]"
  have "Cmd (cmds ?s 0) = ''MULTI''" "Cmd (cmds ?s 2) = ''EXEC''" "\<forall>p \<in> set [1]. data_command ?s p"
    by (simp_all add: batch_server_def data_command_def eval_table_def)
  from transaction_is_pipeline [OF _ _ _ batch_server_ok(3,4) this, of calm_world 0] show ?thesis by auto
qed

section \<open>A transaction in more than one packet\<close>

definition pool_lifo :: "world \<Rightarrow> bool" where
  \<comment> \<open>the pool hands out the command that was returned last, as \<open>sync.Pool\<close> does on one thread
    when packets of one command come one after the other (its private slot)\<close>
  "pool_lifo w \<longleftrightarrow> cmd_get w = (\<lambda>n pool. case pool of [] \<Rightarrow> None | p # _ \<Rightarrow> Some p)"

lemma get_cmd_lifo: "pool_lifo w \<Longrightarrow> cmdPool s = p # ps \<Longrightarrow> get_cmd w s = (p, (advance s)\<lparr>cmdPool := ps\<rparr>)"
  by (simp add: pool_lifo_def get_cmd_def cmd_choice_def)

lemma get_cmd_fields:
  obtains p s1 where "get_cmd w s = (p, s1)" "clients s1 = clients s" "data s1 = data s"
  by (cases "cmd_choice w s") (auto simp: get_cmd_def advance_def)

lemma execute_overflow:
  "isTxn (clients s c) \<Longrightarrow> enqueue (clients s c) = p # ps \<Longrightarrow> Cmd (cmds s p) = ''EXEC'' \<Longrightarrow> execute_fuel n w p c s = Inl StackOverflow"
  by (induction n arbitrary: s) (simp_all add: execute_switch_def TxnExec_def)

lemma handle_one:
  assumes "get_cmd w s = (p, s1)"
  shows "handle_batch w c [cmd] s =
    obind (EvalAndRespond w [p] c (fill_cmd p cmd s1)) (\<lambda>s. Inr (FreeCmds [p] s))"
  using assms by (simp add: handle_batch_def)

text \<open>C12: a transaction must not be spread over packets: when \<open>MULTI\<close>, a command and \<open>EXEC\<close> arrive one
  by one, the queue holds the cell of the command, which went back to the pool with its packet
  and is handed out again for \<open>EXEC\<close>. The queued command has become \<open>EXEC\<close> itself, which
  executes the queue, and so on: whatever the command was and however deep the stack is, it
  overflows, which ends the process.\<close>

theorem split_transaction_overflows:
  assumes "pool_lifo w" "1 \<le> stack w" "\<not> isTxn (clients s c)" "enqueue (clients s c) = []" "\<not> txnCommands name"
  shows "obind (handle_batch w c [(Some ''MULTI'', [])] s) (\<lambda>s1.
      obind (handle_batch w c [(Some name, args)] s1) (handle_batch w c [(Some ''EXEC'', [])])) = Inl StackOverflow"
proof -
  obtain p s0 where g: "get_cmd w s = (p, s0)" "clients s0 = clients s" "data s0 = data s" by (rule get_cmd_fields)
  define b1 where "b1 = fill_cmd p (Some ''MULTI'', []) s0"
  define s1 where "s1 = FreeCmds [p] (snd (Client_Write w c RESP_OK (TxnBegin c (TrackCommand b1))))"
  have b1: "Cmd (cmds b1 p) = ''MULTI''" "clients b1 = clients s" using g by (simp_all add: b1_def fill_cmd_def)
  have 1: "handle_batch w c [(Some ''MULTI'', [])] s = Inr s1"
    using respond_multi [OF b1(1), of c w "[]" "[]"] b1 assms(2,3)
    by (simp add: handle_one [OF g(1)] EvalAndRespond_def b1_def [symmetric] s1_def)
  have f1: "isTxn (clients s1 c)" "enqueue (clients s1 c) = []" "cmdPool s1 = p # cmdPool b1"
    using b1 assms(4) by (simp_all add: s1_def FreeCmds_def Client_Write_def TxnBegin_def TrackCommand_def)
  define b2 where "b2 = fill_cmd p (Some name, args) ((advance s1)\<lparr>cmdPool := cmdPool b1\<rparr>)"
  define s2 where "s2 = FreeCmds [p] (snd (Client_Write w c RESP_QUEUED (TxnQueue p c b2)))"
  have b2: "Cmd (cmds b2 p) = name" "isTxn (clients b2 c)" "enqueue (clients b2 c) = []"
    using f1 by (simp_all add: b2_def fill_cmd_def advance_def)
  have 2: "handle_batch w c [(Some name, args)] s1 = Inr s2"
    using b2 assms(5)
    by (simp add: handle_one [OF get_cmd_lifo [OF assms(1) f1(3)]] EvalAndRespond_def b2_def [symmetric] s2_def)
  have f2: "isTxn (clients s2 c)" "enqueue (clients s2 c) = [p]" "cmdPool s2 = p # cmdPool b2"
    using b2 by (simp_all add: s2_def FreeCmds_def Client_Write_def TxnQueue_def)
  define b3 where "b3 = fill_cmd p (Some ''EXEC'', []) ((advance s2)\<lparr>cmdPool := cmdPool b2\<rparr>)"
  have b3: "Cmd (cmds b3 p) = ''EXEC''" "isTxn (clients b3 c)" "enqueue (clients b3 c) = [p]"
    using f2 by (simp_all add: b3_def fill_cmd_def advance_def)
  have "handle_batch w c [(Some ''EXEC'', [])] s2 = Inl StackOverflow"
    using execute_overflow [OF b3(2,3,1)] b3
    by (simp add: handle_one [OF get_cmd_lifo [OF assms(1) f2(3)]] EvalAndRespond_def b3_def [symmetric] executeCommand_def
        txnCommands_def)
  with 1 2 show ?thesis by simp
qed

lemma split_transaction_overflows_witness:
  "obind (handle_batch (calm_world\<lparr>cmd_get := (\<lambda>n pool. case pool of [] \<Rightarrow> None | p # _ \<Rightarrow> Some p)\<rparr>) 0
       [(Some ''MULTI'', [])] (batch_server [])) (\<lambda>s1.
     obind (handle_batch (calm_world\<lparr>cmd_get := (\<lambda>n pool. case pool of [] \<Rightarrow> None | p # _ \<Rightarrow> Some p)\<rparr>) 0
       [(Some ''GET'', [''k''])] s1)
     (handle_batch (calm_world\<lparr>cmd_get := (\<lambda>n pool. case pool of [] \<Rightarrow> None | p # _ \<Rightarrow> Some p)\<rparr>) 0
       [(Some ''EXEC'', [])])) = Inl StackOverflow"
  by (rule split_transaction_overflows) (simp_all add: pool_lifo_def txnCommands_def)

end
