(* ===== verification/Server.thy ===== *)
theory Server
  imports Dispatch
begin

text \<open>
  The event loop of \<open>server/async_tcp.go\<close>: what it does with one event, a function on the state
  of the server, and the cron. The invariant \<open>engine_ok\<close> ties the connections to the clients, the
  channels and the pool of command cells.

  The kernel is the environment: which descriptors are ready, what \<open>accept\<close> and \<open>read\<close> return,
  the clocks. A buffer of \<open>ReadBufPool\<close> holds the bytes read, followed by what it held before.
\<close>

section \<open>The connections\<close>

record engine =
  srv :: server
  connectedClients :: "(int, nat) gomap"
  con_client :: int
  lastCronExecTime :: int

datatype read_result =
    ReadError
  | ReadBytes string string \<comment> \<open>the bytes read, and the rest of the buffer\<close>

datatype event =
    Incoming "int option" bool \<comment> \<open>the result of \<open>accept\<close>, and whether \<open>epoll_ctl\<close> succeeds\<close>
  | Ready int read_result

definition readCommands :: "world \<Rightarrow> read_result \<Rightarrow> (parsed list \<times> bool) outcome" where
  \<comment> \<open>the commands for which the decoder took a cell, and whether it ended in an error\<close>
  "readCommands w r =
     (case r of
        ReadError \<Rightarrow> Inr ([], True)
      | ReadBytes bs rest \<Rightarrow>
          obind (DecodeCommands (upper_uni (env_of w)) (bs @ rest, length bs)) (\<lambda>(cs, err).
            Inr (case err of
                   None \<Rightarrow> (cs, False)
                 | Some (_, None) \<Rightarrow> (cs, True)
                 | Some (_, Some c) \<Rightarrow> (cs @ [c], True))))"

definition accept_client :: "int \<Rightarrow> engine \<Rightarrow> engine" where
  "accept_client fd n =
     (let (c, s) = NewClient fd (TrackConnection (srv n)) in
      n\<lparr>srv := s, con_client := con_client n + 1, connectedClients := AList.update fd c (connectedClients n)\<rparr>)"

definition close_client :: "world \<Rightarrow> int \<Rightarrow> nat \<Rightarrow> engine \<Rightarrow> engine" where
  "close_client w fd c n =
     n\<lparr>srv := RemoveClientFromPubSub w c (srv n), con_client := con_client n - 1,
       connectedClients := AList.delete fd (connectedClients n)\<rparr>"

datatype begun =
    Handled engine
  | Batch nat "nat list" engine \<comment> \<open>the commands of a client that are to be answered\<close>

definition begin_event :: "world \<Rightarrow> event \<Rightarrow> engine \<Rightarrow> begun outcome" where
  \<comment> \<open>the body of the loop over the events of one \<open>EpollWait\<close>, up to \<open>respondAsync\<close>; the decoder
    takes a cell from the pool for each command, and an error leaves these behind\<close>
  "begin_event w ev n =
     (case ev of
        Incoming None ok \<Rightarrow> Inr (Handled n)
      | Incoming (Some fd) ok \<Rightarrow> if ok then Inr (Handled (accept_client fd n)) else Inl Fatal
      | Ready fd r \<Rightarrow>
          (case map_of (connectedClients n) fd of
             None \<Rightarrow> Inr (Handled n)
           | Some c \<Rightarrow>
               obind (readCommands w r) (\<lambda>(cs, err).
                 let (ps, s) = load_cmds w cs (srv n); n = n\<lparr>srv := s\<rparr>
                 in Inr (if err then Handled (close_client w fd c n) else Batch c ps n))))"

definition end_batch :: "world \<Rightarrow> nat \<Rightarrow> string \<Rightarrow> nat list \<Rightarrow> engine \<Rightarrow> engine" where
  \<comment> \<open>the write of the replies, and \<open>FreeCmds\<close>\<close>
  "end_batch w c buf ps n = n\<lparr>srv := FreeCmds ps (snd (Client_Write w c buf (srv n)))\<rparr>"

definition handle_event :: "world \<Rightarrow> event \<Rightarrow> engine \<Rightarrow> engine outcome" where
  "handle_event w ev n =
     obind (begin_event w ev n) (\<lambda>b.
       case b of
         Handled n \<Rightarrow> Inr n
       | Batch c ps n \<Rightarrow>
           obind (respond_loop w ps c [] (srv n)) (\<lambda>(buf, s). Inr (end_batch w c buf ps (n\<lparr>srv := s\<rparr>))))"

definition UpdateCachedTime :: "int64 \<Rightarrow> server \<Rightarrow> server" where
  "UpdateCachedTime ms s = s\<lparr>data := (data s)\<lparr>GlobalCachedTime := ms\<rparr>\<rparr>"

definition cronFrequency :: int where
  \<comment> \<open>one second in nanoseconds\<close>
  "cronFrequency = 1000000000"

definition cron :: "world \<Rightarrow> int \<Rightarrow> int \<Rightarrow> engine \<Rightarrow> engine" where
  \<comment> \<open>\<open>now\<close> and \<open>later\<close> are the two readings of the clock\<close>
  "cron w now later n =
     (if lastCronExecTime n + cronFrequency < now
      then n\<lparr>srv := (srv n)\<lparr>data := DeleteExpiredKey (env_of w) (data (srv n))\<rparr>, lastCronExecTime := later\<rparr>
      else n)"

section \<open>What every command keeps, if it returns\<close>

definition keeps :: "world \<Rightarrow> nat \<Rightarrow> server \<Rightarrow> (string \<times> server) outcome \<Rightarrow> bool" where
  "keeps w c s r \<longleftrightarrow> (\<forall>reply s'. r = Inr (reply, s') \<longrightarrow> srv_ok w s' \<and> cells_same c s s')"

lemma keeps_executed: "executed w c s r \<Longrightarrow> keeps w c s r"
  by (auto simp: executed_def keeps_def)

lemma keeps_Inl [simp]: "keeps w c s (Inl x)"
  by (simp add: keeps_def)

lemma keeps_Inr [simp]: "keeps w c s (Inr (reply, s')) \<longleftrightarrow> srv_ok w s' \<and> cells_same c s s'"
  by (simp add: keeps_def)

lemma keeps_obind:
  assumes "keeps w c s r" "\<And>reply s1. srv_ok w s1 \<Longrightarrow> cells_same c s s1 \<Longrightarrow> keeps w c s1 (f (reply, s1))"
  shows "keeps w c s (obind r f)"
proof (cases r)
  case (Inr x)
  obtain reply s1 where x: "x = (reply, s1)" by force
  then have "srv_ok w s1" "cells_same c s s1" using assms(1) Inr by simp_all
  with assms(2) [OF this, of reply] show ?thesis
    unfolding Inr x by (auto simp: keeps_def intro: cells_same_trans)
qed simp

lemma txn_loop_keeps:
  assumes "srv_ok w s" "\<And>p s. srv_ok w s \<Longrightarrow> keeps w c s (exec p c s)"
  shows "keeps w c s (txn_loop exec c ps s)"
  using assms(1)
proof (induction ps arbitrary: s)
  case (Cons p ps)
  then show ?case using assms(2) by (auto intro!: keeps_obind)
qed simp

lemma execute_keeps:
  assumes "config_ok (cfg (env_of w))"
  shows "srv_ok w s \<Longrightarrow> keeps w c s (execute_fuel n w p c s)"
proof (induction n arbitrary: p s)
  case (Suc n)
  let ?s = "TrackCommand s" and ?name = "Cmd (cmds s p)"
  have ok: "srv_ok w ?s" using Suc(2) by simp
  have "keeps w c ?s (execute_switch (execute_fuel n w) w ?name (Args (cmds s p)) c ?s)"
  proof (cases "?name = ''EXEC'' \<and> isTxn (clients ?s c)")
    case True
    have "keeps w c ?s (TxnExec (execute_fuel n w) c ?s)"
      unfolding TxnExec_def Let_def
      by (rule keeps_obind, rule txn_loop_keeps [OF ok], rule Suc(1)) (auto simp: TxnDiscard_def cells_same_def)
    then show ?thesis using True by (simp add: execute_switch_def)
  next
    case False
    then show ?thesis by (intro keeps_executed execute_switch_executed [OF ok assms]) auto
  qed
  then show ?case by (simp add: keeps_def)
qed simp

lemma respond_loop_keeps:
  assumes "config_ok (cfg (env_of w))"
  shows "srv_ok w s \<Longrightarrow> keeps w c s (respond_loop w ps c buf s)"
proof (induction ps arbitrary: buf s)
  case (Cons p ps)
  have q: "cells_same c s (TxnQueue p c s)" "srv_ok w (TxnQueue p c s)"
    using Cons(2) by (auto simp: TxnQueue_def cells_same_def)
  show ?case
    using Cons(1) [OF q(2)] q(1) Cons(2)
    by (auto simp: executeCommand_def keeps_def [of w c s "respond_loop w ps c _ _"] keeps_def [of w c "TxnQueue p c s"]
        intro!: keeps_obind execute_keeps [OF assms] Cons(1) intro: cells_same_trans)
qed simp

lemma EvalAndRespond_keeps:
  assumes "config_ok (cfg (env_of w))" "srv_ok w s" "EvalAndRespond w ps c s = Inr s'"
  shows "srv_ok w s' \<and> cells_same c s s'"
proof -
  obtain buf s1 where r: "respond_loop w ps c [] s = Inr (buf, s1)" and s': "s' = snd (Client_Write w c buf s1)"
    using assms(3) by (auto simp: EvalAndRespond_def obind_eq_Inr)
  have "srv_ok w s1" "cells_same c s s1" using respond_loop_keeps [OF assms(1,2), of c ps "[]"] r by simp_all
  then show ?thesis unfolding s' by (auto simp: srv_ok_def cells_same_def Client_Write_def wf_channels_def)
qed

section \<open>The pool of commands\<close>

definition pool_inv :: "server \<Rightarrow> bool" where
  "pool_inv s \<longleftrightarrow> distinct (cmdPool s) \<and> (\<forall>p \<in> set (cmdPool s). p < cmdNext s)"

definition cells_only :: "server \<Rightarrow> server \<Rightarrow> bool" where
  \<comment> \<open>a step that touches the commands and their pool only\<close>
  "cells_only s s' \<longleftrightarrow> data s' = data s \<and> files s' = files s \<and> channels s' = channels s \<and> clients s' = clients s \<and>
     clientNext s' = clientNext s \<and> wire s' = wire s"

lemma cells_only_srv: "cells_only s s' \<Longrightarrow> srv_ok w s' = srv_ok w s \<and> subs s' = subs s"
  using subs_channels [of s' s] by (simp add: cells_only_def srv_ok_def wf_channels_def)

lemma get_cmd_spec:
  assumes "pool_inv s" "get_cmd w s = (p, s')"
  shows "pool_inv s' \<and> cells_only s s' \<and> p < cmdNext s' \<and> p \<notin> set (cmdPool s') \<and> cmdNext s \<le> cmdNext s' \<and>
    set (cmdPool s') \<subseteq> set (cmdPool s) \<and> (p \<in> set (cmdPool s) \<or> cmdNext s \<le> p)"
proof (cases "cmd_choice w s")
  case None
  moreover have "\<forall>q \<in> set (cmdPool s). q < Suc (cmdNext s) \<and> q \<noteq> cmdNext s"
    using assms(1) by (fastforce simp: pool_inv_def)
  ultimately show ?thesis using assms by (auto simp: get_cmd_def pool_inv_def cells_only_def advance_def)
next
  case (Some q)
  have "q \<in> set (cmdPool s)" using Some by (auto simp: cmd_choice_def split: option.splits if_splits)
  then show ?thesis using assms Some by (auto simp: get_cmd_def pool_inv_def cells_only_def advance_def)
qed

lemma load_cmds_spec:
  "pool_inv s \<Longrightarrow> load_cmds w cs s = (ps, s') \<Longrightarrow>
   pool_inv s' \<and> cells_only s s' \<and> distinct ps \<and> set ps \<inter> set (cmdPool s') = {} \<and> (\<forall>p \<in> set ps. p < cmdNext s') \<and>
   cmdNext s \<le> cmdNext s' \<and> set (cmdPool s') \<subseteq> set (cmdPool s) \<and> (\<forall>p \<in> set ps. p \<in> set (cmdPool s) \<or> cmdNext s \<le> p)"
proof (induction cs arbitrary: s ps s')
  case (Cons c cs)
  obtain p s1 where g: "get_cmd w s = (p, s1)" by force
  obtain qs s2 where l: "load_cmds w cs (fill_cmd p c s1) = (qs, s2)" by force
  have ps: "ps = p # qs" "s' = s2" using Cons(3) g l by simp_all
  note G = get_cmd_spec [OF Cons(2) g]
  have "pool_inv (fill_cmd p c s1)" using G by (simp add: pool_inv_def fill_cmd_def)
  from Cons(1) [OF this l] have L: "pool_inv s2" "cells_only s1 s2" "distinct qs" "set qs \<inter> set (cmdPool s2) = {}"
    "\<forall>p \<in> set qs. p < cmdNext s2" "cmdNext s1 \<le> cmdNext s2" "set (cmdPool s2) \<subseteq> set (cmdPool s1)"
    "\<forall>p \<in> set qs. p \<in> set (cmdPool s1) \<or> cmdNext s1 \<le> p"
    by (simp_all add: fill_cmd_def cells_only_def)
  have "p \<notin> set qs" using L(8) G by auto
  moreover have "cells_only s s2" using G L(2) by (simp add: cells_only_def)
  moreover have "p \<notin> set (cmdPool s2)" "p < cmdNext s2" "cmdNext s \<le> cmdNext s2" "set (cmdPool s2) \<subseteq> set (cmdPool s)"
    using G L(6,7) by auto
  moreover have "\<forall>q \<in> set qs. q \<in> set (cmdPool s) \<or> cmdNext s \<le> q" using L(8) G by (meson le_trans subsetD)
  ultimately show ?case using L(1,3,4,5) G by (simp add: ps)
qed (simp add: cells_only_def)

lemma FreeCmds_spec:
  "pool_inv s \<Longrightarrow> distinct ps \<Longrightarrow> set ps \<inter> set (cmdPool s) = {} \<Longrightarrow> \<forall>p \<in> set ps. p < cmdNext s \<Longrightarrow>
   pool_inv (FreeCmds ps s) \<and> cells_only s (FreeCmds ps s)"
proof (induction ps arbitrary: s)
  case (Cons p ps)
  let ?s = "s\<lparr>cmds := (cmds s)(p := (cmds s p)\<lparr>Args := []\<rparr>), cmdPool := p # cmdPool s\<rparr>"
  have "pool_inv ?s" using Cons(2,4,5) by (simp add: pool_inv_def)
  moreover have "cells_only s ?s" by (simp add: cells_only_def)
  ultimately show ?case
    using Cons(1) [of ?s] Cons(3-5) by (simp add: FreeCmds_def cells_only_def)
qed (simp add: FreeCmds_def cells_only_def)

lemma handle_batch_keeps:
  assumes "config_ok (cfg (env_of w))" "srv_ok w s" "pool_inv s" "handle_batch w c cs s = Inr s'"
  shows "srv_ok w s' \<and> pool_inv s' \<and> (\<forall>ch. subs s' ch \<subseteq> insert c (subs s ch)) \<and> clientNext s' = clientNext s \<and>
    (\<forall>c'. Fd (clients s' c') = Fd (clients s c'))"
proof -
  obtain ps s1 where l: "load_cmds w cs s = (ps, s1)" by force
  obtain s2 where e: "EvalAndRespond w ps c s1 = Inr s2" and s': "s' = FreeCmds ps s2"
    using assms(4) l by (auto simp: handle_batch_def obind_eq_Inr)
  note L = load_cmds_spec [OF assms(3) l]
  have "srv_ok w s1" "subs s1 = subs s" using cells_only_srv [of s s1] L assms(2) by simp_all
  note E = EvalAndRespond_keeps [OF assms(1) this(1) e]
  have fd: "Fd (clients s2 c') = Fd (clients s1 c')" for c' using E by (cases "c' = c") (simp_all add: cells_same_def)
  have "pool_inv s2" "set ps \<inter> set (cmdPool s2) = {}" "\<forall>p \<in> set ps. p < cmdNext s2"
    using L E by (simp_all add: cells_same_def pool_inv_def)
  with FreeCmds_spec [of s2 ps] L s' have F: "pool_inv s'" "cells_only s2 s'" by simp_all
  show ?thesis
    using F E L fd cells_only_srv [OF F(2)] \<open>subs s1 = subs s\<close>
    by (simp add: cells_only_def cells_same_def)
qed

section \<open>The invariant of the event loop\<close>

definition engine_ok :: "world \<Rightarrow> engine \<Rightarrow> bool" where
  "engine_ok w n \<longleftrightarrow> srv_ok w (srv n) \<and> pool_inv (srv n) \<and> wf_gomap (connectedClients n) \<and>
     con_client n = int (length (connectedClients n)) \<and>
     (\<forall>fd c. map_of (connectedClients n) fd = Some c \<longrightarrow> c < clientNext (srv n) \<and> Fd (clients (srv n) c) = fd) \<and>
     (\<forall>ch. subs (srv n) ch \<subseteq> ran (map_of (connectedClients n)))"

definition ReadBufSize :: nat where
  \<comment> \<open>of the buffers in \<open>ReadBufPool\<close>\<close>
  "ReadBufSize = 64 * 1024"

definition fresh_event :: "event \<Rightarrow> engine \<Rightarrow> bool" where
  \<comment> \<open>what the kernel may do: a descriptor that \<open>accept\<close> returns is not one that is open, and a read
    fills the start of a buffer\<close>
  "fresh_event ev n \<longleftrightarrow>
     (case ev of
        Incoming (Some fd) ok \<Rightarrow> map_of (connectedClients n) fd = None
      | Ready fd (ReadBytes bs rest) \<Rightarrow> length (bs @ rest) = ReadBufSize
      | _ \<Rightarrow> True)"

lemma engine_okD:
  assumes "engine_ok w n"
  shows "srv_ok w (srv n)" "pool_inv (srv n)" "wf_gomap (connectedClients n)" "con_client n = int (length (connectedClients n))"
    "map_of (connectedClients n) fd = Some c \<Longrightarrow> c < clientNext (srv n) \<and> Fd (clients (srv n) c) = fd"
    "subs (srv n) ch \<subseteq> ran (map_of (connectedClients n))"
  using assms by (simp_all add: engine_ok_def)

lemma accept_client_ok:
  assumes "engine_ok w n" "map_of (connectedClients n) fd = None"
  shows "engine_ok w (accept_client fd n)"
proof -
  note E = engine_okD [OF assms(1)]
  let ?c = "clientNext (srv n)"
  let ?n = "accept_client fd n"
  have s: "srv ?n = (srv n)\<lparr>ConnectionsReceived := ConnectionsReceived (srv n) + 1,
        clients := (clients (srv n))(?c := \<lparr>Fd = fd, enqueue = [], isTxn = False\<rparr>), clientNext := ?c + 1\<rparr>"
    by (simp add: accept_client_def NewClient_def TrackConnection_def)
  have sub: "subs (srv ?n) = subs (srv n)" by (rule subs_channels) (simp add: s)
  have c: "connectedClients ?n = AList.update fd ?c (connectedClients n)" "con_client ?n = con_client n + 1"
    by (simp_all add: accept_client_def NewClient_def TrackConnection_def)
  have "map_of (connectedClients ?n) a = Some x" if "map_of (connectedClients n) a = Some x" for a x
    using assms(2) that by (cases "a = fd") (auto simp: c update_conv')
  then have "ran (map_of (connectedClients n)) \<subseteq> ran (map_of (connectedClients ?n))"
    unfolding ran_def by blast
  then have "\<forall>ch. subs (srv ?n) ch \<subseteq> ran (map_of (connectedClients ?n))" using E(6) sub by (metis order_trans)
  moreover have "srv_ok w (srv ?n)" "pool_inv (srv ?n)" using E(1,2) by (simp_all add: s srv_ok_def wf_channels_def pool_inv_def)
  moreover have "c' < clientNext (srv ?n) \<and> Fd (clients (srv ?n) c') = fd'" if "map_of (connectedClients ?n) fd' = Some c'" for fd' c'
    using that E(5) [of fd' c'] by (auto simp: s c update_conv' split: if_splits)
  ultimately show ?thesis
    using E(3,4) assms(2) by (simp add: engine_ok_def c wf_gomap_update length_update_gomap)
qed

lemma close_client_ok:
  assumes "engine_ok w n" "map_of (connectedClients n) fd = Some c"
  shows "engine_ok w (close_client w fd c n)"
proof -
  note E = engine_okD [OF assms(1)]
  let ?n = "close_client w fd c n"
  have R: "net_only (srv n) (srv ?n)" "wf_channels (srv ?n)" "subs (srv ?n) = (\<lambda>ch. subs (srv n) ch - {c})"
    using RemoveClient_spec [of "srv n" w c] E(1) by (simp_all add: close_client_def srv_ok_def)
  have c: "connectedClients ?n = AList.delete fd (connectedClients n)" "con_client ?n = con_client n - 1"
    by (simp_all add: close_client_def)
  have "map_of (connectedClients ?n) a = Some x" if "map_of (connectedClients n) a = Some x" "x \<noteq> c" for a x
    using assms(2) that by (cases "a = fd") (auto simp: c delete_conv')
  then have "ran (map_of (connectedClients n)) - {c} \<subseteq> ran (map_of (connectedClients ?n))"
    unfolding ran_def by blast
  then have "\<forall>ch. subs (srv ?n) ch \<subseteq> ran (map_of (connectedClients ?n))" using E(6) R(3) by fastforce
  moreover have "srv_ok w (srv ?n)" "pool_inv (srv ?n)" using E(1,2) R by (simp_all add: srv_ok_def net_only_def pool_inv_def)
  moreover have "c' < clientNext (srv ?n) \<and> Fd (clients (srv ?n) c') = fd'" if "map_of (connectedClients ?n) fd' = Some c'" for fd' c'
    using that E(5) [of fd' c'] R(1) by (auto simp: c delete_conv' net_only_def split: if_splits)
  moreover have "0 < length (connectedClients n)" using assms(2) by (cases "connectedClients n") auto
  ultimately show ?thesis
    using E(3,4) assms(2) by (simp add: engine_ok_def c wf_gomap_delete length_delete_gomap of_nat_diff Suc_le_eq)
qed

lemma batch_ok:
  assumes "engine_ok w n" "map_of (connectedClients n) fd = Some c" "config_ok (cfg (env_of w))" "handle_batch w c cs (srv n) = Inr s"
  shows "engine_ok w (n\<lparr>srv := s\<rparr>)"
proof -
  note E = engine_okD [OF assms(1)]
  note B = handle_batch_keeps [OF assms(3) E(1,2) assms(4)]
  have "c \<in> ran (map_of (connectedClients n))" using assms(2) by (rule ranI)
  then have "subs s ch \<subseteq> ran (map_of (connectedClients n))" for ch
    using B E(6) [of ch] by blast
  then show ?thesis using E(3-5) B by (simp add: engine_ok_def)
qed

lemma load_cmds_ok:
  assumes "engine_ok w n" "load_cmds w cs (srv n) = (ps, s)"
  shows "engine_ok w (n\<lparr>srv := s\<rparr>)"
  using load_cmds_spec [OF engine_okD(2) [OF assms(1)] assms(2)] cells_only_srv [of "srv n" s] engine_okD [OF assms(1)]
  by (simp add: engine_ok_def cells_only_def)

lemma handle_event_accept: "handle_event w (Incoming r ok) n =
    (case r of None \<Rightarrow> Inr n | Some fd \<Rightarrow> if ok then Inr (accept_client fd n) else Inl Fatal)"
  by (simp add: handle_event_def begin_event_def split: option.split)

lemma handle_event_ready: "handle_event w (Ready fd r) n =
    (case map_of (connectedClients n) fd of
       None \<Rightarrow> Inr n
     | Some c \<Rightarrow>
         obind (readCommands w r) (\<lambda>(cs, err).
           if err then Inr (close_client w fd c (n\<lparr>srv := snd (load_cmds w cs (srv n))\<rparr>))
           else obind (handle_batch w c cs (srv n)) (\<lambda>s. Inr (n\<lparr>srv := s\<rparr>))))"
  by (cases "readCommands w r")
    (auto simp: handle_event_def begin_event_def handle_batch_def EvalAndRespond_def end_batch_def obind_def Let_def
      split: option.split sum.split prod.split)

lemma handle_event_ok:
  assumes "engine_ok w n" "config_ok (cfg (env_of w))" "fresh_event ev n" "handle_event w ev n = Inr n'"
  shows "engine_ok w n'"
proof (cases ev)
  case (Incoming r ok)
  then show ?thesis using assms accept_client_ok [OF assms(1)]
    by (cases r) (auto simp: handle_event_accept fresh_event_def split: if_splits)
next
  case (Ready fd r)
  show ?thesis
  proof (cases "map_of (connectedClients n) fd")
    case None
    then show ?thesis using assms(1,4) Ready by (simp add: handle_event_ready)
  next
    case (Some c)
    from assms(4) Ready Some obtain cs err where
      h: "(if err then Inr (close_client w fd c (n\<lparr>srv := snd (load_cmds w cs (srv n))\<rparr>))
        else obind (handle_batch w c cs (srv n)) (\<lambda>s. Inr (n\<lparr>srv := s\<rparr>))) = Inr n'"
      by (auto simp: handle_event_ready obind_eq_Inr)
    obtain ps s where l: "load_cmds w cs (srv n) = (ps, s)" by force
    show ?thesis
      using h close_client_ok [OF load_cmds_ok [OF assms(1) l], of fd c] batch_ok [OF assms(1) Some assms(2)] Some l
      by (auto simp: obind_eq_Inr split: if_splits)
  qed
qed

lemma db_ok_DeleteExpiredKey: "db_ok e d \<Longrightarrow> db_ok e (DeleteExpiredKey e d)"
  using sh.P_DeleteExpiredKey [OF shrinks_refl, of d e] dbi.P_DeleteExpiredKey [of d e]
  by (simp add: db_ok_def shrinks_def StoreLen_def)

lemma readCommands_pipeline:
  assumes "css \<noteq> []" "\<forall>ws \<in> set css. ws \<noteq> []" "length (concat (map encode_command css)) < 2 ^ 61"
  shows "readCommands w (ReadBytes (concat (map encode_command css)) rest) =
    Inr (map (parsed_of (upper_uni (env_of w))) css, False)"
  using decode_pipeline [OF assms(2,1) refl assms(3), of "upper_uni (env_of w)" rest] by (simp add: readCommands_def)

lemma handle_batch_total:
  assumes "config_ok (cfg (env_of w))" "2 \<le> stack w" "srv_ok w s" "pool_inv s" "enqueue (clients s c) = []"
  shows "\<exists>s' before reply. handle_batch w c cs s = Inr s' \<and> wire s' = before @ [(Fd (clients s c), reply)]"
proof -
  obtain ps s1 where l: "load_cmds w cs s = (ps, s1)" by force
  note L = load_cmds_spec [OF assms(4) l]
  then have f: "clients s1 = clients s" by (simp add: cells_only_def)
  have "srv_ok w s1" using cells_only_srv [of s s1] L assms(3) by simp
  moreover have "queue_ok c s1" using assms(5) f by (simp add: queue_ok_def)
  ultimately obtain out s2 where r: "respond_loop w ps c [] s1 = Inr (out, s2)" "cells_same c s1 s2" "pool_inv s2 \<or> True"
    using respond_loop_total [OF _ assms(1,2), of s1 c ps "[]"] by blast
  have w: "wire (FreeCmds ps s) = wire s" for s
    by (induction ps arbitrary: s) (simp_all add: FreeCmds_def)
  show ?thesis using r(1,2) l f
    by (auto simp: handle_batch_def EvalAndRespond_def w cells_same_def)
qed

text \<open>A packet of pipelined commands from a connected client that is not in the middle of a
  transaction is decoded, executed and answered by one last write to its connection, whatever
  the buffer held before and whatever cells the pool hands out; the connection stays open, and
  the invariant of the event loop holds again: the number of clients is right, every client
  is known under its descriptor, only connected clients are subscribed, no pooled command is
  pooled twice.\<close>

theorem packet_answered:
  assumes "engine_ok w n" "config_ok (cfg (env_of w))" "2 \<le> stack w" "map_of (connectedClients n) fd = Some c"
    "enqueue (clients (srv n) c) = []" "css \<noteq> []" "\<forall>ws \<in> set css. ws \<noteq> []" "length (concat (map encode_command css)) < 2 ^ 61"
  shows "\<exists>n' before reply. handle_event w (Ready fd (ReadBytes (concat (map encode_command css)) rest)) n = Inr n' \<and>
    wire (srv n') = before @ [(fd, reply)] \<and> connectedClients n' = connectedClients n \<and> engine_ok w n'"
proof -
  note E = engine_okD [OF assms(1)]
  obtain s' before reply where b: "handle_batch w c (map (parsed_of (upper_uni (env_of w))) css) (srv n) = Inr s'"
    "wire s' = before @ [(Fd (clients (srv n) c), reply)]"
    using handle_batch_total [OF assms(2,3) E(1,2) assms(5)] by blast
  have "handle_event w (Ready fd (ReadBytes (concat (map encode_command css)) rest)) n = Inr (n\<lparr>srv := s'\<rparr>)"
    using readCommands_pipeline [OF assms(6-8), of w rest] b(1) assms(4) by (simp add: handle_event_ready)
  moreover have "engine_ok w (n\<lparr>srv := s'\<rparr>)" by (rule batch_ok [OF assms(1,4,2) b(1)])
  ultimately show ?thesis using b(2) E(5) [OF assms(4)] by (intro exI [of _ "n\<lparr>srv := s'\<rparr>"]) simp
qed

definition init_engine :: engine where
  \<comment> \<open>the package variables of the server when it starts, with an empty database\<close>
  "init_engine = \<lparr>srv = init_server (init_db 0 0) good_disk, connectedClients = [], con_client = 0, lastCronExecTime = 0\<rparr>"

lemma init_engine_ok [simp]: "engine_ok calm_world init_engine"
  using init_server_channels [of "init_db 0 0" good_disk] init_db_ok [OF default_env_ok, of 0 0]
  by (simp add: engine_ok_def init_engine_def srv_ok_def pool_inv_def) (simp add: init_server_def)

lemma accepted_ok [simp]: "engine_ok calm_world (accept_client fd init_engine)"
  by (rule accept_client_ok) (simp_all add: init_engine_def [THEN arg_cong [where f = connectedClients]])

lemma packet_answered_witness:
  "\<exists>n'. handle_event calm_world (Ready 5 (ReadBytes (concat (map encode_command [[''PING'']])) ''junk'')) (accept_client 5 init_engine) = Inr n'"
proof -
  have "map_of (connectedClients (accept_client 5 init_engine)) 5 = Some 0"
    and "enqueue (clients (srv (accept_client 5 init_engine)) 0) = []"
    by (simp_all add: accept_client_def init_engine_def NewClient_def TrackConnection_def init_server_def)
  moreover have "length (concat (map encode_command [[''PING'']])) < 2 ^ 61"
    by (simp add: encode_command_def bulk_def FormatInt_def FormatNat.simps CRLF_def)
  ultimately show ?thesis
    using packet_answered [OF accepted_ok [of 5], of 5 0 "[[''PING'']]" "''junk''"] by auto
qed

end
