(* ===== verification/Process.thy ===== *)
theory Process
  imports Server
begin

text \<open>
  The two goroutines of \<open>server/async_tcp.go\<close>: the event loop \<open>RunAsyncTCPServer\<close> and
  \<open>WaitForSignal\<close>, which share the status word and, through the dump, the database. Their
  interleaving is a step relation. The loop makes one step per command, so that a dump
  may fall between two commands of a packet; a command and the dump are atomic (\<open>DumpSteps\<close> takes
  the dump apart).
\<close>

section \<open>Opening the socket\<close>

text \<open>The results of the system calls that \<open>RunAsyncTCPServer\<close> makes before its loop, in their
  order, and the four bytes of \<open>net.ParseIP(config.Host).To4()\<close>, which is nil for a host name.\<close>

record sockets =
  socket_ok :: bool
  nonblock_ok :: bool
  host_ip4 :: "uint8 list option"
  bind_ok :: bool
  listen_ok :: bool
  epoll_ok :: bool
  ctl_ok :: bool

definition async_setup :: "sockets \<Rightarrow> bool outcome" where
  \<comment> \<open>\<open>False\<close>: the function returns the error, which nobody reads\<close>
  "async_setup k =
     (if \<not> socket_ok k then Inr False
      else if \<not> nonblock_ok k then Inr False
      else case host_ip4 k of
          None \<Rightarrow> Inl IndexOutOfRange
        | Some ip4 \<Rightarrow>
            if \<not> bind_ok k then Inr False
            else if \<not> listen_ok k then Inr False
            else if \<not> epoll_ok k then Inl Fatal
            else Inr (ctl_ok k))"

section \<open>The two goroutines\<close>

definition EngineStatus_BUSY :: "32 word" where "EngineStatus_BUSY = 4"
definition EngineStatus_WAITING :: "32 word" where "EngineStatus_WAITING = 2"
definition EngineStatus_SHUTTING_DOWN :: "32 word" where "EngineStatus_SHUTTING_DOWN = 8"
definition EngineStatus_TRANSACTION :: "32 word" where "EngineStatus_TRANSACTION = 16"

lemmas status_defs = EngineStatus_BUSY_def EngineStatus_WAITING_def EngineStatus_SHUTTING_DOWN_def EngineStatus_TRANSACTION_def

datatype loop_pc =
    Starting \<comment> \<open>before the socket is open\<close>
  | Top \<comment> \<open>at the test of the loop\<close>
  | Ticking \<comment> \<open>before the clock is read and the cron may run\<close>
  | Polling \<comment> \<open>in \<open>EpollWait\<close>\<close>
  | Serving "event list" \<comment> \<open>the events still to be handled\<close>
  | Running nat "nat list" string "nat list" "event list"
      \<comment> \<open>the client, its commands still to be answered, the reply so far, all commands of the packet\<close>
  | Stopped \<comment> \<open>the function has returned\<close>
  | Gone \<comment> \<open>the process has ended\<close>

datatype sig_pc =
    Waiting \<comment> \<open>for the signal\<close>
  | Spinning \<comment> \<open>while the engine is busy\<close>
  | Storing \<comment> \<open>past the loop, before the store of \<open>SHUTTING_DOWN\<close>\<close>
  | Dumping \<comment> \<open>before the dump\<close>
  | Exiting \<comment> \<open>before \<open>os.Exit\<close>\<close>
  | Exited

record process =
  eng :: engine
  eStatus :: "32 word"
  loop :: loop_pc
  handler :: sig_pc

definition start_process :: "engine \<Rightarrow> process" where
  "start_process n = \<lparr>eng = n, eStatus = EngineStatus_WAITING, loop = Starting, handler = Waiting\<rparr>"

text \<open>Steps of \<open>RunAsyncTCPServer\<close>, then steps of \<open>WaitForSignal\<close>, then the passing of time.\<close>

inductive step :: "world \<Rightarrow> process \<Rightarrow> process \<Rightarrow> bool" for w where
  listen: "loop p = Starting \<Longrightarrow> async_setup k = Inr True \<Longrightarrow> step w p (p\<lparr>loop := Top\<rparr>)"
| give_up: "loop p = Starting \<Longrightarrow> async_setup k = Inr False \<Longrightarrow>
    step w p (p\<lparr>loop := Stopped, eStatus := EngineStatus_SHUTTING_DOWN\<rparr>)"
| abort: "loop p = Starting \<Longrightarrow> async_setup k = Inl e \<Longrightarrow> step w p (p\<lparr>loop := Gone, handler := Exited\<rparr>)"
| check: "loop p = Top \<Longrightarrow> eStatus p \<noteq> EngineStatus_SHUTTING_DOWN \<Longrightarrow> step w p (p\<lparr>loop := Ticking\<rparr>)"
| leave: "loop p = Top \<Longrightarrow> eStatus p = EngineStatus_SHUTTING_DOWN \<Longrightarrow>
    step w p (p\<lparr>loop := Stopped, eStatus := EngineStatus_SHUTTING_DOWN\<rparr>)"
| tick: "loop p = Ticking \<Longrightarrow>
    step w p (p\<lparr>loop := Polling, eng := cron w now later ((eng p)\<lparr>srv := UpdateCachedTime ms (srv (eng p))\<rparr>)\<rparr>)"
| poll_error: "loop p = Polling \<Longrightarrow> step w p (p\<lparr>loop := Top\<rparr>)"
| poll_swap: "loop p = Polling \<Longrightarrow> eStatus p = EngineStatus_WAITING \<Longrightarrow>
    step w p (p\<lparr>loop := Serving evs, eStatus := EngineStatus_BUSY\<rparr>)"
| poll_stop: "loop p = Polling \<Longrightarrow> eStatus p = EngineStatus_SHUTTING_DOWN \<Longrightarrow>
    step w p (p\<lparr>loop := Stopped, eStatus := EngineStatus_SHUTTING_DOWN\<rparr>)"
| poll_other: "loop p = Polling \<Longrightarrow> eStatus p \<noteq> EngineStatus_WAITING \<Longrightarrow> eStatus p \<noteq> EngineStatus_SHUTTING_DOWN \<Longrightarrow>
    step w p (p\<lparr>loop := Serving evs\<rparr>)"
| serve: "loop p = Serving (ev # evs) \<Longrightarrow> fresh_event ev (eng p) \<Longrightarrow> begin_event w ev (eng p) = Inr (Handled n) \<Longrightarrow>
    step w p (p\<lparr>loop := Serving evs, eng := n\<rparr>)"
| start: "loop p = Serving (ev # evs) \<Longrightarrow> fresh_event ev (eng p) \<Longrightarrow> begin_event w ev (eng p) = Inr (Batch c ps n) \<Longrightarrow>
    step w p (p\<lparr>loop := Running c ps [] ps evs, eng := n\<rparr>)"
| command: "loop p = Running c (a # qs) buf ps evs \<Longrightarrow> respond_one w a c (srv (eng p)) = Inr (r, s) \<Longrightarrow>
    step w p (p\<lparr>loop := Running c qs (buf @ r) ps evs, eng := (eng p)\<lparr>srv := s\<rparr>\<rparr>)"
| reply: "loop p = Running c [] buf ps evs \<Longrightarrow>
    step w p (p\<lparr>loop := Serving evs, eng := end_batch w c buf ps (eng p)\<rparr>)"
| crash_event: "loop p = Serving (ev # evs) \<Longrightarrow> begin_event w ev (eng p) = Inl e \<Longrightarrow>
    step w p (p\<lparr>loop := Gone, handler := Exited\<rparr>)"
| crash_command: "loop p = Running c (a # qs) buf ps evs \<Longrightarrow> respond_one w a c (srv (eng p)) = Inl e \<Longrightarrow>
    step w p (p\<lparr>loop := Gone, handler := Exited\<rparr>)"
| finish: "loop p = Serving [] \<Longrightarrow> step w p (p\<lparr>loop := Top, eStatus := EngineStatus_WAITING\<rparr>)"
| signal: "handler p = Waiting \<Longrightarrow> step w p (p\<lparr>handler := Spinning\<rparr>)"
| spin: "handler p = Spinning \<Longrightarrow> eStatus p \<noteq> EngineStatus_BUSY \<Longrightarrow> step w p (p\<lparr>handler := Storing\<rparr>)"
| store_status: "handler p = Storing \<Longrightarrow> step w p (p\<lparr>handler := Dumping, eStatus := EngineStatus_SHUTTING_DOWN\<rparr>)"
| dump: "handler p = Dumping \<Longrightarrow> Shutdown (env_of w) (data (srv (eng p))) (files (srv (eng p))) = Inr (d, dk) \<Longrightarrow>
    step w p (p\<lparr>handler := Exiting, eng := (eng p)\<lparr>srv := (srv (eng p))\<lparr>data := d, files := dk\<rparr>\<rparr>\<rparr>)"
| exit: "handler p = Exiting \<Longrightarrow> step w p (p\<lparr>handler := Exited, loop := Gone\<rparr>)"
| time: "step w p (p\<lparr>eng := (eng p)\<lparr>srv := (srv (eng p))\<lparr>data := (data (srv (eng p)))\<lparr>unixNow := t\<rparr>\<rparr>\<rparr>\<rparr>)"

definition serving :: "loop_pc \<Rightarrow> bool" where
  "serving l \<longleftrightarrow> (case l of Serving _ \<Rightarrow> True | Running _ _ _ _ _ \<Rightarrow> True | _ \<Rightarrow> False)"

lemma serving_simps [simp]:
  "\<not> serving Starting" "\<not> serving Top" "\<not> serving Ticking" "\<not> serving Polling" "serving (Serving evs)" "serving (Running c qs buf ps evs)"
  "\<not> serving Stopped" "\<not> serving Gone"
  by (simp_all add: serving_def)

inductive reachable :: "world \<Rightarrow> process \<Rightarrow> process \<Rightarrow> bool" for w p where
  here: "reachable w p p"
| next_step: "reachable w p q \<Longrightarrow> step w q r \<Longrightarrow> reachable w p r"

section \<open>What is true in every reachable state\<close>

definition status_ok :: "process \<Rightarrow> bool" where
  "status_ok p \<longleftrightarrow>
     eStatus p \<in> {EngineStatus_WAITING, EngineStatus_BUSY, EngineStatus_SHUTTING_DOWN} \<and>
     (eStatus p = EngineStatus_BUSY \<longrightarrow> serving (loop p) \<or> loop p = Gone) \<and>
     (handler p \<in> {Waiting, Spinning, Storing} \<longrightarrow>
        (eStatus p = EngineStatus_SHUTTING_DOWN \<longleftrightarrow> loop p = Stopped) \<and> (serving (loop p) \<longrightarrow> eStatus p = EngineStatus_BUSY))"

definition flight_ok :: "process \<Rightarrow> bool" where
  \<comment> \<open>the commands of the packet in hand are not in the pool, and its client is connected\<close>
  "flight_ok p \<longleftrightarrow>
     (case loop p of
        Running c qs buf ps evs \<Rightarrow>
          distinct ps \<and> set qs \<subseteq> set ps \<and> set ps \<inter> set (cmdPool (srv (eng p))) = {} \<and>
          (\<forall>a \<in> set ps. a < cmdNext (srv (eng p))) \<and> map_of (connectedClients (eng p)) (Fd (clients (srv (eng p)) c)) = Some c
      | _ \<Rightarrow> True)"

definition process_ok :: "world \<Rightarrow> process \<Rightarrow> bool" where
  "process_ok w p \<longleftrightarrow> engine_ok w (eng p) \<and> flight_ok p"

lemma engine_ok_data:
  assumes "engine_ok w n" "db_ok (env_of w) d"
  shows "engine_ok w (n\<lparr>srv := (srv n)\<lparr>data := d, files := dk\<rparr>\<rparr>)" "engine_ok w (n\<lparr>srv := (srv n)\<lparr>data := d\<rparr>\<rparr>)"
  using assms by (simp_all add: engine_ok_def srv_ok_def wf_channels_def pool_inv_def)

lemma engine_ok_db: "engine_ok w n \<Longrightarrow> db_ok (env_of w) (data (srv n))"
  by (simp add: engine_ok_def srv_ok_def)

lemma db_ok_clock: "db_ok e (d\<lparr>GlobalCachedTime := t\<rparr>) = db_ok e d"
  by (simp add: db_ok_def db_inv_def one_key_def stored_def expiring_def StoreLen_def)

lemma cron_ok:
  assumes "engine_ok w n"
  shows "engine_ok w (cron w now later (n\<lparr>srv := UpdateCachedTime ms (srv n)\<rparr>))"
proof -
  let ?n = "n\<lparr>srv := UpdateCachedTime ms (srv n)\<rparr>"
  have ok: "engine_ok w ?n"
    unfolding UpdateCachedTime_def by (rule engine_ok_data(2) [OF assms]) (use engine_ok_db [OF assms] in \<open>simp add: db_ok_clock\<close>)
  have "engine_ok w (?n\<lparr>srv := (srv ?n)\<lparr>data := DeleteExpiredKey (env_of w) (data (srv ?n))\<rparr>\<rparr>)"
    by (rule engine_ok_data(2) [OF ok db_ok_DeleteExpiredKey [OF engine_ok_db [OF ok]]])
  then show ?thesis using ok by (auto simp: cron_def engine_ok_def)
qed

lemma Shutdown_data:
  assumes "db_ok e d" "Shutdown e d dk = Inr (d', dk')"
  shows "\<exists>n. d' = d\<lparr>tick := n\<rparr>"
  using DumpAllAOF_total [OF db_ok_inv [OF assms(1)], of e dk] assms(2)
  by (auto simp: Shutdown_def evalBGREWRITEAOF_def obind_eq_Inr)

lemma db_ok_tick [simp]: "db_ok e (d\<lparr>tick := n\<rparr>) = db_ok e d"
  by (simp add: db_ok_def StoreLen_def)

lemma flight_ok_idle: "\<not> serving (loop p) \<Longrightarrow> flight_ok p"
  by (cases "loop p") (simp_all add: flight_ok_def)

lemma flight_ok_same:
  assumes "flight_ok p" "loop q = loop p" "connectedClients (eng q) = connectedClients (eng p)"
    "clients (srv (eng q)) = clients (srv (eng p))" "cmdPool (srv (eng q)) = cmdPool (srv (eng p))" "cmdNext (srv (eng q)) = cmdNext (srv (eng p))"
  shows "flight_ok q"
  using assms by (cases "loop p") (simp_all add: flight_ok_def)

lemma batch_client_ok:
  assumes "engine_ok w n" "map_of (connectedClients n) (Fd (clients (srv n) c)) = Some c" "srv_ok w s" "pool_inv s"
    "\<forall>ch. subs s ch \<subseteq> insert c (subs (srv n) ch)" "clientNext s = clientNext (srv n)" "\<forall>x. Fd (clients s x) = Fd (clients (srv n) x)"
  shows "engine_ok w (n\<lparr>srv := s\<rparr>)"
proof -
  note E = engine_okD [OF assms(1)]
  have "c \<in> ran (map_of (connectedClients n))" using assms(2) by (rule ranI)
  then have "subs s ch \<subseteq> ran (map_of (connectedClients n))" for ch
    using assms(5) E(6) [of ch] by blast
  then show ?thesis using E(3-5) assms(3,4,6,7) by (simp add: engine_ok_def)
qed

lemma begin_event_ok:
  assumes "engine_ok w n" "config_ok (cfg (env_of w))" "fresh_event ev n"
  shows "begin_event w ev n = Inr (Handled n') \<Longrightarrow> engine_ok w n'"
    "begin_event w ev n = Inr (Batch c ps n') \<Longrightarrow> process_ok w (p\<lparr>loop := Running c ps [] ps evs, eng := n'\<rparr>)"
proof -
  assume "begin_event w ev n = Inr (Handled n')"
  then show "engine_ok w n'" using handle_event_ok [OF assms] by (simp add: handle_event_def)
next
  assume b: "begin_event w ev n = Inr (Batch c ps n')"
  obtain fd r where ev: "ev = Ready fd r"
    using b by (cases ev) (auto simp: begin_event_def split: option.splits if_splits)
  have "map_of (connectedClients n) fd \<noteq> None" using b ev by (auto simp: begin_event_def split: option.splits)
  then obtain c' where c': "map_of (connectedClients n) fd = Some c'" by blast
  then obtain cs err where r: "readCommands w r = Inr (cs, err)" using b ev by (auto simp: begin_event_def obind_eq_Inr)
  obtain qs s where l: "load_cmds w cs (srv n) = (qs, s)" by force
  have e: "c' = c" "qs = ps" "n' = n\<lparr>srv := s\<rparr>"
    using b by (auto simp: begin_event_def ev c' r l Let_def split: if_splits)
  note l = l [unfolded e(2)] e(3) and c' = c' [unfolded e(1)]
  have "engine_ok w n'" unfolding l(2) by (rule load_cmds_ok [OF assms(1) l(1)])
  moreover have "Fd (clients s c) = fd" using engine_okD(5) [OF assms(1) c'] load_cmds_spec [OF engine_okD(2) [OF assms(1)] l(1)]
    by (simp add: cells_only_def)
  ultimately show "process_ok w (p\<lparr>loop := Running c ps [] ps evs, eng := n'\<rparr>)"
    using load_cmds_spec [OF engine_okD(2) [OF assms(1)] l(1)] c' by (simp add: process_ok_def flight_ok_def l(2))
qed

lemma respond_one_keeps:
  assumes "config_ok (cfg (env_of w))" "srv_ok w s"
  shows "keeps w c s (respond_one w a c s)"
  using respond_loop_keeps [OF assms, of c "[a]" "[]"]
  by (cases "respond_one w a c s") (auto simp: respond_loop.simps(2) keeps_def simp del: respond_loop_Cons)

lemma command_ok:
  assumes "process_ok w p" "config_ok (cfg (env_of w))" "loop p = Running c (a # qs) buf ps evs" "respond_one w a c (srv (eng p)) = Inr (r, s)"
  shows "process_ok w (p\<lparr>loop := Running c qs (buf @ r) ps evs, eng := (eng p)\<lparr>srv := s\<rparr>\<rparr>)"
proof -
  have E: "engine_ok w (eng p)" and F: "flight_ok p" using assms(1) by (simp_all add: process_ok_def)
  have k: "srv_ok w s" "cells_same c (srv (eng p)) s"
    using respond_one_keeps [OF assms(2) engine_okD(1) [OF E], of c a] assms(4) by simp_all
  have fd: "Fd (clients s x) = Fd (clients (srv (eng p)) x)" for x using k(2) by (cases "x = c") (simp_all add: cells_same_def)
  have "engine_ok w ((eng p)\<lparr>srv := s\<rparr>)"
    by (rule batch_client_ok [OF E, of c])
      (use F k fd engine_okD(2) [OF E] assms(3) in \<open>simp_all add: flight_ok_def cells_same_def pool_inv_def\<close>)
  then show ?thesis using F k(2) fd assms(3) by (simp add: process_ok_def flight_ok_def cells_same_def)
qed

lemma reply_ok:
  assumes "process_ok w p" "loop p = Running c [] buf ps evs"
  shows "engine_ok w (end_batch w c buf ps (eng p))"
proof -
  have E: "engine_ok w (eng p)" and F: "flight_ok p" using assms(1) by (simp_all add: process_ok_def)
  let ?s = "snd (Client_Write w c buf (srv (eng p)))"
  have W: "srv_ok w ?s" "pool_inv ?s" "cmdPool ?s = cmdPool (srv (eng p))" "cmdNext ?s = cmdNext (srv (eng p))" "subs ?s = subs (srv (eng p))"
    using engine_okD(1,2) [OF E] by (simp_all add: srv_ok_def pool_inv_def wf_channels_def Client_Write_def)
  have "pool_inv (FreeCmds ps ?s) \<and> cells_only ?s (FreeCmds ps ?s)"
    by (rule FreeCmds_spec [OF W(2)]) (use F W(3,4) assms(2) in \<open>simp_all add: flight_ok_def\<close>)
  then show ?thesis unfolding end_batch_def
    using cells_only_srv [of ?s "FreeCmds ps ?s"] W F assms(2)
    by (intro batch_client_ok [OF E, of c]) (auto simp: flight_ok_def cells_only_def Client_Write_def)
qed

lemma step_process_ok:
  assumes "step w p q" "config_ok (cfg (env_of w))" "process_ok w p"
  shows "process_ok w q"
  using assms(1)
proof cases
  case (tick now later ms)
  then show ?thesis using cron_ok assms(3) by (simp add: process_ok_def flight_ok_def)
next
  case (serve ev evs n)
  then show ?thesis using begin_event_ok(1) [OF _ assms(2)] assms(3) by (simp add: process_ok_def flight_ok_def)
next
  case (start ev evs c ps n)
  have "engine_ok w (eng p)" using assms(3) by (simp add: process_ok_def)
  from begin_event_ok(2) [OF this assms(2) start(3,4)] show ?thesis unfolding start(1) .
next
  case (command c a qs buf ps evs r s)
  then show ?thesis using command_ok [OF assms(3,2)] by simp
next
  case (reply c buf ps evs)
  then show ?thesis using reply_ok [OF assms(3)] by (simp add: process_ok_def flight_ok_def)
next
  case (dump d dk)
  have E: "engine_ok w (eng p)" using assms(3) by (simp add: process_ok_def)
  obtain n where "d = (data (srv (eng p)))\<lparr>tick := n\<rparr>" using Shutdown_data [OF engine_ok_db [OF E] dump(3)] by blast
  then show ?thesis using dump engine_ok_data(1) [OF E, of d dk] engine_ok_db [OF E] assms(3)
      flight_ok_same [of p q] by (simp add: process_ok_def)
next
  case (time t)
  have E: "engine_ok w (eng p)" using assms(3) by (simp add: process_ok_def)
  then show ?thesis using time engine_ok_data(2) [OF E] engine_ok_db [OF E] assms(3)
      flight_ok_same [of p q] by (simp add: db_ok_unixNow process_ok_def)
qed (use assms(3) in \<open>simp_all add: process_ok_def flight_ok_def split: loop_pc.split_asm\<close>)

lemma step_status_ok: "step w p q \<Longrightarrow> status_ok p \<Longrightarrow> status_ok q"
  by (induction rule: step.induct) (auto simp: status_ok_def status_defs)

lemma start_status_ok [simp]: "status_ok (start_process n)"
  by (simp add: status_ok_def start_process_def status_defs)

text \<open>In every reachable state of the two goroutines the invariant of the event loop holds: the
  database is well-formed and within its limit, the client count is the number of open
  connections, each known under its descriptor, only connected clients are subscribed to
  channels, no pooled command is pooled twice, and the commands in hand are not in the
  pool. The status is one of three, it is
  \<open>BUSY\<close> only while events are served, and before the signal handler stores
  \<open>SHUTTING_DOWN\<close> events are served only while it is \<open>BUSY\<close>.\<close>

theorem server_invariant:
  assumes "reachable w (start_process n) p" "engine_ok w n" "config_ok (cfg (env_of w))"
  shows "process_ok w p \<and> status_ok p"
  using assms(1)
proof induction
  case here
  then show ?case using assms(2) by (simp add: start_process_def status_ok_def status_defs process_ok_def flight_ok_def)
next
  case (next_step q r)
  then show ?case using step_process_ok [OF next_step(2) assms(3)] step_status_ok [OF next_step(2)] by simp
qed

lemma good_sockets: "async_setup \<lparr>socket_ok = True, nonblock_ok = True, host_ip4 = Some [0, 0, 0, 0], bind_ok = True,
    listen_ok = True, epoll_ok = True, ctl_ok = True\<rparr> = Inr True"
  by (simp add: async_setup_def)

lemma server_invariant_witness:
  "engine_ok calm_world (eng ((start_process init_engine)\<lparr>loop := Top\<rparr>))"
proof -
  have "reachable calm_world (start_process init_engine) ((start_process init_engine)\<lparr>loop := Top\<rparr>)"
    by (rule reachable.next_step [OF reachable.here step.listen [OF _ good_sockets]]) (simp add: start_process_def)
  from server_invariant [OF this init_engine_ok] show ?thesis by (simp add: process_ok_def)
qed

definition quiet :: "process \<Rightarrow> bool" where
  \<comment> \<open>the handler has stored the status, and no events are being served\<close>
  "quiet p \<longleftrightarrow> handler p \<in> {Dumping, Exiting, Exited} \<and> eStatus p = EngineStatus_SHUTTING_DOWN \<and> \<not> serving (loop p)"

lemma step_quiet:
  assumes "step w p q" "quiet p" "engine_ok w (eng p)"
  shows "quiet q \<and> wire (srv (eng q)) = wire (srv (eng p)) \<and>
    map_of (store (data (srv (eng q)))) \<subseteq>\<^sub>m map_of (store (data (srv (eng p))))"
  using assms(1)
proof cases
  case (tick now later ms)
  let ?d = "(data (srv (eng p)))\<lparr>GlobalCachedTime := ms\<rparr>"
  have "db_inv ?d" using db_ok_inv [of "env_of w" ?d] engine_ok_db [OF assms(3)] by (simp add: db_ok_clock)
  then have "map_of (store (DeleteExpiredKey (env_of w) ?d)) \<subseteq>\<^sub>m map_of (store ?d)"
    using sh.P_DeleteExpiredKey [OF shrinks_refl, of ?d "env_of w"] by (simp add: shrinks_def)
  then show ?thesis using tick assms(2) by (simp add: quiet_def cron_def UpdateCachedTime_def)
next
  case (dump d dk)
  obtain n where "d = (data (srv (eng p)))\<lparr>tick := n\<rparr>" using Shutdown_data [OF engine_ok_db [OF assms(3)] dump(3)] by blast
  then show ?thesis using dump assms(2) by (simp add: quiet_def)
qed (use assms(2) in \<open>auto simp: quiet_def status_defs\<close>)

text \<open>A clean shutdown is final, where the dump is one step.\<close>

lemma clean_shutdown_is_final:
  assumes "reachable w p q" "handler p = Dumping" "eStatus p = EngineStatus_SHUTTING_DOWN" "\<not> serving (loop p)"
    "engine_ok w (eng p)" "config_ok (cfg (env_of w))"
  shows "\<not> serving (loop q) \<and> wire (srv (eng q)) = wire (srv (eng p)) \<and>
    map_of (store (data (srv (eng q)))) \<subseteq>\<^sub>m map_of (store (data (srv (eng p))))"
proof -
  have "quiet q \<and> process_ok w q \<and> wire (srv (eng q)) = wire (srv (eng p)) \<and>
      map_of (store (data (srv (eng q)))) \<subseteq>\<^sub>m map_of (store (data (srv (eng p))))"
    using assms(1)
  proof induction
    case here
    then show ?case using assms(2-5) by (simp add: quiet_def process_ok_def flight_ok_idle)
  next
    case (next_step q r)
    then show ?case using step_quiet [OF next_step(2)] step_process_ok [OF next_step(2) assms(6)]
      by (auto simp: process_ok_def intro: map_le_trans)
  qed
  then show ?thesis by (simp add: quiet_def)
qed

section \<open>An event without interruption\<close>

lemma reachable_trans: "reachable w q r \<Longrightarrow> reachable w p q \<Longrightarrow> reachable w p r"
  by (induction rule: reachable.induct) (auto intro: reachable.next_step)

lemma commands_run:
  "respond_loop w qs c buf (srv (eng p)) = Inr (out, s) \<Longrightarrow> loop p = Running c qs buf ps evs \<Longrightarrow>
   reachable w p (p\<lparr>loop := Serving evs, eng := end_batch w c out ps ((eng p)\<lparr>srv := s\<rparr>)\<rparr>)"
proof (induction qs arbitrary: buf p)
  case Nil
  have "step w p (p\<lparr>loop := Serving evs, eng := end_batch w c buf ps (eng p)\<rparr>)" by (rule step.reply [OF Nil(2)])
  with Nil(1) show ?case by (auto intro: reachable.next_step reachable.here)
next
  case (Cons a qs)
  from Cons(2) obtain r t where t: "respond_one w a c (srv (eng p)) = Inr (r, t)" "respond_loop w qs c (buf @ r) t = Inr (out, s)"
    by (auto simp: respond_loop.simps(2) obind_eq_Inr simp del: respond_loop_Cons)
  let ?p = "p\<lparr>loop := Running c qs (buf @ r) ps evs, eng := (eng p)\<lparr>srv := t\<rparr>\<rparr>"
  have "reachable w p ?p" by (rule reachable.next_step [OF reachable.here step.command [OF Cons(3) t(1)]])
  moreover have "reachable w ?p (?p\<lparr>loop := Serving evs, eng := end_batch w c out ps ((eng ?p)\<lparr>srv := s\<rparr>)\<rparr>)"
    by (rule Cons(1)) (simp_all add: t(2))
  ultimately show ?case using reachable_trans by fastforce
qed

text \<open>The function \<open>handle_event\<close> is the run of the loop on one event that no step of the other
  goroutine interrupts.\<close>

lemma handle_event_run:
  assumes "handle_event w ev (eng p) = Inr n" "fresh_event ev (eng p)" "loop p = Serving (ev # evs)"
  shows "reachable w p (p\<lparr>loop := Serving evs, eng := n\<rparr>)"
proof -
  from assms(1) obtain b where b: "begin_event w ev (eng p) = Inr b"
    "(case b of Handled n \<Rightarrow> Inr n | Batch c ps n \<Rightarrow>
       obind (respond_loop w ps c [] (srv n)) (\<lambda>(buf, s). Inr (end_batch w c buf ps (n\<lparr>srv := s\<rparr>)))) = Inr n"
    by (auto simp: handle_event_def obind_eq_Inr)
  show ?thesis
  proof (cases b)
    case (Handled m)
    then show ?thesis using b step.serve [OF assms(3,2)] by (auto intro: reachable.next_step reachable.here)
  next
    case (Batch c ps m)
    let ?p = "p\<lparr>loop := Running c ps [] ps evs, eng := m\<rparr>"
    from b(2) Batch obtain out s where r: "respond_loop w ps c [] (srv m) = Inr (out, s)" "n = end_batch w c out ps (m\<lparr>srv := s\<rparr>)"
      by (auto simp: obind_eq_Inr)
    have "reachable w p ?p" by (rule reachable.next_step [OF reachable.here step.start [OF assms(3,2)]]) (use b Batch in simp)
    moreover have "reachable w ?p (?p\<lparr>loop := Serving evs, eng := end_batch w c out ps ((eng ?p)\<lparr>srv := s\<rparr>)\<rparr>)"
      by (rule commands_run) (simp_all add: r(1))
    ultimately show ?thesis using r(2) reachable_trans by fastforce
  qed
qed

section \<open>A shutdown that is not clean\<close>

definition one_client :: engine where
  \<comment> \<open>a server with an empty database and a client on descriptor 5\<close>
  "one_client = accept_client 5 init_engine"

definition dumped_client :: engine where
  \<comment> \<open>after a dump\<close>
  "dumped_client = one_client\<lparr>srv := (srv one_client)\<lparr>data := ticked (init_db 0 0), files := good_disk\<lparr>aof_file := Some []\<rparr>\<rparr>\<rparr>"

lemma one_client_fields:
  "data (srv one_client) = init_db 0 0" "files (srv one_client) = good_disk" "connectedClients one_client = [(5, 0)]"
  "clients (srv one_client) 0 = \<lparr>Fd = 5, enqueue = [], isTxn = False\<rparr>" "cmdPool (srv one_client) = []" "wire (srv one_client) = []"
  "lastCronExecTime one_client = 0"
  by (simp_all add: one_client_def accept_client_def init_engine_def NewClient_def TrackConnection_def init_server_def)

lemma Shutdown_one_client:
  "Shutdown default_env (init_db 0 0) good_disk = Inr (ticked (init_db 0 0), good_disk\<lparr>aof_file := Some []\<rparr>)"
  by (simp add: Shutdown_def evalBGREWRITEAOF_def DumpAllAOF_def good_disk_def store_keys_def iterate_def flushed_def default_env_def
      Let_def)

lemma tick_one_client: "cron calm_world 0 0 (one_client\<lparr>srv := UpdateCachedTime 0 (srv one_client)\<rparr>) = one_client"
proof -
  have "(init_db 0 0)\<lparr>GlobalCachedTime := 0\<rparr> = init_db 0 0" by (simp add: init_db_def)
  then have "UpdateCachedTime 0 (srv one_client) = srv one_client"
    using one_client_fields(1) by (simp add: UpdateCachedTime_def)
  then show ?thesis by (simp add: cron_def one_client_fields cronFrequency_def)
qed

definition set_packet :: string where
  "set_packet = concat (map encode_command [[''SET'', ''k'', ''v'']])"

definition zeros :: string where
  \<comment> \<open>the rest of a new buffer\<close>
  "zeros = replicate (ReadBufSize - length set_packet) (CHR 0x00)"

lemma length_set_packet: "length set_packet = 27" "length (set_packet @ zeros) = ReadBufSize"
  by (simp_all add: zeros_def ReadBufSize_def set_packet_def encode_command_def bulk_def FormatInt_def FormatNat.simps CRLF_def)

lemma served_after_dump:
  "\<exists>n. handle_event calm_world (Ready 5 (ReadBytes set_packet zeros)) dumped_client = Inr n \<and>
     wire (srv n) = [(5, RESP_OK)] \<and> files (srv n) = good_disk\<lparr>aof_file := Some []\<rparr> \<and>
     lview (data (srv n)) ''k'' = Some (string_entry ''v'' None)"
proof -
  let ?s = "srv dumped_client" and ?cs = "[(Some ''SET'', [''k'', ''v''])]"
  obtain p s1 where g: "get_cmd calm_world ?s = (p, s1)" by force
  have f: "data s1 = ticked (init_db 0 0)" "files s1 = good_disk\<lparr>aof_file := Some []\<rparr>" "wire s1 = []"
    "clients s1 0 = \<lparr>Fd = 5, enqueue = [], isTxn = False\<rparr>"
    using g by (auto simp: get_cmd_def cmd_choice_def calm_world_def dumped_client_def one_client_fields advance_def)
  let ?b = "fill_cmd p (Some ''SET'', [''k'', ''v'']) s1" and ?d = "store_string default_env ''k'' ''v'' (- 1) (ticked (init_db 0 0))"
  have b: "data_command ?b p" "cell ?b p = (''SET'', [''k'', ''v''])" "clients ?b 0 = clients s1 0" "data ?b = data s1" "wire ?b = []"
      "files ?b = files s1"
    using f by (simp_all add: fill_cmd_def data_command_def cell_def eval_table_def)
  have "eval_seq default_env [(''SET'', [''k'', ''v''])] (ticked (init_db 0 0)) = Inr (RESP_OK, ?d)"
    by (simp add: eval_table_def evalSET_def)
  then have r: "respond_loop calm_world [p] 0 [] ?b = Inr (RESP_OK, after_cmds 1 ?d ?b)"
    using respond_loop_data [of "[p]" ?b 0 calm_world "[]"] b f by simp
  have "handle_batch calm_world 0 ?cs ?s = Inr (FreeCmds [p] (snd (Client_Write calm_world 0 RESP_OK (after_cmds 1 ?d ?b))))"
    using r by (simp add: handle_one [OF g] EvalAndRespond_def)
  moreover have "readCommands calm_world (ReadBytes set_packet zeros) = Inr (?cs, False)"
  proof -
    have "map (parsed_of (upper_uni (env_of calm_world))) [[''SET'', ''k'', ''v'']] = ?cs" by (simp add: parsed_of_def)
    then show ?thesis using readCommands_pipeline [of "[[''SET'', ''k'', ''v'']]" calm_world zeros] length_set_packet
      by (simp add: set_packet_def)
  qed
  moreover have "lview ?d ''k'' = Some (string_entry ''v'' None)"
  proof -
    have "db_ok default_env (ticked (init_db 0 0))" using init_db_ok [OF default_env_ok, of 0 0] by (simp add: ticked_def)
    from store_string_view [OF this default_env_ok, of "''k''" "''v''" "- 1"] show ?thesis
      by (simp add: expiry_of_def string_entry_def live_entry_def)
  qed
  moreover have "connectedClients dumped_client = [(5, 0)]" by (simp add: dumped_client_def one_client_fields)
  ultimately show ?thesis
    using b f by (simp add: handle_event_ready FreeCmds_def Client_Write_def after_cmds_def)
qed

text \<open>C14: but the handler's test and its store are two steps, and the loop may mark itself busy in
  between. From a server that has just accepted a client there is a run in which the dump is
  written while the client's packet is still being served: the \<open>SET\<close> is acknowledged, the key
  is in the database and not in the file, and the status has gone from \<open>SHUTTING_DOWN\<close> back
  to \<open>WAITING\<close>, so that the loop runs on until the process exits.\<close>

theorem shutdown_loses_acknowledged_write:
  "\<exists>p. reachable calm_world (start_process one_client) p \<and> handler p = Exiting \<and> loop p = Top \<and>
     eStatus p = EngineStatus_WAITING \<and> wire (srv (eng p)) = [(5, RESP_OK)] \<and>
     lview (data (srv (eng p))) ''k'' = Some (string_entry ''v'' None) \<and> aof_file (files (srv (eng p))) = Some []"
proof -
  let ?ev = "Ready 5 (ReadBytes set_packet zeros)" and ?p0 = "start_process one_client"
  obtain n where n: "handle_event calm_world ?ev dumped_client = Inr n" "wire (srv n) = [(5, RESP_OK)]"
    "files (srv n) = good_disk\<lparr>aof_file := Some []\<rparr>" "lview (data (srv n)) ''k'' = Some (string_entry ''v'' None)"
    using served_after_dump by blast
  note R = reachable.next_step
  have 0: "reachable calm_world ?p0 (?p0\<lparr>loop := Top\<rparr>)"
    by (rule R [OF reachable.here step.listen [OF _ good_sockets]]) (simp add: start_process_def)
  have 1: "reachable calm_world ?p0 (?p0\<lparr>loop := Ticking\<rparr>)"
    using R [OF 0 step.check] by (simp add: start_process_def status_defs)
  have 2: "reachable calm_world ?p0 (?p0\<lparr>loop := Polling\<rparr>)"
    using R [OF 1 step.tick [where now = 0 and later = 0 and ms = 0]] by (simp add: start_process_def tick_one_client)
  have 3: "reachable calm_world ?p0 (?p0\<lparr>loop := Polling, handler := Spinning\<rparr>)"
    using R [OF 2 step.signal] by (simp add: start_process_def)
  have 4: "reachable calm_world ?p0 (?p0\<lparr>loop := Polling, handler := Storing\<rparr>)"
    using R [OF 3 step.spin] by (simp add: start_process_def status_defs)
  have 5: "reachable calm_world ?p0 (?p0\<lparr>loop := Serving [?ev], eStatus := EngineStatus_BUSY, handler := Storing\<rparr>)"
    using R [OF 4 step.poll_swap [where evs = "[?ev]"]] by (simp add: start_process_def)
  have 6: "reachable calm_world ?p0 (?p0\<lparr>loop := Serving [?ev], eStatus := EngineStatus_SHUTTING_DOWN, handler := Dumping\<rparr>)"
    using R [OF 5 step.store_status] by (simp add: start_process_def)
  have 7: "reachable calm_world ?p0
      (?p0\<lparr>loop := Serving [?ev], eStatus := EngineStatus_SHUTTING_DOWN, handler := Exiting, eng := dumped_client\<rparr>)"
    using R [OF 6 step.dump [where d = "ticked (init_db 0 0)" and dk = "good_disk\<lparr>aof_file := Some []\<rparr>"]]
    by (simp add: start_process_def one_client_fields Shutdown_one_client dumped_client_def)
  have 8: "reachable calm_world ?p0
      (?p0\<lparr>loop := Serving [], eStatus := EngineStatus_SHUTTING_DOWN, handler := Exiting, eng := n\<rparr>)"
    by (rule reachable_trans [OF _ 7]) (use handle_event_run [where w = calm_world and ev = ?ev and evs = "[]" and n = n, of
        "?p0\<lparr>loop := Serving [?ev], eStatus := EngineStatus_SHUTTING_DOWN, handler := Exiting, eng := dumped_client\<rparr>"] n(1)
      length_set_packet(2) in \<open>simp add: fresh_event_def start_process_def\<close>)
  have 9: "reachable calm_world ?p0 (?p0\<lparr>loop := Top, eStatus := EngineStatus_WAITING, handler := Exiting, eng := n\<rparr>)"
    using R [OF 8 step.finish] by (simp add: start_process_def)
  show ?thesis by (rule exI, rule conjI [OF 9]) (simp add: start_process_def n)
qed

end
