(* ===== verification/Limits.thy ===== *)
theory Limits
  imports Process
begin

text \<open>
  What happens to a packet that is larger than a read buffer. \<open>readCommands\<close> makes one \<open>read\<close> of at
  most \<open>ReadBufSize\<close> bytes and decodes what it got; a bulk string that reaches beyond the buffer is
  sliced out of bounds.
\<close>

lemma commands_loop_prefix:
  assumes "slice_bytes d = pre @ concat (map encode_command css) @ post" "snd d \<le> length (fst d)" "snd d < 2 ^ 61"
    "\<forall>ws \<in> set css. ws \<noteq> []"
  shows "commands_loop uni d (int (length pre)) acc =
    commands_loop uni d (int (length (pre @ concat (map encode_command css)))) (acc @ map (parsed_of uni) css)"
  using assms
proof (induction css arbitrary: pre acc)
  case (Cons ws css)
  then obtain w ws' where ws: "ws = w # ws'" by (cases ws) auto
  have "commands_loop uni d (int (length pre)) acc =
    commands_loop uni d (int (length (pre @ encode_command ws))) (acc @ [parsed_of uni ws])"
    using commands_loop_step [of d pre w ws' "concat (map encode_command css) @ post" uni acc] Cons(2-4)
    by (simp add: ws parsed_of_def)
  also have "\<dots> = commands_loop uni d (int (length ((pre @ encode_command ws) @ concat (map encode_command css))))
      ((acc @ [parsed_of uni ws]) @ map (parsed_of uni) css)"
    by (rule Cons(1)) (use Cons(2-5) in simp_all)
  finally show ?case by simp
qed simp

lemma args_loop_prefix:
  assumes "slice_bytes d = pre @ concat (map bulk ws) @ post" "snd d \<le> length (fst d)" "snd d < 2 ^ 61" "i + int (length ws) \<le> cnt"
  shows "\<exists>cmd' args'. args_loop uni d i cnt (int (length pre)) cmd args =
    args_loop uni d (i + int (length ws)) cnt (int (length (pre @ concat (map bulk ws)))) cmd' args'"
  using assms
proof (induction ws arbitrary: pre i cmd args)
  case (Cons w ws)
  let ?cmd = "if i = 0 then Some (ToUpper uni w) else cmd" and ?args = "if i = 0 then args else args @ [w]"
  have "args_loop uni d i cnt (int (length pre)) cmd args = args_loop uni d (i + 1) cnt (int (length (pre @ bulk w))) ?cmd ?args"
    by (rule args_loop_step [of d pre w "concat (map bulk ws) @ post"]) (use Cons(2-5) in simp_all)
  moreover have "\<exists>cmd' args'. args_loop uni d (i + 1) cnt (int (length (pre @ bulk w))) ?cmd ?args =
    args_loop uni d (i + 1 + int (length ws)) cnt (int (length ((pre @ bulk w) @ concat (map bulk ws)))) cmd' args'"
    by (rule Cons(1)) (use Cons(2-5) in simp_all)
  moreover have "i + 1 + int (length ws) = i + int (length (w # ws))"
    "(pre @ bulk w) @ concat (map bulk ws) = pre @ concat (map bulk (w # ws))" by simp_all
  ultimately show ?case by (simp only:)
qed auto

lemma args_loop_cut:
  assumes d: "slice_bytes d = pre @ CHR ''$'' # FormatNat n @ CRLF @ part" "snd d = length (fst d)" "snd d < 2 ^ 61"
    and n: "length part < n" "n < 2 ^ 61" and i: "i < cnt"
  shows "args_loop uni d i cnt (int (length pre)) cmd args = Inl SliceBounds"
proof -
  have len: "length (slice_bytes d) = snd d" using d(2) by (simp add: slice_bytes_def)
  have s1: "slice_bytes d = (pre @ [CHR ''$'']) @ FormatNat n @ CRLF @ part" using d(1) by simp
  note f = slice_bytes_from [OF s1 eq_refl [OF d(2)]]
  have r: "readLength (drop (length (pre @ [CHR ''$''])) (fst d), snd d - length (pre @ [CHR ''$''])) = Inr (int n, int (length (FormatNat n)) + 2)"
    by (rule readLength_FormatNat) (use f n in simp_all)
  let ?p = "int (length pre) + 1 + (int (length (FormatNat n)) + 2)"
  have p: "?p + int (length part) = int (length (fst d))" using len d(1,2) by (simp add: CRLF_def)
  then have "wrap64 (?p + int n) = ?p + int n" using d(2,3) n(2) by (intro wrap64_id) simp_all
  then have t: "slice_string d ?p (wrap64 (?p + int n)) = Inl SliceBounds" using p n(1) by (simp add: slice_string_def)
  show ?thesis
    by (subst args_loop.simps) (use byte_at_pos [OF d(1) eq_refl [OF d(2)]] f r t i in \<open>simp add: ac_simps\<close>)
qed

lemma commands_loop_cut:
  assumes d: "slice_bytes d = pre @ CHR ''*'' # FormatNat m @ CRLF @ concat (map bulk ws) @ CHR ''$'' # FormatNat n @ CRLF @ part"
    "snd d = length (fst d)" "snd d < 2 ^ 61"
    and n: "length part < n" "n < 2 ^ 61" "length ws < m" "m < 2 ^ 61"
  shows "commands_loop uni d (int (length pre)) acc = Inl SliceBounds"
proof -
  let ?F = "FormatNat m"
  have len: "length (slice_bytes d) = snd d" using d(2) by (simp add: slice_bytes_def)
  have s0: "slice_bytes d = pre @ CHR ''*'' # ?F @ CRLF @ concat (map bulk ws) @ CHR ''$'' # FormatNat n @ CRLF @ part" using d(1) by simp
  have s1: "slice_bytes d = (pre @ [CHR ''*'']) @ ?F @ CRLF @ concat (map bulk ws) @ CHR ''$'' # FormatNat n @ CRLF @ part" using s0 by simp
  have s2: "slice_bytes d = (pre @ CHR ''*'' # ?F @ CRLF) @ concat (map bulk ws) @ CHR ''$'' # FormatNat n @ CRLF @ part" using s0 by simp
  have s3: "slice_bytes d = ((pre @ CHR ''*'' # ?F @ CRLF) @ concat (map bulk ws)) @ CHR ''$'' # FormatNat n @ CRLF @ part" using s0 by simp
  note f = slice_bytes_from [OF s1 eq_refl [OF d(2)]]
  have r: "readLength (drop (length (pre @ [CHR ''*''])) (fst d), snd d - length (pre @ [CHR ''*''])) = Inr (int m, int (length ?F) + 2)"
    by (rule readLength_FormatNat) (use f n in simp_all)
  have p: "int (length pre) + 1 + (int (length ?F) + 2) = int (length (pre @ CHR ''*'' # ?F @ CRLF))"
    by (simp add: CRLF_def)
  obtain cmd' args' where "args_loop uni d 0 (int m) (int (length (pre @ CHR ''*'' # ?F @ CRLF))) None [] =
      args_loop uni d (0 + int (length ws)) (int m) (int (length ((pre @ CHR ''*'' # ?F @ CRLF) @ concat (map bulk ws)))) cmd' args'"
    using args_loop_prefix [OF s2 eq_refl [OF d(2)] d(3), of 0 "int m" uni None "[]"] n(3) by auto
  also have "\<dots> = Inl SliceBounds" by (rule args_loop_cut [OF s3 d(2,3) n(1,2)]) (use n(3) in simp)
  finally have a: "args_loop uni d 0 (int m) (int (length pre) + 1 + (int (length ?F) + 2)) None [] = Inl SliceBounds"
    unfolding p .
  have "int (length pre) < int (snd d)" using len s0 by (metis length_append length_Cons less_add_Suc1 of_nat_less_iff add_Suc_right)
  moreover have "m \<noteq> 0" using n(3) by simp
  ultimately show ?thesis
    by (subst commands_loop.simps) (use byte_at_pos [OF s0 eq_refl [OF d(2)]] f r a in \<open>simp add: Let_def ac_simps\<close>)
qed

definition cut_header :: "string list list \<Rightarrow> string list \<Rightarrow> string \<Rightarrow> string list \<Rightarrow> string" where
  \<comment> \<open>what precedes the bytes of the argument \<open>v\<close> when it comes after the commands \<open>css\<close> and the words \<open>ws\<close>\<close>
  "cut_header css ws v others =
     concat (map encode_command css) @ CHR ''*'' # FormatNat (length (ws @ v # others)) @ CRLF @ concat (map bulk ws) @
     CHR ''$'' # FormatNat (length v) @ CRLF"

lemma cut_header_eq:
  assumes "length v < 2 ^ 61" "length (ws @ v # others) < 2 ^ 61"
  shows "concat (map encode_command css) @ encode_command (ws @ v # others) = cut_header css ws v others @ v @ CRLF @ concat (map bulk others)"
  using assms by (simp add: encode_command_eq bulk_eq cut_header_def)

lemma DecodeCommands_cut:
  assumes "\<forall>ws \<in> set css. ws \<noteq> []" "length v < 2 ^ 61" "length (ws @ v # others) < 2 ^ 61"
    "buf = cut_header css ws v others @ take n v" "n < length v" "length buf < 2 ^ 61"
  shows "DecodeCommands uni (buf, length buf) = Inl SliceBounds"
proof -
  let ?C = "concat (map encode_command css)" and ?m = "length (ws @ v # others)"
  let ?d = "(buf, length buf)"
  have d: "snd ?d = length (fst ?d)" "snd ?d < 2 ^ 61" using assms(6) by simp_all
  have s: "slice_bytes ?d = ?C @ CHR ''*'' # FormatNat ?m @ CRLF @ concat (map bulk ws) @ CHR ''$'' # FormatNat (length v) @ CRLF @ take n v"
  proof -
    have "slice_bytes ?d = buf" by (simp add: slice_bytes_def)
    then show ?thesis by (simp add: assms(4) cut_header_def)
  qed
  have "commands_loop uni ?d 0 [] = commands_loop uni ?d (int (length ?C)) (map (parsed_of uni) css)"
    using commands_loop_prefix [of ?d "[]" css _ uni "[]"] s d assms(1) by simp
  also have "\<dots> = Inl SliceBounds"
    by (rule commands_loop_cut [OF s d _ assms(2)]) (use assms(3,5) in simp_all)
  finally show ?thesis using assms(4) by (simp add: DecodeCommands_def cut_header_def)
qed

text \<open>C15: a client can end the server with one large value: when a packet is longer than the read
  buffer, and the buffer ends inside an argument (whatever commands and arguments come
  before it, and whatever follows), the decoder slices beyond the capacity of the buffer. The
  panic is not recovered: the process is gone, and nothing is dumped.\<close>

theorem oversized_argument_ends_process:
  assumes "map_of (connectedClients (eng p)) fd = Some c" "\<forall>ws \<in> set css. ws \<noteq> []"
    "length (cut_header css ws v others) \<le> ReadBufSize" "ReadBufSize < length (cut_header css ws v others) + length v"
    "length v < 2 ^ 61" "length (ws @ v # others) < 2 ^ 61"
    "ev = Ready fd (ReadBytes (take ReadBufSize (concat (map encode_command css) @ encode_command (ws @ v # others))) [])"
    "loop p = Serving (ev # evs)"
  shows "fresh_event ev (eng p) \<and> begin_event w ev (eng p) = Inl SliceBounds \<and>
    step w p (p\<lparr>loop := Gone, handler := Exited\<rparr>)"
proof -
  define buf where "buf = take ReadBufSize (concat (map encode_command css) @ encode_command (ws @ v # others))"
  let ?n = "ReadBufSize - length (cut_header css ws v others)"
  have b: "buf = cut_header css ws v others @ take ?n v"
    unfolding buf_def cut_header_eq [OF assms(5,6)] using assms(3,4) by simp
  then have l: "length buf = ReadBufSize" using assms(3,4) by simp
  have "DecodeCommands (upper_uni (env_of w)) (buf, length buf) = Inl SliceBounds"
    by (rule DecodeCommands_cut [OF assms(2,5,6) b]) (use assms(3,4) l in \<open>simp_all add: ReadBufSize_def\<close>)
  then have be: "begin_event w ev (eng p) = Inl SliceBounds"
    using assms(1,7) by (simp add: begin_event_def readCommands_def buf_def)
  moreover have "fresh_event ev (eng p)" using l assms(7) by (simp add: fresh_event_def buf_def)
  ultimately show ?thesis using step.crash_event [OF assms(8) be] by simp
qed

lemma oversized_argument_ends_process_witness:
  "\<exists>p q. step calm_world p q \<and> (\<exists>ev. loop p = Serving [ev]) \<and> loop q = Gone"
proof -
  let ?ws = "[''SET'', ''k'']" and ?v = "replicate 70000 (CHR ''x'')"
  define ev where "ev = Ready 5 (ReadBytes (take ReadBufSize (concat (map encode_command []) @ encode_command (?ws @ ?v # []))) [])"
  let ?p = "(start_process one_client)\<lparr>loop := Serving [ev]\<rparr>"
  have h: "length (cut_header [] ?ws ?v []) = 28"
    by (simp add: cut_header_def bulk_def FormatInt_def FormatNat.simps CRLF_def)
  have "fresh_event ev (eng ?p) \<and> begin_event calm_world ev (eng ?p) = Inl SliceBounds \<and>
      step calm_world ?p (?p\<lparr>loop := Gone, handler := Exited\<rparr>)"
    by (rule oversized_argument_ends_process [OF _ _ _ _ _ _ ev_def])
      (use h in \<open>simp_all add: ReadBufSize_def one_client_fields start_process_def\<close>)
  then have "step calm_world ?p (?p\<lparr>loop := Gone, handler := Exited\<rparr>)" by simp
  then show ?thesis by (intro exI [of _ ?p] exI [of _ "?p\<lparr>loop := Gone, handler := Exited\<rparr>"]) simp
qed

end
