(* ===== verification/Startup.thy ===== *)
theory Startup
  imports Limits
begin

text \<open>
  \<open>main.go\<close>: the flags, the replay at start-up, and the two goroutines; and what a restart, a
  failing start and a file that was cut short come to. \<open>flag.Parse\<close> is the operating system's
  business; \<open>main\<close> waits for both goroutines, but the process ends earlier, in \<open>os.Exit\<close>.
\<close>

section \<open>The main function\<close>

record flags =
  Host :: string
  Port :: int

definition setupFlag :: "string option \<Rightarrow> int option \<Rightarrow> flags" where
  \<comment> \<open>the values given on the command line, if any\<close>
  "setupFlag h p =
     \<lparr>Host = (case h of None \<Rightarrow> ''0.0.0.0'' | Some s \<Rightarrow> s), Port = (case p of None \<Rightarrow> 7379 | Some n \<Rightarrow> n)\<rparr>"

definition start_main :: "world \<Rightarrow> disk \<Rightarrow> int64 \<Rightarrow> int64 \<Rightarrow> int \<Rightarrow> process outcome" where
  \<comment> \<open>\<open>main\<close> up to \<open>wg.Wait\<close>: the clocks are read when the packages are initialised, before the replay\<close>
  "start_main w dk ms unix now =
     obind (InitStore (env_of w) dk (init_db ms unix)) (\<lambda>d.
       Inr (start_process \<lparr>srv = init_server d dk, connectedClients = [], con_client = 0, lastCronExecTime = now\<rparr>))"

section \<open>From the start\<close>

lemma served_ok: "served e ks d r \<Longrightarrow> r = Inr (reply, d') \<Longrightarrow> db_ok e d'"
  by (auto simp: served_def dest: evolves_ok)

lemma replay_command_ok:
  assumes "db_ok e d" "config_ok (cfg e)"
  shows "\<exists>d'. replay_command e c d = Inr d' \<and> db_ok e d'"
proof -
  have "\<exists>d'. obind (f e (snd c) d) (\<lambda>(_, d). Inr d) = Inr d' \<and> db_ok e d'"
    if "served e (set (snd c)) d (f e (snd c) d)" for f
    using that by (auto simp: served_def obind_def dest: evolves_ok split: sum.splits)
  from this [where f = evalSET, OF evalSET_served [OF assms]] this [where f = evalHSET, OF hash_writers_served(1) [OF assms]]
    this [where f = evalRPUSH, OF list_writers_served(2) [OF assms]] this [where f = evalSADD, OF set_writers_served(1) [OF assms]] assms(1)
  show ?thesis by (auto simp: replay_command_def Let_def)
qed

lemma replay_loop_ok:
  assumes "config_ok (cfg e)"
  shows "db_ok e d \<Longrightarrow> \<exists>d'. replay_loop e cs d = Inr d' \<and> db_ok e d'"
proof (induction cs arbitrary: d)
  case (Cons c cs)
  then show ?case using replay_command_ok [OF Cons(2) assms, of c] by auto
qed simp

lemma ReplayAOF_cases:
  assumes "config_ok (cfg e)" "db_ok e d"
  obtains d' where "ReplayAOF e dk d = Inr d'" "db_ok e d'"
  | s x where "may_read dk" "aof_file dk = Some s" "DecodeCommands (upper_uni e) (take max_rw s @ replicate (length s - max_rw) (CHR 0x00), min (length s) max_rw) = Inl x"
      "ReplayAOF e dk d = Inl x"
proof (cases "may_read dk \<and> (\<exists>s. aof_file dk = Some s \<and> s \<noteq> [])")
  case False
  then have "ReplayAOF e dk d = Inr d" by (auto simp: ReplayAOF_def split: option.split)
  then show ?thesis using that(1) assms(2) by blast
next
  case True
  then obtain s where s: "may_read dk" "aof_file dk = Some s" "s \<noteq> []" by blast
  let ?r = "DecodeCommands (upper_uni e) (take max_rw s @ replicate (length s - max_rw) (CHR 0x00), min (length s) max_rw)"
  have "take (min (length s) max_rw) s = take max_rw s" "length s - min (length s) max_rw = length s - max_rw"
    by (auto simp: min_def)
  then have r: "ReplayAOF e dk d = obind ?r (\<lambda>(cmds, err). if err \<noteq> None then Inr d else replay_loop e cmds d)"
    using s by (simp add: ReplayAOF_def Let_def)
  show ?thesis
  proof (cases ?r)
    case (Inl x)
    then show ?thesis using that(2) s r by simp
  next
    case (Inr p)
    obtain cs err where p: "p = (cs, err)" by force
    obtain d' where "replay_loop e cs d = Inr d'" "db_ok e d'" using replay_loop_ok [OF assms] by blast
    then show ?thesis using that(1) r Inr p assms(2) by (cases err) auto
  qed
qed

lemma start_engine_ok:
  assumes "db_ok (env_of w) d"
  shows "engine_ok w \<lparr>srv = init_server d dk, connectedClients = [], con_client = 0, lastCronExecTime = now\<rparr>"
  using assms init_server_channels [of d dk] by (simp add: engine_ok_def srv_ok_def pool_inv_def) (simp add: init_server_def)

lemma start_main_Inr:
  assumes "start_main w dk ms unix now = Inr p" "config_ok (cfg (env_of w))"
  obtains d n where "ReplayAOF (env_of w) dk (init_db ms unix) = Inr d" "p = start_process n" "engine_ok w n" "data (srv n) = d" "files (srv n) = dk"
proof -
  from assms(1) obtain d where d: "ReplayAOF (env_of w) dk (init_db ms unix) = Inr d"
    "p = start_process \<lparr>srv = init_server d dk, connectedClients = [], con_client = 0, lastCronExecTime = now\<rparr>"
    by (auto simp: start_main_def InitStore_def obind_eq_Inr)
  have "db_ok (env_of w) d"
    by (rule ReplayAOF_cases [OF assms(2) init_db_ok [OF assms(2)], of dk ms unix]) (use d in simp_all)
  then show ?thesis using that [OF d(1,2) start_engine_ok] by (simp add: init_server_def)
qed

lemma start_main_Inl:
  assumes "start_main w dk ms unix now = Inl x" "config_ok (cfg (env_of w))"
  shows "\<exists>s. aof_file dk = Some s \<and>
    DecodeCommands (upper_uni (env_of w)) (take max_rw s @ replicate (length s - max_rw) (CHR 0x00), min (length s) max_rw) = Inl x"
  by (rule ReplayAOF_cases [OF assms(2) init_db_ok [OF assms(2)], of dk ms unix])
    (use assms(1) in \<open>auto simp: start_main_def InitStore_def\<close>)

section \<open>A socket that cannot be opened\<close>

text \<open>An address that is taken does not end the server: the error that \<open>RunAsyncTCPServer\<close> returns
  is read by nobody, and \<open>main\<close> waits for the signal handler. Whatever happens from there on, no
  client is served, and the process ends only through the handler, once a signal has arrived.\<close>

theorem failed_listen_lingers:
  assumes "loop p = Starting" "handler p = Waiting" "async_setup k = Inr False"
    "p' = p\<lparr>loop := Stopped, eStatus := EngineStatus_SHUTTING_DOWN\<rparr>" "reachable w p' q"
  shows "step w p p' \<and> wire (srv (eng q)) = wire (srv (eng p)) \<and> \<not> serving (loop q) \<and>
    (if handler q = Exited then loop q = Gone else loop q = Stopped)"
proof -
  have "wire (srv (eng q)) = wire (srv (eng p)) \<and> (if handler q = Exited then loop q = Gone else loop q = Stopped)"
    using assms(5)
  proof induction
    case here
    then show ?case using assms(2,4) by simp
  next
    case (next_step q r)
    from next_step(2,3) show ?case by cases (auto split: if_splits)
  qed
  moreover have "\<not> serving (loop q)" using calculation by (auto split: if_splits)
  ultimately show ?thesis using step.give_up [OF assms(1,3)] assms(4) by simp
qed

lemma failed_listen_lingers_witness:
  "\<exists>q. reachable calm_world (start_process init_engine) q \<and> loop q = Stopped \<and> handler q = Waiting"
proof -
  let ?k = "\<lparr>socket_ok = True, nonblock_ok = True, host_ip4 = Some [127, 0, 0, 1], bind_ok = False,
    listen_ok = True, epoll_ok = True, ctl_ok = True\<rparr>" and ?p = "start_process init_engine"
  have "loop ?p = Starting" "handler ?p = Waiting" "async_setup ?k = Inr False" by (simp_all add: start_process_def async_setup_def)
  from failed_listen_lingers [OF this refl reachable.here, of calm_world]
  have "step calm_world ?p (?p\<lparr>loop := Stopped, eStatus := EngineStatus_SHUTTING_DOWN\<rparr>)" by blast
  from reachable.next_step [OF reachable.here this] show ?thesis
    by (intro exI [of _ "?p\<lparr>loop := Stopped, eStatus := EngineStatus_SHUTTING_DOWN\<rparr>"]) (simp add: start_process_def)
qed

lemma host_name_panics:
  "socket_ok k \<Longrightarrow> nonblock_ok k \<Longrightarrow> host_ip4 k = None \<Longrightarrow> async_setup k = Inl IndexOutOfRange"
  by (simp add: async_setup_def)

section \<open>A file that was cut short\<close>

lemma dumpKey_room: "dumpKey e (dk\<lparr>write_room := r\<rparr>) = dumpKey e dk"
proof -
  have "print_s (dk\<lparr>write_room := r\<rparr>) = print_s dk" by (simp add: print_s_def fun_eq_iff split: gvalue.split)
  then show ?thesis by (intro ext) (simp only: dumpKey_def dump_tokens_def)
qed

lemma dump_loop_room: "dump_loop e (dk\<lparr>write_room := r\<rparr>) ks d = dump_loop e dk ks d"
  by (induction ks arbitrary: d) (simp_all add: dumpKey_room split: option.split)

lemma DumpAllAOF_room:
  assumes "may_create dk" "DumpAllAOF e d (dk\<lparr>write_room := None\<rparr>) = Inr (d1, full)"
  shows "DumpAllAOF e d dk = Inr (d1, dk\<lparr>aof_file := Some (flushed dk (the (aof_file full)))\<rparr>)"
  using assms by (auto simp: DumpAllAOF_def dump_loop_room flushed_def obind_eq_Inr cong: option.case_cong)

text \<open>C16: a dump to a full disk is reported as done and keeps the server from starting again: if what
  was written ends inside an argument, \<open>BGREWRITEAOF\<close> has replied \<open>OK\<close> (the error of the flush
  is not looked at), the earlier content of the file is gone, and the replay slices beyond
  the end of the file, which ends \<open>main\<close> in a panic.\<close>

theorem cut_dump_blocks_start:
  assumes "may_create dk" "may_read dk" "write_room dk = Some n" "n \<le> max_rw"
    "DumpAllAOF (env_of w) d (dk\<lparr>write_room := None\<rparr>) = Inr (d1, full)"
    "aof_file full = Some (concat (map encode_command css) @ encode_command (ws @ v # others) @ rest)"
    "\<forall>ws \<in> set css. ws \<noteq> []" "length v < 2 ^ 61" "length (ws @ v # others) < 2 ^ 61"
    "length (cut_header css ws v others) \<le> n" "n < length (cut_header css ws v others) + length v"
  shows "\<exists>dk1. evalBGREWRITEAOF (env_of w) args d dk = Inr (RESP_OK, d1, dk1) \<and>
    start_main w dk1 ms unix now = Inl SliceBounds"
proof -
  let ?h = "cut_header css ws v others"
  define buf where "buf = ?h @ take (n - length ?h) v"
  have "take n (concat (map encode_command css) @ encode_command (ws @ v # others) @ rest) = buf"
    using cut_header_eq [OF assms(8,9), of css] assms(10,11) unfolding buf_def by (simp flip: append_assoc)
  then have d: "DumpAllAOF (env_of w) d dk = Inr (d1, dk\<lparr>aof_file := Some buf\<rparr>)"
    using DumpAllAOF_room [OF assms(1,5)] assms(3,6) by (simp add: flushed_def)
  have l: "length buf = n" "buf \<noteq> []" using assms(10,11) by (auto simp: buf_def cut_header_def)
  have "0 < n" using l by (metis length_greater_0_conv)
  have "n < 2 ^ 61" using assms(4) by (simp add: max_rw_def)
  then have "DecodeCommands (upper_uni (env_of w)) (buf, length buf) = Inl SliceBounds"
    by (intro DecodeCommands_cut [OF assms(7-9) buf_def]) (use assms(10,11) l in simp_all)
  then have "start_main w (dk\<lparr>aof_file := Some buf\<rparr>) ms unix now = Inl SliceBounds"
    using l assms(2,4) \<open>0 < n\<close> by (simp add: start_main_def InitStore_def ReplayAOF_def Let_def min_def)
  with d show ?thesis by (simp add: evalBGREWRITEAOF_def)
qed

lemma dump_one_key:
  "\<exists>dk1. DumpAllAOF default_env (store_string default_env ''k'' ''v'' (- 1) (init_db 0 0)) good_disk =
       Inr (ticked (store_string default_env ''k'' ''v'' (- 1) (init_db 0 0)), dk1) \<and>
     aof_file dk1 = Some (encode_command [''SET'', ''k'', ''v''])"
proof -
  let ?d = "store_string default_env ''k'' ''v'' (- 1) (init_db 0 0)"
  have s: "store ?d = [(''k'', 0)]" and o: "Value (objs ?d 0) = VStr ''v''" and t: "getType (TypeEncoding (objs ?d 0)) = OBJ_TYPE_STRING"
    by (simp_all add: store_string_def NewObj_def Put_def init_db_def default_env_def default_config_def pool_choice_def
        StoreLen_def ticked_def touch_def bump_keys_def deduceTypeEncoding_def ParseInt_def parse_signed_def ParseUint_def
        digit_of_def type_consts Let_def)
  have "dump_loop default_env good_disk [''k''] (ticked ?d) = Inr (encode_command [''SET'', ''k'', ''v''], ticked ?d)"
    using s o t by (simp add: dumpKey_def dump_tokens_def ticked_def print_s_def encode_command_def)
  then show ?thesis
    using s by (simp add: DumpAllAOF_def good_disk_def flushed_def iterate_def default_env_def store_keys_def)
qed

lemma cut_dump_blocks_start_witness:
  "\<exists>d1 dk1. evalBGREWRITEAOF default_env [] (store_string default_env ''k'' ''v'' (- 1) (init_db 0 0)) (good_disk\<lparr>write_room := Some 24\<rparr>) =
     Inr (RESP_OK, d1, dk1) \<and> start_main calm_world dk1 0 0 0 = Inl SliceBounds"
proof -
  let ?d = "store_string default_env ''k'' ''v'' (- 1) (init_db 0 0)" and ?dk = "good_disk\<lparr>write_room := Some 24\<rparr>"
  obtain dk1 where dk1: "DumpAllAOF default_env ?d good_disk = Inr (ticked ?d, dk1)" "aof_file dk1 = Some (encode_command [''SET'', ''k'', ''v''])"
    using dump_one_key by blast
  have "?dk\<lparr>write_room := None\<rparr> = good_disk" by (simp add: good_disk_def)
  then have f: "DumpAllAOF (env_of calm_world) ?d (?dk\<lparr>write_room := None\<rparr>) = Inr (ticked ?d, dk1)" using dk1(1) by simp
  have a: "aof_file dk1 = Some (concat (map encode_command []) @ encode_command ([''SET'', ''k''] @ ''v'' # []) @ [])" using dk1(2) by simp
  have h: "length (cut_header [] [''SET'', ''k''] ''v'' []) = 24"
    by (simp add: cut_header_def bulk_def FormatInt_def FormatNat.simps CRLF_def)
  have "\<exists>dk1. evalBGREWRITEAOF (env_of calm_world) [] ?d ?dk = Inr (RESP_OK, ticked ?d, dk1) \<and> start_main calm_world dk1 0 0 0 = Inl SliceBounds"
    by (rule cut_dump_blocks_start [OF _ _ _ _ f a, where n = 24]) (use h in \<open>simp_all add: good_disk_def max_rw_def\<close>)
  then show ?thesis by auto
qed

section \<open>A clean shutdown and the next start\<close>

definition same_entry :: "db \<Rightarrow> db \<Rightarrow> nat \<Rightarrow> bool" where
  "same_entry d0 d a \<longleftrightarrow> obj_entry d a = obj_entry d0 a"

definition only_expired_gone :: "uint64 set \<Rightarrow> db \<Rightarrow> db \<Rightarrow> bool" where
  \<comment> \<open>the keys of \<open>d\<close> are as in \<open>d0\<close>, and only keys are missing that had expired at a time in \<open>T\<close>\<close>
  "only_expired_gone T d0 d \<longleftrightarrow>
     (\<forall>k a. map_of (store d) k = Some a \<longrightarrow> map_of (store d0) k = Some a \<and> same_entry d0 d a) \<and>
     (\<forall>k a. map_of (store d0) k = Some a \<longrightarrow> map_of (store d) k = Some a \<or> (\<exists>ex t. map_of (expires d0) a = Some ex \<and> t \<in> T \<and> ex \<le> t))"

lemma only_expired_gone_refl: "store d = store d0 \<Longrightarrow> objs d = objs d0 \<Longrightarrow> expires d = expires d0 \<Longrightarrow> only_expired_gone T d0 d"
  by (simp add: only_expired_gone_def same_entry_def obj_entry_def)

lemma same_entry_trans: "same_entry d0 d1 a \<Longrightarrow> same_entry d1 d2 a \<Longrightarrow> same_entry d0 d2 a"
  by (simp add: same_entry_def)

lemma same_entry_expires: "same_entry d0 d a \<Longrightarrow> map_of (expires d) a = map_of (expires d0) a"
  by (simp add: same_entry_def obj_entry_def)

lemma only_expired_goneD:
  assumes "only_expired_gone T d0 d"
  shows "map_of (store d) k = Some a \<Longrightarrow> map_of (store d0) k = Some a"
    "map_of (store d) k = Some a \<Longrightarrow> same_entry d0 d a"
    "map_of (store d0) k = Some a \<Longrightarrow> map_of (store d) k = Some a \<or> (\<exists>ex t. map_of (expires d0) a = Some ex \<and> t \<in> T \<and> ex \<le> t)"
  using assms unfolding only_expired_gone_def by blast+

lemma only_expired_goneI:
  assumes "\<And>k a. map_of (store d) k = Some a \<Longrightarrow> map_of (store d0) k = Some a \<and> same_entry d0 d a"
    "\<And>k a. map_of (store d0) k = Some a \<Longrightarrow> map_of (store d) k \<noteq> Some a \<Longrightarrow> \<exists>ex t. map_of (expires d0) a = Some ex \<and> t \<in> T \<and> ex \<le> t"
  shows "only_expired_gone T d0 d"
  using assms unfolding only_expired_gone_def by blast

lemma only_expired_gone_mono: "only_expired_gone T d0 d \<Longrightarrow> T \<subseteq> T' \<Longrightarrow> only_expired_gone T' d0 d"
  unfolding only_expired_gone_def by blast

lemma only_expired_gone_trans:
  assumes a: "only_expired_gone T d0 d1" and b: "only_expired_gone T d1 d2"
  shows "only_expired_gone T d0 d2"
proof (rule only_expired_goneI)
  fix k x
  assume k: "map_of (store d2) k = Some x"
  note k1 = only_expired_goneD(1) [OF b k]
  show "map_of (store d0) k = Some x \<and> same_entry d0 d2 x"
    using only_expired_goneD(1,2) [OF a k1] same_entry_trans only_expired_goneD(2) [OF b k] by blast
next
  fix k x
  assume k: "map_of (store d0) k = Some x" "map_of (store d2) k \<noteq> Some x"
  show "\<exists>ex t. map_of (expires d0) x = Some ex \<and> t \<in> T \<and> ex \<le> t"
  proof (cases "map_of (store d1) k = Some x")
    case True
    then show ?thesis using only_expired_goneD(3) [OF b True] k(2) same_entry_expires [OF only_expired_goneD(2) [OF a True]] by simp
  qed (use only_expired_goneD(3) [OF a k(1)] in blast)
qed

lemma DeleteExpiredKey_gone:
  assumes "db_inv d"
  shows "only_expired_gone {GlobalCachedTime d} d (DeleteExpiredKey e d)"
proof -
  let ?d = "DeleteExpiredKey e d"
  have le: "map_of (store ?d) \<subseteq>\<^sub>m map_of (store d)"
    using sh.P_DeleteExpiredKey [OF shrinks_refl [OF assms], of e] by (simp add: shrinks_def)
  have live: "\<not> hasExpired ?d a" if "map_of (store ?d) k = Some a" for k a
    using DeleteExpiredKey_complete [OF assms, of e] that by (simp add: no_expired_def)
  have view: "lview ?d = lview d" using DeleteExpiredKey_complete [OF assms, of e] by simp
  have le1: "map_of (store d) k = Some a" if "map_of (store ?d) k = Some a" for k a
    using le that unfolding map_le_def by (metis domI)
  show ?thesis
  proof (rule only_expired_goneI)
    fix k a
    assume k: "map_of (store ?d) k = Some a"
    have "lview ?d k = Some (obj_entry ?d a)" using k live [OF k] by (simp add: lview_def)
    then have "lview d k = Some (obj_entry ?d a)" by (simp only: view)
    then show "map_of (store d) k = Some a \<and> same_entry d ?d a" using le1 [OF k] by (simp add: lview_def same_entry_def split: if_splits)
  next
    fix k a
    assume k: "map_of (store d) k = Some a" "map_of (store ?d) k \<noteq> Some a"
    have "hasExpired d a"
    proof (rule ccontr)
      assume "\<not> hasExpired d a"
      then have "lview ?d k \<noteq> None" unfolding view using k by (simp add: lview_def)
      then obtain a' where a': "map_of (store ?d) k = Some a'" by (auto simp: lview_def split: option.splits)
      then show False using le1 [OF a'] k by simp
    qed
    then show "\<exists>ex t. map_of (expires d) a = Some ex \<and> t \<in> {GlobalCachedTime d} \<and> ex \<le> t"
      by (auto simp: hasExpired_def split: option.splits)
  qed
qed

definition dumping :: "process \<Rightarrow> bool" where
  \<comment> \<open>the signal handler has stored the status, the socket is open, and no events are being served\<close>
  "dumping p \<longleftrightarrow> quiet p \<and> loop p \<noteq> Starting"

lemma Shutdown_eq: "Shutdown e d dk = DumpAllAOF e d dk"
  by (cases "DumpAllAOF e d dk") (auto simp: Shutdown_def evalBGREWRITEAOF_def)

lemma DeleteExpiredKey_clock: "db_inv d \<Longrightarrow> GlobalCachedTime (DeleteExpiredKey e d) = GlobalCachedTime d"
  using sh.P_DeleteExpiredKey [OF shrinks_refl, of d e] by (simp add: shrinks_def same_clock_def)

definition clock_seen :: "process \<Rightarrow> uint64 set" where
  \<comment> \<open>the time at which keys may have been purged: a loop that is shutting down ticks once at most\<close>
  "clock_seen p = (if loop p = Ticking then {} else {GlobalCachedTime (data (srv (eng p)))})"

lemma step_dumping:
  assumes "step w p q" "dumping p" "engine_ok w (eng p)"
  shows "dumping q" "clock_seen p \<subseteq> clock_seen q"
    "only_expired_gone (clock_seen q) (data (srv (eng p))) (data (srv (eng q)))"
    "handler p = Dumping \<Longrightarrow>
       handler q = Dumping \<and> files (srv (eng q)) = files (srv (eng p)) \<or>
       handler q = Exiting \<and> DumpAllAOF (env_of w) (data (srv (eng p))) (files (srv (eng p))) = Inr (data (srv (eng q)), files (srv (eng q)))"
    "handler p \<noteq> Dumping \<Longrightarrow> handler q \<noteq> Dumping \<and> files (srv (eng q)) = files (srv (eng p))"
proof -
  have q: "quiet q" using step_quiet [OF assms(1) _ assms(3)] assms(2) by (simp add: dumping_def)
  from assms(1) have "loop q \<noteq> Starting" by cases (use assms(2) in \<open>auto simp: dumping_def\<close>)
  with q show "dumping q" by (simp add: dumping_def)
  have refl: "only_expired_gone T d d" for T d by (rule only_expired_gone_refl) simp_all
  from assms(1) have "clock_seen p \<subseteq> clock_seen q \<and> only_expired_gone (clock_seen q) (data (srv (eng p))) (data (srv (eng q)))"
  proof cases
    case (tick now later ms)
    let ?d = "(data (srv (eng p)))\<lparr>GlobalCachedTime := ms\<rparr>"
    have "db_inv ?d" using db_ok_inv [of "env_of w" ?d] engine_ok_db [OF assms(3)] by (simp add: db_ok_clock)
    note gone = DeleteExpiredKey_gone [OF this, of "env_of w"] and clock = DeleteExpiredKey_clock [OF this, of "env_of w"]
    have "only_expired_gone {ms} (data (srv (eng p))) ?d" by (rule only_expired_gone_refl) simp_all
    moreover from this gone have "only_expired_gone {ms} (data (srv (eng p))) (DeleteExpiredKey (env_of w) ?d)"
      using only_expired_gone_trans by simp
    ultimately show ?thesis using tick clock by (simp add: clock_seen_def cron_def UpdateCachedTime_def)
  next
    case (dump d dk)
    obtain n where "d = (data (srv (eng p)))\<lparr>tick := n\<rparr>" using Shutdown_data [OF engine_ok_db [OF assms(3)] dump(3)] by blast
    then show ?thesis using dump(1) by (auto simp: clock_seen_def intro: only_expired_gone_refl)
  next
    case (time t)
    then show ?thesis by (auto simp: clock_seen_def intro: only_expired_gone_refl)
  qed (use assms(2) refl in \<open>auto simp: clock_seen_def dumping_def quiet_def status_defs\<close>)
  then show "clock_seen p \<subseteq> clock_seen q" "only_expired_gone (clock_seen q) (data (srv (eng p))) (data (srv (eng q)))" by blast+
  from assms(1) have "(handler p = Dumping \<longrightarrow>
       handler q = Dumping \<and> files (srv (eng q)) = files (srv (eng p)) \<or>
       handler q = Exiting \<and> DumpAllAOF (env_of w) (data (srv (eng p))) (files (srv (eng p))) = Inr (data (srv (eng q)), files (srv (eng q)))) \<and>
    (handler p \<noteq> Dumping \<longrightarrow> handler q \<noteq> Dumping \<and> files (srv (eng q)) = files (srv (eng p)))"
  proof cases
    case (tick now later ms)
    then show ?thesis by (simp add: cron_def UpdateCachedTime_def)
  next
    case (dump d dk)
    then show ?thesis by (simp add: Shutdown_eq)
  qed (use assms(2) in \<open>auto simp: dumping_def quiet_def status_defs\<close>)
  then show "handler p = Dumping \<Longrightarrow>
       handler q = Dumping \<and> files (srv (eng q)) = files (srv (eng p)) \<or>
       handler q = Exiting \<and> DumpAllAOF (env_of w) (data (srv (eng p))) (files (srv (eng p))) = Inr (data (srv (eng q)), files (srv (eng q)))"
    "handler p \<noteq> Dumping \<Longrightarrow> handler q \<noteq> Dumping \<and> files (srv (eng q)) = files (srv (eng p))" by blast+
qed

lemma run_dumping:
  assumes "reachable w p q" "dumping p" "handler p = Dumping" "process_ok w p" "config_ok (cfg (env_of w))"
  shows "dumping q \<and> process_ok w q \<and>
    (if handler q = Dumping
     then files (srv (eng q)) = files (srv (eng p)) \<and> only_expired_gone (clock_seen q) (data (srv (eng p))) (data (srv (eng q)))
     else \<exists>d d1. only_expired_gone (clock_seen q) (data (srv (eng p))) d \<and> db_ok (env_of w) d \<and>
       DumpAllAOF (env_of w) d (files (srv (eng p))) = Inr (d1, files (srv (eng q))))"
  using assms(1)
proof induction
  case here
  then show ?case using assms(2-4) by (simp add: only_expired_gone_refl)
next
  case (next_step q r)
  have E: "engine_ok w (eng q)" using next_step(3) by (simp add: process_ok_def)
  have D: "dumping q" using next_step(3) by simp
  note S = step_dumping [OF next_step(2) D E]
  have "dumping r \<and> process_ok w r" using S(1) step_process_ok [OF next_step(2) assms(5)] next_step(3) by simp
  moreover have "db_ok (env_of w) (data (srv (eng q)))" by (rule engine_ok_db [OF E])
  moreover have "if handler r = Dumping
     then files (srv (eng r)) = files (srv (eng p)) \<and> only_expired_gone (clock_seen r) (data (srv (eng p))) (data (srv (eng r)))
     else \<exists>d d1. only_expired_gone (clock_seen r) (data (srv (eng p))) d \<and> db_ok (env_of w) d \<and>
       DumpAllAOF (env_of w) d (files (srv (eng p))) = Inr (d1, files (srv (eng r)))"
  proof (cases "handler q = Dumping")
    case True
    then have q: "files (srv (eng q)) = files (srv (eng p))" "only_expired_gone (clock_seen r) (data (srv (eng p))) (data (srv (eng q)))"
      using next_step(3) only_expired_gone_mono [OF _ S(2)] by simp_all
    from S(4) [OF True] show ?thesis
    proof
      assume "handler r = Exiting \<and> DumpAllAOF (env_of w) (data (srv (eng q))) (files (srv (eng q))) = Inr (data (srv (eng r)), files (srv (eng r)))"
      then show ?thesis using q \<open>db_ok (env_of w) (data (srv (eng q)))\<close> by auto
    qed (use q only_expired_gone_trans [OF q(2) S(3)] in auto)
  next
    case False
    then obtain d d1 where "only_expired_gone (clock_seen q) (data (srv (eng p))) d" "db_ok (env_of w) d"
      "DumpAllAOF (env_of w) d (files (srv (eng p))) = Inr (d1, files (srv (eng q)))" using next_step(3) by auto
    then show ?thesis using S(5) [OF False] only_expired_gone_mono [OF _ S(2)] by auto
  qed
  ultimately show ?case by blast
qed

text \<open>Durability, where the dump is one step: when the signal handler finds the loop idle, the file
  that is there when the process exits brings the data back.\<close>

lemma clean_restart_restores:
  assumes "reachable w p q" "handler p = Dumping" "dumping p" "process_ok w p" "config_ok (cfg (env_of w))"
    "handler q \<noteq> Dumping" "dk = files (srv (eng p))" "may_create dk" "may_read dk" "write_room dk = None"
    "\<forall>k a. map_of (store (data (srv (eng p)))) k = Some a \<longrightarrow> dump_safe k (objs (data (srv (eng p))) a)"
    "length (the (aof_file (files (srv (eng q))))) \<le> max_rw"
  shows "\<exists>p'. start_main w (files (srv (eng q))) ms unix now = Inr p' \<and> process_ok w p' \<and>
    (\<forall>k. restores (map_option (objs (data (srv (eng p)))) (map_of (store (data (srv (eng p)))) k)) (lview (data (srv (eng p'))) k) \<or>
       lview (data (srv (eng p'))) k = None \<and>
         (\<exists>a ex. map_of (store (data (srv (eng p)))) k = Some a \<and> map_of (expires (data (srv (eng p)))) a = Some ex \<and>
            ex \<le> GlobalCachedTime (data (srv (eng q)))))"
proof -
  let ?d0 = "data (srv (eng p))"
  obtain d d1 where d0: "only_expired_gone (clock_seen q) ?d0 d" and d1: "db_ok (env_of w) d" "DumpAllAOF (env_of w) d dk = Inr (d1, files (srv (eng q)))"
    using run_dumping [OF assms(1,3,2,4,5)] assms(6,7) by auto
  have d: "only_expired_gone {GlobalCachedTime (data (srv (eng q)))} ?d0 d" "db_ok (env_of w) d" "DumpAllAOF (env_of w) d dk = Inr (d1, files (srv (eng q)))"
    using only_expired_gone_mono [OF d0] d1 by (simp_all add: clock_seen_def)
  have core: "TypeEncoding (objs d a) = TypeEncoding (objs ?d0 a)" "Value (objs d a) = Value (objs ?d0 a)"
    if "map_of (store d) k = Some a" for k a
    using only_expired_goneD(2) [OF d(1) that] by (simp_all add: same_entry_def obj_entry_def)
  have safe: "\<forall>k a. map_of (store d) k = Some a \<longrightarrow> dump_safe k (objs d a)"
    using assms(11) only_expired_goneD(1) [OF d(1)] core unfolding dump_safe_def by metis
  obtain d2 where d2: "ReplayAOF (env_of w) (files (srv (eng q))) (init_db ms unix) = Inr d2" "db_ok (env_of w) d2"
    "\<forall>k. restores (map_option (objs d) (map_of (store d) k)) (lview d2 k)"
    using dump_replay_restores [OF d(2) assms(5,8-10) safe d(3) assms(12), of ms unix] by blast
  let ?n = "\<lparr>srv = init_server d2 (files (srv (eng q))), connectedClients = [], con_client = 0, lastCronExecTime = now\<rparr>"
  have s: "start_main w (files (srv (eng q))) ms unix now = Inr (start_process ?n)"
    using d2(1) by (simp add: start_main_def InitStore_def)
  have "process_ok w (start_process ?n)" using start_engine_ok [OF d2(2)] by (simp add: process_ok_def flight_ok_def start_process_def)
  moreover have "restores (map_option (objs ?d0) (map_of (store ?d0) k)) (lview d2 k) \<or>
      lview d2 k = None \<and> (\<exists>a ex. map_of (store ?d0) k = Some a \<and> map_of (expires ?d0) a = Some ex \<and> ex \<le> GlobalCachedTime (data (srv (eng q))))" for k
  proof (cases "map_of (store d) k")
    case (Some a)
    then show ?thesis using d2(3) [rule_format, of k] core [OF Some] only_expired_goneD(1) [OF d(1) Some] by (simp add: restores_def)
  next
    case None
    then have "lview d2 k = None" using d2(3) [rule_format, of k] by (simp add: restores_def)
    then show ?thesis using None only_expired_goneD(3) [OF d(1), of k] by (cases "map_of (store ?d0) k") (auto simp: restores_def)
  qed
  ultimately show ?thesis using s by (intro exI [of _ "start_process ?n"]) (simp add: start_process_def init_server_def)
qed

end
