(* ===== verification/Replies.thy ===== *)
theory Replies
  imports Startup
begin

text \<open>
  What a packet of commands on the database is answered: the cells that the decoder fills hold the
  commands until the packet is done, so that the event loop runs them one after the other on
  the database, as \<open>eval_seq\<close> does, and writes their replies.
\<close>

section \<open>The cells of a packet\<close>

lemma get_cmd_keeps:
  assumes "get_cmd w s = (p, s1)" "pool_inv s" "q < cmdNext s" "q \<notin> set (cmdPool s)"
  shows "cmds s1 q = cmds s q \<and> q \<noteq> p \<and> q < cmdNext s1 \<and> q \<notin> set (cmdPool s1)"
proof (cases "cmd_choice w s")
  case None
  then show ?thesis using assms by (auto simp: get_cmd_def advance_def)
next
  case (Some r)
  then have "r \<in> set (cmdPool s)" by (auto simp: cmd_choice_def split: option.splits if_splits)
  then show ?thesis using assms Some by (auto simp: get_cmd_def advance_def)
qed

lemma load_cmds_keeps:
  "load_cmds w cs s = (ps, s1) \<Longrightarrow> pool_inv s \<Longrightarrow> q < cmdNext s \<Longrightarrow> q \<notin> set (cmdPool s) \<Longrightarrow> cmds s1 q = cmds s q"
proof (induction cs arbitrary: s ps s1)
  case (Cons c cs)
  obtain p s2 where g: "get_cmd w s = (p, s2)" by force
  obtain ps' s3 where l: "load_cmds w cs (fill_cmd p c s2) = (ps', s3)" by force
  have "s1 = s3" using Cons(2) g l by simp
  moreover have "pool_inv (fill_cmd p c s2)" using get_cmd_spec [OF Cons(3) g] by (simp add: pool_inv_def fill_cmd_def)
  moreover note get_cmd_keeps [OF g Cons(3-5)]
  ultimately show ?case using Cons(1) [OF l] by (simp add: fill_cmd_def)
qed simp

definition named :: "parsed \<Rightarrow> string \<times> string list" where
  "named c = (the (fst c), snd c)"

lemma load_cmds_cells:
  "load_cmds w cs s = (ps, s1) \<Longrightarrow> pool_inv s \<Longrightarrow> \<forall>c \<in> set cs. fst c \<noteq> None \<Longrightarrow> map (cell s1) ps = map named cs"
proof (induction cs arbitrary: s ps s1)
  case (Cons c cs)
  obtain p s2 where g: "get_cmd w s = (p, s2)" by force
  obtain qs s3 where l: "load_cmds w cs (fill_cmd p c s2) = (qs, s3)" by force
  have e: "ps = p # qs" "s1 = s3" using Cons(2) g l by simp_all
  note G = get_cmd_spec [OF Cons(3) g]
  have "pool_inv (fill_cmd p c s2)" using G by (simp add: pool_inv_def fill_cmd_def)
  with Cons(1) [OF l] load_cmds_keeps [OF l, of p] G Cons(4) show ?case
    by (auto simp: e cell_def named_def fill_cmd_def)
qed simp

section \<open>The reply to a packet\<close>

definition request :: "(string \<Rightarrow> string) \<Rightarrow> string list \<Rightarrow> string \<times> string list" where
  \<comment> \<open>the name, in upper case, and the arguments\<close>
  "request uni ws = (ToUpper uni (hd ws), tl ws)"

definition database_packet :: "world \<Rightarrow> string list list \<Rightarrow> bool" where
  \<comment> \<open>commands that only use the database, and that fit into one read\<close>
  "database_packet w css \<longleftrightarrow> css \<noteq> [] \<and>
     (\<forall>ws \<in> set css. ws \<noteq> [] \<and> map_of eval_table (ToUpper (upper_uni (env_of w)) (hd ws)) \<noteq> None) \<and>
     length (concat (map encode_command css)) \<le> ReadBufSize"

lemma database_packetD:
  assumes "database_packet w css"
  shows "css \<noteq> []" "\<forall>ws \<in> set css. ws \<noteq> []" "length (concat (map encode_command css)) < 2 ^ 61"
    "\<forall>c \<in> set (map (parsed_of uni) css). fst c \<noteq> None" "map named (map (parsed_of uni) css) = map (request uni) css"
proof -
  show 1: "css \<noteq> []" "\<forall>ws \<in> set css. ws \<noteq> []" using assms by (simp_all add: database_packet_def)
  have "length (concat (map encode_command css)) \<le> ReadBufSize" using assms by (simp add: database_packet_def)
  then show "length (concat (map encode_command css)) < 2 ^ 61" by (simp add: ReadBufSize_def)
  show "\<forall>c \<in> set (map (parsed_of uni) css). fst c \<noteq> None" "map named (map (parsed_of uni) css) = map (request uni) css"
    using 1 by (auto simp: parsed_of_def named_def request_def split: list.split)
qed

lemma loaded_data_commands:
  assumes "database_packet w css" "load_cmds w (map (parsed_of (upper_uni (env_of w))) css) s = (ps, s1)" "pool_inv s"
  shows "\<forall>p \<in> set ps. data_command s1 p" "map (cell s1) ps = map (request (upper_uni (env_of w))) css"
proof -
  let ?uni = "upper_uni (env_of w)"
  show c: "map (cell s1) ps = map (request ?uni) css"
    using load_cmds_cells [OF assms(2,3)] database_packetD(4,5) [OF assms(1), of ?uni] by simp
  have "data_command s1 p" if "p \<in> set ps" for p
  proof -
    have "cell s1 p \<in> set (map (request ?uni) css)" using that by (simp flip: c)
    then show ?thesis using assms(1) by (auto simp: cell_def request_def data_command_def database_packet_def)
  qed
  then show "\<forall>p \<in> set ps. data_command s1 p" by simp
qed

lemma FreeCmds_fields [simp]:
  "data (FreeCmds ps s) = data s" "wire (FreeCmds ps s) = wire s" "clients (FreeCmds ps s) = clients s"
  by (induction ps arbitrary: s) (simp_all add: FreeCmds_def)

lemma database_packet_reply:
  assumes "engine_ok w n" "config_ok (cfg (env_of w))" "1 \<le> stack w" "map_of (connectedClients n) fd = Some c"
    "\<not> isTxn (clients (srv n) c)" "database_packet w css"
  obtains rs d n' where "eval_seq (env_of w) (map (request (upper_uni (env_of w))) css) (data (srv n)) = Inr (rs, d)"
    "handle_event w (Ready fd (ReadBytes (concat (map encode_command css)) rest)) n = Inr n'"
    "wire (srv n') = wire (srv n) @ [(fd, rs)]" "data (srv n') = d" "connectedClients n' = connectedClients n"
    "clients (srv n') = clients (srv n)" "engine_ok w n'" "lastCronExecTime n' = lastCronExecTime n"
proof -
  note E = engine_okD [OF assms(1)] and P = database_packetD [OF assms(6)]
  let ?uni = "upper_uni (env_of w)"
  obtain rs d where rs: "eval_seq (env_of w) (map (request ?uni) css) (data (srv n)) = Inr (rs, d)"
    using eval_seq_total [OF engine_ok_db [OF assms(1)] assms(2)] by blast
  obtain ps s1 where l: "load_cmds w (map (parsed_of ?uni) css) (srv n) = (ps, s1)" by force
  note L = loaded_data_commands [OF assms(6) l E(2)] load_cmds_spec [OF E(2) l]
  have s1: "data s1 = data (srv n)" "clients s1 = clients (srv n)" "wire s1 = wire (srv n)" using L(3) by (simp_all add: cells_only_def)
  have "respond_loop w ps c [] s1 = Inr (rs, after_cmds (length ps) d s1)"
    using respond_loop_data [OF L(1) _ assms(3), of c "[]"] assms(5) rs s1 L(2) by simp
  then have b: "handle_batch w c (map (parsed_of ?uni) css) (srv n) =
      Inr (FreeCmds ps (snd (Client_Write w c rs (after_cmds (length ps) d s1))))"
    using l by (simp add: handle_batch_def EvalAndRespond_def)
  let ?n = "n\<lparr>srv := FreeCmds ps (snd (Client_Write w c rs (after_cmds (length ps) d s1)))\<rparr>"
  have h: "handle_event w (Ready fd (ReadBytes (concat (map encode_command css)) rest)) n = Inr ?n"
    using readCommands_pipeline [OF P(1-3), of w rest] b assms(4) by (simp add: handle_event_ready)
  have "engine_ok w ?n" by (rule batch_ok [OF assms(1,4,2) b])
  then show ?thesis
    using that [OF rs h] s1 E(5) [OF assms(4)] by (simp add: Client_Write_def)
qed

text \<open>The event loop is a sequential database: a packet of commands on the database, from a client
  that is not in a transaction, has the effect and the replies of running these commands one
  after the other, in their order, on the database as it is, and nothing else is written
  to anybody; the invariant holds again.\<close>

theorem packet_runs_sequentially:
  assumes "engine_ok w n" "config_ok (cfg (env_of w))" "1 \<le> stack w" "map_of (connectedClients n) fd = Some c"
    "\<not> isTxn (clients (srv n) c)" "database_packet w css"
  shows "\<exists>rs d n'. eval_seq (env_of w) (map (request (upper_uni (env_of w))) css) (data (srv n)) = Inr (rs, d) \<and>
    handle_event w (Ready fd (ReadBytes (concat (map encode_command css)) rest)) n = Inr n' \<and>
    wire (srv n') = wire (srv n) @ [(fd, rs)] \<and> data (srv n') = d \<and> connectedClients n' = connectedClients n \<and> engine_ok w n'"
  by (rule database_packet_reply [OF assms, of rest]) blast

lemma ToUpper_SET: "ToUpper uni ''SET'' = ''SET''"
  by (simp add: ToUpper_def is_ascii_def upper_byte_def)

lemma SET_packet: "database_packet calm_world [[''SET'', ''k'', ''v'']]"
proof -
  have "length (concat (map encode_command [[''SET'', ''k'', ''v'']])) \<le> ReadBufSize"
    using length_set_packet by (simp add: set_packet_def ReadBufSize_def)
  then show ?thesis by (simp add: database_packet_def ToUpper_SET) (simp add: eval_table_def)
qed

lemma one_client_ok: "engine_ok calm_world one_client" "map_of (connectedClients one_client) 5 = Some 0" "\<not> isTxn (clients (srv one_client) 0)"
  by (simp_all add: one_client_fields) (simp add: one_client_def)

lemma packet_runs_sequentially_witness:
  "\<exists>n'. handle_event calm_world (Ready 5 (ReadBytes (concat (map encode_command [[''SET'', ''k'', ''v'']])) zeros)) one_client = Inr n' \<and>
     wire (srv n') = [(5, RESP_OK)]"
  using packet_runs_sequentially [OF one_client_ok(1) _ _ one_client_ok(2,3) SET_packet, of zeros]
  by (auto simp: request_def ToUpper_SET eval_table_def evalSET_def one_client_fields)

end
