(* ===== verification/Sequential.thy ===== *)
theory Sequential
  imports Replies
begin

text \<open>
  What the two servers promise their clients, as one contract: an input is served as the run of
  the database that it stands for, what is written is logged, and the server is as ready for
  every other input as it was. From the contract follows that any sequence of inputs is a run
  of a sequential database. The event loop keeps the contract with all its clients at once;
  its inputs are packets and readings of the clocks.
\<close>

section \<open>The contract\<close>

fun run_all :: "('p \<Rightarrow> 'd \<Rightarrow> ('r list \<times> 'd) outcome) \<Rightarrow> 'p list \<Rightarrow> 'd \<Rightarrow> ('r list \<times> 'd) outcome" where
  "run_all run [] d = Inr ([], d)"
| "run_all run (p # ps) d = obind (run p d) (\<lambda>(r, d). obind (run_all run ps d) (\<lambda>(rs, d). Inr (r @ rs, d)))"

fun serve_all :: "('p \<Rightarrow> 's \<Rightarrow> 's outcome) \<Rightarrow> 'p list \<Rightarrow> 's \<Rightarrow> 's outcome" where
  "serve_all serve [] s = Inr s"
| "serve_all serve (p # ps) s = obind (serve p s) (serve_all serve ps)"

locale packet_server =
  fixes inv :: "'s \<Rightarrow> bool"
    and ready :: "'s \<Rightarrow> 'p \<Rightarrow> bool"
    and run :: "'p \<Rightarrow> 'd \<Rightarrow> ('r list \<times> 'd) outcome"
    and serve :: "'p \<Rightarrow> 's \<Rightarrow> 's outcome"
    and db_of :: "'s \<Rightarrow> 'd"
    and log :: "'s \<Rightarrow> 'r list"
  assumes input: "inv s \<Longrightarrow> ready s p \<Longrightarrow>
    \<exists>r s'. run p (db_of s) = Inr (r, db_of s') \<and> serve p s = Inr s' \<and> log s' = log s @ r \<and> inv s' \<and> (\<forall>q. ready s q \<longrightarrow> ready s' q)"
begin

lemma all_served:
  "inv s \<Longrightarrow> \<forall>p \<in> set ps. ready s p \<Longrightarrow>
   \<exists>rs s'. run_all run ps (db_of s) = Inr (rs, db_of s') \<and> serve_all serve ps s = Inr s' \<and> log s' = log s @ rs \<and> inv s'"
proof (induction ps arbitrary: s)
  case (Cons p ps)
  then obtain r t where t: "run p (db_of s) = Inr (r, db_of t)" "serve p s = Inr t" "log t = log s @ r" "inv t"
    "\<forall>q. ready s q \<longrightarrow> ready t q"
    using input [of s p] by auto
  then obtain rs s' where "run_all run ps (db_of t) = Inr (rs, db_of s')" "serve_all serve ps t = Inr s'" "log s' = log t @ rs" "inv s'"
    using Cons(1) [of t] Cons(3) by auto
  then show ?case using t by (intro exI [of _ "r @ rs"] exI [of _ s']) simp
qed simp

end

section \<open>The event loop\<close>

record clocks =
  unixMilli :: int64
  unixSec :: int64
  cronTime :: int \<comment> \<open>\<open>time.Now()\<close> at the test of the cron\<close>
  cronDone :: int \<comment> \<open>\<open>time.Now()\<close> after the cron\<close>

definition loop_tick :: "world \<Rightarrow> clocks \<Rightarrow> engine \<Rightarrow> engine" where
  \<comment> \<open>the start of a round of the loop\<close>
  "loop_tick w c n =
     cron w (cronTime c) (cronDone c) (n\<lparr>srv := UpdateCachedTime (unixMilli c) ((srv n)\<lparr>data := (data (srv n))\<lparr>unixNow := unixSec c\<rparr>\<rparr>)\<rparr>)"

datatype input =
    Clock clocks \<comment> \<open>a round of the loop begins\<close>
  | Packet int "string list list" string \<comment> \<open>descriptor, commands, and what the read buffer holds behind them\<close>

definition loop_input :: "world \<Rightarrow> input \<Rightarrow> engine \<Rightarrow> engine outcome" where
  "loop_input w i n =
     (case i of
        Clock c \<Rightarrow> Inr (loop_tick w c n)
      | Packet fd css rest \<Rightarrow> handle_event w (Ready fd (ReadBytes (concat (map encode_command css)) rest)) n)"

text \<open>The sequential database: the data, and when the cron has run last.\<close>

definition run_input :: "world \<Rightarrow> input \<Rightarrow> db \<times> int \<Rightarrow> ((int \<times> string) list \<times> (db \<times> int)) outcome" where
  "run_input w i x =
     (case i of
        Clock c \<Rightarrow>
          let d = (fst x)\<lparr>unixNow := unixSec c, GlobalCachedTime := unixMilli c\<rparr> in
          Inr ([], if snd x + cronFrequency < cronTime c then (DeleteExpiredKey (env_of w) d, cronDone c) else (d, snd x))
      | Packet fd css rest \<Rightarrow>
          obind (eval_seq (env_of w) (map (request (upper_uni (env_of w))) css) (fst x)) (\<lambda>(rs, d). Inr ([(fd, rs)], (d, snd x))))"

definition loop_ok :: "world \<Rightarrow> engine \<Rightarrow> bool" where
  "loop_ok w n \<longleftrightarrow> engine_ok w n \<and> config_ok (cfg (env_of w)) \<and> 1 \<le> stack w"

definition awaited :: "world \<Rightarrow> engine \<Rightarrow> input \<Rightarrow> bool" where
  \<comment> \<open>the clocks, or a packet of commands on the database from a client that is not in a transaction\<close>
  "awaited w n i =
     (case i of
        Clock c \<Rightarrow> True
      | Packet fd css rest \<Rightarrow>
          (case map_of (connectedClients n) fd of None \<Rightarrow> False | Some c \<Rightarrow> \<not> isTxn (clients (srv n) c)) \<and> database_packet w css)"

lemma awaited_cong: "connectedClients n' = connectedClients n \<Longrightarrow> clients (srv n') = clients (srv n) \<Longrightarrow> awaited w n' = awaited w n"
  by (simp add: awaited_def fun_eq_iff cong: option.case_cong input.case_cong)

lemma loop_tick_run:
  "run_input w (Clock c) (data (srv n), lastCronExecTime n) =
    Inr ([], (data (srv (loop_tick w c n)), lastCronExecTime (loop_tick w c n)))"
  "wire (srv (loop_tick w c n)) = wire (srv n)" "awaited w (loop_tick w c n) = awaited w n"
proof -
  show "run_input w (Clock c) (data (srv n), lastCronExecTime n) =
      Inr ([], (data (srv (loop_tick w c n)), lastCronExecTime (loop_tick w c n)))"
    by (simp add: run_input_def loop_tick_def cron_def UpdateCachedTime_def Let_def)
  show "wire (srv (loop_tick w c n)) = wire (srv n)"
    by (simp add: loop_tick_def cron_def UpdateCachedTime_def)
  show "awaited w (loop_tick w c n) = awaited w n"
    by (rule awaited_cong) (simp_all add: loop_tick_def cron_def UpdateCachedTime_def)
qed

lemma loop_tick_ok:
  assumes "engine_ok w n"
  shows "engine_ok w (loop_tick w c n)"
proof -
  have "engine_ok w (n\<lparr>srv := (srv n)\<lparr>data := (data (srv n))\<lparr>unixNow := unixSec c\<rparr>\<rparr>\<rparr>)"
    by (rule engine_ok_data(2) [OF assms]) (use engine_ok_db [OF assms] in \<open>simp add: db_ok_unixNow\<close>)
  from cron_ok [OF this] show ?thesis by (simp add: loop_tick_def)
qed

interpretation el: packet_server "loop_ok w" "awaited w" "run_input w" "loop_input w" "\<lambda>n. (data (srv n), lastCronExecTime n)"
  "\<lambda>n. wire (srv n)" for w
proof
  fix n i
  assume n: "loop_ok w n" and i: "awaited w n i"
  show "\<exists>r n'. run_input w i (data (srv n), lastCronExecTime n) = Inr (r, (data (srv n'), lastCronExecTime n')) \<and> loop_input w i n = Inr n' \<and>
      wire (srv n') = wire (srv n) @ r \<and> loop_ok w n' \<and> (\<forall>j. awaited w n j \<longrightarrow> awaited w n' j)"
  proof (cases i)
    case (Clock c)
    then show ?thesis using loop_tick_run [of w c n] loop_tick_ok [of w n c] n by (simp add: loop_input_def loop_ok_def)
  next
    case (Packet fd css rest)
    then obtain c where c: "map_of (connectedClients n) fd = Some c" "\<not> isTxn (clients (srv n) c)" "database_packet w css"
      using i by (auto simp: awaited_def split: option.splits)
    have N: "engine_ok w n" "config_ok (cfg (env_of w))" "1 \<le> stack w" using n by (simp_all add: loop_ok_def)
    show ?thesis
    proof (rule database_packet_reply [OF N c, of rest])
      fix rs d n'
      assume n': "eval_seq (env_of w) (map (request (upper_uni (env_of w))) css) (data (srv n)) = Inr (rs, d)"
        "handle_event w (Ready fd (ReadBytes (concat (map encode_command css)) rest)) n = Inr n'" "wire (srv n') = wire (srv n) @ [(fd, rs)]"
        "data (srv n') = d" "connectedClients n' = connectedClients n" "clients (srv n') = clients (srv n)" "engine_ok w n'"
        "lastCronExecTime n' = lastCronExecTime n"
      show ?thesis
        using n' N Packet awaited_cong [OF n'(5,6)] by (intro exI [of _ "[(fd, rs)]"] exI [of _ n']) (simp add: run_input_def loop_input_def loop_ok_def)
    qed
  qed
qed

text \<open>C4: the event loop is one sequential database for all its clients: whatever packets of
  commands on the database arrive, from however many clients, in whatever order and however
  they fall into rounds of the loop, they have the effect of running all their commands one
  after the other in the order of arrival, on a database whose clock is set, and whose
  expired keys are purged when that is due, at the beginning of each round; every client is sent
  exactly the replies to its own packets, one write for each, and nothing else is written.
  The clients are those connected that are not in a transaction.\<close>

theorem clients_share_one_database:
  assumes "engine_ok w n" "config_ok (cfg (env_of w))" "1 \<le> stack w" "\<forall>i \<in> set inputs. awaited w n i"
  shows "\<exists>replies d t n'. run_all (run_input w) inputs (data (srv n), lastCronExecTime n) = Inr (replies, (d, t)) \<and>
    serve_all (loop_input w) inputs n = Inr n' \<and> data (srv n') = d \<and> lastCronExecTime n' = t \<and>
    wire (srv n') = wire (srv n) @ replies \<and> engine_ok w n'"
proof -
  have "loop_ok w n" using assms(1-3) by (simp add: loop_ok_def)
  from el.all_served [OF this assms(4)] show ?thesis unfolding loop_ok_def by blast
qed

text \<open>Two clients, in two rounds.\<close>

definition two_clients :: engine where
  "two_clients = accept_client 6 one_client"

lemma two_clients_ok:
  "engine_ok calm_world two_clients" "map_of (connectedClients two_clients) 6 = Some 1" "\<not> isTxn (clients (srv two_clients) 1)"
  "map_of (connectedClients two_clients) 5 = Some 0" "\<not> isTxn (clients (srv two_clients) 0)" "wire (srv two_clients) = []"
  unfolding two_clients_def
  by (rule accept_client_ok [OF one_client_ok(1)])
    (simp_all add: one_client_def accept_client_def init_engine_def NewClient_def TrackConnection_def init_server_def)

lemma clients_share_one_database_witness:
  "\<exists>n'. serve_all (loop_input calm_world)
       [Clock \<lparr>unixMilli = 1, unixSec = 1, cronTime = 1, cronDone = 1\<rparr>, Packet 5 [[''SET'', ''k'', ''v'']] zeros,
        Clock \<lparr>unixMilli = 2, unixSec = 1, cronTime = 2, cronDone = 2\<rparr>, Packet 6 [[''SET'', ''k'', ''v'']] zeros] two_clients = Inr n' \<and>
     wire (srv n') = [(5, RESP_OK), (6, RESP_OK)]"
proof -
  have "\<forall>i \<in> set [Clock \<lparr>unixMilli = 1, unixSec = 1, cronTime = 1, cronDone = 1\<rparr>, Packet 5 [[''SET'', ''k'', ''v'']] zeros,
      Clock \<lparr>unixMilli = 2, unixSec = 1, cronTime = 2, cronDone = 2\<rparr>, Packet 6 [[''SET'', ''k'', ''v'']] zeros]. awaited calm_world two_clients i"
    using two_clients_ok SET_packet by (simp add: awaited_def)
  from clients_share_one_database [OF two_clients_ok(1) _ _ this] show ?thesis
    by (auto simp: run_input_def request_def ToUpper_SET eval_table_def evalSET_def two_clients_ok Let_def)
qed

end
