(* ===== verification/SyncServer.thy ===== *)
theory SyncServer
  imports Sequential
begin

text \<open>
  The blocking server of \<open>server/sync_tcp.go\<close>, which serves one connection at a time in two nested
  loops. The peer of a connection is the sequence of its packets and of the errors of the
  writes to it; a connection that the server has closed answers every further read with an
  error that is not \<open>io.EOF\<close>, as \<open>net.Conn\<close> does.
\<close>

section \<open>A connection\<close>

datatype conn_read = ConnEOF | ConnError | ConnBytes string

record peer =
  reads :: "nat \<Rightarrow> conn_read" \<comment> \<open>the result of the \<open>n\<close>-th read\<close>
  write_error :: "nat \<Rightarrow> string option" \<comment> \<open>the error of the \<open>n\<close>-th write, if it fails\<close>

record session =
  ssrv :: server
  concurrent :: int
  closed :: bool
  nreads :: nat
  out :: "string list" \<comment> \<open>the writes to the connection\<close>

datatype read_error = EOF | OtherError

definition readCommand :: "world \<Rightarrow> conn_read \<Rightarrow> (parsed list \<times> read_error option) outcome" where
  \<comment> \<open>the commands for which the decoder took a cell; the buffer is new and thus zero\<close>
  "readCommand w r =
     (case r of
        ConnEOF \<Rightarrow> Inr ([], Some EOF)
      | ConnError \<Rightarrow> Inr ([], Some OtherError)
      | ConnBytes bs \<Rightarrow>
          obind (DecodeCommands (upper_uni (env_of w)) (bs @ replicate (ReadBufSize - length bs) (CHR 0x00), length bs)) (\<lambda>(cs, err).
            Inr (case err of
                   None \<Rightarrow> (cs, None)
                 | Some (_, None) \<Rightarrow> (cs, Some OtherError)
                 | Some (_, Some c) \<Rightarrow> (cs @ [c], Some OtherError))))"

definition respondError :: "string \<Rightarrow> string" where
  "respondError err = CHR ''-'' # err @ CRLF"

definition write_reply :: "peer \<Rightarrow> string \<Rightarrow> session \<Rightarrow> session" where
  \<comment> \<open>the write of the response, and of the error if it fails\<close>
  "write_reply pr response s =
     s\<lparr>out := out s @ response # (case write_error pr (length (out s)) of None \<Rightarrow> [] | Some err \<Rightarrow> [respondError err])\<rparr>"

definition sync_round :: "world \<Rightarrow> peer \<Rightarrow> session \<Rightarrow> (bool \<times> session) outcome" where
  \<comment> \<open>one round of the inner loop, and whether it breaks\<close>
  "sync_round w pr s =
     obind (readCommand w (if closed s then ConnError else reads pr (nreads s))) (\<lambda>(cs, err).
       let s = s\<lparr>nreads := nreads s + 1\<rparr>; (ps, t) = load_cmds w cs (ssrv s) in
       case err of
         Some e \<Rightarrow> Inr (e = EOF, s\<lparr>ssrv := t, closed := True, concurrent := concurrent s - 1\<rparr>)
       | None \<Rightarrow>
           obind (respondSync w ps t) (\<lambda>(response, t).
             Inr (False, write_reply pr response (s\<lparr>ssrv := FreeCmds ps t\<rparr>))))"

primrec sync_rounds :: "nat \<Rightarrow> world \<Rightarrow> peer \<Rightarrow> session \<Rightarrow> (bool \<times> session) outcome" where
  \<comment> \<open>the inner loop for at most \<open>n\<close> rounds, and whether it has ended\<close>
  "sync_rounds 0 w pr s = Inr (False, s)"
| "sync_rounds (Suc n) w pr s =
     obind (sync_round w pr s) (\<lambda>(stop, s). if stop then Inr (True, s) else sync_rounds n w pr s)"

definition sync_accept :: "session \<Rightarrow> session" where
  "sync_accept s = s\<lparr>ssrv := TrackConnection (ssrv s), concurrent := concurrent s + 1, closed := False, nreads := 0, out := []\<rparr>"

fun RunSyncTCPServer :: "nat \<Rightarrow> world \<Rightarrow> peer option list \<Rightarrow> session \<Rightarrow> (bool \<times> session) outcome" where
  \<comment> \<open>the outer loop for the given results of \<open>Accept\<close>, each connection for at most \<open>n\<close> rounds\<close>
  "RunSyncTCPServer n w [] s = Inr (True, s)"
| "RunSyncTCPServer n w (None # prs) s = Inl Panicked"
| "RunSyncTCPServer n w (Some pr # prs) s =
     obind (sync_rounds n w pr (sync_accept s)) (\<lambda>(stop, s). if stop then RunSyncTCPServer n w prs s else Inr (False, s))"

section \<open>Commands on the database\<close>

lemma sync_loop_data:
  "\<forall>p \<in> set ps. data_command s p \<Longrightarrow> 1 \<le> stack w \<Longrightarrow>
   sync_loop w ps c buf s =
     obind (eval_seq (env_of w) (map (cell s) ps) (data s)) (\<lambda>(rs, d). Inr (buf @ rs, after_cmds (length ps) d s))"
proof (induction ps arbitrary: buf s)
  case (Cons p ps)
  obtain n where n: "stack w = Suc n" using Cons(3) by (cases "stack w") auto
  have "sync_loop w ps c b (after_cmds 1 d s) =
      obind (eval_seq (env_of w) (map (cell s) ps) d) (\<lambda>(rs, d). Inr (b @ rs, after_cmds (length (p # ps)) d s))" for b d
    using Cons(1) [of "after_cmds 1 d s"] Cons(2,3) by simp
  then show ?case
    using Cons(2) execute_data [of s p n w c]
    by (simp add: eval_seq_Cons [of _ "cell s p" "map (cell s) ps"] obind_def executeCommand_def n del: execute_fuel.simps split: sum.splits)
qed simp

definition session_ok :: "world \<Rightarrow> session \<Rightarrow> bool" where
  "session_ok w s \<longleftrightarrow> srv_ok w (ssrv s) \<and> pool_inv (ssrv s)"

lemma NewClient_fields:
  assumes "NewClient fd s = (c, t)"
  shows "data t = data s" "cmds t = cmds s" "cmdPool t = cmdPool s" "cmdNext t = cmdNext s" "channels t = channels s"
  using assms by (auto simp: NewClient_def)

lemma sync_round_packet:
  assumes "session_ok w s" "config_ok (cfg (env_of w))" "1 \<le> stack w" "\<not> closed s"
    "reads pr (nreads s) = ConnBytes (concat (map encode_command css))" "database_packet w css" "write_error pr (length (out s)) = None"
  obtains rs d s' where "eval_seq (env_of w) (map (request (upper_uni (env_of w))) css) (data (ssrv s)) = Inr (rs, d)"
    "sync_round w pr s = Inr (False, s')" "out s' = out s @ [rs]" "data (ssrv s') = d" "session_ok w s'"
    "concurrent s' = concurrent s" "\<not> closed s'" "nreads s' = nreads s + 1"
proof -
  let ?uni = "upper_uni (env_of w)" and ?cs = "map (parsed_of (upper_uni (env_of w))) css"
  note P = database_packetD [OF assms(6)]
  have S: "srv_ok w (ssrv s)" "pool_inv (ssrv s)" using assms(1) by (simp_all add: session_ok_def)
  then obtain rs d where rs: "eval_seq (env_of w) (map (request ?uni) css) (data (ssrv s)) = Inr (rs, d)" "db_ok (env_of w) d"
    using eval_seq_total [OF _ assms(2)] unfolding srv_ok_def by blast
  obtain ps t where l: "load_cmds w ?cs (ssrv s) = (ps, t)" by force
  note L = loaded_data_commands [OF assms(6) l S(2)] load_cmds_spec [OF S(2) l]
  obtain c t1 where c: "NewClient (- 1) t = (c, t1)" by force
  note N = NewClient_fields [OF c]
  have same: "data_command t1 = data_command t" "cell t1 = cell t" using data_command_cong [OF N(2)] by simp_all
  have r: "respondSync w ps t = Inr (rs, after_cmds (length ps) d t1)"
    using sync_loop_data [of ps t1 w c "[]"] L same N(1) rs assms(3) by (simp add: respondSync_def c cells_only_def)
  let ?t = "FreeCmds ps (after_cmds (length ps) d t1)"
  let ?s = "s\<lparr>nreads := nreads s + 1, ssrv := ?t, out := out s @ [rs]\<rparr>"
  have rd: "readCommand w (ConnBytes (concat (map encode_command css))) = Inr (?cs, None)"
    using decode_pipeline [OF P(2,1) refl P(3), of ?uni] by (simp add: readCommand_def)
  have "sync_round w pr s = Inr (False, ?s)"
    using assms(4,5,7) rd l r by (simp add: sync_round_def write_reply_def)
  moreover have "pool_inv ?t \<and> cells_only (after_cmds (length ps) d t1) ?t"
    by (rule FreeCmds_spec) (use L N in \<open>simp_all add: pool_inv_def after_cmds_def\<close>)
  then have "session_ok w ?s"
    using rs(2) L N S(1) cells_only_srv [of "after_cmds (length ps) d t1" ?t]
    by (simp add: session_ok_def srv_ok_def wf_channels_def cells_only_def after_cmds_def)
  ultimately show ?thesis using that [OF rs(1), of ?s] assms(4) by simp
qed

section \<open>A connection from its first packet to its end\<close>

text \<open>A round on a packet, as the contract has it; the number of clients is part of the invariant.\<close>

definition run_packet :: "world \<Rightarrow> string list list \<Rightarrow> db \<Rightarrow> (string list \<times> db) outcome" where
  "run_packet w css d = obind (eval_seq (env_of w) (map (request (upper_uni (env_of w))) css) d) (\<lambda>(rs, d). Inr ([rs], d))"

definition sync_serve :: "world \<Rightarrow> string list list \<Rightarrow> session \<Rightarrow> session outcome" where
  "sync_serve w css s =
     obind (sync_round w \<lparr>reads = (\<lambda>_. ConnBytes (concat (map encode_command css))), write_error = (\<lambda>_. None)\<rparr> s) (\<lambda>(_, s). Inr s)"

definition serving_ok :: "world \<Rightarrow> int \<Rightarrow> session \<Rightarrow> bool" where
  "serving_ok w k s \<longleftrightarrow> session_ok w s \<and> \<not> closed s \<and> concurrent s = k \<and> config_ok (cfg (env_of w)) \<and> 1 \<le> stack w"

interpretation sy: packet_server "serving_ok w k" "\<lambda>_. database_packet w" "run_packet w" "sync_serve w" "\<lambda>s. data (ssrv s)" out for w k
proof
  fix s css
  assume s: "serving_ok w k s" and css: "database_packet w css"
  show "\<exists>r s'. run_packet w css (data (ssrv s)) = Inr (r, data (ssrv s')) \<and> sync_serve w css s = Inr s' \<and> out s' = out s @ r \<and>
      serving_ok w k s' \<and> (\<forall>q. database_packet w q \<longrightarrow> database_packet w q)"
    by (rule sync_round_packet [of w s "\<lparr>reads = (\<lambda>_. ConnBytes (concat (map encode_command css))), write_error = (\<lambda>_. None)\<rparr>" css])
      (use s css in \<open>auto simp: serving_ok_def sync_serve_def run_packet_def\<close>)
qed

lemma sync_round_peer:
  "reads pr (nreads s) = reads pr' (nreads s) \<Longrightarrow> write_error pr (length (out s)) = write_error pr' (length (out s)) \<Longrightarrow>
   sync_round w pr s = sync_round w pr' s"
  by (simp add: sync_round_def write_reply_def cong: option.case_cong)

lemma sync_round_goes_on:
  "sync_round w pr s = Inr (stop, s') \<Longrightarrow> reads pr (nreads s) \<noteq> ConnEOF \<Longrightarrow> \<not> stop \<and> nreads s' = nreads s + 1"
  by (auto simp: sync_round_def readCommand_def write_reply_def obind_eq_Inr Let_def
    split: conn_read.splits option.splits prod.splits if_splits)

lemma sync_rounds_serve:
  assumes "\<forall>i. write_error pr i = None"
  shows "serve_all (sync_serve w) pss s = Inr s' \<Longrightarrow>
    \<forall>i < length pss. reads pr (nreads s + i) = ConnBytes (concat (map encode_command (pss ! i))) \<Longrightarrow>
    sync_rounds (length pss + k) w pr s = sync_rounds k w pr s' \<and> nreads s' = nreads s + length pss"
proof (induction pss arbitrary: s)
  case (Cons css pss)
  let ?pr = "\<lparr>reads = (\<lambda>_. ConnBytes (concat (map encode_command css))), write_error = (\<lambda>_. None)\<rparr>"
  have r: "reads pr (nreads s) = ConnBytes (concat (map encode_command css))" using Cons(3) [rule_format, of 0] by simp
  obtain t where "sync_serve w css s = Inr t" and all: "serve_all (sync_serve w) pss t = Inr s'"
    using Cons(2) by (auto simp: obind_eq_Inr)
  then obtain stop where t: "sync_round w ?pr s = Inr (stop, t)" by (auto simp: sync_serve_def obind_eq_Inr)
  have "sync_round w pr s = sync_round w ?pr s" by (rule sync_round_peer) (use r assms in simp_all)
  moreover note sync_round_goes_on [OF t]
  moreover have "reads pr (nreads s + 1 + i) = ConnBytes (concat (map encode_command (pss ! i)))" if "i < length pss" for i
    using Cons(3) [rule_format, of "i + 1"] that by simp
  ultimately show ?case using Cons(1) [OF all] t by simp
qed simp

lemma sync_rounds_packets:
  assumes "config_ok (cfg (env_of w))" "1 \<le> stack w" "\<forall>i. write_error pr i = None" "session_ok w s" "\<not> closed s"
    "\<forall>css \<in> set pss. database_packet w css"
    "\<forall>i < length pss. reads pr (nreads s + i) = ConnBytes (concat (map encode_command (pss ! i)))" "reads pr (nreads s + length pss) = ConnEOF"
  obtains rs s' where "run_all (run_packet w) pss (data (ssrv s)) = Inr (rs, data (ssrv s'))"
    "sync_rounds (length pss + 1) w pr s = Inr (True, s')" "out s' = out s @ rs" "session_ok w s'"
    "concurrent s' = concurrent s - 1"
proof -
  have "serving_ok w (concurrent s) s" using assms(1,2,4,5) by (simp add: serving_ok_def)
  from sy.all_served [OF this, of pss] assms(6) obtain rs t where
    t: "run_all (run_packet w) pss (data (ssrv s)) = Inr (rs, data (ssrv t))"
      "serve_all (sync_serve w) pss s = Inr t" "out t = out s @ rs" "serving_ok w (concurrent s) t"
    by auto
  have n: "sync_rounds (length pss + 1) w pr s = sync_rounds 1 w pr t" "nreads t = nreads s + length pss"
    using sync_rounds_serve [OF assms(3) t(2) assms(7), of 1] by simp_all
  let ?s = "t\<lparr>nreads := nreads t + 1, closed := True, concurrent := concurrent t - 1\<rparr>"
  have "sync_round w pr t = Inr (True, ?s)"
    using assms(8) n(2) t(4) by (simp add: sync_round_def readCommand_def serving_ok_def Let_def)
  then show ?thesis using that [of rs ?s] t n(1) by (simp add: serving_ok_def session_ok_def)
qed

lemma sync_session:
  assumes "session_ok w s" "config_ok (cfg (env_of w))" "1 \<le> stack w" "\<forall>i. write_error pr i = None"
    "\<forall>css \<in> set pss. database_packet w css"
    "\<forall>i < length pss. reads pr i = ConnBytes (concat (map encode_command (pss ! i)))" "reads pr (length pss) = ConnEOF"
  obtains rs s' where "run_all (run_packet w) pss (data (ssrv s)) = Inr (rs, data (ssrv s'))"
    "RunSyncTCPServer (length pss + 1) w [Some pr] s = Inr (True, s')" "out s' = rs" "session_ok w s'"
    "concurrent s' = concurrent s"
proof -
  let ?s = "sync_accept s"
  have s: "session_ok w ?s" "\<not> closed ?s" "data (ssrv ?s) = data (ssrv s)" "nreads ?s = 0" "out ?s = []" "concurrent ?s = concurrent s + 1"
    using assms(1) by (simp_all add: sync_accept_def session_ok_def srv_ok_def wf_channels_def pool_inv_def TrackConnection_def)
  show ?thesis by (rule sync_rounds_packets [OF assms(2-4) s(1,2), of pss]) (use assms(5-7) s that in auto)
qed

text \<open>C17: the blocking server serves a connection to its end: packets of commands on the database are
  answered one by one, each with the replies of its commands run in order on the database that
  the earlier ones left; at the end of the stream the loop ends, after exactly one more round, and
  the count of clients is what it was before the connection.\<close>

theorem blocking_session_ends:
  assumes "session_ok w s" "config_ok (cfg (env_of w))" "1 \<le> stack w" "\<forall>i. write_error pr i = None"
    "\<forall>css \<in> set pss. database_packet w css"
    "\<forall>i < length pss. reads pr i = ConnBytes (concat (map encode_command (pss ! i)))" "reads pr (length pss) = ConnEOF"
  shows "\<exists>rs d s'. run_all (run_packet w) pss (data (ssrv s)) = Inr (rs, d) \<and>
    RunSyncTCPServer (length pss + 1) w [Some pr] s = Inr (True, s') \<and> out s' = rs \<and> data (ssrv s') = d \<and> session_ok w s' \<and>
    concurrent s' = concurrent s"
  using sync_session [OF assms] by metis

definition init_session :: session where
  "init_session = \<lparr>ssrv = init_server (init_db 0 0) good_disk, concurrent = 0, closed = False, nreads = 0, out = []\<rparr>"

definition one_packet :: "string \<Rightarrow> peer" where
  "one_packet bs = \<lparr>reads = (\<lambda>n. if n = 0 then ConnBytes bs else ConnEOF), write_error = (\<lambda>_. None)\<rparr>"

lemma one_packet_simps [simp]:
  "reads (one_packet bs) n = (if n = 0 then ConnBytes bs else ConnEOF)" "write_error (one_packet bs) n = None"
  by (simp_all add: one_packet_def)

lemma init_session_ok [simp]: "session_ok calm_world init_session" "data (ssrv init_session) = init_db 0 0"
  using init_server_channels [of "init_db 0 0" good_disk] init_db_ok [OF default_env_ok, of 0 0]
  by (simp_all add: init_session_def session_ok_def srv_ok_def pool_inv_def) (simp_all add: init_server_def)

lemma blocking_session_ends_witness:
  "\<exists>s'. RunSyncTCPServer 2 calm_world [Some (one_packet set_packet)] init_session = Inr (True, s') \<and> out s' = [RESP_OK]"
proof -
  have "\<exists>rs d s'. run_all (run_packet calm_world) [[[''SET'', ''k'', ''v'']]]
        (data (ssrv init_session)) = Inr (rs, d) \<and>
      RunSyncTCPServer (length [[[''SET'', ''k'', ''v'']]] + 1) calm_world [Some (one_packet set_packet)] init_session = Inr (True, s') \<and>
      out s' = rs \<and> data (ssrv s') = d \<and> session_ok calm_world s' \<and> concurrent s' = concurrent init_session"
    by (rule blocking_session_ends) (simp_all add: SET_packet set_packet_def)
  then show ?thesis by (auto simp: run_packet_def request_def ToUpper_SET eval_table_def evalSET_def numeral_2_eq_2)
qed

lemma run_packets_inputs:
  "run_all (run_packet w) pss d = Inr (rs, d') \<Longrightarrow>
   run_all (run_input w) (map (\<lambda>css. Packet fd css (rest css)) pss) (d, t) = Inr (map (Pair fd) rs, (d', t))"
  by (induction pss arbitrary: d rs) (fastforce simp: run_packet_def run_input_def obind_eq_Inr)+

text \<open>C8: the two servers agree on the commands on the database: on the same database, the packets of
  such commands (none of \<open>MULTI\<close>, \<open>EXEC\<close> and the like, each packet within one read) of a client that is not in a
  transaction are answered with the same bytes, packet by packet, and leave the same database
  behind, whether the event loop handles them as they arrive, as long as its clocks stand still,
  or the blocking server, which does not read the clocks, reads the connection to its end. On
  transactions they do not agree (\<open>blocking_transaction_not_queued\<close>).\<close>

theorem servers_agree:
  assumes "engine_ok w n" "session_ok w s" "data (ssrv s) = data (srv n)" "config_ok (cfg (env_of w))" "1 \<le> stack w"
    "map_of (connectedClients n) fd = Some c" "\<not> isTxn (clients (srv n) c)" "\<forall>css \<in> set pss. database_packet w css"
    "\<forall>i < length pss. reads pr i = ConnBytes (concat (map encode_command (pss ! i)))" "reads pr (length pss) = ConnEOF"
    "\<forall>i. write_error pr i = None"
  shows "\<exists>n' s' replies. serve_all (loop_input w) (map (\<lambda>css. Packet fd css (rest css)) pss) n = Inr n' \<and>
    RunSyncTCPServer (length pss + 1) w [Some pr] s = Inr (True, s') \<and>
    wire (srv n') = wire (srv n) @ map (Pair fd) replies \<and> out s' = replies \<and> data (ssrv s') = data (srv n')"
proof -
  let ?inputs = "map (\<lambda>css. Packet fd css (rest css)) pss"
  have a: "\<forall>i \<in> set ?inputs. awaited w n i" using assms(6-8) by (simp add: awaited_def)
  have l: "loop_ok w n" using assms(1,4,5) by (simp add: loop_ok_def)
  obtain rs s' where s': "run_all (run_packet w) pss (data (ssrv s)) = Inr (rs, data (ssrv s'))"
    "RunSyncTCPServer (length pss + 1) w [Some pr] s = Inr (True, s')" "out s' = rs"
    by (rule sync_session [OF assms(2,4,5,11,8-10)]) blast
  note run = run_packets_inputs [OF s'(1), of fd rest "lastCronExecTime n"]
  from el.all_served [OF l a] obtain rs' n' where
    "run_all (run_input w) ?inputs (data (srv n), lastCronExecTime n) = Inr (rs', (data (srv n'), lastCronExecTime n'))"
    "serve_all (loop_input w) ?inputs n = Inr n'" "wire (srv n') = wire (srv n) @ rs'"
    by blast
  then show ?thesis using s' run assms(3) by auto
qed

lemma servers_agree_witness:
  "\<exists>n' s'. serve_all (loop_input calm_world) [Packet 5 [[''SET'', ''k'', ''v'']] zeros] one_client = Inr n' \<and>
     RunSyncTCPServer 2 calm_world [Some (one_packet set_packet)] init_session = Inr (True, s') \<and>
     wire (srv n') = map (Pair 5) (out s') \<and> data (ssrv s') = data (srv n')"
proof -
  have d: "data (ssrv init_session) = data (srv one_client)" by (simp add: one_client_fields)
  from servers_agree [OF one_client_ok(1) init_session_ok(1) d _ _ one_client_ok(2,3), of "[[[''SET'', ''k'', ''v'']]]" "one_packet set_packet" "\<lambda>_. zeros"]
  show ?thesis using SET_packet by (auto simp: set_packet_def numeral_2_eq_2 one_client_fields)
qed

section \<open>A malformed packet\<close>

lemma closed_rounds:
  "closed s \<Longrightarrow> \<exists>s'. sync_rounds n w pr s = Inr (False, s') \<and> concurrent s' = concurrent s - int n \<and> out s' = out s"
proof (induction n arbitrary: s)
  case (Suc n)
  let ?s = "s\<lparr>nreads := nreads s + 1, concurrent := concurrent s - 1\<rparr>"
  have "sync_round w pr s = Inr (False, ?s)" using Suc(2) by (simp add: sync_round_def readCommand_def Let_def)
  then show ?case using Suc(1) [of ?s] Suc(2) by (simp add: diff_diff_eq)
qed simp



section \<open>Transactions are not honoured\<close>

lemma sync_loop_append:
  "sync_loop w (ps @ qs) c buf s = obind (sync_loop w ps c buf s) (\<lambda>(buf, s). sync_loop w qs c buf s)"
  by (induction ps arbitrary: buf s) (auto simp: obind_def split: sum.split)

text \<open>\<open>respondSync\<close> does not queue: between \<open>MULTI\<close> and \<open>EXEC\<close> the commands run at once, each with its
  own reply, and \<open>EXEC\<close> answers with an empty array.\<close>

theorem blocking_transaction_not_queued:
  assumes "db_ok (env_of w) (data s)" "config_ok (cfg (env_of w))" "2 \<le> stack w"
    "Cmd (cmds s m) = ''MULTI''" "Cmd (cmds s x) = ''EXEC''" "\<forall>p \<in> set ps. data_command s p"
  shows "\<exists>rs d t. eval_seq (env_of w) (map (cell s) ps) (data s) = Inr (rs, d) \<and>
    respondSync w (m # ps @ [x]) s = Inr (RESP_OK @ rs @ ''*0'' @ CRLF, t) \<and> data t = d"
proof -
  obtain n where n: "stack w = Suc (Suc n)" using assms(3) by (auto simp: le_iff_add)
  obtain c s1 where c: "NewClient (- 1) s = (c, s1)" by force
  have f: "enqueue (clients s1 c) = []" "cmds s1 = cmds s" "data s1 = data s"
    using c by (auto simp: NewClient_def)
  obtain rs d where rs: "eval_seq (env_of w) (map (cell s) ps) (data s) = Inr (rs, d)" using eval_seq_total [OF assms(1,2)] by blast
  let ?s2 = "TxnBegin c (TrackCommand s1)"
  have m: "executeCommand w m c s1 = Inr (RESP_OK, ?s2)" using assms(4) f n by (simp add: executeCommand_def execute_switch_def)
  have "cmds ?s2 = cmds s" using f by (simp add: TxnBegin_def)
  note same = data_command_cong [OF this]
  have p: "sync_loop w ps c RESP_OK ?s2 = Inr (RESP_OK @ rs, after_cmds (length ps) d ?s2)"
    using sync_loop_data [of ps ?s2 w c RESP_OK] assms(3,6) same rs f by (simp add: TxnBegin_def)
  have x: "executeCommand w x c (after_cmds (length ps) d ?s2) =
      Inr (''*0'' @ CRLF, TxnDiscard c (TrackCommand (after_cmds (length ps) d ?s2)))"
    using assms(5) f n by (simp add: executeCommand_def execute_switch_def TxnExec_def Let_def TxnBegin_def FormatInt_def FormatNat.simps digit_char_def char_of_def bit_Suc_0_iff)
  have "respondSync w (m # ps @ [x]) s = Inr (RESP_OK @ rs @ ''*0'' @ CRLF, TxnDiscard c (TrackCommand (after_cmds (length ps) d ?s2)))"
    by (simp add: respondSync_def c m sync_loop_append p x)
  then show ?thesis using rs by (simp add: TxnDiscard_def)
qed

end
