(* ===== verification/Cli.thy ===== *)
theory Cli
  imports SyncServer
begin

text \<open>
  The command line client \<open>velox-cli/main.go\<close>: lines of its input are split at spaces, sent as one
  command, and one read of the connection is printed as the answer. \<open>reader\<close> and \<open>serverReader\<close>
  are \<open>bufio\<close> readers: the second holds back what a read of the connection brought beyond the
  1024 bytes that are asked for. Prompts and error messages are left out.
\<close>

section \<open>The client\<close>

definition is_space :: "char \<Rightarrow> bool" where
  "is_space c \<longleftrightarrow> c = CHR '' '' \<or> (let n = of_char c in 9 \<le> n \<and> n \<le> (13::nat))"

definition TrimSpace :: "(string \<Rightarrow> string) \<Rightarrow> string \<Rightarrow> string" where
  \<comment> \<open>\<open>strings.TrimSpace\<close>; \<open>uni\<close> is its result on a string with a non-ASCII byte\<close>
  "TrimSpace uni s =
     (if \<forall>c \<in> set s. is_ascii c then rev (dropWhile is_space (rev (dropWhile is_space s))) else uni s)"

definition newline :: char where
  "newline = CHR 0x0A"

fun ReadString :: "string \<Rightarrow> string \<times> string" where
  \<comment> \<open>\<open>ReadString('\n')\<close>: the line with its end, or all that is left; and the rest of the input\<close>
  "ReadString [] = ([], [])"
| "ReadString (c # cs) = (if c = newline then ([c], cs) else let (l, rest) = ReadString cs in (c # l, rest))"

record cli =
  stdin :: string
  chunks :: "string option list" \<comment> \<open>what the next reads of the connection bring, \<open>None\<close> an error\<close>
  sending :: "bool list" \<comment> \<open>whether the next writes succeed; they do at the end of the list\<close>
  buffered :: string
  sent :: "string list"
  shown :: "string list"

definition response_size :: nat where "response_size = 1024"

definition bufio_size :: nat where
  \<comment> \<open>\<open>defaultBufSize\<close> of \<open>bufio\<close>\<close>
  "bufio_size = 4096"

datatype 'a progress = Done | Blocked | Next 'a

definition cli_request :: "string list \<Rightarrow> string" where
  "cli_request args =
     foldl (\<lambda>cmd arg. cmd @ CHR ''$'' # FormatInt (of_nat (length arg)) @ CRLF @ arg @ CRLF)
       (CHR ''*'' # FormatInt (of_nat (length args)) @ CRLF) args"

definition read_response :: "cli \<Rightarrow> (string option \<times> cli) progress" where
  \<comment> \<open>\<open>serverReader.Read(response)\<close>\<close>
  "read_response s =
     (if buffered s \<noteq> [] then Next (Some (take response_size (buffered s)), s\<lparr>buffered := drop response_size (buffered s)\<rparr>)
      else case chunks s of
          [] \<Rightarrow> Blocked
        | None # ch \<Rightarrow> Next (None, s\<lparr>chunks := ch\<rparr>)
        | Some bs # ch \<Rightarrow>
            let b = take bufio_size bs; left = drop bufio_size bs; ch = (if left = [] then ch else Some left # ch) in
            Next (Some (take response_size b), s\<lparr>chunks := ch, buffered := drop response_size b\<rparr>))"

definition cli_round :: "(string \<Rightarrow> string) \<Rightarrow> cli \<Rightarrow> cli progress" where
  "cli_round uni s =
     (let (ln, rest) = ReadString (stdin s); input = TrimSpace uni ln; s = s\<lparr>stdin := rest\<rparr> in
      if input = ''exit'' then Done
      else if input = [] then Next s
      else
        let args = split_on CHR '' '' input; respCmd = cli_request args;
            ok = (case sending s of [] \<Rightarrow> True | b # _ \<Rightarrow> b); s = s\<lparr>sending := drop 1 (sending s)\<rparr> in
        if \<not> ok then Next s
        else case read_response (s\<lparr>sent := sent s @ [respCmd]\<rparr>) of
            Done \<Rightarrow> Done
          | Blocked \<Rightarrow> Blocked
          | Next (None, s) \<Rightarrow> Next s
          | Next (Some response, s) \<Rightarrow> Next (s\<lparr>shown := shown s @ [response]\<rparr>))"

primrec cli_rounds :: "nat \<Rightarrow> (string \<Rightarrow> string) \<Rightarrow> cli \<Rightarrow> cli progress" where
  "cli_rounds 0 uni s = Next s"
| "cli_rounds (Suc n) uni s = (case cli_round uni s of Done \<Rightarrow> Done | Blocked \<Rightarrow> Blocked | Next s \<Rightarrow> cli_rounds n uni s)"

section \<open>Requests\<close>

lemma cli_request_encode: "cli_request args = encode_command args"
proof -
  have "foldl (\<lambda>cmd arg. cmd @ CHR ''$'' # FormatInt (of_nat (length arg)) @ CRLF @ arg @ CRLF) p args = p @ concat (map bulk args)" for p
    by (induction args arbitrary: p) (simp_all add: bulk_def)
  then show ?thesis by (simp add: cli_request_def encode_command_def)
qed

definition join_words :: "string list \<Rightarrow> string" where
  "join_words ws = (case ws of [] \<Rightarrow> [] | w # ws \<Rightarrow> w @ concat (map (\<lambda>w. CHR '' '' # w) ws))"

lemma split_on_join: "join_words (split_on CHR '' '' s) = s"
proof (induction s)
  case (Cons x xs)
  obtain w ws where ws: "split_on CHR '' '' xs = w # ws" using split_on_ne by (cases "split_on CHR '' '' xs") blast+
  with Cons show ?case by (simp add: join_words_def)
qed (simp add: join_words_def)

lemma split_on_no_sep: "w \<in> set (split_on c s) \<Longrightarrow> c \<notin> set w"
proof (induction s arbitrary: w)
  case (Cons x xs)
  obtain v vs where ws: "split_on c xs = v # vs" using split_on_ne by (cases "split_on c xs") blast+
  with Cons show ?case by (auto split: if_splits)
qed simp

lemma cli_round_answered:
  assumes "ReadString (stdin s) = (ln, rest)" "TrimSpace uni ln = input" "input \<noteq> []" "input \<noteq> ''exit''"
    "sending s = []" "buffered s = []" "chunks s = Some r # ch" "length r \<le> bufio_size"
  shows "cli_round uni s = Next (s\<lparr>stdin := rest, chunks := ch, buffered := drop response_size r,
    sent := sent s @ [encode_command (split_on CHR '' '' input)], shown := shown s @ [take response_size r]\<rparr>)"
  using assms by (simp add: cli_round_def read_response_def cli_request_encode Let_def)

text \<open>What a user types is what the server is asked: the client sends a line, less the space around
  it, as one packet that the decoder of the server reads, without an error and whatever the
  buffer held before, as exactly one command, whose words are the line cut at each space (two
  spaces in a row make an empty word), the first in upper case.\<close>

theorem typed_line_is_decoded:
  assumes "ReadString (stdin s) = (ln, rest)" "TrimSpace uni ln = input" "input \<noteq> []" "input \<noteq> ''exit''"
    "sending s = []" "chunks s = Some r # ch" "buffered s = []" "length r \<le> bufio_size" "length (encode_command (split_on CHR '' '' input)) < 2 ^ 61"
  shows "\<exists>s' name args packet. cli_round uni s = Next s' \<and> sent s' = sent s @ [packet] \<and>
    DecodeCommands up (packet @ stale_bytes, length packet) = Inr ([(Some (ToUpper up name), args)], None) \<and>
    join_words (name # args) = input \<and> (\<forall>x \<in> set (name # args). CHR '' '' \<notin> set x)"
proof -
  let ?ws = "split_on CHR '' '' input"
  obtain name args where ws: "?ws = name # args" by (cases ?ws) auto
  have "DecodeCommands up (encode_command ?ws @ stale_bytes, length (encode_command ?ws)) = Inr (map (parsed_of up) [?ws], None)"
    by (rule decode_pipeline) (use assms(9) in simp_all)
  then have "DecodeCommands up (encode_command ?ws @ stale_bytes, length (encode_command ?ws)) = Inr ([(Some (ToUpper up name), args)], None)"
    by (simp add: ws parsed_of_def)
  moreover have "join_words (name # args) = input" using split_on_join [of input] by (simp only: ws)
  moreover have "\<forall>x \<in> set (name # args). CHR '' '' \<notin> set x" using split_on_no_sep by (simp only: flip: ws) blast
  ultimately show ?thesis using cli_round_answered [OF assms(1-5,7,6,8)] by (intro exI [of _ name] exI) auto
qed

lemma typed_line_is_decoded_witness:
  "\<exists>s' packet. cli_round (\<lambda>x. x) \<lparr>stdin = '' GET k '', chunks = [Some RESP_NIL], sending = [], buffered = [], sent = [], shown = []\<rparr> = Next s' \<and>
     sent s' = [packet] \<and> DecodeCommands (\<lambda>x. x) (packet, length packet) = Inr ([(Some ''GET'', [''k''])], None)"
proof -
  let ?s = "\<lparr>stdin = '' GET k '', chunks = [Some RESP_NIL], sending = [], buffered = [], sent = [], shown = []\<rparr>"
  have r: "ReadString (stdin ?s) = ('' GET k '', [])" by (simp add: newline_def)
  have t: "TrimSpace (\<lambda>x. x) '' GET k '' = ''GET k''" by (simp add: TrimSpace_def is_ascii_def is_space_def)
  have w: "split_on CHR '' '' ''GET k'' = [''GET'', ''k'']" by simp
  have l: "length (encode_command (split_on CHR '' '' ''GET k'')) < 2 ^ 61" "length RESP_NIL \<le> bufio_size"
    by (simp_all add: w encode_command_def bulk_def FormatInt_def FormatNat.simps CRLF_def RESP_NIL_def bufio_size_def)
  have u: "ToUpper (\<lambda>x. x) ''GET'' = ''GET''" by (simp add: ToUpper_def is_ascii_def upper_byte_def)
  from typed_line_is_decoded [OF r t _ _ _ _ _ l(2,1), of "[]" "\<lambda>x. x" "[]"] obtain s' name args packet where
    p: "cli_round (\<lambda>x. x) ?s = Next s'" "sent s' = [packet]"
      "DecodeCommands (\<lambda>x. x) (packet, length packet) = Inr ([(Some (ToUpper (\<lambda>x. x) name), args)], None)"
    by auto
  have "packet = encode_command [''GET'', ''k'']"
    using p(1,2) cli_round_answered [OF r t, of RESP_NIL "[]"] l(2) w by auto
  then have "DecodeCommands (\<lambda>x. x) (packet, length packet) = Inr (map (parsed_of (\<lambda>x. x)) [[''GET'', ''k'']], None)"
    using decode_pipeline [of "[[''GET'', ''k'']]" packet "\<lambda>x. x" "[]"] l(1) w by simp
  then show ?thesis using p by (auto simp: parsed_of_def u)
qed

section \<open>Answers that are longer than one read\<close>

text \<open>An answer of more than 1024 bytes puts the client out of step for good: its first 1024 bytes
  are shown, and what is shown as the answer to the next command is the rest of this one;
  the connection is not read for it at all, so that the answer to that command waits for the
  command after it, and so on.\<close>

theorem long_answer_desynchronises:
  assumes "ReadString (stdin s) = (ln, rest)" "TrimSpace uni ln = input" "input \<noteq> []" "input \<noteq> ''exit''"
    "ReadString rest = (ln2, rest2)" "TrimSpace uni ln2 = input2" "input2 \<noteq> []" "input2 \<noteq> ''exit''"
    "sending s = []" "buffered s = []" "chunks s = Some r # ch" "response_size < length r" "length r \<le> bufio_size"
  shows "\<exists>s'. cli_rounds 2 uni s = Next s' \<and> shown s' = shown s @ [take response_size r, take response_size (drop response_size r)] \<and>
    chunks s' = ch \<and> length (sent s') = length (sent s) + 2"
proof -
  let ?s = "s\<lparr>stdin := rest, chunks := ch, buffered := drop response_size r,
    sent := sent s @ [encode_command (split_on CHR '' '' input)], shown := shown s @ [take response_size r]\<rparr>"
  have 1: "cli_round uni s = Next ?s" using cli_round_answered [OF assms(1-4,9-11,13)] .
  have "drop response_size r \<noteq> []" using assms(12) by simp
  then have 2: "cli_round uni ?s = Next (?s\<lparr>stdin := rest2, buffered := drop response_size (drop response_size r),
      sent := sent ?s @ [encode_command (split_on CHR '' '' input2)],
      shown := shown ?s @ [take response_size (drop response_size r)]\<rparr>)"
    using assms(5-9) by (simp add: cli_round_def read_response_def cli_request_encode Let_def)
  show ?thesis unfolding numeral_2_eq_2 by (simp add: 1 2)
qed

lemma long_answer_desynchronises_witness:
  "\<exists>s'. cli_rounds 2 (\<lambda>x. x) \<lparr>stdin = ''GET k'' @ [newline] @ ''PING'' @ [newline], chunks = [Some (replicate 1500 (CHR ''x'')), Some ''+PONG''],
      sending = [], buffered = [], sent = [], shown = []\<rparr> = Next s' \<and>
     shown s' = [replicate 1024 (CHR ''x''), replicate 476 (CHR ''x'')]"
proof -
  let ?r = "replicate 1500 (CHR ''x'')"
  let ?s = "\<lparr>stdin = ''GET k'' @ [newline] @ ''PING'' @ [newline], chunks = [Some ?r, Some ''+PONG''],
      sending = [], buffered = [], sent = [], shown = []\<rparr>"
  have r: "ReadString (stdin ?s) = (''GET k'' @ [newline], ''PING'' @ [newline])" "ReadString (''PING'' @ [newline]) = (''PING'' @ [newline], [])"
    by (simp_all add: newline_def)
  have t: "TrimSpace (\<lambda>x. x) (''GET k'' @ [newline]) = ''GET k''" "TrimSpace (\<lambda>x. x) (''PING'' @ [newline]) = ''PING''"
    by (simp_all add: TrimSpace_def is_ascii_def is_space_def newline_def)
  have l: "response_size < length ?r" "length ?r \<le> bufio_size" by (simp_all add: response_size_def bufio_size_def)
  from long_answer_desynchronises [OF r(1) t(1) _ _ r(2) t(2) _ _ _ _ _ l, of "[Some ''+PONG'']"]
  show ?thesis by (auto simp: response_size_def)
qed

section \<open>The end of the input\<close>

lemma no_input_round: "stdin s = [] \<Longrightarrow> cli_round uni s = Next s"
  by (cases s) (simp add: cli_round_def TrimSpace_def)

text \<open>The client does not end with its input: \<open>ReadString\<close> reports the end as an error, which is
  dropped, and an empty line is skipped. However many rounds the loop is given after the
  last line, it goes on, prints its prompt and does nothing else; only the word \<open>exit\<close> ends it.\<close>

theorem end_of_input_spins:
  assumes "cli_rounds m uni s = Next t" "stdin t = []"
  shows "cli_rounds (m + n) uni s = Next t"
proof -
  have "cli_rounds n uni t = Next t" using assms(2) by (induction n) (simp_all add: no_input_round)
  moreover have "cli_rounds (m + n) uni s = (case cli_rounds m uni s of Done \<Rightarrow> Done | Blocked \<Rightarrow> Blocked | Next s \<Rightarrow> cli_rounds n uni s)"
    by (induction m arbitrary: s) (simp_all split: progress.split)
  ultimately show ?thesis using assms(1) by simp
qed

lemma end_of_input_spins_witness:
  "cli_rounds 1000 (\<lambda>x. x) \<lparr>stdin = [], chunks = [], sending = [], buffered = [], sent = [], shown = []\<rparr> =
    Next \<lparr>stdin = [], chunks = [], sending = [], buffered = [], sent = [], shown = []\<rparr>"
  using end_of_input_spins [of 0 "\<lambda>x. x" "\<lparr>stdin = [], chunks = [], sending = [], buffered = [], sent = [], shown = []\<rparr>" _ 1000]
  by simp

end
