(* ===== verification/Benchmark.thy ===== *)
theory Benchmark
  imports Cli
begin

text \<open>
  The benchmark \<open>velox-benchmark/main.go\<close>: the packets that \<open>runTest\<close> sends, how the requests are
  divided among the connections, and how the replies are counted. The goroutines share two
  atomic counters only, so the totals are the sums over the connections. Of a connection the
  model has whether it can be opened, which of its writes succeed, and all the bytes that it
  delivers; clocks and printing are left out.
\<close>

section \<open>What is sent\<close>

definition payload :: "int \<Rightarrow> string" where
  "payload psize = replicate (nat psize) (CHR ''x'')"

definition cmdData :: "(string \<Rightarrow> string) \<Rightarrow> int \<Rightarrow> string \<Rightarrow> string option" where
  \<comment> \<open>\<open>None\<close>: an unknown test, which is skipped\<close>
  "cmdData uni psize testName =
     (let t = ToUpper uni testName in
      if t = ''PING'' then Some (''*1'' @ CRLF @ ''$4'' @ CRLF @ ''PING'' @ CRLF)
      else if t = ''SET'' then
        Some (''*3'' @ CRLF @ ''$3'' @ CRLF @ ''SET'' @ CRLF @ ''$3'' @ CRLF @ ''foo'' @ CRLF @
          ''$'' @ int_text psize @ CRLF @ payload psize @ CRLF)
      else if t = ''GET'' then Some (''*2'' @ CRLF @ ''$3'' @ CRLF @ ''GET'' @ CRLF @ ''$3'' @ CRLF @ ''foo'' @ CRLF)
      else if t = ''INCR'' then Some (''*2'' @ CRLF @ ''$4'' @ CRLF @ ''INCR'' @ CRLF @ ''$7'' @ CRLF @ ''counter'' @ CRLF)
      else None)"

definition pipelineReqs :: "int \<Rightarrow> int" where
  "pipelineReqs pipeline = (if pipeline < 1 then 1 else pipeline)"

definition pipelinedData :: "int \<Rightarrow> string \<Rightarrow> string" where
  "pipelinedData pipeline d = concat (replicate (nat (pipelineReqs pipeline)) d)"

section \<open>How the requests are divided\<close>

definition go_div :: "int \<Rightarrow> int \<Rightarrow> int outcome" where
  \<comment> \<open>division of Go: towards zero\<close>
  "go_div a b = (if b = 0 then Inl DivideByZero else Inr (sgn a * sgn b * (\<bar>a\<bar> div \<bar>b\<bar>)))"

definition reqsPerClient :: "int \<Rightarrow> int \<Rightarrow> int outcome" where
  "reqsPerClient requests nclients = go_div requests nclients"

definition batchesPerClient :: "int \<Rightarrow> int \<Rightarrow> int outcome" where
  "batchesPerClient reqs pipeline =
     obind (go_div reqs (pipelineReqs pipeline)) (\<lambda>b. Inr (if b = 0 then 1 else b))"

section \<open>How the replies are counted\<close>

fun bench_replies :: "nat \<Rightarrow> string \<Rightarrow> nat \<times> nat \<times> string" where
  \<comment> \<open>replies completed and errors, and the bytes that are left\<close>
  "bench_replies 0 st = (0, 0, st)"
| "bench_replies (Suc n) st =
     (if newline \<notin> set st then let (ok, er, st) = bench_replies n [] in (ok, er + 1, st)
      else
        let (resp, st) = ReadString st in
        if 0 < length resp \<and> resp ! 0 = CHR ''$'' \<and> resp \<noteq> ''$-1'' @ CRLF then
          if newline \<notin> set st then let (ok, er, st) = bench_replies n [] in (ok, er + 1, st)
          else let (_, st) = ReadString st; (ok, er, st) = bench_replies n st in (ok + 1, er, st)
        else let (ok, er, st) = bench_replies n st in (ok + 1, er, st))"

fun bench_batches :: "nat \<Rightarrow> bool list \<Rightarrow> string \<Rightarrow> nat \<times> nat" where
  \<comment> \<open>for each batch, whether its write succeeds\<close>
  "bench_batches n [] st = (0, 0)"
| "bench_batches n (w # ws) st =
     (if \<not> w then let (ok, er) = bench_batches n ws st in (ok, er + n)
      else let (ok, er, st) = bench_replies n st; (ok', er') = bench_batches n ws st in (ok + ok', er + er'))"

type_synonym bench_conn = "((nat \<Rightarrow> bool) \<times> string) option"
  \<comment> \<open>\<open>None\<close> when it cannot be opened, otherwise which writes succeed, and what it delivers\<close>

definition bench_client :: "int \<Rightarrow> nat \<Rightarrow> nat \<Rightarrow> bench_conn \<Rightarrow> nat \<times> nat" where
  "bench_client reqs batches n c =
     (case c of
        None \<Rightarrow> (0, nat (reqs mod 2 ^ 64)) \<comment> \<open>\<open>uint64(reqsPerClient)\<close>\<close>
      | Some (ok, st) \<Rightarrow> bench_batches n (map ok [0..<batches]) st)"

definition runTest :: "int \<Rightarrow> int \<Rightarrow> int \<Rightarrow> bench_conn list \<Rightarrow> (uint64 \<times> uint64) outcome" where
  \<comment> \<open>the counters of completed requests and of errors; one connection for each client\<close>
  "runTest requests nclients pipeline conns =
     obind (reqsPerClient requests nclients) (\<lambda>reqs.
     obind (batchesPerClient reqs pipeline) (\<lambda>batches.
       let results = map (bench_client reqs (nat batches) (nat (pipelineReqs pipeline))) (take (nat nclients) conns) in
       Inr (of_nat (sum_list (map fst results)), of_nat (sum_list (map snd results)))))"

definition bench_main :: "(string \<Rightarrow> string) \<Rightarrow> bool \<Rightarrow> string \<Rightarrow> string list option" where
  \<comment> \<open>the names that \<open>runTest\<close> is called with; \<open>None\<close> when the server cannot be reached\<close>
  "bench_main uni dialled tests =
     (if \<not> dialled then None else Some (map (TrimSpace uni) (split_on CHR '','' tests)))"

section \<open>Properties\<close>

definition test_words :: "int \<Rightarrow> string \<Rightarrow> string list" where
  "test_words psize t =
     (if t = ''PING'' then [''PING''] else if t = ''SET'' then [''SET'', ''foo'', payload psize]
      else if t = ''GET'' then [''GET'', ''foo''] else [''INCR'', ''counter''])"

lemma FormatInt_small: "FormatInt 1 = ''1''" "FormatInt 2 = ''2''" "FormatInt 3 = ''3''" "FormatInt 4 = ''4''" "FormatInt 7 = ''7''"
  by (simp_all add: FormatInt_def FormatNat.simps digit_char_def char_of_def bit_Suc_0_iff)

lemma test_requests:
  "encode_command [''PING''] = ''*1'' @ CRLF @ ''$4'' @ CRLF @ ''PING'' @ CRLF"
  "encode_command [''GET'', ''foo''] = ''*2'' @ CRLF @ ''$3'' @ CRLF @ ''GET'' @ CRLF @ ''$3'' @ CRLF @ ''foo'' @ CRLF"
  "encode_command [''INCR'', ''counter''] = ''*2'' @ CRLF @ ''$4'' @ CRLF @ ''INCR'' @ CRLF @ ''$7'' @ CRLF @ ''counter'' @ CRLF"
  "encode_command [''SET'', ''foo'', v] = ''*3'' @ CRLF @ ''$3'' @ CRLF @ ''SET'' @ CRLF @ ''$3'' @ CRLF @ ''foo'' @ CRLF @
     ''$'' @ FormatInt (of_nat (length v)) @ CRLF @ v @ CRLF"
  by (simp_all add: encode_command_def bulk_def FormatInt_small)

lemma cmdData_encode:
  assumes "cmdData uni psize testName = Some d" "0 \<le> psize"
  shows "d = encode_command (test_words psize (ToUpper uni testName))"
proof -
  define t where "t = ToUpper uni testName"
  have f: "FormatInt (of_nat (length (payload psize))) = int_text psize" using assms(2) by (simp add: int_text_def payload_def)
  have "cmdData uni psize testName = (if t \<in> {''PING'', ''SET'', ''GET'', ''INCR''} then Some (encode_command (test_words psize t)) else None)"
    unfolding cmdData_def t_def [symmetric] Let_def test_words_def
    by (cases "t = ''PING''"; cases "t = ''SET''"; cases "t = ''GET''"; cases "t = ''INCR''") (simp_all add: test_requests f)
  then show ?thesis using assms(1) by (simp add: t_def split: if_splits)
qed

text \<open>The packets of the benchmark are well-formed: for every test and every payload that is not
  negative, the server decodes a packet as the test's command, exactly as many times as the
  pipeline is deep (once for a depth that is not positive).\<close>

theorem benchmark_packets_decode:
  assumes "cmdData uni psize testName = Some d" "0 \<le> psize" "length (pipelinedData pipeline d) < 2 ^ 61"
  shows "DecodeCommands up (pipelinedData pipeline d @ stale_bytes, length (pipelinedData pipeline d)) =
    Inr (replicate (nat (pipelineReqs pipeline)) (parsed_of up (test_words psize (ToUpper uni testName))), None)"
proof -
  let ?n = "nat (pipelineReqs pipeline)" and ?ws = "test_words psize (ToUpper uni testName)"
  have e: "pipelinedData pipeline d = concat (map encode_command (replicate ?n ?ws))"
    by (simp add: pipelinedData_def cmdData_encode [OF assms(1,2)])
  have "0 < ?n" by (simp add: pipelineReqs_def)
  then show ?thesis
    using decode_pipeline [of "replicate ?n ?ws" "pipelinedData pipeline d" up stale_bytes] e assms(3)
    by (simp add: test_words_def)
qed

lemma benchmark_packets_decode_witness:
  "DecodeCommands (\<lambda>x. x) (pipelinedData 3 (encode_command [''PING'']), length (pipelinedData 3 (encode_command [''PING'']))) =
     Inr (replicate 3 (Some ''PING'', []), None)"
proof -
  have r: "replicate 3 x = [x, x, x]" for x :: 'x by (simp add: numeral_eq_Suc)
  have u: "ToUpper (\<lambda>x. x) ''ping'' = ''PING''" "ToUpper (\<lambda>x. x) ''PING'' = ''PING''"
    by (simp_all add: ToUpper_def is_ascii_def upper_byte_def char_of_def bit_Suc_0_iff)
  have c: "cmdData (\<lambda>x. x) 3 ''ping'' = Some (encode_command [''PING''])" by (simp add: cmdData_def u test_requests)
  have "length (pipelinedData 3 (encode_command [''PING''])) < 2 ^ 61"
    by (simp add: pipelinedData_def pipelineReqs_def test_requests CRLF_def r)
  from benchmark_packets_decode [OF c _ this, of "\<lambda>x. x" "[]"] show ?thesis
    by (simp add: u test_words_def parsed_of_def pipelineReqs_def)
qed

text \<open>The replies that the benchmark counts right: one line, or a bulk string of one line.\<close>

definition framed :: "string \<Rightarrow> bool" where
  "framed r \<longleftrightarrow>
     (\<exists>l. r = l @ [newline] \<and> newline \<notin> set l \<and> (l = [] \<or> l ! 0 \<noteq> CHR ''$'' \<or> r = ''$-1'' @ CRLF)) \<or>
     (\<exists>l v. r = CHR ''$'' # l @ newline # v @ [newline] \<and> newline \<notin> set l \<and> newline \<notin> set v \<and> CHR ''$'' # l @ [newline] \<noteq> ''$-1'' @ CRLF)"

lemma ReadString_line: "newline \<notin> set l \<Longrightarrow> ReadString (l @ newline # rest) = (l @ [newline], rest)"
  by (induction l) auto

lemma bench_reply_framed:
  assumes "framed r" "bench_replies n st = (ok, er, st')"
  shows "bench_replies (Suc n) (r @ st) = (ok + 1, er, st')"
proof -
  from assms(1) consider
      (one) l where "r = l @ [newline]" "newline \<notin> set l" "l = [] \<or> l ! 0 \<noteq> CHR ''$'' \<or> r = ''$-1'' @ CRLF"
    | (bulk) l v where "r = CHR ''$'' # l @ newline # v @ [newline]" "newline \<notin> set l" "newline \<notin> set v" "CHR ''$'' # l @ [newline] \<noteq> ''$-1'' @ CRLF"
    unfolding framed_def by blast
  then show ?thesis
  proof cases
    case one
    have "r ! 0 = CHR ''$'' \<Longrightarrow> r = ''$-1'' @ CRLF" using one by (cases l) (auto simp: newline_def)
    then show ?thesis using one(1) ReadString_line [OF one(2), of st] assms(2) by auto
  next
    case bulk
    have "newline \<notin> set (CHR ''$'' # l)" using bulk(2) by (simp add: newline_def)
    from ReadString_line [OF this, of "v @ newline # st"]
    have "ReadString (r @ st) = (CHR ''$'' # l @ [newline], v @ newline # st)" using bulk(1) by simp
    moreover have "newline \<in> set (r @ st)" using bulk(1) by simp
    ultimately show ?thesis using ReadString_line [OF bulk(3), of st] assms(2) bulk(4) by (simp del: ReadString.simps)
  qed
qed

lemma bench_replies_framed:
  "\<forall>r \<in> set rs. framed r \<Longrightarrow> bench_replies (length rs) (concat rs @ st) = (length rs, 0, st)"
proof (induction rs)
  case (Cons r rs)
  then show ?case using bench_reply_framed [of r "length rs" "concat rs @ st"] by (simp del: bench_replies.simps)
qed simp

lemma bench_batches_framed:
  "\<forall>rs \<in> set rss. length rs = n \<and> (\<forall>r \<in> set rs. framed r) \<Longrightarrow>
   bench_batches n (replicate (length rss) True) (concat (map concat rss)) = (length rss * n, 0)"
proof (induction rss)
  case (Cons rs rss)
  then show ?case using bench_replies_framed [of rs "concat (map concat rss)"] by (auto simp del: bench_replies.simps)
qed simp

text \<open>C40: what the benchmark measures: if every connection opens, every write succeeds, and the server
  answers every request with one line or a bulk string of one line, then the requests that it
  counts as completed are not those asked for: they are rounded down to a multiple of clients
  times pipeline depth, and rounded up to one batch for each client when fewer are asked for;
  no error is counted.\<close>

theorem benchmark_counts:
  assumes "0 < nclients" "0 \<le> requests" "p = pipelineReqs pipeline" "length conns = nat nclients"
    "\<forall>c \<in> set conns. \<exists>rss. c = Some ((\<lambda>_. True), concat (map concat rss)) \<and>
       length rss = nat (if requests < nclients * p then 1 else requests div (nclients * p)) \<and>
       (\<forall>rs \<in> set rss. length rs = nat p \<and> (\<forall>r \<in> set rs. framed r))"
  shows "runTest requests nclients pipeline conns =
    Inr (of_int (if requests < nclients * p then nclients * p else requests - requests mod (nclients * p)), 0)"
proof -
  have p: "0 < p" by (simp add: assms(3) pipelineReqs_def)
  let ?b = "if requests < nclients * p then 1 else requests div (nclients * p)"
  have d: "requests div nclients div p = requests div (nclients * p)"
    using p by (simp add: zdiv_zmult2_eq)
  have np: "0 < nclients * p" using assms(1) p by simp
  have z: "requests div (nclients * p) = 0 \<longleftrightarrow> requests < nclients * p"
    using np assms(2) by (metis div_pos_pos_trivial linorder_not_less pos_imp_zdiv_pos_iff less_irrefl)
  have q: "0 \<le> requests div nclients" using assms(1,2) by (simp add: pos_imp_zdiv_nonneg_iff)
  have r: "reqsPerClient requests nclients = Inr (requests div nclients)"
    using assms(1,2) by (cases "requests = 0") (simp_all add: reqsPerClient_def go_div_def)
  have "go_div (requests div nclients) p = Inr (requests div (nclients * p))"
    using q p d by (cases "requests div nclients = 0") (simp_all add: go_div_def flip: d)
  then have b: "batchesPerClient (requests div nclients) pipeline = Inr ?b"
    using z by (simp add: batchesPerClient_def flip: assms(3))
  have c: "bench_client (requests div nclients) (nat ?b) (nat p) c = (nat ?b * nat p, 0)" if "c \<in> set conns" for c
  proof -
    obtain rss where rss: "c = Some ((\<lambda>_. True), concat (map concat rss))" "length rss = nat ?b"
      "\<forall>rs \<in> set rss. length rs = nat p \<and> (\<forall>r \<in> set rs. framed r)" using assms(5) \<open>c \<in> set conns\<close> by metis
    have "map (\<lambda>_. True) [0..<nat ?b] = replicate (length rss) True" using rss(2) by (simp add: map_replicate_const)
    then show ?thesis using bench_batches_framed [OF rss(3)] rss(1,2) by (simp add: bench_client_def)
  qed
  have m: "map (bench_client (requests div nclients) (nat ?b) (nat p)) conns = replicate (nat nclients) (nat ?b * nat p, 0)"
    using c assms(4) by (simp add: list_eq_iff_nth_eq)
  have t: "nclients * (?b * p) = (if requests < nclients * p then nclients * p else requests - requests mod (nclients * p))"
    by (simp add: minus_mod_eq_mult_div ac_simps)
  have "0 \<le> ?b" using z assms(2) np by (simp add: pos_imp_zdiv_nonneg_iff)
  then have "int (nat nclients * (nat ?b * nat p)) = nclients * (?b * p)" using assms(1) p by simp
  then have "(of_nat (nat nclients * (nat ?b * nat p)) :: uint64) = of_int (nclients * (?b * p))" by (metis of_int_of_nat_eq)
  then have w: "(of_nat (nat nclients * (nat ?b * nat p)) :: uint64) = of_int (if requests < nclients * p then nclients * p else requests - requests mod (nclients * p))"
    unfolding t .
  have "runTest requests nclients pipeline conns =
      (let results = map (bench_client (requests div nclients) (nat ?b) (nat p)) conns in
       Inr (of_nat (sum_list (map fst results)), of_nat (sum_list (map snd results))))"
    using assms(4) by (simp add: runTest_def r b flip: assms(3) del: map_map)
  also have "\<dots> = Inr (of_nat (nat nclients * (nat ?b * nat p)), 0)"
    unfolding m Let_def map_replicate fst_conv snd_conv sum_list_replicate by simp
  finally show ?thesis unfolding w .
qed

text \<open>Seven requests by two clients: six are counted.\<close>

lemma benchmark_counts_witness:
  "runTest 7 2 0 (replicate 2 (Some ((\<lambda>_. True), concat (map concat (replicate 3 [''+PONG'' @ CRLF]))))) = Inr (of_int 6, 0)"
proof -
  have "framed ([] @ ''+PONG'' @ CRLF)"
    unfolding framed_def by (rule disjI1) (rule exI [of _ "''+PONG'' @ [CHR 0x0D]"], simp add: CRLF_def newline_def)
  then have f: "\<forall>rs \<in> set (replicate 3 [''+PONG'' @ CRLF]). length rs = nat 1 \<and> (\<forall>r \<in> set rs. framed r)" by simp
  have "\<exists>rss. Some ((\<lambda>_::nat. True), concat (map concat (replicate 3 [''+PONG'' @ CRLF]))) = Some ((\<lambda>_. True), concat (map concat rss)) \<and>
      length rss = nat (if (7::int) < 2 * 1 then 1 else 7 div (2 * 1)) \<and> (\<forall>rs \<in> set rss. length rs = nat 1 \<and> (\<forall>r \<in> set rs. framed r))"
    by (intro exI [of _ "replicate 3 [''+PONG'' @ CRLF]"] conjI f) simp_all
  then show ?thesis
    using benchmark_counts [of 2 7 1 0 "replicate 2 (Some ((\<lambda>_. True), concat (map concat (replicate 3 [''+PONG'' @ CRLF]))))"]
    by (simp add: pipelineReqs_def)
qed

end
