(* ===== verification/Transactions.thy ===== *)
theory Transactions
  imports Replies
begin

text \<open>
  A transaction that arrives in several packets, with packets of another client in between: its
  queue holds command cells that went back to the pool, and the other client's commands are
  put into them.
\<close>

section \<open>A pool that hands out its oldest command\<close>

definition pool_oldest :: "world \<Rightarrow> bool" where
  \<comment> \<open>as \<open>sync.Pool\<close> does on one thread for two commands: the first to be returned is kept in a private
    slot, which is emptied first\<close>
  "pool_oldest w \<longleftrightarrow> cmd_get w = (\<lambda>n pool. if pool = [] then None else Some (last pool))"

lemma get_cmd_oldest:
  "pool_oldest w \<Longrightarrow> cmdPool s = [] \<Longrightarrow> get_cmd w s = (cmdNext s, (advance s)\<lparr>cmdNext := cmdNext s + 1, cmds := (cmds s)(cmdNext s := \<lparr>Cmd = [], Args = []\<rparr>)\<rparr>)"
  "pool_oldest w \<Longrightarrow> cmdPool s = [p] \<Longrightarrow> get_cmd w s = (p, (advance s)\<lparr>cmdPool := []\<rparr>)"
  "pool_oldest w \<Longrightarrow> cmdPool s = [q, p] \<Longrightarrow> p \<noteq> q \<Longrightarrow> get_cmd w s = (p, (advance s)\<lparr>cmdPool := [q]\<rparr>)"
  by (simp_all add: pool_oldest_def get_cmd_def cmd_choice_def)

definition two_cells :: "nat \<Rightarrow> nat \<Rightarrow> server \<Rightarrow> bool" where
  "two_cells p q s \<longleftrightarrow> p \<noteq> q \<and> (cmdPool s = [] \<and> p = cmdNext s \<and> q = cmdNext s + 1 \<or> cmdPool s = [q, p])"

lemma load_two:
  assumes "pool_oldest w" "two_cells p q s"
  obtains t where "load_cmds w [(Some n, a), (Some m, b)] s = ([p, q], t)" "cell t p = (n, a)" "cell t q = (m, b)" "cmdPool t = []"
    "data t = data s" "clients t = clients s" "wire t = wire s"
proof (cases "cmdPool s = []")
  case True
  then show ?thesis
    using that assms get_cmd_oldest(1) [OF assms(1)]
    by (simp add: two_cells_def fill_cmd_def cell_def advance_def Let_def)
next
  case False
  then show ?thesis
    using that assms get_cmd_oldest(2,3) [OF assms(1)]
    by (simp add: two_cells_def fill_cmd_def cell_def advance_def Let_def)
qed

lemma free_two:
  assumes "p \<noteq> q" "cmdPool t = []"
  shows "two_cells p q (FreeCmds [p, q] t)" "cell (FreeCmds [p, q] t) q = (fst (cell t q), [])" "cmdPool (FreeCmds [p, q] t) = [q, p]"
  using assms by (simp_all add: two_cells_def FreeCmds_def cell_def)

section \<open>Three packets\<close>

lemma begin_packet:
  assumes "pool_oldest w" "two_cells p q s" "1 \<le> stack w" "\<not> isTxn (clients s c)" "enqueue (clients s c) = []" "\<not> txnCommands name"
  obtains t where "handle_batch w c [(Some ''MULTI'', []), (Some name, args)] s = Inr t" "cmdPool t = [q, p]"
    "isTxn (clients t c)" "enqueue (clients t c) = [q]" "\<forall>c'. c' \<noteq> c \<longrightarrow> clients t c' = clients s c'" "Fd (clients t c) = Fd (clients s c)"
    "data t = data s" "wire t = wire s @ [(Fd (clients s c), RESP_OK @ RESP_QUEUED)]"
proof -
  obtain t where t: "load_cmds w [(Some ''MULTI'', []), (Some name, args)] s = ([p, q], t)" "cell t p = (''MULTI'', [])" "cell t q = (name, args)"
    "cmdPool t = []" "data t = data s" "clients t = clients s" "wire t = wire s"
    by (rule load_two [OF assms(1,2)])
  let ?t = "TxnQueue q c (TxnBegin c (TrackCommand t))"
  have "Cmd (cmds t p) = ''MULTI''" "Cmd (cmds t q) = name" using t(2,3) by (simp_all add: cell_def)
  then have "respond_loop w [p, q] c [] t = Inr (RESP_OK @ RESP_QUEUED, ?t)"
    using respond_multi [of t p c w "[q]" "[]"] assms(3,4,6) t(6) by (simp add: TxnBegin_def)
  then have h: "handle_batch w c [(Some ''MULTI'', []), (Some name, args)] s =
      Inr (FreeCmds [p, q] (snd (Client_Write w c (RESP_OK @ RESP_QUEUED) ?t)))"
    using t(1) by (simp add: handle_batch_def EvalAndRespond_def)
  have "p \<noteq> q" using assms(2) by (simp add: two_cells_def)
  then show ?thesis
    using that [OF h] free_two [of p q "snd (Client_Write w c (RESP_OK @ RESP_QUEUED) ?t)"] t(4-7) assms(5)
    by (simp add: Client_Write_def TxnQueue_def TxnBegin_def TrackCommand_def)
qed

lemma foreign_packet:
  assumes "pool_oldest w" "two_cells p q s" "1 \<le> stack w" "\<not> isTxn (clients s c)"
    "map_of eval_table n \<noteq> None" "map_of eval_table m \<noteq> None" "eval_seq (env_of w) [(n, a), (m, b)] (data s) = Inr (rs, d)"
  obtains t where "handle_batch w c [(Some n, a), (Some m, b)] s = Inr t" "cmdPool t = [q, p]" "cell t q = (m, [])"
    "clients t = clients s" "data t = d" "wire t = wire s @ [(Fd (clients s c), rs)]"
proof -
  obtain t where t: "load_cmds w [(Some n, a), (Some m, b)] s = ([p, q], t)" "cell t p = (n, a)" "cell t q = (m, b)"
    "cmdPool t = []" "data t = data s" "clients t = clients s" "wire t = wire s"
    by (rule load_two [OF assms(1,2)])
  let ?t = "snd (Client_Write w c rs (after_cmds 2 d t))"
  have "\<forall>x \<in> set [p, q]. data_command t x" using t(2,3) assms(5,6) by (simp add: cell_def data_command_def)
  then have "respond_loop w [p, q] c [] t = Inr (rs, after_cmds 2 d t)"
    using respond_loop_data [of "[p, q]" t c w "[]"] assms(3,4,7) t(2,3,5,6) by (simp add: numeral_2_eq_2 del: respond_loop_Cons)
  then have h: "handle_batch w c [(Some n, a), (Some m, b)] s = Inr (FreeCmds [p, q] ?t)"
    using t(1) by (simp add: handle_batch_def EvalAndRespond_def)
  have "p \<noteq> q" using assms(2) by (simp add: two_cells_def)
  moreover have "cmdPool ?t = []" "cell ?t q = (m, b)" using t(3,4) by (simp_all add: Client_Write_def after_cmds_def cell_def)
  ultimately show ?thesis using that [OF h] free_two [of p q ?t] t(5-7) by (simp add: Client_Write_def)
qed

lemma exec_packet:
  assumes "pool_oldest w" "cmdPool s = [q, p]" "p \<noteq> q" "2 \<le> stack w" "isTxn (clients s c)" "enqueue (clients s c) = [q]"
    "cell s q = (m, [])" "map_of eval_table m \<noteq> None" "eval_seq (env_of w) [(m, [])] (data s) = Inr (r, d)"
  obtains t where "handle_batch w c [(Some ''EXEC'', [])] s = Inr t" "data t = d"
    "wire t = wire s @ [(Fd (clients s c), CHR ''*'' # FormatInt 1 @ CRLF @ r)]"
proof -
  let ?s = "fill_cmd p (Some ''EXEC'', []) ((advance s)\<lparr>cmdPool := [q]\<rparr>)"
  have f: "Cmd (cmds ?s p) = ''EXEC''" "isTxn (clients ?s c)" "enqueue (clients ?s c) = [q]" "cell ?s q = (m, [])" "data ?s = data s" "wire ?s = wire s"
    "Fd (clients ?s c) = Fd (clients s c)" "data_command ?s q"
    using assms by (auto simp: fill_cmd_def advance_def cell_def data_command_def)
  have "respond_loop w [p] c [] ?s = Inr (CHR ''*'' # FormatInt 1 @ CRLF @ r, TxnDiscard c (after_cmds 1 d (TrackCommand ?s)))"
    using respond_exec [OF f(1,2) assms(4), of r d "[]"] f assms(9) by simp
  then have h: "handle_batch w c [(Some ''EXEC'', [])] s =
      Inr (FreeCmds [p] (snd (Client_Write w c (CHR ''*'' # FormatInt 1 @ CRLF @ r) (TxnDiscard c (after_cmds 1 d (TrackCommand ?s))))))"
    using handle_one [OF get_cmd_oldest(3) [OF assms(1-3)]] by (simp add: EvalAndRespond_def del: respond_loop_Cons)
  show ?thesis using that [OF h] f by (simp add: Client_Write_def TxnDiscard_def TrackCommand_def update_client_def)
qed

text \<open>C13: a transaction can run another client's command: when \<open>MULTI\<close> and a command arrive in one
  packet, then a packet with two commands of another client, and then \<open>EXEC\<close>, the command that
  was queued is lost; \<open>EXEC\<close> runs, and answers its sender with the reply of, the second command
  of the other client, without its arguments. This is for a pool that hands out the oldest of
  its commands and is empty at first, and for commands of the other client that use the database.\<close>

theorem transaction_runs_foreign_command:
  assumes "pool_oldest w" "cmdPool s = []" "2 \<le> stack w" "db_ok (env_of w) (data s)" "config_ok (cfg (env_of w))"
    "c \<noteq> c'" "\<not> isTxn (clients s c)" "enqueue (clients s c) = []" "\<not> isTxn (clients s c')" "\<not> txnCommands name"
    "map_of eval_table n \<noteq> None" "map_of eval_table m \<noteq> None"
  shows "\<exists>rs d r d' s1 s2 s3. eval_seq (env_of w) [(n, a), (m, b)] (data s) = Inr (rs, d) \<and> eval_seq (env_of w) [(m, [])] d = Inr (r, d') \<and>
    handle_batch w c [(Some ''MULTI'', []), (Some name, args)] s = Inr s1 \<and> handle_batch w c' [(Some n, a), (Some m, b)] s1 = Inr s2 \<and>
    handle_batch w c [(Some ''EXEC'', [])] s2 = Inr s3 \<and> data s3 = d' \<and>
    wire s3 = wire s @ [(Fd (clients s c), RESP_OK @ RESP_QUEUED), (Fd (clients s c'), rs), (Fd (clients s c), CHR ''*'' # FormatInt 1 @ CRLF @ r)]"
proof -
  define p q where "p = cmdNext s" and "q = cmdNext s + 1"
  have st: "1 \<le> stack w" using assms(3) by simp
  have two: "two_cells p q s" using assms(2) by (simp add: two_cells_def p_def q_def)
  then have ne: "p \<noteq> q" by (simp add: two_cells_def)
  obtain rs d where rs: "eval_seq (env_of w) [(n, a), (m, b)] (data s) = Inr (rs, d)" "db_ok (env_of w) d"
    using eval_seq_total [OF assms(4,5)] by blast
  obtain r d' where r: "eval_seq (env_of w) [(m, [])] d = Inr (r, d')" using eval_seq_total [OF rs(2) assms(5)] by blast
  obtain s1 where s1: "handle_batch w c [(Some ''MULTI'', []), (Some name, args)] s = Inr s1" "cmdPool s1 = [q, p]"
    "isTxn (clients s1 c)" "enqueue (clients s1 c) = [q]" "\<forall>c'. c' \<noteq> c \<longrightarrow> clients s1 c' = clients s c'" "Fd (clients s1 c) = Fd (clients s c)"
    "data s1 = data s" "wire s1 = wire s @ [(Fd (clients s c), RESP_OK @ RESP_QUEUED)]"
    by (rule begin_packet [OF assms(1) two st assms(7,8,10)])
  have c': "clients s1 c' = clients s c'" "\<not> isTxn (clients s1 c')" using s1(5) assms(6,9) by metis+
  have two1: "two_cells p q s1" using s1(2) ne by (simp add: two_cells_def)
  have rs1: "eval_seq (env_of w) [(n, a), (m, b)] (data s1) = Inr (rs, d)" using rs(1) by (simp only: s1(7))
  obtain s2 where s2: "handle_batch w c' [(Some n, a), (Some m, b)] s1 = Inr s2" "cmdPool s2 = [q, p]" "cell s2 q = (m, [])"
    "clients s2 = clients s1" "data s2 = d" "wire s2 = wire s1 @ [(Fd (clients s1 c'), rs)]"
    by (rule foreign_packet [OF assms(1) two1 st c'(2) assms(11,12) rs1])
  have e: "isTxn (clients s2 c)" "enqueue (clients s2 c) = [q]" "eval_seq (env_of w) [(m, [])] (data s2) = Inr (r, d')"
    using s1(3,4) s2(4,5) r by simp_all
  obtain s3 where s3: "handle_batch w c [(Some ''EXEC'', [])] s2 = Inr s3" "data s3 = d'"
    "wire s3 = wire s2 @ [(Fd (clients s2 c), CHR ''*'' # FormatInt 1 @ CRLF @ r)]"
    by (rule exec_packet [OF assms(1) s2(2) ne assms(3) e(1,2) s2(3) assms(12) e(3)])
  have "wire s3 = wire s @ [(Fd (clients s c), RESP_OK @ RESP_QUEUED), (Fd (clients s c'), rs), (Fd (clients s c), CHR ''*'' # FormatInt 1 @ CRLF @ r)]"
    using s3(3) s2(4,6) s1(6,8) c'(1) by simp
  with rs(1) r s1(1) s2(1) s3(1,2) show ?thesis by (intro exI conjI)
qed

text \<open>A queued \<open>PING\<close> becomes the \<open>FLUSHDB\<close> of somebody else.\<close>

lemma transaction_runs_foreign_command_witness:
  "\<exists>s1 s2 s3. handle_batch (calm_world\<lparr>cmd_get := (\<lambda>n pool. if pool = [] then None else Some (last pool))\<rparr>) 0
       [(Some ''MULTI'', []), (Some ''PING'', [])] (batch_server []) = Inr s1 \<and>
     handle_batch (calm_world\<lparr>cmd_get := (\<lambda>n pool. if pool = [] then None else Some (last pool))\<rparr>) 1
       [(Some ''GET'', [''k'']), (Some ''FLUSHDB'', [])] s1 = Inr s2 \<and>
     handle_batch (calm_world\<lparr>cmd_get := (\<lambda>n pool. if pool = [] then None else Some (last pool))\<rparr>) 0
       [(Some ''EXEC'', [])] s2 = Inr s3 \<and>
     snd (last (wire s3)) = ''*1'' @ CRLF @ RESP_OK"
proof -
  let ?w = "calm_world\<lparr>cmd_get := (\<lambda>n pool. if pool = [] then None else Some (last pool))\<rparr>"
  have w: "pool_oldest ?w" "2 \<le> stack ?w" "env_of ?w = default_env" by (simp_all add: pool_oldest_def)
  have t: "map_of eval_table ''GET'' \<noteq> None" "map_of eval_table ''FLUSHDB'' \<noteq> None" by (simp_all add: eval_table_def)
  have p: "cmdPool (batch_server []) = []" by (simp add: batch_server_def init_server_def)
  have f: "FormatInt 1 = ''1''" by (simp add: FormatInt_def FormatNat.simps digit_char_def char_of_def bit_Suc_0_iff)
  have r: "eval_seq (env_of ?w) [(''FLUSHDB'', [])] d = Inr (r, d') \<Longrightarrow> r = RESP_OK" for d r d'
    by (auto simp: eval_table_def evalFLUSHDB_def)
  have ok: "db_ok (env_of ?w) (data (batch_server []))" "config_ok (cfg (env_of ?w))" "\<not> txnCommands ''PING''"
    by (simp_all add: w(3) txnCommands_def)
  from transaction_runs_foreign_command [OF w(1) p w(2) ok(1,2) zero_neq_one batch_server_ok(3,4,3) ok(3) t, of "[''k'']" "[]" "[]"]
  obtain rs d r d' s1 s2 s3 where e: "eval_seq (env_of ?w) [(''FLUSHDB'', [])] d = Inr (r, d')"
      "handle_batch ?w 0 [(Some ''MULTI'', []), (Some ''PING'', [])] (batch_server []) = Inr s1"
      "handle_batch ?w 1 [(Some ''GET'', [''k'']), (Some ''FLUSHDB'', [])] s1 = Inr s2"
      "handle_batch ?w 0 [(Some ''EXEC'', [])] s2 = Inr s3" "wire s3 = wire (batch_server []) @ [(Fd (clients (batch_server []) 0), RESP_OK @ RESP_QUEUED),
        (Fd (clients (batch_server []) 1), rs), (Fd (clients (batch_server []) 0), CHR ''*'' # FormatInt 1 @ CRLF @ r)]"
    by (elim exE conjE) (rule that)
  have "snd (last (wire s3)) = ''*1'' @ CRLF @ RESP_OK" using e(5) r [OF e(1)] f by simp
  with e(2-4) show ?thesis by (intro exI conjI)
qed

end
