(* ===== verification/DumpSteps.thy ===== *)
theory DumpSteps
  imports Startup
begin

text \<open>
  The dump of the signal handler in the steps that \<open>DumpAllAOF\<close> makes: it truncates the file, takes
  the read lock, writes one key after the other through a buffered writer, and flushes. The
  event loop runs beside it, except for what needs the write lock. The step relation of
  \<open>Process\<close>, in which the dump is one step, is what these steps refine when the loop is idle; the
  invariant of the process, durability and the end of service are proved for them.
\<close>

section \<open>The buffered writer\<close>

type_synonym writer = "string \<times> string"
  \<comment> \<open>what was passed on to the file, and the buffer\<close>

definition bufio_write :: "writer \<Rightarrow> string \<Rightarrow> writer" where
  \<comment> \<open>\<open>Write\<close> of \<open>bufio.Writer\<close> with its default size; the error that the file returned is sticky, so
    that the cut at \<open>write_room\<close> can be made at the end\<close>
  "bufio_write = (\<lambda>(out, buf) p.
     if length p \<le> 4096 - length buf then (out, buf @ p)
     else if buf = [] then (out @ p, [])
     else let n = 4096 - length buf; p' = drop n p in
       if length p' \<le> 4096 then (out @ buf @ take n p, p') else (out @ buf @ p, []))"

lemma bufio_write_bytes: "bufio_write (out, buf) p = (out', buf') \<Longrightarrow> out' @ buf' = out @ buf @ p"
  by (auto simp: bufio_write_def Let_def split: if_splits)

section \<open>Steps\<close>

datatype dump_pc =
    Closed
  | Opened "string list" writer \<comment> \<open>the keys still to be dumped\<close>

record fine =
  proc :: process
  dump_at :: dump_pc

abbreviation handler_db :: "process \<Rightarrow> db" where "handler_db p \<equiv> data (srv (eng p))"

abbreviation handler_disk :: "process \<Rightarrow> disk" where "handler_disk p \<equiv> files (srv (eng p))"

definition with_dump :: "db \<Rightarrow> string \<Rightarrow> process \<Rightarrow> process" where
  \<comment> \<open>the database, of which a dump only draws orders of iteration, and the file\<close>
  "with_dump d out p =
     p\<lparr>eng := (eng p)\<lparr>srv := (srv (eng p))\<lparr>data := d, files := (handler_disk p)\<lparr>aof_file := Some (flushed (handler_disk p) out)\<rparr>\<rparr>\<rparr>\<rparr>"

definition no_write_lock :: "process \<Rightarrow> process \<Rightarrow> bool" where
  \<comment> \<open>what every section under the write lock changes is unchanged, and the file is not written to\<close>
  "no_write_lock p q \<longleftrightarrow> store (handler_db q) = store (handler_db p) \<and> KeyspaceStat (handler_db q) = KeyspaceStat (handler_db p) \<and>
     handler_disk q = handler_disk p"

inductive fine_step :: "world \<Rightarrow> fine \<Rightarrow> fine \<Rightarrow> bool" for w where
  alone: "dump_at f = Closed \<Longrightarrow> step w (proc f) q \<Longrightarrow> handler q \<noteq> Exiting \<or> handler (proc f) = Exiting \<Longrightarrow>
    fine_step w f (f\<lparr>proc := q\<rparr>)"
| cannot_open: "dump_at f = Closed \<Longrightarrow> handler (proc f) = Dumping \<Longrightarrow> \<not> may_create (handler_disk (proc f)) \<Longrightarrow>
    fine_step w f (f\<lparr>proc := (proc f)\<lparr>handler := Exiting\<rparr>\<rparr>)"
| open_file: "dump_at f = Closed \<Longrightarrow> handler (proc f) = Dumping \<Longrightarrow> may_create (handler_disk (proc f)) \<Longrightarrow> d = handler_db (proc f) \<Longrightarrow>
    fine_step w f \<lparr>proc = with_dump (ticked d) [] (proc f), dump_at = Opened (iterate (env_of w) d (store_keys d)) ([], [])\<rparr>"
| write_key: "dump_at f = Opened (ky # ks) wr \<Longrightarrow> handler (proc f) = Dumping \<Longrightarrow> d = handler_db (proc f) \<Longrightarrow>
    map_of (store d) ky = Some a \<Longrightarrow> dumpKey (env_of w) (handler_disk (proc f)) ky (objs d a) d = Inr (b, d') \<Longrightarrow> wr' = bufio_write wr b \<Longrightarrow>
    fine_step w f \<lparr>proc = with_dump d' (fst wr') (proc f), dump_at = Opened ks wr'\<rparr>"
| close_file: "dump_at f = Opened [] wr \<Longrightarrow> handler (proc f) = Dumping \<Longrightarrow>
    fine_step w f \<lparr>proc = (with_dump (handler_db (proc f)) (fst wr @ snd wr) (proc f))\<lparr>handler := Exiting\<rparr>, dump_at = Closed\<rparr>"
| beside: "dump_at f = Opened ks wr \<Longrightarrow> handler (proc f) = Dumping \<Longrightarrow> loop (proc f) \<noteq> Ticking \<Longrightarrow> step w (proc f) q \<Longrightarrow>
    handler q \<noteq> Exiting \<Longrightarrow> no_write_lock (proc f) q \<Longrightarrow> fine_step w f (f\<lparr>proc := q\<rparr>)"
| tick_beside: "dump_at f = Opened ks wr \<Longrightarrow> handler (proc f) = Dumping \<Longrightarrow> loop (proc f) = Ticking \<Longrightarrow> n = eng (proc f) \<Longrightarrow>
    \<not> lastCronExecTime n + cronFrequency < now \<Longrightarrow>
    fine_step w f (f\<lparr>proc := (proc f)\<lparr>loop := Polling, eng := n\<lparr>srv := UpdateCachedTime ms (srv n)\<rparr>\<rparr>\<rparr>)"

inductive fine_run :: "world \<Rightarrow> fine \<Rightarrow> fine \<Rightarrow> bool" for w f where
  stay: "fine_run w f f"
| go: "fine_run w f g \<Longrightarrow> fine_step w g h \<Longrightarrow> fine_run w f h"

section \<open>A dump does not see the clocks\<close>

definition clocked :: "int64 \<Rightarrow> int64 \<Rightarrow> db \<Rightarrow> db" where
  "clocked t g d = d\<lparr>GlobalCachedTime := g, unixNow := t\<rparr>"

lemma clocked_simps [simp]:
  "store (clocked t g d) = store d" "objs (clocked t g d) = objs d" "tick (clocked t g d) = tick d"
  "iterate e (clocked t g d) = iterate e d" "ticked (clocked t g d) = clocked t g (ticked d)"
  by (simp_all add: clocked_def iterate_def ticked_def fun_eq_iff)

lemma switches_clocked:
  "hash_switch obj (\<lambda>z. Inr (f z, clocked t g d)) (\<lambda>m. Inr (h m, clocked t g d')) (x, clocked t g d) =
   obind (hash_switch obj (\<lambda>z. Inr (f z, d)) (\<lambda>m. Inr (h m, d')) (x, d)) (\<lambda>(y, d). Inr (y, clocked t g d))"
  "set_switch obj (\<lambda>z. Inr (i z, clocked t g d)) (\<lambda>m. Inr (j m, clocked t g d')) (x, clocked t g d) =
   obind (set_switch obj (\<lambda>z. Inr (i z, d)) (\<lambda>m. Inr (j m, d')) (x, d)) (\<lambda>(y, d). Inr (y, clocked t g d))"
  by (cases "as_zip (Value obj)"; cases "as_hash (Value obj)"; simp add: hash_switch_def Let_def)
    (cases "as_intset (Value obj)"; cases "as_set (Value obj)"; simp add: set_switch_def Let_def)

lemma obind_pair: "obind (obind r (\<lambda>(x, d). Inr (x, u d))) f = obind r (\<lambda>(x, d). f (x, u d))"
  by (cases r) auto

lemma dump_tokens_clocked:
  "dump_tokens e dk ky obj (clocked t g d) = obind (dump_tokens e dk ky obj d) (\<lambda>(ts, d). Inr (ts, clocked t g d))"
proof -
  let ?t = "getType (TypeEncoding obj)"
  consider "?t = OBJ_TYPE_STRING" | (hash) "?t = OBJ_TYPE_HASH" | (list) "?t = OBJ_TYPE_LIST" | (set) "?t = OBJ_TYPE_SET"
    | "?t \<notin> {OBJ_TYPE_STRING, OBJ_TYPE_HASH, OBJ_TYPE_LIST, OBJ_TYPE_SET}" by auto
  then show ?thesis
  proof cases
    case hash
    then show ?thesis
      unfolding dump_tokens_def Let_def clocked_simps switches_clocked obind_pair
      by (simp add: obind_def split: sum.split)
  next
    case list
    then show ?thesis unfolding dump_tokens_def Let_def by (simp add: obind_def split: sum.split)
  next
    case set
    then show ?thesis
      unfolding dump_tokens_def Let_def clocked_simps switches_clocked obind_pair
      by (simp add: obind_def split: sum.split)
  qed (simp_all add: dump_tokens_def Let_def)
qed

lemma dumpKey_clocked:
  "dumpKey e dk ky obj (clocked t g d) = obind (dumpKey e dk ky obj d) (\<lambda>(b, d). Inr (b, clocked t g d))"
  by (cases "dump_tokens e dk ky obj d") (simp_all add: dumpKey_def dump_tokens_clocked split: prod.split)

lemma dump_loop_clocked:
  "dump_loop e dk ks (clocked t g d) = obind (dump_loop e dk ks d) (\<lambda>(b, d). Inr (b, clocked t g d))"
proof (induction ks arbitrary: d)
  case (Cons ky ks)
  then show ?case by (auto simp: dumpKey_clocked obind_def split: option.split sum.split prod.split)
qed simp

lemma dumpKey_file: "dumpKey e (dk\<lparr>aof_file := x\<rparr>) = dumpKey e dk"
proof -
  have "print_s (dk\<lparr>aof_file := x\<rparr>) = print_s dk" by (simp add: print_s_def fun_eq_iff split: gvalue.split)
  then show ?thesis by (intro ext) (simp only: dumpKey_def dump_tokens_def)
qed

lemma dump_loop_file: "dump_loop e (dk\<lparr>aof_file := x\<rparr>) ks d = dump_loop e dk ks d"
  by (induction ks arbitrary: d) (simp_all add: dumpKey_file split: option.split)

lemma flushed_file [simp]: "flushed (dk\<lparr>aof_file := x\<rparr>) = flushed dk"
  by (simp add: flushed_def fun_eq_iff)

section \<open>The dump in steps refines the dump in one step\<close>

definition shadow :: "nat \<Rightarrow> string \<Rightarrow> process \<Rightarrow> process" where
  "shadow n out c = with_dump ((handler_db c)\<lparr>tick := n\<rparr>) out c"

lemma with_dump_simps [simp]:
  "loop (with_dump d out p) = loop p" "handler (with_dump d out p) = handler p" "eStatus (with_dump d out p) = eStatus p"
  "handler_db (with_dump d out p) = d" "handler_disk (with_dump d out p) = (handler_disk p)\<lparr>aof_file := Some (flushed (handler_disk p) out)\<rparr>"
  "lastCronExecTime (eng (with_dump d out p)) = lastCronExecTime (eng p)"
  by (simp_all add: with_dump_def)

lemma shadow_simps [simp]:
  "loop (shadow n out p) = loop p" "handler (shadow n out p) = handler p" "eStatus (shadow n out p) = eStatus p"
  "handler_db (shadow n out p) = (handler_db p)\<lparr>tick := n\<rparr>"
  "handler_disk (shadow n out p) = (handler_disk p)\<lparr>aof_file := Some (flushed (handler_disk p) out)\<rparr>"
  "lastCronExecTime (eng (shadow n out p)) = lastCronExecTime (eng p)"
  by (simp_all add: shadow_def)

lemma shadow_updates:
  "(shadow n out c)\<lparr>loop := l\<rparr> = shadow n out (c\<lparr>loop := l\<rparr>)"
  "(shadow n out c)\<lparr>eStatus := st\<rparr> = shadow n out (c\<lparr>eStatus := st\<rparr>)"
  "with_dump ((handler_db (shadow n out c))\<lparr>tick := n'\<rparr>) out' (shadow n out c) = shadow n' out' c"
  by (simp_all add: shadow_def with_dump_def)

lemma shadow_step:
  assumes "step w (shadow n out c) q" "dumping c" "handler c = Dumping" "loop c \<noteq> Ticking" "handler q \<noteq> Exiting"
  shows "\<exists>c' t. step w c c' \<and> handler c' = Dumping \<and> handler_disk c' = handler_disk c \<and>
    handler_db c' = clocked t (GlobalCachedTime (handler_db c)) (handler_db c) \<and> q = shadow n out c'"
proof -
  have same: "handler_db c = clocked (unixNow (handler_db c)) (GlobalCachedTime (handler_db c)) (handler_db c)"
    by (simp add: clocked_def)
  have Q: "eStatus c = EngineStatus_SHUTTING_DOWN" "\<not> serving (loop c)" "loop c \<noteq> Starting"
    using assms(2) by (simp_all add: dumping_def quiet_def)
  from assms(1) show ?thesis
  proof cases
    case leave
    then show ?thesis using same assms(3) step.leave [of c w]
      by (intro exI [of _ "c\<lparr>loop := Stopped, eStatus := EngineStatus_SHUTTING_DOWN\<rparr>"] exI [of _ "unixNow (handler_db c)"])
        (simp add: shadow_updates)
  next
    case poll_error
    then show ?thesis using same assms(3) step.poll_error [of c w]
      by (intro exI [of _ "c\<lparr>loop := Top\<rparr>"] exI [of _ "unixNow (handler_db c)"]) (simp add: shadow_updates)
  next
    case poll_stop
    then show ?thesis using same assms(3) step.poll_stop [of c w]
      by (intro exI [of _ "c\<lparr>loop := Stopped, eStatus := EngineStatus_SHUTTING_DOWN\<rparr>"] exI [of _ "unixNow (handler_db c)"])
        (simp add: shadow_updates)
  next
    case (time t)
    let ?c = "c\<lparr>eng := (eng c)\<lparr>srv := (srv (eng c))\<lparr>data := (handler_db c)\<lparr>unixNow := t\<rparr>\<rparr>\<rparr>\<rparr>"
    have "q = shadow n out ?c" using time by (simp add: shadow_def with_dump_def)
    then show ?thesis using assms(3) step.time [of w c t]
      by (intro exI [of _ ?c] exI [of _ t]) (simp add: clocked_def)
  qed (use Q assms(3-5) in \<open>auto simp: status_defs\<close>)
qed

lemma shadow_tick:
  assumes "handler c = Dumping" "loop c = Ticking" "\<not> lastCronExecTime (eng c) + cronFrequency < now"
  shows "\<exists>c'. step w c c' \<and> handler c' = Dumping \<and> handler_disk c' = handler_disk c \<and>
    handler_db c' = clocked (unixNow (handler_db c)) ms (handler_db c) \<and>
    (shadow n out c)\<lparr>loop := Polling, eng := (eng (shadow n out c))\<lparr>srv := UpdateCachedTime ms (srv (eng (shadow n out c)))\<rparr>\<rparr> = shadow n out c'"
proof -
  let ?n = "(eng c)\<lparr>srv := UpdateCachedTime ms (srv (eng c))\<rparr>"
  let ?c = "c\<lparr>loop := Polling, eng := ?n\<rparr>"
  have "cron w now now ?n = ?n" using assms(3) by (simp add: cron_def)
  then have "step w c ?c" using step.tick [OF assms(2), of w now now ms] by simp
  then show ?thesis using assms(1)
    by (intro exI [of _ ?c]) (simp add: UpdateCachedTime_def clocked_def shadow_def with_dump_def)
qed

definition dump_sim :: "world \<Rightarrow> process \<Rightarrow> fine \<Rightarrow> bool" where
  \<comment> \<open>before and after the dump the same state; during the dump the state in which the dump began, but
    for what the loop has done since, and what is written is the beginning of its dump\<close>
  "dump_sim w p f \<longleftrightarrow>
     (case dump_at f of
        Closed \<Rightarrow> reachable w p (proc f)
      | Opened ks wr \<Rightarrow>
          \<exists>c n. reachable w p c \<and> handler c = Dumping \<and> may_create (handler_disk c) \<and> proc f = shadow n (fst wr) c \<and>
            dump_loop (env_of w) (handler_disk c) (iterate (env_of w) (handler_db c) (store_keys (handler_db c))) (ticked (handler_db c)) =
            obind (dump_loop (env_of w) (handler_disk c) ks ((handler_db c)\<lparr>tick := n\<rparr>)) (\<lambda>(bs, d). Inr (fst wr @ snd wr @ bs, d)))"

lemma dump_sim_opened:
  assumes "dump_sim w p f" "dump_at f = Opened ks wr"
  obtains c n where "reachable w p c" "handler c = Dumping" "may_create (handler_disk c)" "proc f = shadow n (fst wr) c"
    "dump_loop (env_of w) (handler_disk c) (iterate (env_of w) (handler_db c) (store_keys (handler_db c))) (ticked (handler_db c)) =
     obind (dump_loop (env_of w) (handler_disk c) ks ((handler_db c)\<lparr>tick := n\<rparr>)) (\<lambda>(bs, d). Inr (fst wr @ snd wr @ bs, d))"
  using assms by (auto simp: dump_sim_def)

lemma dump_sim_moved:
  assumes "reachable w p c'" "handler c' = Dumping" "may_create (handler_disk c)" "handler_disk c' = handler_disk c"
    "handler_db c' = clocked t g (handler_db c)" "proc f = shadow n (fst wr) c'" "dump_at f = Opened ks wr"
    "dump_loop (env_of w) (handler_disk c) (iterate (env_of w) (handler_db c) (store_keys (handler_db c))) (ticked (handler_db c)) =
     obind (dump_loop (env_of w) (handler_disk c) ks ((handler_db c)\<lparr>tick := n\<rparr>)) (\<lambda>(bs, d). Inr (fst wr @ snd wr @ bs, d))"
  shows "dump_sim w p f"
proof -
  have k: "store_keys (clocked t g d) = store_keys d" for d by (simp add: store_keys_def)
  have t: "(clocked t g d)\<lparr>tick := n\<rparr> = clocked t g (d\<lparr>tick := n\<rparr>)" for d by (simp add: clocked_def)
  have "dump_loop (env_of w) (handler_disk c') (iterate (env_of w) (handler_db c') (store_keys (handler_db c'))) (ticked (handler_db c')) =
     obind (dump_loop (env_of w) (handler_disk c') ks ((handler_db c')\<lparr>tick := n\<rparr>)) (\<lambda>(bs, d). Inr (fst wr @ snd wr @ bs, d))"
    unfolding assms(4,5) k t clocked_simps dump_loop_clocked assms(8)
    by (cases "dump_loop (env_of w) (handler_disk c) ks ((handler_db c)\<lparr>tick := n\<rparr>)") auto
  with assms(1-4,6,7) show ?thesis
    unfolding dump_sim_def by (simp add: assms(7)) (intro exI [of _ c'] exI [of _ n] conjI; simp)
qed

lemma dumpKey_tick:
  assumes "db_inv d" "map_of (store d) ky = Some a" "dumpKey e dk ky (objs d a) d = Inr (b, d')"
  shows "\<exists>n. d' = d\<lparr>tick := n\<rparr>"
proof -
  have "wf_value (TypeEncoding (objs d a)) (Value (objs d a))"
    using assms(1,2) map_of_stored by (simp add: db_inv_def wf_obj_def)
  from dump_tokens_spec [OF this, of e dk ky d] assms(3) show ?thesis by (auto simp: dumpKey_def)
qed

lemma dump_sim_step:
  assumes "fine_step w f g" "dump_sim w p f" "dumping p" "handler p = Dumping" "process_ok w p" "config_ok (cfg (env_of w))"
  shows "dump_sim w p g"
proof -
  have C: "dumping c" "db_inv (handler_db c)" if "reachable w p c" for c
  proof -
    have R: "dumping c \<and> process_ok w c" using run_dumping [OF that assms(3,4,5,6)] by blast
    then show "dumping c" by simp
    have "engine_ok w (eng c)" using R by (simp add: process_ok_def)
    from db_ok_inv [OF engine_ok_db [OF this]] show "db_inv (handler_db c)" .
  qed
  from assms(1) show ?thesis
  proof cases
    case (alone q)
    then show ?thesis using assms(2) reachable.next_step by (fastforce simp: dump_sim_def)
  next
    case cannot_open
    let ?c = "proc f"
    have "DumpAllAOF (env_of w) (handler_db ?c) (handler_disk ?c) = Inr (handler_db ?c, handler_disk ?c)"
      using cannot_open(4) by (simp add: DumpAllAOF_def)
    from step.dump [OF cannot_open(3) this [folded Shutdown_eq]] have "step w ?c (?c\<lparr>handler := Exiting\<rparr>)" by simp
    then show ?thesis using cannot_open(1,2) assms(2) reachable.next_step by (fastforce simp: dump_sim_def)
  next
    case (open_file d)
    have r: "reachable w p (proc f)" using assms(2) open_file(2) by (simp add: dump_sim_def)
    have "proc g = shadow (tick (handler_db (proc f)) + 1) [] (proc f)"
      using open_file(1,5) by (simp add: shadow_def ticked_def)
    moreover have "obind x (\<lambda>(bs, d). Inr ([] @ [] @ bs, d)) = x" for x :: "(string \<times> db) outcome" by (cases x) auto
    ultimately show ?thesis using r open_file
      by (auto simp: dump_sim_def ticked_def intro!: exI [of _ "proc f"] exI [of _ "tick (handler_db (proc f)) + 1"])
  next
    case (write_key ky ks wr d a b d' wr')
    from assms(2) write_key(2) obtain c n where c: "reachable w p c" "handler c = Dumping" "may_create (handler_disk c)" "proc f = shadow n (fst wr) c"
      "dump_loop (env_of w) (handler_disk c) (iterate (env_of w) (handler_db c) (store_keys (handler_db c))) (ticked (handler_db c)) =
       obind (dump_loop (env_of w) (handler_disk c) (ky # ks) ((handler_db c)\<lparr>tick := n\<rparr>)) (\<lambda>(bs, d). Inr (fst wr @ snd wr @ bs, d))"
      by (rule dump_sim_opened)
    have d: "d = (handler_db c)\<lparr>tick := n\<rparr>" using write_key(4) c(4) by simp
    have k: "dumpKey (env_of w) (handler_disk c) ky (objs d a) d = Inr (b, d')" using write_key(6) c(4) by (simp add: dumpKey_file)
    have "db_inv d" using C(2) [OF c(1)] by (simp add: d)
    from dumpKey_tick [OF this write_key(5) k] obtain n' where d': "d' = (handler_db c)\<lparr>tick := n'\<rparr>" unfolding d by auto
    have w': "fst wr' @ snd wr' = fst wr @ snd wr @ b" using bufio_write_bytes write_key(7) by (cases wr; cases wr') simp
    then have w'': "fst wr @ snd wr @ b @ bs = fst wr' @ snd wr' @ bs" for bs by (metis append_assoc)
    have "dump_loop (env_of w) (handler_disk c) (ky # ks) ((handler_db c)\<lparr>tick := n\<rparr>) =
        obind (dump_loop (env_of w) (handler_disk c) ks ((handler_db c)\<lparr>tick := n'\<rparr>)) (\<lambda>(bs, d). Inr (b @ bs, d))"
      using write_key(5) k by (simp add: d d')
    then have "dump_loop (env_of w) (handler_disk c) (iterate (env_of w) (handler_db c) (store_keys (handler_db c))) (ticked (handler_db c)) =
        obind (dump_loop (env_of w) (handler_disk c) ks ((handler_db c)\<lparr>tick := n'\<rparr>)) (\<lambda>(bs, d). Inr (fst wr' @ snd wr' @ bs, d))"
      unfolding c(5) by (cases "dump_loop (env_of w) (handler_disk c) ks ((handler_db c)\<lparr>tick := n'\<rparr>)") (auto simp: w'')
    moreover have "proc g = shadow n' (fst wr') c"
      using write_key(1) c(4) d' shadow_updates(3) [where n = n and out = "fst wr" and c = c and n' = n' and out' = "fst wr'"] by simp
    ultimately show ?thesis using c(1-3) write_key(1) by (auto simp: dump_sim_def)
  next
    case (close_file wr)
    from assms(2) close_file(2) obtain c n where c: "reachable w p c" "handler c = Dumping" "may_create (handler_disk c)" "proc f = shadow n (fst wr) c"
      "dump_loop (env_of w) (handler_disk c) (iterate (env_of w) (handler_db c) (store_keys (handler_db c))) (ticked (handler_db c)) =
       obind (dump_loop (env_of w) (handler_disk c) [] ((handler_db c)\<lparr>tick := n\<rparr>)) (\<lambda>(bs, d). Inr (fst wr @ snd wr @ bs, d))"
      by (rule dump_sim_opened)
    have "DumpAllAOF (env_of w) (handler_db c) (handler_disk c) =
        Inr ((handler_db c)\<lparr>tick := n\<rparr>, (handler_disk c)\<lparr>aof_file := Some (flushed (handler_disk c) (fst wr @ snd wr))\<rparr>)"
      using c(3,5) by (simp add: DumpAllAOF_def)
    note s = step.dump [OF c(2) this [folded Shutdown_eq]]
    have g: "dump_at g = Closed" "proc g = (with_dump (handler_db (proc f)) (fst wr @ snd wr) (proc f))\<lparr>handler := Exiting\<rparr>"
      using close_file(1) by simp_all
    have "proc g = c\<lparr>handler := Exiting, eng := (eng c)\<lparr>srv := (srv (eng c))\<lparr>data := (handler_db c)\<lparr>tick := n\<rparr>,
        files := (handler_disk c)\<lparr>aof_file := Some (flushed (handler_disk c) (fst wr @ snd wr))\<rparr>\<rparr>\<rparr>\<rparr>"
      unfolding g(2) c(4) by (simp add: shadow_def with_dump_def)
    then show ?thesis using reachable.next_step [OF c(1) s] g(1) by (simp add: dump_sim_def)
  next
    case (beside ks wr q)
    from assms(2) beside(2) obtain c n where c: "reachable w p c" "handler c = Dumping" "may_create (handler_disk c)" "proc f = shadow n (fst wr) c"
      "dump_loop (env_of w) (handler_disk c) (iterate (env_of w) (handler_db c) (store_keys (handler_db c))) (ticked (handler_db c)) =
       obind (dump_loop (env_of w) (handler_disk c) ks ((handler_db c)\<lparr>tick := n\<rparr>)) (\<lambda>(bs, d). Inr (fst wr @ snd wr @ bs, d))"
      by (rule dump_sim_opened)
    have l: "loop c \<noteq> Ticking" using beside(4) c(4) by simp
    from shadow_step [OF beside(5) [unfolded c(4)] C(1) [OF c(1)] c(2) l beside(6)] obtain c' t where
      c': "step w c c'" "handler c' = Dumping" "handler_disk c' = handler_disk c"
        "handler_db c' = clocked t (GlobalCachedTime (handler_db c)) (handler_db c)" "q = shadow n (fst wr) c'" by blast
    show ?thesis
      by (rule dump_sim_moved [OF reachable.next_step [OF c(1) c'(1)] c'(2) c(3) c'(3,4) _ _ c(5)]) (simp_all add: beside(1,2) c'(5))
  next
    case (tick_beside ks wr n' now ms)
    from assms(2) tick_beside(2) obtain c n where c: "reachable w p c" "handler c = Dumping" "may_create (handler_disk c)" "proc f = shadow n (fst wr) c"
      "dump_loop (env_of w) (handler_disk c) (iterate (env_of w) (handler_db c) (store_keys (handler_db c))) (ticked (handler_db c)) =
       obind (dump_loop (env_of w) (handler_disk c) ks ((handler_db c)\<lparr>tick := n\<rparr>)) (\<lambda>(bs, d). Inr (fst wr @ snd wr @ bs, d))"
      by (rule dump_sim_opened)
    have l: "loop c = Ticking" "\<not> lastCronExecTime (eng c) + cronFrequency < now" using tick_beside(4-6) c(4) by simp_all
    from shadow_tick [OF c(2) l, of w ms n "fst wr"] obtain c' where
      c': "step w c c'" "handler c' = Dumping" "handler_disk c' = handler_disk c" "handler_db c' = clocked (unixNow (handler_db c)) ms (handler_db c)"
        "(shadow n (fst wr) c)\<lparr>loop := Polling, eng := (eng (shadow n (fst wr) c))\<lparr>srv := UpdateCachedTime ms (srv (eng (shadow n (fst wr) c)))\<rparr>\<rparr> = shadow n (fst wr) c'"
      by blast
    show ?thesis
      by (rule dump_sim_moved [OF reachable.next_step [OF c(1) c'(1)] c'(2) c(3) c'(3,4) _ _ c(5)])
        (use tick_beside(1,2,5) c(4) c'(5) in simp_all)
  qed
qed

lemma dump_refines:
  assumes "fine_run w f g" "dump_at f = Closed" "dumping (proc f)" "handler (proc f) = Dumping" "process_ok w (proc f)" "config_ok (cfg (env_of w))"
  shows "dump_sim w (proc f) g"
  using assms(1)
proof induction
  case stay
  then show ?case using assms(2) by (simp add: dump_sim_def reachable.here)
next
  case (go g h)
  then show ?case using dump_sim_step [OF go(2) _ assms(3-6)] by blast
qed

section \<open>What is true in every state of a run with a dump in steps\<close>

definition dump_keys_ok :: "fine \<Rightarrow> bool" where
  "dump_keys_ok f \<longleftrightarrow>
     (case dump_at f of Closed \<Rightarrow> True | Opened ks wr \<Rightarrow> set ks \<subseteq> fst ` set (store (handler_db (proc f))))"

lemma with_dump_process_ok:
  assumes "process_ok w p"
  shows "process_ok w (with_dump ((handler_db p)\<lparr>tick := n\<rparr>) out p)"
proof -
  have "engine_ok w (eng p)" using assms by (simp add: process_ok_def)
  from engine_ok_data(1) [OF this] engine_ok_db [OF this] show ?thesis
    using assms flight_ok_same [of p "with_dump ((handler_db p)\<lparr>tick := n\<rparr>) out p"] by (simp add: process_ok_def with_dump_def)
qed

lemma process_ok_db_inv: "process_ok w p \<Longrightarrow> db_inv (handler_db p)"
  by (auto simp: process_ok_def intro: db_ok_inv dest: engine_ok_db)

lemma with_dump_status [simp]: "status_ok (with_dump d out p) = status_ok p"
  by (simp add: status_ok_def)

lemma handler_exits: "handler p = Dumping \<Longrightarrow> process_ok w p \<Longrightarrow> status_ok p \<Longrightarrow> process_ok w (p\<lparr>handler := Exiting\<rparr>) \<and> status_ok (p\<lparr>handler := Exiting\<rparr>)"
  using flight_ok_same [of p "p\<lparr>handler := Exiting\<rparr>"] by (simp add: process_ok_def status_ok_def)

lemma fine_step_ok:
  assumes "fine_step w f g" "config_ok (cfg (env_of w))" "process_ok w (proc f)" "status_ok (proc f)" "dump_keys_ok f"
  shows "process_ok w (proc g) \<and> status_ok (proc g) \<and> dump_keys_ok g"
  using assms(1)
proof cases
  case (alone q)
  then show ?thesis using step_process_ok [OF _ assms(2,3)] step_status_ok [OF _ assms(4)] by (simp add: dump_keys_ok_def)
next
  case cannot_open
  then show ?thesis using handler_exits [OF _ assms(3,4)] by (simp add: dump_keys_ok_def)
next
  case (open_file d)
  have "ticked d = d\<lparr>tick := tick d + 1\<rparr>" by (simp add: ticked_def)
  then show ?thesis using open_file assms(4) with_dump_process_ok [OF assms(3)]
    by (simp add: dump_keys_ok_def ticked_def store_keys_def iterate_set)
next
  case (write_key ky ks wr d a b d' wr')
  obtain n where "d' = d\<lparr>tick := n\<rparr>"
    using dumpKey_tick [OF process_ok_db_inv [OF assms(3)]] write_key(4-6) by blast
  then show ?thesis using write_key assms(4,5) with_dump_process_ok [OF assms(3)] by (simp add: dump_keys_ok_def)
next
  case (close_file wr)
  have "(handler_db (proc f))\<lparr>tick := tick (handler_db (proc f))\<rparr> = handler_db (proc f)" by simp
  then have "process_ok w (with_dump (handler_db (proc f)) (fst wr @ snd wr) (proc f))" using with_dump_process_ok [OF assms(3)] by metis
  then show ?thesis using close_file assms(4) handler_exits [of "with_dump (handler_db (proc f)) (fst wr @ snd wr) (proc f)"]
    by (simp add: dump_keys_ok_def)
next
  case (beside ks wr q)
  then show ?thesis using step_process_ok [OF beside(5) assms(2,3)] step_status_ok [OF beside(5) assms(4)] assms(5)
    by (simp add: dump_keys_ok_def no_write_lock_def)
next
  case (tick_beside ks wr n now ms)
  have "cron w now now (n\<lparr>srv := UpdateCachedTime ms (srv n)\<rparr>) = n\<lparr>srv := UpdateCachedTime ms (srv n)\<rparr>"
    using tick_beside(6) by (simp add: cron_def)
  then have s: "step w (proc f) (proc g)"
    using step.tick [OF tick_beside(4), of w now now ms] tick_beside(1,5) by simp
  then show ?thesis using step_process_ok [OF s assms(2,3)] step_status_ok [OF s assms(4)] assms(5) tick_beside(1,2,5)
    by (simp add: dump_keys_ok_def UpdateCachedTime_def)
qed

lemma dump_goes_on:
  assumes "dump_at f = Opened (ky # ks) wr" "handler (proc f) = Dumping" "process_ok w (proc f)" "dump_keys_ok f"
  shows "\<exists>g wr'. fine_step w f g \<and> dump_at g = Opened ks wr'"
proof -
  let ?d = "handler_db (proc f)"
  obtain a where a: "map_of (store ?d) ky = Some a"
    using assms(1,4) by (cases "map_of (store ?d) ky") (auto simp: dump_keys_ok_def map_of_eq_None_iff)
  have "wf_value (TypeEncoding (objs ?d a)) (Value (objs ?d a))"
    using process_ok_db_inv [OF assms(3)] a map_of_stored by (simp add: db_inv_def wf_obj_def)
  from dump_tokens_spec [OF this, of "env_of w" "handler_disk (proc f)" ky ?d] obtain b d' where
    "dumpKey (env_of w) (handler_disk (proc f)) ky (objs ?d a) ?d = Inr (b, d')" by (auto simp: dumpKey_def)
  from fine_step.write_key [OF assms(1,2) refl a this refl] show ?thesis by force
qed

lemma fine_run_keeps:
  assumes "fine_run w f g" "dump_at f = Closed" "process_ok w (proc f)" "status_ok (proc f)" "config_ok (cfg (env_of w))"
  shows "process_ok w (proc g) \<and> status_ok (proc g) \<and> dump_keys_ok g"
  using assms(1)
proof induction
  case stay
  then show ?case using assms(2-4) by (simp add: dump_keys_ok_def)
next
  case (go g h)
  then show ?case using fine_step_ok [OF go(2) assms(5)] by blast
qed

lemma fine_run_ok:
  assumes "fine_run w \<lparr>proc = start_process n, dump_at = Closed\<rparr> g" "engine_ok w n" "config_ok (cfg (env_of w))"
  shows "process_ok w (proc g) \<and> status_ok (proc g) \<and> dump_keys_ok g"
  by (rule fine_run_keeps [OF assms(1)])
    (use assms(2,3) in \<open>simp_all add: process_ok_def flight_ok_def\<close>, simp_all add: start_process_def)

text \<open>C3: whatever the file holds, the process that \<open>main\<close> starts is in a state of the invariant and
  stays in it, whatever the clients send, whatever the kernel, the clocks and the signal handler
  do, also while the loop works beside a dump that is half written; the dump finds every key that
  it still has to write and does not panic on any; and \<open>main\<close> fails to start only if the
  decoder panics on the file.\<close>

theorem process_invariant:
  assumes "config_ok (cfg (env_of w))"
  shows "(\<forall>p g. start_main w dk ms unix now = Inr p \<longrightarrow> fine_run w \<lparr>proc = p, dump_at = Closed\<rparr> g \<longrightarrow>
       process_ok w (proc g) \<and> status_ok (proc g) \<and>
       (\<forall>ky ks wr. dump_at g = Opened (ky # ks) wr \<longrightarrow> handler (proc g) = Dumping \<longrightarrow>
          (\<exists>h wr'. fine_step w g h \<and> dump_at h = Opened ks wr'))) \<and>
    (\<forall>x. start_main w dk ms unix now = Inl x \<longrightarrow> (\<exists>s. aof_file dk = Some s \<and>
       DecodeCommands (upper_uni (env_of w)) (take max_rw s @ replicate (length s - max_rw) (CHR 0x00), min (length s) max_rw) = Inl x))"
proof (intro conjI allI impI)
  fix p g
  assume "start_main w dk ms unix now = Inr p" and r: "fine_run w \<lparr>proc = p, dump_at = Closed\<rparr> g"
  then obtain n where n: "p = start_process n" "engine_ok w n" using start_main_Inr [OF _ assms] by metis
  note G = fine_run_ok [OF r [unfolded n(1)] n(2) assms]
  then show "process_ok w (proc g)" "status_ok (proc g)" by simp_all
  fix ky ks wr
  assume "dump_at g = Opened (ky # ks) wr" "handler (proc g) = Dumping"
  then show "\<exists>h wr'. fine_step w g h \<and> dump_at h = Opened ks wr'" using dump_goes_on G by blast
qed (use start_main_Inl [OF _ assms] in blast)

lemma process_invariant_witness:
  "\<exists>p. start_main calm_world good_disk 0 0 0 = Inr p \<and> process_ok calm_world p"
proof -
  obtain p where p: "start_main calm_world good_disk 0 0 0 = Inr p"
    by (simp add: start_main_def InitStore_def ReplayAOF_def good_disk_def)
  have "config_ok (cfg (env_of calm_world))" by simp
  from process_invariant [OF this, of good_disk 0 0 0] p fine_run.stay have "process_ok calm_world p" by fastforce
  with p show ?thesis by blast
qed

section \<open>Durability\<close>

lemma iterate_one: "iterate e d [k] = [k]"
  by (simp add: iterate_def Let_def)

text \<open>A process with one key that a signal has found idle, and the same process after its dump.\<close>

definition one_key_db :: db where
  "one_key_db = store_string default_env ''k'' ''v'' (- 1) (init_db 0 0)"

definition stopped :: process where
  "stopped = (start_process \<lparr>srv = init_server one_key_db good_disk, connectedClients = [], con_client = 0, lastCronExecTime = 0\<rparr>)
     \<lparr>loop := Stopped, handler := Dumping, eStatus := EngineStatus_SHUTTING_DOWN\<rparr>"

definition one_key_file :: string where
  "one_key_file = encode_command [''SET'', ''k'', ''v'']"

definition dumped :: process where
  "dumped = (with_dump (ticked one_key_db) one_key_file stopped)\<lparr>handler := Exiting\<rparr>"

lemma one_key_store: "store one_key_db = [(''k'', 0)]" "Value (objs one_key_db 0) = VStr ''v''"
  "getType (TypeEncoding (objs one_key_db 0)) = OBJ_TYPE_STRING" "map_of (expires one_key_db) 0 = None"
  by (simp_all add: one_key_db_def store_string_def NewObj_def Put_def init_db_def default_env_def default_config_def pool_choice_def
      StoreLen_def ticked_def touch_def bump_keys_def deduceTypeEncoding_def ParseInt_def parse_signed_def ParseUint_def
      digit_of_def type_consts Let_def)

lemma length_one_key_file: "length one_key_file = 27"
  by (simp add: one_key_file_def encode_command_def bulk_def FormatInt_def FormatNat.simps CRLF_def)

lemma stopped_fields: "handler_db stopped = one_key_db" "handler_disk stopped = good_disk" "handler stopped = Dumping"
  by (simp_all add: stopped_def start_process_def init_server_def)

lemma dumped_fields: "handler_disk dumped = good_disk\<lparr>aof_file := Some one_key_file\<rparr>" "handler dumped = Exiting"
  by (simp_all add: dumped_def stopped_fields) (simp add: flushed_def good_disk_def)

lemma stopped_ok: "dumping stopped" "process_ok calm_world stopped"
proof -
  have "db_ok (env_of calm_world) one_key_db"
    using evolves_ok [OF evolves_store_string [where ks = UNIV]] by (simp add: one_key_db_def init_db_ok)
  from start_engine_ok [OF this] show "dumping stopped" "process_ok calm_world stopped"
    by (simp_all add: dumping_def quiet_def stopped_def process_ok_def flight_ok_def start_process_def)
qed

definition opened :: process where
  \<comment> \<open>while its dump is in the buffer\<close>
  "opened = with_dump (ticked one_key_db) [] stopped"

lemma one_key_written:
  "fine_run calm_world \<lparr>proc = stopped, dump_at = Closed\<rparr> \<lparr>proc = opened, dump_at = Opened [] ([], one_key_file)\<rparr>"
proof -
  let ?d = one_key_db and ?b = one_key_file
  have wr: "bufio_write ([], []) ?b = ([], ?b)" by (simp add: bufio_write_def length_one_key_file)
  have again: "with_dump (ticked ?d) [] opened = opened" by (simp add: opened_def with_dump_def)
  have 1: "fine_step calm_world \<lparr>proc = stopped, dump_at = Closed\<rparr> \<lparr>proc = opened, dump_at = Opened [''k''] ([], [])\<rparr>"
    using fine_step.open_file [of "\<lparr>proc = stopped, dump_at = Closed\<rparr>" ?d calm_world] stopped_fields
    by (simp add: opened_def store_keys_def one_key_store iterate_one good_disk_def)
  have "dumpKey (env_of calm_world) (handler_disk opened) ''k'' (objs (ticked ?d) 0) (ticked ?d) = Inr (?b, ticked ?d)"
    by (simp add: dumpKey_def dump_tokens_def ticked_def one_key_store print_s_def encode_command_def one_key_file_def)
  then have 2: "fine_step calm_world \<lparr>proc = opened, dump_at = Opened [''k''] ([], [])\<rparr> \<lparr>proc = opened, dump_at = Opened [] ([], ?b)\<rparr>"
    using fine_step.write_key [of "\<lparr>proc = opened, dump_at = Opened [''k''] ([], [])\<rparr>" "''k''" "[]" "([], [])" "ticked ?d" 0 calm_world ?b "ticked ?d"]
      again stopped_fields by (simp add: wr) (simp add: opened_def stopped_fields one_key_store ticked_def)
  show ?thesis by (rule fine_run.go [OF fine_run.go [OF fine_run.stay 1] 2])
qed

lemma one_key_run: "fine_run calm_world \<lparr>proc = stopped, dump_at = Closed\<rparr> \<lparr>proc = dumped, dump_at = Closed\<rparr>"
proof -
  have "with_dump (ticked one_key_db) x opened = with_dump (ticked one_key_db) x stopped" for x by (simp add: opened_def with_dump_def)
  then have "fine_step calm_world \<lparr>proc = opened, dump_at = Opened [] ([], one_key_file)\<rparr> \<lparr>proc = dumped, dump_at = Closed\<rparr>"
    using fine_step.close_file [of "\<lparr>proc = opened, dump_at = Opened [] ([], one_key_file)\<rparr>" "([], one_key_file)" calm_world] stopped_fields
    by (simp add: dumped_def opened_def)
  then show ?thesis by (rule fine_run.go [OF one_key_written])
qed

text \<open>C7: when the loop is idle, a dump that is written key by key through a buffer, with the loop going
  on beside it, cannot be told from a dump in one step: once it is closed, the state of the
  process, with its file, is one that is reached by steps of which the dump is a single one.\<close>

theorem dump_is_atomic:
  assumes "fine_run w f g" "dump_at f = Closed" "dumping (proc f)" "handler (proc f) = Dumping" "process_ok w (proc f)"
    "config_ok (cfg (env_of w))" "dump_at g = Closed"
  shows "reachable w (proc f) (proc g)"
  using dump_refines [OF assms(1-6)] assms(7) by (simp add: dump_sim_def)

lemma dump_is_atomic_witness: "reachable calm_world stopped dumped"
  using dump_is_atomic [OF one_key_run] stopped_fields stopped_ok by simp

text \<open>C6: durability: when the signal handler finds the loop idle, then however the two goroutines go
  on while the dump writes key after key, the file that is there when the process exits brings
  the data back at the next start, whenever that is: \<open>main\<close> starts a process in the invariant in
  which every string, hash, list and set of the moment of the signal is found again with its
  content, and nothing else (\<open>restores\<close>: sorted sets are not in the dump, and neither are times to
  live and collections without elements); one of these keys is missing only if its time to live
  had passed by the clock of the process. The
  conditions are those of the dump: the file can be created, written in full and read in one call,
  no string and no key of a string contains a space, and no set keeps a number in a spelling that
  is not decimal.\<close>

theorem restart_restores:
  assumes "fine_run w \<lparr>proc = p, dump_at = Closed\<rparr> g" "handler p = Dumping" "dumping p" "process_ok w p" "config_ok (cfg (env_of w))"
    "dump_at g = Closed" "handler (proc g) \<noteq> Dumping" "dk = files (srv (eng p))" "may_create dk" "may_read dk" "write_room dk = None"
    "\<forall>k a. map_of (store (data (srv (eng p)))) k = Some a \<longrightarrow> dump_safe k (objs (data (srv (eng p))) a)"
    "length (the (aof_file (files (srv (eng (proc g)))))) \<le> max_rw"
  shows "\<exists>p'. start_main w (files (srv (eng (proc g)))) ms unix now = Inr p' \<and> process_ok w p' \<and>
    (\<forall>k. restores (map_option (objs (data (srv (eng p)))) (map_of (store (data (srv (eng p)))) k)) (lview (data (srv (eng p'))) k) \<or>
       lview (data (srv (eng p'))) k = None \<and>
         (\<exists>a ex. map_of (store (data (srv (eng p)))) k = Some a \<and> map_of (expires (data (srv (eng p)))) a = Some ex \<and>
            ex \<le> GlobalCachedTime (data (srv (eng (proc g))))))"
proof -
  have "reachable w p (proc g)" using dump_refines [OF assms(1)] assms(2-6) by (simp add: dump_sim_def)
  from clean_restart_restores [OF this assms(2-5,7-13)] show ?thesis .
qed

lemma restart_restores_witness:
  "aof_file (handler_disk dumped) = Some one_key_file \<and> (\<exists>p'. start_main calm_world (handler_disk dumped) 7 7 0 = Inr p' \<and>
     (\<exists>te. lview (handler_db p') ''k'' = Some (te, VStr ''v'', None)))"
proof -
  have safe: "\<forall>k a. map_of (store (handler_db stopped)) k = Some a \<longrightarrow> dump_safe k (objs (handler_db stopped) a)"
    unfolding stopped_fields by (auto simp: one_key_store dump_safe_def set_view_def split: if_splits)
  have max: "length (the (aof_file (handler_disk (proc \<lparr>proc = dumped, dump_at = Closed\<rparr>)))) \<le> max_rw"
    by (simp add: dumped_fields max_rw_def length_one_key_file)
  have m: "may_create good_disk" "may_read good_disk" "write_room good_disk = None" "config_ok (cfg (env_of calm_world))"
    by (simp_all add: good_disk_def)
  from restart_restores [OF one_key_run stopped_fields(3) stopped_ok m(4) _ _ stopped_fields(2) [symmetric] m(1-3) safe max, of 7 7 0]
  obtain p' where p': "start_main calm_world (handler_disk dumped) 7 7 0 = Inr p'"
    "restores (map_option (objs one_key_db) (map_of (store one_key_db) ''k'')) (lview (handler_db p') ''k'') \<or>
      (\<exists>a ex. map_of (store one_key_db) ''k'' = Some a \<and> map_of (expires one_key_db) a = Some ex)"
    unfolding stopped_fields by (auto simp: dumped_fields(2) dest: spec [where x = "''k''"])
  have "\<exists>te. lview (handler_db p') ''k'' = Some (te, VStr ''v'', None)"
    using p'(2) by (auto simp: one_key_store restores_def Let_def)
  with p'(1) show ?thesis by (simp add: dumped_fields(1))
qed

text \<open>C9: a clean shutdown is final: if no events are being served when the signal handler has stored
  \<open>SHUTTING_DOWN\<close>, then whatever the two goroutines do from there on, before, during and after the
  dump, no command is executed and no reply is sent any more, and only expired keys leave the
  database.\<close>

theorem shutdown_is_final:
  assumes "fine_run w f g" "dump_at f = Closed" "dumping (proc f)" "handler (proc f) = Dumping" "process_ok w (proc f)"
    "config_ok (cfg (env_of w))"
  shows "\<not> serving (loop (proc g)) \<and> wire (srv (eng (proc g))) = wire (srv (eng (proc f))) \<and>
    map_of (store (handler_db (proc g))) \<subseteq>\<^sub>m map_of (store (handler_db (proc f)))"
proof -
  have one: "\<not> serving (loop c) \<and> wire (srv (eng c)) = wire (srv (eng (proc f))) \<and>
      map_of (store (handler_db c)) \<subseteq>\<^sub>m map_of (store (handler_db (proc f)))" if "reachable w (proc f) c" for c
    using clean_shutdown_is_final [OF that assms(4)] assms(3,5,6) by (simp add: dumping_def quiet_def process_ok_def)
  have sim: "dump_sim w (proc f) g" by (rule dump_refines [OF assms(1-6)])
  show ?thesis
  proof (cases "dump_at g")
    case Closed
    then show ?thesis using sim one by (simp add: dump_sim_def)
  next
    case (Opened ks wr)
    obtain c n where c: "reachable w (proc f) c" "proc g = shadow n (fst wr) c" by (rule dump_sim_opened [OF sim Opened])
    have "wire (srv (eng (proc g))) = wire (srv (eng c))" unfolding c(2) by (simp add: shadow_def with_dump_def)
    then show ?thesis using one [OF c(1)] c(2) by simp
  qed
qed

lemma shutdown_is_final_witness: "wire (srv (eng dumped)) = wire (srv (eng stopped))"
  using shutdown_is_final [OF one_key_run] stopped_fields stopped_ok by simp

end
