(* ===== verification/DumpRaces.thy ===== *)
theory DumpRaces
  imports DumpSteps Replies
begin

text \<open>
  What a dump writes while the event loop changes values: the commands that update a value in
  place, \<open>INCR\<close> among them, do not wait for the lock that the dump holds.
\<close>

section \<open>What a dump writes beside a busy loop\<close>

definition dumped_between :: "world \<Rightarrow> fine \<Rightarrow> fine \<Rightarrow> string \<Rightarrow> string \<Rightarrow> bool" where
  \<comment> \<open>\<open>b\<close> is the dump of the key in the state in which the dump comes to it\<close>
  "dumped_between w f g k b \<longleftrightarrow> (\<exists>h a d ks wr. fine_run w f h \<and> fine_run w h g \<and> dump_at h = Opened (k # ks) wr \<and>
     map_of (store (handler_db (proc h))) k = Some a \<and>
     dumpKey (env_of w) (handler_disk (proc h)) k (objs (handler_db (proc h)) a) (handler_db (proc h)) = Inr (b, d))"

lemma dumped_between_mono: "dumped_between w f g k b \<Longrightarrow> fine_step w g h \<Longrightarrow> dumped_between w f h k b"
  unfolding dumped_between_def by (blast intro: fine_run.go)

definition dumped_so_far :: "world \<Rightarrow> fine \<Rightarrow> fine \<Rightarrow> string list \<Rightarrow> string \<Rightarrow> bool" where
  "dumped_so_far w f g ks out \<longleftrightarrow>
     (\<exists>ks0 bs. out = concat bs \<and> mset (ks0 @ ks) = mset (store_keys (handler_db (proc g))) \<and> list_all2 (dumped_between w f g) ks0 bs)"

lemma dumped_so_far_moved:
  assumes "dumped_so_far w f g ks out" "fine_step w g h" "store (handler_db (proc h)) = store (handler_db (proc g))"
  shows "dumped_so_far w f h ks out"
proof -
  have "store_keys (handler_db (proc h)) = store_keys (handler_db (proc g))" using assms(3) by (simp add: store_keys_def)
  with assms(1,2) show ?thesis
    unfolding dumped_so_far_def using list.rel_mono_strong dumped_between_mono by (metis (no_types, lifting) list_all2_mono)
qed

lemma dump_progress:
  assumes "fine_run w f g" "dump_at f = Closed" "\<And>h. fine_run w f h \<Longrightarrow> db_inv (handler_db (proc h))" "dump_at g = Opened ks wr"
  shows "dumped_so_far w f g ks (fst wr @ snd wr)"
  using assms(1,4)
proof (induction arbitrary: ks wr)
  case stay
  then show ?case using assms(2) by simp
next
  case (go g h)
  from go(2) show ?case
  proof cases
    case (open_file d)
    then show ?thesis using go(4)
      by (auto simp: dumped_so_far_def store_keys_def ticked_def intro!: exI [of _ "[]"])
  next
    case (write_key ky ks' wr0 d a b d' wr1)
    have e: "ks' = ks" "wr1 = wr" using write_key(1) go(4) by simp_all
    obtain n where d': "d' = d\<lparr>tick := n\<rparr>" using dumpKey_tick [OF assms(3) [OF go(1)]] write_key(4-6) by blast
    from go(3) [OF write_key(2)] obtain ks0 bs where D: "fst wr0 @ snd wr0 = concat bs"
      "mset (ks0 @ ky # ks') = mset (store_keys (handler_db (proc g)))" "list_all2 (dumped_between w f g) ks0 bs"
      by (auto simp: dumped_so_far_def)
    have "fst wr @ snd wr = concat (bs @ [b])"
      using bufio_write_bytes [of "fst wr0" "snd wr0" b "fst wr" "snd wr"] write_key(7) D(1) by (simp add: e)
    moreover have "mset ((ks0 @ [ky]) @ ks) = mset (store_keys (handler_db (proc h)))"
      using D(2) write_key(1,4) by (simp add: e d' store_keys_def)
    moreover have "list_all2 (dumped_between w f h) ks0 bs"
      using D(3) dumped_between_mono [OF _ go(2)] by (rule list_all2_mono)
    moreover have "dumped_between w f h ky b"
      unfolding dumped_between_def using go(1) fine_run.go [OF fine_run.stay go(2)] write_key(2,4-6) by blast
    ultimately show ?thesis unfolding dumped_so_far_def
      by (intro exI [of _ "ks0 @ [ky]"] exI [of _ "bs @ [b]"]) (auto intro: list_all2_appendI)
  next
    case (beside ks' wr' q)
    then show ?thesis using go(3) [OF beside(2)] dumped_so_far_moved [OF _ go(2)] go(4) by (simp add: no_write_lock_def)
  next
    case (tick_beside ks' wr' n now ms)
    then show ?thesis using go(3) [OF tick_beside(2)] dumped_so_far_moved [OF _ go(2)] go(4) by (simp add: UpdateCachedTime_def)
  qed (use go(4) in simp_all)
qed

text \<open>C10: what the dump promises beside a loop that goes on serving: the keys are frozen while it runs,
  it takes each of them exactly once, and what it writes for a key is the value that the key has
  when the dump comes to it, in a state between the beginning and the end; the bytes reach the file
  in this order, through the buffer, when the last key is written.\<close>

theorem dump_takes_each_key_once:
  assumes "fine_run w f g" "dump_at f = Closed" "process_ok w (proc f)" "status_ok (proc f)" "config_ok (cfg (env_of w))"
    "dump_at g = Opened [] wr" "handler (proc g) = Dumping"
  shows "\<exists>h ks bs. fine_step w g h \<and> dump_at h = Closed \<and> handler (proc h) = Exiting \<and>
    aof_file (handler_disk (proc h)) = Some (flushed (handler_disk (proc g)) (concat bs)) \<and>
    distinct ks \<and> set ks = dom (map_of (store (handler_db (proc h)))) \<and> list_all2 (dumped_between w f g) ks bs"
proof -
  have inv: "process_ok w (proc h)" if "fine_run w f h" for h
    using fine_run_keeps [OF that assms(2-5)] by blast
  from dump_progress [OF assms(1,2) process_ok_db_inv [OF inv] assms(6)] obtain ks bs where
    k: "fst wr @ snd wr = concat bs" "mset ks = mset (store_keys (handler_db (proc g)))" "list_all2 (dumped_between w f g) ks bs"
    by (auto simp: dumped_so_far_def)
  have "wf_gomap (store (handler_db (proc g)))" using process_ok_db_inv [OF inv [OF assms(1)]] by (simp add: db_inv_def)
  then have "distinct ks" "set ks = dom (map_of (store (handler_db (proc g))))"
    using mset_eq_imp_distinct_iff [OF k(2)] mset_eq_setD [OF k(2)] by (simp_all add: wf_gomap_def store_keys_def dom_map_of_conv_image_fst)
  then show ?thesis using fine_step.close_file [OF assms(6,7), of w] k(1,3)
    by (intro exI [of _ "\<lparr>proc = (with_dump (handler_db (proc g)) (fst wr @ snd wr) (proc g))\<lparr>handler := Exiting\<rparr>, dump_at = Closed\<rparr>"]
        exI [of _ ks] exI [of _ bs]) simp
qed

lemma dump_takes_each_key_once_witness:
  "\<exists>h ks bs. fine_step calm_world \<lparr>proc = opened, dump_at = Opened [] ([], one_key_file)\<rparr> h \<and>
     aof_file (handler_disk (proc h)) = Some (concat bs) \<and> distinct ks \<and> set ks = dom (map_of (store (handler_db (proc h)))) \<and>
     length bs = length ks"
proof -
  have o: "handler opened = Dumping" "flushed (handler_disk opened) x = x" for x
    by (simp_all add: opened_def stopped_fields flushed_def good_disk_def)
  have "status_ok stopped" by (simp add: status_ok_def stopped_def start_process_def status_defs)
  with dump_takes_each_key_once [OF one_key_written] stopped_ok o obtain h ks bs where
    "fine_step calm_world \<lparr>proc = opened, dump_at = Opened [] ([], one_key_file)\<rparr> h" "aof_file (handler_disk (proc h)) = Some (concat bs)"
    "distinct ks" "set ks = dom (map_of (store (handler_db (proc h))))"
    "list_all2 (dumped_between calm_world \<lparr>proc = stopped, dump_at = Closed\<rparr> \<lparr>proc = opened, dump_at = Opened [] ([], one_key_file)\<rparr>) ks bs"
    by auto
  then show ?thesis by (intro exI [of _ h] exI [of _ ks] exI [of _ bs] conjI) (auto dest: list_all2_lengthD)
qed

section \<open>A command between two keys of a dump\<close>

definition int_string :: "int64 \<Rightarrow> Obj \<Rightarrow> bool" where
  "int_string i obj \<longleftrightarrow> getType (TypeEncoding obj) = OBJ_TYPE_STRING \<and> getEncoding (TypeEncoding obj) = OBJ_ENCODING_INT \<and>
     Value obj = VStr (FormatInt i)"

definition incremented :: "nat \<Rightarrow> int64 \<Rightarrow> db \<Rightarrow> db" where
  "incremented x i d = set_value x (TypeEncoding (objs d x)) (VStr (FormatInt (i + 1))) (touch x d)"

lemma incremented_fields [simp]:
  "store (incremented x i d) = store d" "expires (incremented x i d) = expires d" "KeyspaceStat (incremented x i d) = KeyspaceStat d"
  "GlobalCachedTime (incremented x i d) = GlobalCachedTime d" "hasExpired (incremented x i d) y = hasExpired d y"
  "y \<noteq> x \<Longrightarrow> int_string j (objs (incremented x i d) y) = int_string j (objs d y)"
  "int_string i (objs d x) \<Longrightarrow> int_string (i + 1) (objs (incremented x i d) x)"
  by (simp_all add: incremented_def int_string_def set_value_def touch_def hasExpired_def cong: option.case_cong)

lemma INCR_in_place:
  assumes "map_of (store d) k = Some x" "\<not> hasExpired d x" "int_string i (objs d x)"
  shows "evalINCR e [k] d = Inr (Encode (GoInt64 (i + 1)) False, incremented x i d)"
proof -
  have o: "TypeEncoding (objs (touch x d) x) = TypeEncoding (objs d x)" "Value (objs (touch x d) x) = VStr (FormatInt i)"
    using assms(3) by (simp_all add: touch_def int_string_def)
  show ?thesis
    using assms o by (simp add: evalINCR_def counter_update_def Get_def int_string_def assertType_def assertEncoding_def as_str_def incremented_def Let_def)
qed

definition dumped_string :: "string \<Rightarrow> int64 \<Rightarrow> string" where
  "dumped_string k i = encode_command (split_on CHR '' '' (''SET '' @ k @ '' '' @ FormatInt i))"

lemma dumpKey_int_string:
  assumes "int_string i obj"
  shows "dumpKey e dk k obj d = Inr (dumped_string k i, d)"
  using assms by (simp add: dumpKey_def dump_tokens_def int_string_def print_s_def dumped_string_def encode_command_def del: split_on.simps)

lemma respond_INCR:
  assumes "cell s a = (''INCR'', [k])" "\<not> isTxn (clients s c)" "1 \<le> stack w"
    "map_of (store (data s)) k = Some x" "\<not> hasExpired (data s) x" "int_string i (objs (data s) x)"
  shows "respond_one w a c s = Inr (Encode (GoInt64 (i + 1)) False, after_cmds 1 (incremented x i (data s)) s)"
proof -
  obtain n where n: "stack w = Suc n" using assms(3) by (cases "stack w") auto
  have d: "data_command s a" using assms(1) by (simp add: data_command_def cell_def eval_table_def)
  have "eval_seq (env_of w) [cell s a] (data s) = Inr (Encode (GoInt64 (i + 1)) False, incremented x i (data s))"
    using INCR_in_place [OF assms(4-6), of "env_of w"] by (simp add: assms(1) eval_table_def)
  then show ?thesis using execute_data [OF d, of n w c] assms(2) by (simp add: respond_one_def executeCommand_def n del: execute_fuel.simps)
qed

lemma FreeCmds_files [simp]: "files (FreeCmds ps s) = files s"
  by (induction ps arbitrary: s) (simp_all add: FreeCmds_def)

lemma fine_run_trans: "fine_run w g h \<Longrightarrow> fine_run w f g \<Longrightarrow> fine_run w f h"
  by (induction rule: fine_run.induct) (auto intro: fine_run.go)

text \<open>Two counters are incremented by one packet while the dump stands between them.\<close>

lemma torn_run:
  assumes f: "dump_at f = Opened [k1, k2] ([], [])" "handler (proc f) = Dumping" "loop (proc f) = Running c [a, b] buf ps evs"
    and s: "s = srv (eng (proc f))" "cell s a = (''INCR'', [k1])" "cell s b = (''INCR'', [k2])" "\<not> isTxn (clients s c)" "1 \<le> stack w"
    and k1: "map_of (store (data s)) k1 = Some x" "\<not> hasExpired (data s) x" "int_string i (objs (data s) x)"
    and k2: "map_of (store (data s)) k2 = Some y" "\<not> hasExpired (data s) y" "int_string j (objs (data s) y)" and ne: "x \<noteq> y"
  shows "\<exists>g. fine_run w f g \<and> dump_at g = Closed \<and> handler (proc g) = Exiting \<and>
    wire (srv (eng (proc g))) = wire s @ [(Fd (clients s c), buf @ Encode (GoInt64 (i + 1)) False @ Encode (GoInt64 (j + 1)) False)] \<and>
    store (handler_db (proc g)) = store (data s) \<and> int_string (i + 1) (objs (handler_db (proc g)) x) \<and>
    int_string (j + 1) (objs (handler_db (proc g)) y) \<and>
    aof_file (handler_disk (proc g)) = Some (flushed (files s) (dumped_string k1 i @ dumped_string k2 (j + 1)))"
proof -
  define wr1 where "wr1 = bufio_write ([], []) (dumped_string k1 i)"
  define wr2 where "wr2 = bufio_write wr1 (dumped_string k2 (j + 1))"
  have w1: "fst wr1 @ snd wr1 = dumped_string k1 i"
    using bufio_write_bytes [of "[]" "[]" "dumped_string k1 i"] by (cases wr1) (simp add: wr1_def)
  have w2: "fst wr2 @ snd wr2 = dumped_string k1 i @ dumped_string k2 (j + 1)"
    using bufio_write_bytes [of "fst wr1" "snd wr1" "dumped_string k2 (j + 1)" "fst wr2" "snd wr2"] w1 by (simp add: wr2_def)
  define p1 where "p1 = with_dump (data s) (fst wr1) (proc f)"
  define s1 where "s1 = srv (eng p1)"
  have s1: "s1 = s\<lparr>files := (files s)\<lparr>aof_file := Some (flushed (files s) (fst wr1))\<rparr>\<rparr>"
    by (simp add: s1_def p1_def with_dump_def s(1))
  have 1: "fine_step w f \<lparr>proc = p1, dump_at = Opened [k2] wr1\<rparr>"
    unfolding p1_def s(1)
    by (rule fine_step.write_key [OF f(1,2) refl _ _ wr1_def, of x]) (use k1 s(1) dumpKey_int_string in simp_all)
  define s2 where "s2 = after_cmds 1 (incremented x i (data s1)) s1"
  define p2 where "p2 = p1\<lparr>loop := Running c [b] (buf @ Encode (GoInt64 (i + 1)) False) ps evs, eng := (eng p1)\<lparr>srv := s2\<rparr>\<rparr>"
  have p1: "loop p1 = Running c [a, b] buf ps evs" "handler p1 = Dumping" using f(2,3) by (simp_all add: p1_def)
  have "respond_one w a c s1 = Inr (Encode (GoInt64 (i + 1)) False, s2)"
    unfolding s2_def by (rule respond_INCR [OF _ _ s(5)]) (use s k1 in \<open>simp_all add: s1 cell_def\<close>)
  from step.command [OF p1(1) this [unfolded s1_def]] have "step w p1 p2" by (simp add: p2_def)
  then have 2: "fine_step w \<lparr>proc = p1, dump_at = Opened [k2] wr1\<rparr> \<lparr>proc = p2, dump_at = Opened [k2] wr1\<rparr>"
    using fine_step.beside [of "\<lparr>proc = p1, dump_at = Opened [k2] wr1\<rparr>" "[k2]" wr1 w p2] p1
    by (simp add: p2_def no_write_lock_def s2_def) (simp add: s1_def after_cmds_def)
  define s3 where "s3 = after_cmds 1 (incremented y j (data s2)) s2"
  define p3 where "p3 = p2\<lparr>loop := Running c [] ((buf @ Encode (GoInt64 (i + 1)) False) @ Encode (GoInt64 (j + 1)) False) ps evs, eng := (eng p2)\<lparr>srv := s3\<rparr>\<rparr>"
  have p2: "loop p2 = Running c [b] (buf @ Encode (GoInt64 (i + 1)) False) ps evs" "handler p2 = Dumping" "srv (eng p2) = s2"
    using p1 by (simp_all add: p2_def)
  have "respond_one w b c s2 = Inr (Encode (GoInt64 (j + 1)) False, s3)"
    unfolding s3_def by (rule respond_INCR [OF _ _ s(5)]) (use s k2 ne in \<open>simp_all add: s2_def s1\<close>, simp_all add: cell_def)
  from step.command [OF p2(1) this [folded p2(3)]] have "step w p2 p3" by (simp add: p3_def p2(3))
  then have 3: "fine_step w \<lparr>proc = p2, dump_at = Opened [k2] wr1\<rparr> \<lparr>proc = p3, dump_at = Opened [k2] wr1\<rparr>"
    using fine_step.beside [of "\<lparr>proc = p2, dump_at = Opened [k2] wr1\<rparr>" "[k2]" wr1 w p3] p2
    by (simp add: p3_def no_write_lock_def s3_def) (simp add: after_cmds_def)
  let ?reply = "buf @ Encode (GoInt64 (i + 1)) False @ Encode (GoInt64 (j + 1)) False"
  define p4 where "p4 = p3\<lparr>loop := Serving evs, eng := end_batch w c ?reply ps (eng p3)\<rparr>"
  have p3: "loop p3 = Running c [] ?reply ps evs" "handler p3 = Dumping" "srv (eng p3) = s3" using p2 by (simp_all add: p3_def)
  from step.reply [OF p3(1)] have "step w p3 p4" by (simp add: p4_def)
  then have 4: "fine_step w \<lparr>proc = p3, dump_at = Opened [k2] wr1\<rparr> \<lparr>proc = p4, dump_at = Opened [k2] wr1\<rparr>"
    using fine_step.beside [of "\<lparr>proc = p3, dump_at = Opened [k2] wr1\<rparr>" "[k2]" wr1 w p4] p3
    by (simp add: p4_def no_write_lock_def end_batch_def Client_Write_def)
  define d4 where "d4 = data s3"
  have p4: "handler p4 = Dumping" "handler_db p4 = d4" "handler_disk p4 = files s1"
    "wire (srv (eng p4)) = wire s @ [(Fd (clients s c), ?reply)]"
    using p3 by (simp_all add: p4_def end_batch_def Client_Write_def d4_def s3_def s2_def s1) (simp_all add: after_cmds_def)
  have d4: "store d4 = store (data s)" "int_string (i + 1) (objs d4 x)" "int_string (j + 1) (objs d4 y)"
    using k1(3) k2(3) ne by (simp_all add: d4_def s3_def s2_def s1)
  define p5 where "p5 = with_dump d4 (fst wr2) p4"
  have 5: "fine_step w \<lparr>proc = p4, dump_at = Opened [k2] wr1\<rparr> \<lparr>proc = p5, dump_at = Opened [] wr2\<rparr>"
    using fine_step.write_key [of "\<lparr>proc = p4, dump_at = Opened [k2] wr1\<rparr>" k2 "[]" wr1 d4 y w "dumped_string k2 (j + 1)" d4 wr2]
      p4 d4 k2(1) dumpKey_int_string [OF d4(3)] by (simp add: p5_def wr2_def)
  define p6 where "p6 = (with_dump (handler_db p5) (fst wr2 @ snd wr2) p5)\<lparr>handler := Exiting\<rparr>"
  have 6: "fine_step w \<lparr>proc = p5, dump_at = Opened [] wr2\<rparr> \<lparr>proc = p6, dump_at = Closed\<rparr>"
    using fine_step.close_file [of "\<lparr>proc = p5, dump_at = Opened [] wr2\<rparr>" wr2 w] p4(1) by (simp add: p6_def p5_def)
  have r: "fine_run w f \<lparr>proc = p6, dump_at = Closed\<rparr>"
    by (rule fine_run.go [OF fine_run.go [OF fine_run.go [OF fine_run.go [OF fine_run.go [OF fine_run.go [OF fine_run.stay 1] 2] 3] 4] 5] 6])
  have "wire (srv (eng p6)) = wire (srv (eng p4))" "handler_db p6 = d4" "handler p6 = Exiting"
    "aof_file (handler_disk p6) = Some (flushed (files s) (fst wr2 @ snd wr2))"
    using p4(3) by (simp_all add: p6_def p5_def s1) (simp_all add: with_dump_def)
  with r p4(4) d4 w2 show ?thesis by (intro exI [of _ "\<lparr>proc = p6, dump_at = Closed\<rparr>"]) simp
qed

section \<open>A run that tears the dump\<close>

definition counters_db :: db where
  "counters_db = store_string default_env ''b'' ''1'' (- 1) (store_string default_env ''a'' ''1'' (- 1) (init_db 0 0))"

lemmas store_string_eval = store_string_def NewObj_def Put_def init_db_def default_env_def default_config_def pool_choice_def
  StoreLen_def ticked_def touch_def bump_keys_def deduceTypeEncoding_def ParseInt_def parse_signed_def ParseUint_def
  digit_of_def type_consts Let_def

lemma counters_store: "store counters_db = [(''a'', 0), (''b'', 1)]" "expires counters_db = []" "GlobalCachedTime counters_db = 0"
  by (simp_all add: counters_db_def store_string_eval)

lemma counters_values: "int_string 1 (objs counters_db 0)" "int_string 1 (objs counters_db 1)"
  by (simp_all add: counters_db_def store_string_eval int_string_def FormatInt_def FormatNat.simps digit_char_def char_of_def bit_Suc_0_iff)

lemma counters_keys: "iterate default_env counters_db (store_keys counters_db) = [''a'', ''b'']"
  by (simp add: store_keys_def counters_store iterate_def default_env_def)

definition two_counters :: engine where
  \<comment> \<open>a server with two counters and a client on descriptor 5\<close>
  "two_counters = accept_client 5 \<lparr>srv = init_server counters_db good_disk, connectedClients = [], con_client = 0, lastCronExecTime = 0\<rparr>"

lemma two_counters_fields:
  "data (srv two_counters) = counters_db" "files (srv two_counters) = good_disk" "connectedClients two_counters = [(5, 0)]"
  "clients (srv two_counters) 0 = \<lparr>Fd = 5, enqueue = [], isTxn = False\<rparr>" "wire (srv two_counters) = []" "lastCronExecTime two_counters = 0"
  by (simp_all add: two_counters_def accept_client_def NewClient_def TrackConnection_def init_server_def)

lemma two_counters_ok: "engine_ok calm_world two_counters"
proof -
  have "db_ok default_env (init_db 0 0)" by (rule init_db_ok [OF default_env_ok])
  then have "db_ok (env_of calm_world) counters_db"
    using evolves_ok [OF evolves_store_string [where ks = UNIV]] by (simp add: counters_db_def)
  from accept_client_ok [OF start_engine_ok [OF this]] show ?thesis unfolding two_counters_def by simp
qed

lemma tick_two_counters: "cron calm_world 0 0 (two_counters\<lparr>srv := UpdateCachedTime 0 (srv two_counters)\<rparr>) = two_counters"
proof -
  have "counters_db\<lparr>GlobalCachedTime := 0\<rparr> = counters_db" using counters_store(3) by (cases counters_db) simp
  then have "UpdateCachedTime 0 (srv two_counters) = srv two_counters"
    using two_counters_fields(1) by (simp add: UpdateCachedTime_def)
  then show ?thesis by (simp add: cron_def two_counters_fields cronFrequency_def)
qed

definition incr_packet :: string where
  "incr_packet = concat (map encode_command [[''INCR'', ''a''], [''INCR'', ''b'']])"

definition incr_rest :: string where
  \<comment> \<open>the rest of a new buffer\<close>
  "incr_rest = replicate (ReadBufSize - length incr_packet) (CHR 0x00)"

lemma length_incr_packet: "length incr_packet = 42" "length (incr_packet @ incr_rest) = ReadBufSize"
  by (simp_all add: incr_rest_def ReadBufSize_def incr_packet_def encode_command_def bulk_def FormatInt_def FormatNat.simps CRLF_def)

text \<open>C11: but the dump takes only the read lock, and the commands that change a value in place take no
  lock: when the handler's test has found the loop idle and the loop has started since, the
  file is no snapshot of the database. In a run of a server with two counters at 1, both are
  incremented by one packet while the dump stands between their keys, both replies are written,
  and the file holds the second increment without the first, a state in which the
  database never was. (In \<open>shutdown_loses_acknowledged_write\<close> the file is at least an
  earlier state.)\<close>

theorem dump_is_no_snapshot:
  "\<exists>g. fine_run calm_world \<lparr>proc = start_process two_counters, dump_at = Closed\<rparr> g \<and> dump_at g = Closed \<and> handler (proc g) = Exiting \<and>
     wire (srv (eng (proc g))) = [(5, '':2'' @ CRLF @ '':2'' @ CRLF)] \<and>
     aof_file (handler_disk (proc g)) = Some (encode_command [''SET'', ''a'', ''1''] @ encode_command [''SET'', ''b'', ''2''])"
proof -
  let ?w = calm_world and ?ev = "Ready 5 (ReadBytes incr_packet incr_rest)" and ?st = "start_process two_counters"
  let ?f = "\<lambda>p. \<lparr>proc = p, dump_at = Closed\<rparr>"
  have G: "fine_run ?w (?f ?st) (?f q)" if "fine_run ?w (?f ?st) (?f p)" "step ?w p q" "handler q \<noteq> Exiting" for p q
    using fine_run.go [OF that(1) fine_step.alone [where f = "?f p"]] that(2,3) by simp
  have 1: "fine_run ?w (?f ?st) (?f (?st\<lparr>loop := Top\<rparr>))"
    by (rule G [OF fine_run.stay step.listen [OF _ good_sockets]]) (simp_all add: start_process_def)
  have 2: "fine_run ?w (?f ?st) (?f (?st\<lparr>loop := Ticking\<rparr>))"
    using G [OF 1 step.check] by (simp add: start_process_def status_defs)
  have 3: "fine_run ?w (?f ?st) (?f (?st\<lparr>loop := Polling\<rparr>))"
    using G [OF 2 step.tick [where now = 0 and later = 0 and ms = 0]] by (simp add: start_process_def tick_two_counters)
  have 4: "fine_run ?w (?f ?st) (?f (?st\<lparr>loop := Polling, handler := Spinning\<rparr>))"
    using G [OF 3 step.signal] by (simp add: start_process_def)
  have 5: "fine_run ?w (?f ?st) (?f (?st\<lparr>loop := Polling, handler := Storing\<rparr>))"
    using G [OF 4 step.spin] by (simp add: start_process_def status_defs)
  have 6: "fine_run ?w (?f ?st) (?f (?st\<lparr>loop := Serving [?ev], eStatus := EngineStatus_BUSY, handler := Storing\<rparr>))"
    using G [OF 5 step.poll_swap [where evs = "[?ev]"]] by (simp add: start_process_def)
  obtain ps s where ps: "load_cmds ?w (map (parsed_of (upper_uni default_env)) [[''INCR'', ''a''], [''INCR'', ''b'']]) (srv two_counters) = (ps, s)"
    by force
  have c: "map (cell s) ps = [(''INCR'', [''a'']), (''INCR'', [''b''])]"
    using load_cmds_cells [OF ps engine_okD(2) [OF two_counters_ok]] by (simp add: parsed_of_def named_def ToUpper_def is_ascii_def upper_byte_def char_of_def bit_Suc_0_iff Let_def)
  then obtain a b where ab: "ps = [a, b]" by (cases ps; cases "tl ps") auto
  have S: "cells_only (srv two_counters) s" using load_cmds_spec [OF engine_okD(2) [OF two_counters_ok] ps] by blast
  have b: "begin_event ?w ?ev two_counters = Inr (Batch 0 [a, b] (two_counters\<lparr>srv := s\<rparr>))"
  proof -
    have "readCommands ?w (ReadBytes incr_packet incr_rest) =
        Inr (map (parsed_of (upper_uni default_env)) [[''INCR'', ''a''], [''INCR'', ''b'']], False)"
      using readCommands_pipeline [of "[[''INCR'', ''a''], [''INCR'', ''b'']]" ?w incr_rest] length_incr_packet by (simp add: incr_packet_def)
    then show ?thesis using ps by (simp add: begin_event_def two_counters_fields ab)
  qed
  let ?p = "?st\<lparr>loop := Running 0 [a, b] [] [a, b] [], eStatus := EngineStatus_SHUTTING_DOWN, handler := Dumping, eng := two_counters\<lparr>srv := s\<rparr>\<rparr>"
  have 7: "fine_run ?w (?f ?st) (?f (?st\<lparr>loop := Running 0 [a, b] [] [a, b] [], eStatus := EngineStatus_BUSY, handler := Storing, eng := two_counters\<lparr>srv := s\<rparr>\<rparr>))"
    using G [OF 6 step.start [where ev = ?ev and evs = "[]" and c = 0 and ps = "[a, b]" and n = "two_counters\<lparr>srv := s\<rparr>"]] b
      length_incr_packet(2) by (simp add: start_process_def fresh_event_def)
  have 8: "fine_run ?w (?f ?st) (?f ?p)" using G [OF 7 step.store_status] by (simp add: start_process_def)
  have F: "data s = counters_db" "files s = good_disk" "clients s 0 = \<lparr>Fd = 5, enqueue = [], isTxn = False\<rparr>" "wire s = []"
    using S two_counters_fields by (simp_all add: cells_only_def)
  let ?g = "\<lparr>proc = with_dump (ticked counters_db) [] ?p, dump_at = Opened [''a'', ''b''] ([], [])\<rparr>"
  have "fine_step ?w (?f ?p) ?g"
    using fine_step.open_file [of "?f ?p" counters_db ?w] counters_keys by (simp add: F good_disk_def)
  from fine_run.go [OF 8 this] have 9: "fine_run ?w (?f ?st) ?g" .
  let ?s = "srv (eng (proc ?g))"
  have D: "data ?s = ticked counters_db" "cell ?s = cell s" "clients ?s = clients s" "wire ?s = []"
    "flushed (files ?s) = flushed good_disk"
    using F by (simp_all add: with_dump_def cell_def fun_eq_iff)
  have V: "int_string 1 (objs (ticked counters_db) 0)" "int_string 1 (objs (ticked counters_db) 1)"
    using counters_values by (simp_all add: ticked_def)
  have K: "map_of (store (ticked counters_db)) ''a'' = Some 0" "map_of (store (ticked counters_db)) ''b'' = Some 1"
    "\<not> hasExpired (ticked counters_db) x" for x
    using counters_store by (simp_all add: ticked_def hasExpired_def)
  obtain h where h: "fine_run ?w ?g h" "dump_at h = Closed" "handler (proc h) = Exiting"
    "wire (srv (eng (proc h))) = [(5, Encode (GoInt64 2) False @ Encode (GoInt64 2) False)]"
    "aof_file (handler_disk (proc h)) = Some (flushed good_disk (dumped_string ''a'' 1 @ dumped_string ''b'' 2))"
    using torn_run [of ?g "''a''" "''b''" 0 a b "[]" "[a, b]" "[]" ?s ?w 0 1 1 1] D V K c F(3) by (auto simp: ab)
  have "flushed good_disk t = t" for t by (simp add: flushed_def good_disk_def)
  moreover have "dumped_string ''a'' 1 = encode_command [''SET'', ''a'', ''1'']" "dumped_string ''b'' 2 = encode_command [''SET'', ''b'', ''2'']"
    by (simp_all add: dumped_string_def FormatInt_def FormatNat.simps digit_char_def char_of_def bit_Suc_0_iff)
  moreover have "Encode (GoInt64 2) False = '':2'' @ CRLF" by (simp add: FormatInt_def FormatNat.simps digit_char_def char_of_def bit_Suc_0_iff)
  ultimately show ?thesis using h fine_run_trans [OF h(1) 9] by auto
qed

end
