(* ===== verification/Spec2Isabelle.thy ===== *)
theory Spec2Isabelle
  imports Benchmark Transactions DumpRaces
begin

text \<open>
  A verification development for Velox, an in-memory database in Go that speaks the RESP
  protocol of Redis. The theories translate all the Go sources that are not tests: \<open>src/core\<close>,
  \<open>src/config\<close>, \<open>src/server\<close>, \<open>src/main.go\<close>, the command line client \<open>src/velox-cli\<close> and the
  benchmark \<open>src/velox-benchmark\<close>. The properties are the theorems whose comment starts with a
  number \<open>C1\<close>, \<open>C2\<close> and so on.

  \<^bold>\<open>The program.\<close> \<open>main\<close> replays a file of commands and starts two goroutines (\<open>main.go\<close>). One runs
  an event loop over \<open>epoll\<close> (\<open>server/async_tcp.go\<close>): it accepts clients, reads a packet into a
  pooled buffer, decodes all commands in it
  (\<open>DecodeCommands\<close>, \<open>core/resp.go\<close>), executes or queues them (\<open>EvalAndRespond\<close> and
  \<open>executeCommand\<close>, \<open>core/eval.go\<close>), writes one reply, and returns the commands to a pool
  (\<open>FreeCmds\<close>). The commands work on one map from keys to objects with a separate map of
  expiry times (\<open>core/store.go\<close>, \<open>core/expire.go\<close>), bounded by a key limit with three eviction
  strategies (\<open>core/eviction.go\<close>, \<open>core/evictionpool.go\<close>). An object carries a byte for its type and
  encoding (\<open>core/typeencoding.go\<close>) and a string, a ziplist or Go map (hashes), a quicklist
  (lists), an intset or Go map (sets), or a skip list with a dictionary (sorted sets). The
  other goroutine waits for a signal and then dumps the database to a file of commands that is
  replayed at the next start (\<open>core/aof.go\<close>, \<open>core/events.go\<close>). An older server
  (\<open>server/sync_tcp.go\<close>) serves one blocking connection at a time.

  \<^bold>\<open>The theories\<close>, from the data structures up:
  \<^item> \<open>Prelude\<close>: machine integers, panics as the left part of a sum, Go maps as association lists
    without duplicates, integer parsing and printing; the fact collections.
  \<^item> \<open>TypeEncoding\<close> (\<open>object.go\<close>, \<open>typeencoding.go\<close>, \<open>type_string.go\<close>), \<open>IntSet\<close>, \<open>ZipList\<close>, \<open>Config\<close>:
    values with an abstraction function each, to a pair, a set, a finite map.
  \<^item> \<open>QuickList\<close>: the doubly linked list of ziplist nodes on a heap of nodes, refined to a
    sequence; the invariant ties the links to the path of nodes.
  \<^item> \<open>GoHeap\<close>, \<open>EvictionPool\<close>: \<open>container/heap\<close> over the least idle candidates, the 20-bit clock.
  \<^item> \<open>SkipList\<close>, \<open>SortedSet\<close>: the skip list with levels and spans on a heap of nodes, refined to a
    sorted sequence; with its dictionary, to a map from members to scores.
  \<^item> \<open>Store\<close>, \<open>StoreInv\<close>, \<open>StoreSpec\<close>, \<open>Eviction\<close>: the package variables as the record \<open>db\<close> with an
    object heap, its operations, the invariant \<open>db_inv\<close>, the abstract database \<open>lview\<close> (what a
    client can see under a key: type byte, value, expiry) that every operation refines, the key
    limit, and active expiry.
  \<^item> \<open>Resp\<close>: the encoder and the two decoders, on slices with a length and a capacity.
  \<^item> \<open>Command\<close>: what commands share; \<open>served\<close> says that a command replies without a panic in a
    well-formed database, \<open>evolves\<close> what it may do to other keys.
  \<^item> \<open>EvalString\<close>, \<open>EvalHash\<close>, \<open>EvalList\<close>, \<open>EvalSet\<close>, \<open>EvalZSet\<close>: one definition per command, argument
    checks in the order of the code; \<open>StringSpec\<close>, \<open>HashSpec\<close> and the second halves of the others
    give the effect and the reply of each command in terms of \<open>lview\<close>.
  \<^item> \<open>Aof\<close>, \<open>AofSpec\<close>: dump and replay, and what the replay of a dump restores.
  \<^item> \<open>PubSub\<close>: the record \<open>server\<close> (database, file, channels, clients, command cells, wire) and
    the channel operations.
  \<^item> \<open>Dispatch\<close>: \<open>INFO\<close>, transactions, the dispatcher, batches, and the pool of commands.
  \<^item> \<open>Server\<close>: one event of the loop, as a function on the state \<open>engine\<close>; \<open>begin_event\<close> and
    \<open>end_batch\<close> are what comes before and after the commands of a packet.
  \<^item> \<open>Process\<close>: the opening of the socket, and the interleaving of the loop and the signal handler
    as an inductive step relation on \<open>process\<close> with its reachable states.
  \<^item> \<open>Limits\<close>: packets that are longer than the read buffer.
  \<^item> \<open>Startup\<close>: \<open>main\<close>; the state at the start of the process, restarts, failing starts.
  \<^item> \<open>Replies\<close>, \<open>Sequential\<close>: the reply to a packet; the event loop as one sequential database for
    all its clients.
  \<^item> \<open>DumpSteps\<close>, \<open>DumpRaces\<close>: the dump of the signal handler key by key, beside the loop; it
    refines the dump in one step of \<open>Process\<close> when the loop is idle; what it writes when the loop
    is not.
  \<^item> \<open>Transactions\<close>: transactions that are spread over packets of several clients.
  \<^item> \<open>SyncServer\<close>: the blocking server, and its comparison with the event loop.
  \<^item> \<open>Cli\<close>, \<open>Benchmark\<close>: the two programs that talk to the server.
  \<^item> this theory: a property from the keyboard of one user to the screen of another.

  \<^bold>\<open>Interfaces.\<close> \<open>field_store\<close> is what the hash commands need of a representation of a hash; the
  ziplist and the Go map interpret it (\<open>zf\<close>, \<open>hf\<close>). \<open>deque\<close> (\<open>qd\<close>) is what the list commands need of
  the quicklist, \<open>member_store\<close> (\<open>ims\<close>, \<open>hms\<close>) what the set commands need of the intset and the map,
  \<open>deletion_invariant\<close> (\<open>dbi\<close>, \<open>sh\<close>) what eviction and active expiry need of a property of the database
  to keep it. \<open>heap_interface\<close> is what \<open>container/heap\<close> needs of a container, and the eviction pool
  provides it (\<open>ep\<close>). \<open>packet_server\<close> is what a server promises its clients about a packet; the event
  loop (\<open>el\<close>) and the blocking server (\<open>sy\<close>) keep it. The loops over arguments, keys, items or
  packets are proved once in the locale.

  \<^bold>\<open>What is shown.\<close> From below: the data structures refine a sequence, a set, a map, a sorted
  sequence, with their pointer invariants; the store operations refine updates of \<open>lview\<close>; the
  key limit holds after every \<open>Put\<close>; active expiry ends and is invisible. Commands: each type of
  value as an abstract data type over \<open>lview\<close>, replies included, on every branch. Protocol: replies and
  pipelined commands round-trip. Above: no batch of commands can make the dispatcher panic or loop
  (for a client whose queue holds no \<open>EXEC\<close>), a transaction in one packet is a pipeline with one
  reply, subscribers are the connected clients that asked; whatever the file holds, if \<open>main\<close>
  starts then every reachable state of the goroutines is in the invariant, also beside a dump that is half done; packets from any
  number of clients are answered as their commands run one after the other on one database
  are, by either server; a shutdown that finds the loop idle is final, and the next start has the data back. The theorems of kind
  error state where the code misbehaves: a transaction spread over packets, which may end the
  process or run the command of another client, a shutdown that races
  with a packet, a dump that is torn by commands beside it, a packet that does not fit into the buffer, a dump that was cut short, an
  address in use, a malformed packet sent to the blocking server, a long answer to the command
  line client, a sorted set with a score of NaN; the list of findings has the rest. The conditions
  of a property that such a behaviour makes necessary are named in its comment.

  \<^bold>\<open>Fuel and partiality.\<close> A loop along pointers is a \<open>partial_function\<close> and is shown to end under its
  invariant. \<open>DecodeOne\<close> takes fuel for the nesting of arrays; its length bounds the nesting, so
  the length of the input is enough (\<open>DecodeOne_fuel_irrelevant\<close>). \<open>executeCommand\<close> counts the
  nested calls that fit on the stack (\<open>stack\<close>); two are enough unless a queued command is \<open>EXEC\<close>,
  and then none is. \<open>DeleteExpiredKey\<close> ends because each further round has deleted keys. The loops that
  need not end take a number of rounds: \<open>sync_rounds\<close> (a session of \<open>n\<close> packets ends in round
  \<open>n + 1\<close>; after an error no number of rounds is enough) and \<open>cli_rounds\<close>.

  \<^bold>\<open>What is a parameter.\<close> The orders of \<open>range\<close> over maps, what a \<open>sync.Pool\<close> hands out, random draws,
  the clocks, the Unicode tables, floating point parsing and printing, \<open>path.Match\<close>, the results
  of reads, writes, of the system calls that open the socket and of the file system are fields of
  \<open>env\<close>, \<open>world\<close>, \<open>sockets\<close> and \<open>disk\<close> or arguments of events; the theorems hold for every choice,
  except that a descriptor that \<open>accept\<close> returns is not one that is open, and that a read
  fills a prefix of a buffer of 64 KB (\<open>fresh_event\<close>). Floats are their 64 bits with the
  comparisons of IEEE 754.

  \<^bold>\<open>Atomicity.\<close> A step of \<open>Process\<close> is one access to the status word, the decoding of a packet, one
  command, one write, or the dump; a transaction that \<open>EXEC\<close> runs is one command and thus one step.
  \<open>fine_step\<close> takes the dump apart: the file is truncated, the keys are written one after the
  other, the buffer is flushed, and between any two of these the loop may make a step,
  if this needs no write lock: \<open>no_write_lock\<close> says that nothing changes that a section under
  the write lock changes (a section under the lock that happens to change nothing is let through,
  so there are more runs than in the code; \<open>dump_is_no_snapshot\<close> uses none of these). Opening the
  file and taking the lock are one step, and so are the release of the lock and the last flush.
  When no events are served, \<open>dump_is_atomic\<close> leads back to the dump in one step, on which the
  durability theorem rests; the invariant holds for all runs.

  \<^bold>\<open>Not modelled.\<close> A command that has done half of its work when it waits for the lock, and a dump
  that reads an object while a command writes it, which in Go is a data race; a second dump, by
  \<open>BGREWRITEAOF\<close>, beside that of the signal handler; logging, prompts and error messages on the
  terminal; the clocks of the benchmark; the wait group of \<open>main\<close>, which never returns before
  \<open>os.Exit\<close> unless both goroutines do; the sharing of reply buffers, which are copied before they
  are reused; the tests.
\<close>

section \<open>From the keyboard of one user to the screen of another\<close>

definition typed_word :: "string \<Rightarrow> bool" where
  "typed_word w \<longleftrightarrow> w \<noteq> [] \<and> (\<forall>c \<in> set w. is_ascii c \<and> \<not> is_space c)"

lemma is_space_simps [simp]: "is_space CHR '' ''" "is_space newline"
  by (simp_all add: is_space_def newline_def)

lemma is_ascii_simps [simp]: "is_ascii CHR '' ''" "is_ascii newline"
  by (simp_all add: is_ascii_def newline_def)

lemma join_words_Cons: "join_words (w # ws) = (if ws = [] then w else w @ CHR '' '' # join_words ws)"
  by (cases ws) (simp_all add: join_words_def)

lemma split_on_word: "c \<notin> set w \<Longrightarrow> split_on c (w @ c # s) = w # split_on c s" "c \<notin> set w \<Longrightarrow> split_on c w = [w]"
  by (induction w) auto

lemma typed_words:
  assumes "ws \<noteq> []" "\<forall>w \<in> set ws. typed_word w"
  shows "join_words ws \<noteq> []" "\<forall>c \<in> set (join_words ws). is_ascii c" "\<not> is_space (hd (join_words ws))" "\<not> is_space (last (join_words ws))"
    "newline \<notin> set (join_words ws)" "split_on CHR '' '' (join_words ws) = ws"
proof -
  have *: "\<And>w. typed_word w \<Longrightarrow> w \<noteq> [] \<and> (\<forall>c \<in> set w. is_ascii c) \<and> \<not> is_space (hd w) \<and> \<not> is_space (last w) \<and> newline \<notin> set w \<and> CHR '' '' \<notin> set w"
    using is_space_simps by (auto simp: typed_word_def simp del: is_space_simps)
  have "join_words ws \<noteq> [] \<and> (\<forall>c \<in> set (join_words ws). is_ascii c) \<and> \<not> is_space (hd (join_words ws)) \<and> \<not> is_space (last (join_words ws)) \<and>
    newline \<notin> set (join_words ws) \<and> split_on CHR '' '' (join_words ws) = ws"
    using assms
  proof (induction ws)
    case (Cons w ws)
    have w: "typed_word w" using Cons(3) by simp
    show ?case
    proof (cases "ws = []")
      case True
      then show ?thesis using * [OF w] split_on_word(2) by (simp add: join_words_Cons)
    next
      case False
      then show ?thesis using * [OF w] Cons(1) Cons(3) split_on_word(1) [of "CHR '' ''" w "join_words ws"]
        by (auto simp: join_words_Cons newline_def)
    qed
  qed simp
  then show "join_words ws \<noteq> []" "\<forall>c \<in> set (join_words ws). is_ascii c" "\<not> is_space (hd (join_words ws))" "\<not> is_space (last (join_words ws))"
    "newline \<notin> set (join_words ws)" "split_on CHR '' '' (join_words ws) = ws" by blast+
qed

lemma typed_line:
  assumes "ws \<noteq> []" "\<forall>w \<in> set ws. typed_word w"
  shows "ReadString (join_words ws @ newline # rest) = (join_words ws @ [newline], rest)" "TrimSpace uni (join_words ws @ [newline]) = join_words ws"
proof -
  note T = typed_words [OF assms]
  show "ReadString (join_words ws @ newline # rest) = (join_words ws @ [newline], rest)" by (rule ReadString_line [OF T(5)])
  have a: "dropWhile is_space (x @ y) = x @ y" if "x \<noteq> []" "\<not> is_space (hd x)" for x y :: string
    using that by (cases x) auto
  show "TrimSpace uni (join_words ws @ [newline]) = join_words ws"
    using a [of "join_words ws" "[newline]"] a [of "rev (join_words ws)" "[]"] T(1-4) by (simp add: TrimSpace_def hd_rev)
qed

lemma cli_types:
  assumes "stdin s = join_words ws @ newline # rest" "ws \<noteq> []" "\<forall>w \<in> set ws. typed_word w" "ws \<noteq> [''exit'']"
    "sending s = []" "buffered s = []" "chunks s = Some r # ch" "length r \<le> response_size"
  shows "cli_round uni s = Next (s\<lparr>stdin := rest, chunks := ch, sent := sent s @ [encode_command ws], shown := shown s @ [r]\<rparr>)"
proof -
  note T = typed_words [OF assms(2,3)]
  have "typed_word ''exit''" by (simp add: typed_word_def is_ascii_def is_space_def)
  then have "join_words ws \<noteq> ''exit''" using T(6) typed_words(6) [of "[''exit'']"] assms(4) by (auto simp: join_words_Cons)
  moreover have "ReadString (stdin s) = (join_words ws @ [newline], rest)" unfolding assms(1) by (rule typed_line(1) [OF assms(2,3)])
  ultimately show ?thesis
    using cli_round_answered [OF _ typed_line(2) [OF assms(2,3)] T(1) _ assms(5-7)] assms(6,8) T(6)
    by (simp add: response_size_def bufio_size_def)
qed

lemma ToUpper_GET: "ToUpper uni ''GET'' = ''GET''"
  by (simp add: ToUpper_def is_ascii_def upper_byte_def)

lemma SET_GET_packets:
  assumes "length (encode_command [''SET'', k, v]) \<le> ReadBufSize"
  shows "database_packet w [[''SET'', k, v]]" "database_packet w [[''GET'', k]]"
proof -
  have "length (encode_command [''GET'', k]) \<le> length (encode_command [''SET'', k, v])"
    by (simp add: encode_command_def bulk_def FormatInt_small)
  then show "database_packet w [[''SET'', k, v]]" "database_packet w [[''GET'', k]]"
    using assms by (simp_all add: database_packet_def ToUpper_SET ToUpper_GET) (simp_all add: eval_table_def)
qed

text \<open>C5: end to end: when one user types \<open>SET k v\<close> at the command line client and then another user
  types \<open>GET k\<close> at another, the first is shown \<open>OK\<close> and the second \<open>v\<close>. The packets go from
  the clients through the event loop's decoder, dispatcher and store, in any state the server
  can be in, on any two connections (or twice on one) that are not in a transaction. Key and value
  are words: not empty, of ASCII characters, without white space, as a client that splits its line
  at spaces needs them; the packet fits into the read buffer of the server, and the answer into the
  1024 bytes that the client reads.\<close>

theorem typed_SET_is_seen_by_GET:
  assumes "engine_ok w n" "config_ok (cfg (env_of w))" "1 \<le> stack w"
    "map_of (connectedClients n) fd = Some c" "\<not> isTxn (clients (srv n) c)"
    "map_of (connectedClients n) fd' = Some c'" "\<not> isTxn (clients (srv n) c')"
    "typed_word k" "typed_word v" "length (encode_command [''SET'', k, v]) \<le> ReadBufSize" "length (bulk v) \<le> response_size"
    "stdin a = ''SET '' @ k @ '' '' @ v @ [newline]" "sending a = []" "buffered a = []"
    "stdin b = ''GET '' @ k @ [newline]" "sending b = []" "buffered b = []"
  shows "\<exists>packet packet' reply reply' n' n'' a' b'.
    cli_round uni (a\<lparr>chunks := [Some reply]\<rparr>) = Next a' \<and> sent a' = sent a @ [packet] \<and>
    handle_event w (Ready fd (ReadBytes packet rest)) n = Inr n' \<and> wire (srv n') = wire (srv n) @ [(fd, reply)] \<and>
    cli_round uni (b\<lparr>chunks := [Some reply']\<rparr>) = Next b' \<and> sent b' = sent b @ [packet'] \<and>
    handle_event w (Ready fd' (ReadBytes packet' rest')) n' = Inr n'' \<and> wire (srv n'') = wire (srv n') @ [(fd', reply')] \<and>
    shown a' = shown a @ [RESP_OK] \<and> shown b' = shown b @ [bulk v] \<and> engine_ok w n''"
proof -
  let ?e = "env_of w" and ?set = "[''SET'', k, v]" and ?get = "[''GET'', k]" and ?d = "data (srv n)"
  let ?d1 = "store_string ?e k v (- 1) ?d"
  note D = engine_ok_db [OF assms(1)] and P = SET_GET_packets [OF assms(10)]
  note st = store_string_view [OF D assms(2), of k v "- 1"]
  have ok: "db_ok ?e ?d1" using st by (simp add: evolves_def)
  obtain d2 where d2: "evalGET ?e [k] ?d1 = Inr (case lview ?d1 k of None \<Rightarrow> RESP_NIL | Some (te, v, ex) \<Rightarrow> value_reply v, d2)"
    using evalGET_view [OF ok, of k] by blast
  have "lview ?d1 k = Some (string_entry v None)" using st by (simp add: expiry_of_def live_entry_def string_entry_def)
  then have g: "eval_seq ?e [(''GET'', [k])] ?d1 = Inr (bulk v, d2)"
    using d2 by (simp add: string_entry_def value_reply_def eval_table_def)
  have s: "eval_seq ?e [(''SET'', [k, v])] ?d = Inr (RESP_OK, ?d1)" by (simp add: evalSET_def eval_table_def)
  obtain n' where n': "handle_event w (Ready fd (ReadBytes (encode_command ?set) rest)) n = Inr n'"
    "wire (srv n') = wire (srv n) @ [(fd, RESP_OK)]" "data (srv n') = ?d1" "connectedClients n' = connectedClients n"
    "clients (srv n') = clients (srv n)" "engine_ok w n'"
    by (rule database_packet_reply [OF assms(1-5) P(1), of rest]) (use s in \<open>simp add: request_def ToUpper_SET\<close>)
  obtain n'' where n'': "handle_event w (Ready fd' (ReadBytes (encode_command ?get) rest')) n' = Inr n''"
    "wire (srv n'') = wire (srv n') @ [(fd', bulk v)]" "engine_ok w n''"
    by (rule database_packet_reply [OF n'(6) assms(2,3) _ _ P(2), of fd' c' rest'])
      (use n' g assms(6,7) in \<open>simp_all add: request_def ToUpper_GET\<close>)
  have words: "typed_word ''SET''" "typed_word ''GET''" by (simp_all add: typed_word_def is_ascii_def is_space_def)
  have "stdin a = join_words ?set @ [newline]" "stdin b = join_words ?get @ [newline]"
    using assms(12,15) by (simp_all add: join_words_def)
  then have "cli_round uni (a\<lparr>chunks := [Some RESP_OK]\<rparr>) = Next (a\<lparr>stdin := [], chunks := [], sent := sent a @ [encode_command ?set], shown := shown a @ [RESP_OK]\<rparr>)"
    "cli_round uni (b\<lparr>chunks := [Some (bulk v)]\<rparr>) = Next (b\<lparr>stdin := [], chunks := [], sent := sent b @ [encode_command ?get], shown := shown b @ [bulk v]\<rparr>)"
    using cli_types [of "a\<lparr>chunks := [Some RESP_OK]\<rparr>" ?set "[]" RESP_OK "[]" uni] cli_types [of "b\<lparr>chunks := [Some (bulk v)]\<rparr>" ?get "[]" "bulk v" "[]" uni]
      assms(8,9,11-17) words by (simp_all add: RESP_OK_def response_size_def CRLF_def)
  then show ?thesis using n'(1,2) n'' by (intro exI conjI) (assumption | simp)+
qed

text \<open>One connection, which two users share.\<close>

lemma typed_SET_is_seen_by_GET_witness:
  "\<exists>reply' b'. cli_round (\<lambda>x. x) \<lparr>stdin = ''GET k'' @ [newline], chunks = [Some reply'], sending = [], buffered = [], sent = [], shown = []\<rparr> = Next b' \<and>
     shown b' = [bulk ''v'']"
proof -
  let ?a = "\<lparr>stdin = ''SET k v'' @ [newline], chunks = [], sending = [], buffered = [], sent = [], shown = []\<rparr>"
  let ?b = "\<lparr>stdin = ''GET k'' @ [newline], chunks = [], sending = [], buffered = [], sent = [], shown = []\<rparr>"
  have t: "typed_word ''k''" "typed_word ''v''" by (simp_all add: typed_word_def is_ascii_def is_space_def)
  have l: "length (encode_command [''SET'', ''k'', ''v'']) \<le> ReadBufSize" "length (bulk ''v'') \<le> response_size"
    by (simp_all add: encode_command_def bulk_def FormatInt_small CRLF_def ReadBufSize_def response_size_def)
  from typed_SET_is_seen_by_GET [OF one_client_ok(1) _ _ one_client_ok(2,3,2,3) t l, of ?a ?b "\<lambda>x. x" zeros zeros]
  show ?thesis by fastforce
qed

end
